(* ===== verification/Tag_Prelude.thy ===== *)
theory Tag_Prelude
  imports Main "HOL-Library.Word" "HOL-Library.Multiset"
begin

text \<open>
  The prelude of the development: the C integer types the sources use, the error numbers the
  system calls return, the outcomes of kernel allocations, and the facts on words, lists and
  modular indices that the component theories share.
\<close>

unbundle bit_operations_syntax

section \<open>Integer types\<close>

type_synonym u8 = "8 word"
type_synonym u16 = "16 word"
type_synonym u32 = "32 word"
type_synonym u48 = "48 word"
type_synonym u64 = "64 word"

text \<open>
  A C \<open>int\<close> is modelled by \<open>int\<close>. Where the code converts a wider value to \<open>int\<close> the
  conversion is \<open>to_c_int\<close> (32 bits, two's complement), where it converts an \<open>int\<close> to an
  unsigned 64-bit type it is \<open>int_to_u64\<close>.
\<close>

definition INT_MAX :: int where
  "INT_MAX = 2147483647"

definition to_c_int :: "int \<Rightarrow> int" where
  "to_c_int x = signed_take_bit 31 x"

definition int_to_u64 :: "int \<Rightarrow> int" where
  "int_to_u64 x = x mod 2 ^ 64"

lemma to_c_int_small: "- 2147483648 \<le> x \<Longrightarrow> x \<le> INT_MAX \<Longrightarrow> to_c_int x = x"
  unfolding to_c_int_def INT_MAX_def
  by (rule signed_take_bit_int_eq_self) auto

lemma int_to_u64_small: "0 \<le> x \<Longrightarrow> x \<le> INT_MAX \<Longrightarrow> int_to_u64 x = x"
  by (simp add: int_to_u64_def INT_MAX_def)

section \<open>Error numbers\<close>

text \<open>The values of \<open>errno\<close> the handlers return negated; \<open>EMAXTAG\<close> is the module's own.\<close>

definition EPERM :: int where "EPERM = 1"
definition EINTR :: int where "EINTR = 4"
definition ENOMEM :: int where "ENOMEM = 12"
definition EFAULT :: int where "EFAULT = 14"
definition EBUSY :: int where "EBUSY = 16"
definition EINVAL :: int where "EINVAL = 22"
definition ENODATA :: int where "ENODATA = 61"
definition EPROTO :: int where "EPROTO = 71"
definition EMAXTAG :: int where "EMAXTAG = 132"

named_theorems errno_defs \<open>the numeric values of the error codes\<close>

lemmas [errno_defs] =
  EPERM_def EINTR_def ENOMEM_def EFAULT_def EBUSY_def EINVAL_def ENODATA_def EPROTO_def
  EMAXTAG_def

section \<open>Outcomes of the environment\<close>

text \<open>
  Whether an allocation succeeds is decided by the kernel. A run of an operation is given the
  outcomes of its calls to the allocator in the order it makes them; when the list is used up
  every further allocation succeeds. The same type gives the outcomes of interruptible lock
  acquisitions (\<open>True\<close>: acquired, \<open>False\<close>: interrupted by a signal).
\<close>

type_synonym outcomes = "bool list"

fun next_outcome :: "outcomes \<Rightarrow> bool \<times> outcomes" where
  "next_outcome [] = (True, [])"
| "next_outcome (b # bs) = (b, bs)"

text \<open>All of the next \<open>n\<close> requests for memory are granted.\<close>

definition granted :: "nat \<Rightarrow> outcomes \<Rightarrow> bool" where
  "granted n al = list_all id (take n al)"

lemma granted_0 [simp]: "granted 0 al"
  by (simp add: granted_def)

lemma granted_Nil [simp]: "granted n []"
  by (simp add: granted_def)

lemma granted_Suc: "granted (Suc n) al \<longleftrightarrow> fst (next_outcome al) \<and> granted n (drop 1 al)"
  by (cases al) (simp_all add: granted_def)

lemma granted_add: "granted (m + n) al \<longleftrightarrow> granted m al \<and> granted n (drop m al)"
  by (induction m arbitrary: al) (simp_all add: granted_Suc)

text \<open>How many of the next \<open>n\<close> requests are refused.\<close>

definition refusals :: "nat \<Rightarrow> outcomes \<Rightarrow> nat" where
  "refusals n al = length (filter Not (take n al))"

lemma refusals_0 [simp]: "refusals 0 al = 0"
  by (simp add: refusals_def)

lemma refusals_Nil [simp]: "refusals n [] = 0"
  by (simp add: refusals_def)

lemma refusals_Suc:
  "refusals (Suc n) al = (if fst (next_outcome al) then 0 else 1) + refusals n (drop 1 al)"
  by (cases al) (simp_all add: refusals_def)

lemma refusals_granted: "refusals n al = 0 \<longleftrightarrow> granted n al"
  by (induction n arbitrary: al) (simp_all add: refusals_Suc granted_Suc)

lemma next_outcome_drop: "next_outcome al = (fst (next_outcome al), drop 1 al)"
  by (cases al) simp_all

section \<open>Modular indices\<close>

named_theorems mod_index \<open>arithmetic of positions on a circular array\<close>

lemma mod_add_right_assoc [mod_index]: "((i + j) mod n + k) mod n = (i + j + k) mod (n::nat)"
  by (simp add: mod_add_left_eq)

lemma mod_Suc_step [mod_index]: "Suc (i mod n) mod n = Suc i mod (n::nat)"
  by (simp add: mod_Suc_eq)

lemma mod_reach:
  assumes "i < n" and "q < (n::nat)"
  shows "\<exists>k<n. (i + k) mod n = q"
proof (cases "i \<le> q")
  case True
  with assms show ?thesis by (intro exI [of _ "q - i"]) auto
next
  case False
  with assms have "(i + (n + q - i)) mod n = q" by simp
  with False assms show ?thesis by (intro exI [of _ "n + q - i"]) auto
qed

section \<open>Lists\<close>

lemma mset_update_swap:
  "i < length xs \<Longrightarrow> mset (xs[i := x]) + {#xs ! i#} = mset xs + {#x#}"
  by (simp add: mset_update)

lemma filter_update_mset:
  assumes "i < length xs"
  shows "mset (filter P (xs[i := x])) + (if P (xs ! i) then {#xs ! i#} else {#}) =
         mset (filter P xs) + (if P x then {#x#} else {#})"
proof -
  have "filter_mset P (mset (xs[i := x]) + {#xs ! i#}) = filter_mset P (mset xs + {#x#})"
    using mset_update_swap [OF assms, of x] by simp
  then show ?thesis by (simp split: if_splits)
qed

lemma distinct_map_submset:
  assumes "mset xs \<subseteq># mset ys" and "distinct (map f ys)"
  shows "distinct (map f xs)"
proof -
  obtain zs where "mset ys = mset (xs @ zs)"
    using assms(1) by (metis ex_mset mset_append subset_mset.le_iff_add)
  then have "mset (map f ys) = mset (map f (xs @ zs))" by simp
  then have "distinct (map f (xs @ zs))" using assms(2) mset_eq_imp_distinct_iff by blast
  then show ?thesis by simp
qed

lemma mset_add_length:
  "mset xs = add_mset x (mset ys) \<Longrightarrow> length xs = Suc (length ys)"
  "add_mset y (mset xs) = add_mset x (mset ys) \<Longrightarrow> length xs = length ys"
  by (metis size_mset size_add_mset nat.inject)+

lemma ex_nth_conv: "x \<in> set xs \<longleftrightarrow> (\<exists>i<length xs. xs ! i = x)"
  by (simp add: in_set_conv_nth)

section \<open>Words\<close>

lemma word_and_bit_eq_0: "(w::'a::len word) AND 2 ^ n = 0 \<longleftrightarrow> \<not> bit w n"
proof
  assume h: "w AND 2 ^ n = 0"
  show "\<not> bit w n"
  proof
    assume b: "bit w n"
    then have "n < LENGTH('a)" by (rule bit_imp_le_length)
    with b have "bit (w AND 2 ^ n) n" by (simp add: bit_simps)
    with h show False by simp
  qed
next
  assume "\<not> bit w n"
  then show "w AND 2 ^ n = 0"
    by (intro bit_word_eqI) (auto simp: bit_simps)
qed

lemma bit_or_exp:
  "n < LENGTH('a) \<Longrightarrow> bit ((w::'a::len word) OR 2 ^ n) m \<longleftrightarrow> bit w m \<or> m = n"
  by (auto simp: bit_simps)

lemma bit_and_not_exp:
  "n < LENGTH('a) \<Longrightarrow> bit ((w::'a::len word) AND NOT (2 ^ n)) m \<longleftrightarrow> bit w m \<and> m \<noteq> n"
  by (auto simp: bit_simps dest: bit_imp_le_length)

lemma word_not_minus_one_ex: "(w::'a::len word) \<noteq> - 1 \<longleftrightarrow> (\<exists>n<LENGTH('a). \<not> bit w n)"
  by (metis bit_imp_le_length bit_minus_1_iff bit_word_eqI possible_bit_word)

lemma unat_and_mask:
  assumes "k < LENGTH('a)"
  shows "unat ((w::'a::len word) AND (2 ^ k - 1)) = unat w mod 2 ^ k"
  by (metis mask_eq_exp_minus_1 take_bit_eq_mask unsigned_take_bit_eq take_bit_nat_def)

end
