(* ===== verification/Tag_Interfaces.thy ===== *)
theory Tag_Interfaces
  imports Tag_Prelude
begin

text \<open>
  The interfaces between the components. \<open>id_pool\<close> is what \<open>tag_get\<close> and \<open>tag_ctl\<close> rely on of the
  bitmask, \<open>key_map\<close> what they rely on of the hash map; \<open>registry\<close> puts the two together: the
  common data structure that the write side of \<open>common_lock\<close> protects, with the updates the
  handlers make of it. The locales are interpreted on the operations of the code in
  \<open>Bitmask\<close>, \<open>Hashmap_Ops\<close> and \<open>Tag_Table\<close>.
\<close>

section \<open>Pools of numbers\<close>

locale id_pool =
  fixes take_id :: "'s \<Rightarrow> int \<times> 's"
    and give_id :: "'s \<Rightarrow> int \<Rightarrow> (int \<times> 's) option"
    and wf :: "'s \<Rightarrow> bool"
    and used :: "'s \<Rightarrow> nat set"
    and cap :: "'s \<Rightarrow> nat"
  assumes used_cap: "wf s \<Longrightarrow> used s \<subseteq> {..<cap s}"
    and take_full: "wf s \<Longrightarrow> used s = {..<cap s} \<Longrightarrow> take_id s = (- 1, s)"
    and take_free: "wf s \<Longrightarrow> used s \<noteq> {..<cap s} \<Longrightarrow>
      \<exists>n s'. take_id s = (int n, s') \<and> n < cap s \<and> n \<notin> used s \<and> {..<n} \<subseteq> used s \<and>
        wf s' \<and> used s' = insert n (used s) \<and> cap s' = cap s"
    and give_used: "wf s \<Longrightarrow> n \<in> used s \<Longrightarrow>
      \<exists>s'. give_id s (int n) = Some (1, s') \<and> wf s' \<and> used s' = used s - {n} \<and> cap s' = cap s"
    and give_free: "wf s \<Longrightarrow> n < cap s \<Longrightarrow> n \<notin> used s \<Longrightarrow> give_id s (int n) = Some (0, s)"
begin

lemma finite_used: "wf s \<Longrightarrow> finite (used s)"
  using used_cap finite_subset by blast

lemma take_cases:
  assumes "wf s"
  obtains (full) "take_id s = (- 1, s)" "used s = {..<cap s}"
  | (free) n s' where "take_id s = (int n, s')" "n < cap s" "n \<notin> used s" "{..<n} \<subseteq> used s"
      "wf s'" "used s' = insert n (used s)" "cap s' = cap s"
proof (cases "used s = {..<cap s}")
  case True
  show thesis by (rule full [OF take_full [OF assms True] True])
next
  case False
  then show thesis using take_free [OF assms False] by (elim exE conjE) (rule free)
qed

lemma take_wf:
  assumes "wf s" and "take_id s = (r, s')"
  shows "wf s'"
  using assms(1) by (cases rule: take_cases) (use assms in simp_all)

lemma take_fails_iff:
  assumes "wf s"
  shows "fst (take_id s) = - 1 \<longleftrightarrow> used s = {..<cap s}"
  using assms
proof (cases rule: take_cases)
  case (free n s')
  then have "used s \<noteq> {..<cap s}" by blast
  with free(1) show ?thesis by simp
qed simp

text \<open>The number taken is the least one not in use.\<close>

lemma take_least:
  assumes "wf s" and "used s \<noteq> {..<cap s}"
  shows "fst (take_id s) = int (LEAST n. n \<notin> used s)"
proof -
  obtain n where n: "fst (take_id s) = int n" "n \<notin> used s" "{..<n} \<subseteq> used s"
    using take_free [OF assms] by auto
  have "(LEAST n. n \<notin> used s) = n"
    using n(2,3) by (intro Least_equality) (auto simp: not_le [symmetric])
  with n(1) show ?thesis by simp
qed

text \<open>Giving back the number just taken restores the set.\<close>

lemma take_then_give:
  assumes "wf s" and "take_id s = (int n, s')"
  shows "\<exists>s''. give_id s' (int n) = Some (1, s'') \<and> wf s'' \<and> used s'' = used s \<and> cap s'' = cap s"
  using assms(1)
proof (cases rule: take_cases)
  case full
  with assms(2) show ?thesis by simp
next
  case (free k t)
  with assms(2) have "k = n" "t = s'" by simp_all
  with free give_used [of s' n] show ?thesis by auto
qed

text \<open>Repeated taking from an empty pool yields 0, 1, 2 and so on, up to the capacity.\<close>

primrec take_n :: "nat \<Rightarrow> 's \<Rightarrow> int list \<times> 's" where
  "take_n 0 s = ([], s)"
| "take_n (Suc k) s = (let (ns, s1) = take_n k s; (n, s2) = take_id s1 in (ns @ [n], s2))"

lemma take_n_empty:
  assumes "wf s" and "used s = {}"
  shows "k \<le> cap s \<Longrightarrow> \<exists>s'. take_n k s = (map int [0..<k], s') \<and> wf s' \<and> used s' = {..<k} \<and>
    cap s' = cap s"
proof (induction k)
  case 0
  with assms show ?case by auto
next
  case (Suc k)
  then obtain s1 where s1: "take_n k s = (map int [0..<k], s1)" "wf s1" "used s1 = {..<k}"
      "cap s1 = cap s" by auto
  from s1(2) show ?case
  proof (cases rule: take_cases)
    case full
    with s1 Suc.prems have "{..<k} = {..<cap s}" by simp
    with Suc.prems show ?thesis by (auto simp: set_eq_iff)
  next
    case (free n s2)
    then have "n = k" using s1(3) by (auto simp: not_less)
    with free s1 show ?thesis by (auto simp: lessThan_Suc)
  qed
qed

end

section \<open>Maps from keys to entries\<close>

text \<open>
  The laws hold of a map that does not resize: \<open>limit\<close> is the number of entries it takes without
  growing. An update below the limit consults no allocator (\<open>al\<close> is returned as it is).
\<close>

locale key_map =
  fixes get :: "'m \<Rightarrow> 'a \<Rightarrow> 'a option option"
    and put :: "'m \<Rightarrow> 'a \<Rightarrow> outcomes \<Rightarrow> ('a option \<times> 'm \<times> outcomes) option"
    and del :: "'m \<Rightarrow> 'a \<Rightarrow> outcomes \<Rightarrow> ('a option \<times> 'm \<times> outcomes) option"
    and oom :: "'m \<Rightarrow> bool"
    and count :: "'m \<Rightarrow> nat"
    and inv :: "'m \<Rightarrow> bool"
    and abs :: "'m \<Rightarrow> 'k \<Rightarrow> 'a option"
    and key :: "'a \<Rightarrow> 'k"
    and limit :: "'m \<Rightarrow> nat"
  assumes get_abs: "inv m \<Longrightarrow> get m x = Some (abs m (key x))"
    and put_abs: "inv m \<Longrightarrow> count m < limit m \<Longrightarrow>
      \<exists>m'. put m x al = Some (abs m (key x), m', al) \<and> inv m' \<and> \<not> oom m' \<and>
        abs m' = (abs m)(key x \<mapsto> x) \<and> limit m' = limit m"
    and del_abs: "inv m \<Longrightarrow>
      \<exists>m'. del m x al = Some (abs m (key x), m', al) \<and> inv m' \<and>
        abs m' = (abs m)(key x := None) \<and> limit m' = limit m"
    and count_abs: "inv m \<Longrightarrow> finite (dom (abs m)) \<and> count m = card (dom (abs m))"
    and abs_key: "inv m \<Longrightarrow> abs m k = Some x \<Longrightarrow> key x = k"
begin

text \<open>The entry of a key is the last one put for it; the others are not touched.\<close>

lemma get_put:
  assumes "inv m" and "count m < limit m" and "put m x al = Some (old, m', al')"
  shows "get m' y = Some (if key y = key x then Some x else abs m (key y))" "al' = al"
    "old = abs m (key x)"
  using put_abs [OF assms(1,2), of x al] assms(3) get_abs [of m'] by auto

lemma get_del:
  assumes "inv m" and "del m x al = Some (old, m', al')"
  shows "get m' y = Some (if key y = key x then None else abs m (key y))" "al' = al"
    "old = abs m (key x)"
  using del_abs [OF assms(1), of x al] assms(2) get_abs [of m'] by auto

lemma count_put:
  assumes "inv m" and "count m < limit m" and "put m x al = Some (old, m', al')"
  shows "count m' = (if abs m (key x) = None then Suc (count m) else count m)"
proof -
  have m': "inv m'" "abs m' = (abs m)(key x \<mapsto> x)"
    using put_abs [OF assms(1,2), of x al] assms(3) by auto
  have "finite (dom (abs m))" using count_abs [OF assms(1)] by simp
  then show ?thesis
    using count_abs [OF assms(1)] count_abs [OF m'(1)] m'(2)
    by (auto simp: insert_absorb domIff card_insert_if)
qed

text \<open>Deleting an entry just put for a new key gives the same map back.\<close>

lemma put_then_del:
  assumes "inv m" and "count m < limit m" and "abs m (key x) = None"
  obtains m' m'' where "put m x al = Some (None, m', al)" "del m' x al = Some (Some x, m'', al)"
    "inv m''" "abs m'' = abs m" "limit m'' = limit m"
proof -
  obtain m' where m': "put m x al = Some (abs m (key x), m', al)" "inv m'"
      "abs m' = (abs m)(key x \<mapsto> x)" "limit m' = limit m"
    using put_abs [OF assms(1,2)] by blast
  obtain m'' where m'': "del m' x al = Some (abs m' (key x), m'', al)" "inv m''"
      "abs m'' = (abs m')(key x := None)" "limit m'' = limit m'"
    using del_abs [OF m'(2)] by blast
  from m'(3) m''(3) assms(3) have "abs m'' = abs m" by auto
  with m' m'' assms(3) show thesis by (intro that [of m' m'']) simp_all
qed

end

section \<open>The registry\<close>

text \<open>
  The entries of the map name numbers in use, no number twice. \<open>desc\<close> projects an entry to the
  number it carries.
\<close>

definition registry_ok :: "('a \<Rightarrow> int) \<Rightarrow> nat set \<Rightarrow> ('k \<Rightarrow> 'a option) \<Rightarrow> bool" where
  "registry_ok desc U M \<longleftrightarrow>
     (\<forall>k x. M k = Some x \<longrightarrow> 0 \<le> desc x \<and> nat (desc x) \<in> U) \<and>
     (\<forall>k l x y. M k = Some x \<longrightarrow> M l = Some y \<longrightarrow> desc x = desc y \<longrightarrow> k = l)"

lemma registry_okD:
  assumes "registry_ok desc U M"
  shows "M k = Some x \<Longrightarrow> 0 \<le> desc x" "M k = Some x \<Longrightarrow> nat (desc x) \<in> U"
    "M k = Some x \<Longrightarrow> M l = Some y \<Longrightarrow> desc x = desc y \<Longrightarrow> k = l"
  using assms unfolding registry_ok_def by blast+

lemma registry_ok_empty [simp]: "registry_ok desc U Map.empty"
  by (simp add: registry_ok_def)

lemma registry_ok_put:
  assumes "registry_ok desc U M" and "M k = None" and "desc x = int n" and "n \<notin> U"
  shows "registry_ok desc (insert n U) (M(k \<mapsto> x))"
proof -
  have "desc y \<noteq> int n" if "M l = Some y" for l y
    using registry_okD(1,2) [OF assms(1) that] assms(4) by auto
  with assms show ?thesis unfolding registry_ok_def by (auto split: if_splits) metis
qed

lemma registry_ok_del:
  assumes "registry_ok desc U M" and "M k = Some x" and "desc x = int n"
  shows "registry_ok desc (U - {n}) (M(k := None))"
proof -
  have "nat (desc y) \<noteq> n" if "M l = Some y" "l \<noteq> k" for l y
    using registry_okD(1) [OF assms(1) that(1)] registry_okD(3) [OF assms(1) that(1) assms(2)]
      assms(3) that(2) by auto
  with registry_okD [OF assms(1)] show ?thesis unfolding registry_ok_def by (auto split: if_splits)
qed

lemma registry_ok_drop:
  assumes "registry_ok desc U M" and "\<And>k x. M k = Some x \<Longrightarrow> desc x \<noteq> int n"
  shows "registry_ok desc (U - {n}) M"
proof -
  have "nat (desc x) \<noteq> n" if "M k = Some x" for k x
    using registry_okD(1) [OF assms(1) that] assms(2) [OF that] by auto
  with assms(1) show ?thesis unfolding registry_ok_def by blast
qed

lemma registry_ok_mono: "registry_ok desc U M \<Longrightarrow> U \<subseteq> V \<Longrightarrow> registry_ok desc V M"
  unfolding registry_ok_def by blast

text \<open>Since no number occurs twice, there are at most as many entries as numbers in use.\<close>

lemma registry_card:
  assumes "registry_ok desc U M" and "finite U"
  shows "card (dom M) \<le> card U"
proof (rule card_inj_on_le [of "\<lambda>k. nat (desc (the (M k)))"])
  show "inj_on (\<lambda>k. nat (desc (the (M k)))) (dom M)"
  proof (rule inj_onI)
    fix k l
    assume "k \<in> dom M" "l \<in> dom M" "nat (desc (the (M k))) = nat (desc (the (M l)))"
    then obtain x y where "M k = Some x" "M l = Some y" "nat (desc x) = nat (desc y)" by auto
    with registry_okD(1,3) [OF assms(1)] show "k = l" by (metis eq_nat_nat_iff)
  qed
  show "(\<lambda>k. nat (desc (the (M k)))) ` dom M \<subseteq> U"
    using registry_okD(2) [OF assms(1)] by auto
qed (rule assms(2))

locale registry =
  ids: id_pool take_id give_id wf used cap +
  keys: key_map get put del oom count inv abs key limit
  for take_id :: "'s \<Rightarrow> int \<times> 's"
    and give_id :: "'s \<Rightarrow> int \<Rightarrow> (int \<times> 's) option"
    and wf :: "'s \<Rightarrow> bool"
    and used :: "'s \<Rightarrow> nat set"
    and cap :: "'s \<Rightarrow> nat"
    and get :: "'m \<Rightarrow> 'a \<Rightarrow> 'a option option"
    and put :: "'m \<Rightarrow> 'a \<Rightarrow> outcomes \<Rightarrow> ('a option \<times> 'm \<times> outcomes) option"
    and del :: "'m \<Rightarrow> 'a \<Rightarrow> outcomes \<Rightarrow> ('a option \<times> 'm \<times> outcomes) option"
    and oom :: "'m \<Rightarrow> bool"
    and count :: "'m \<Rightarrow> nat"
    and inv :: "'m \<Rightarrow> bool"
    and abs :: "'m \<Rightarrow> 'k \<Rightarrow> 'a option"
    and key :: "'a \<Rightarrow> 'k"
    and limit :: "'m \<Rightarrow> nat" +
  fixes desc :: "'a \<Rightarrow> int"
begin

text \<open>
  As long as a number is free there is room in a map whose limit is at least the capacity of
  the pool, so registering needs no memory and cannot fail.
\<close>

lemma room:
  assumes "wf s" "inv m" "registry_ok desc (used s) (abs m)" "cap s \<le> limit m"
    and "take_id s = (int n, s')"
  shows "count m < limit m"
  using assms(1)
proof (cases rule: ids.take_cases)
  case full
  with assms(5) show ?thesis by simp
next
  case (free k t)
  have "used s \<subset> {..<cap s}" using ids.used_cap [OF assms(1)] free(2,3) by blast
  then have "card (used s) < cap s" using psubset_card_mono [of "{..<cap s}" "used s"] by simp
  then show ?thesis
    using registry_card [OF assms(3) ids.finite_used [OF assms(1)]] assms(4)
      keys.count_abs [OF assms(2)] by linarith
qed

lemma register:
  assumes "wf s" "inv m" "registry_ok desc (used s) (abs m)" "cap s \<le> limit m"
    and "take_id s = (int n, s')" and "abs m (key x) = None" and "desc x = int n"
  obtains m' where "put m x al = Some (None, m', al)" "inv m'" "\<not> oom m'"
    "abs m' = (abs m)(key x \<mapsto> x)" "limit m' = limit m"
    "registry_ok desc (used s') (abs m')"
proof -
  obtain m' where m': "put m x al = Some (abs m (key x), m', al)" "inv m'" "\<not> oom m'"
      "abs m' = (abs m)(key x \<mapsto> x)" "limit m' = limit m"
    using keys.put_abs [OF assms(2) room [OF assms(1-5)]] by blast
  from assms(1) have "n \<notin> used s" "used s' = insert n (used s)"
    by (cases rule: ids.take_cases; use assms(5) in auto)+
  with registry_ok_put [OF assms(3,6,7)] m'(4) have "registry_ok desc (used s') (abs m')" by simp
  with m' assms(6) that show thesis by simp
qed

lemma unregister:
  assumes "wf s" "inv m" "registry_ok desc (used s) (abs m)"
    and "abs m (key e) = Some x" and "desc x = int n"
  obtains m' s' where "del m e al = Some (Some x, m', al)" "inv m'" "abs m' = (abs m)(key e := None)"
    "limit m' = limit m" "give_id s (int n) = Some (1, s')" "wf s'" "used s' = used s - {n}"
    "cap s' = cap s" "registry_ok desc (used s') (abs m')"
proof -
  have n: "n \<in> used s" using registry_okD(2) [OF assms(3,4)] assms(5) by simp
  obtain m' where m': "del m e al = Some (abs m (key e), m', al)" "inv m'"
      "abs m' = (abs m)(key e := None)" "limit m' = limit m"
    using keys.del_abs [OF assms(2)] by blast
  obtain s' where s': "give_id s (int n) = Some (1, s')" "wf s'" "used s' = used s - {n}"
      "cap s' = cap s"
    using ids.give_used [OF assms(1) n] by blast
  have "registry_ok desc (used s') (abs m')"
    unfolding s'(3) m'(3) by (rule registry_ok_del [OF assms(3-5)])
  moreover have "del m e al = Some (Some x, m', al)" using m'(1) assms(4) by simp
  ultimately show thesis using that m' s' by blast
qed

text \<open>Registering a new key and unregistering it again restores numbers and entries.\<close>

lemma register_unregister:
  assumes "wf s" "inv m" "registry_ok desc (used s) (abs m)" "cap s \<le> limit m"
    and "take_id s = (int n, s1)" and "abs m (key x) = None" and "desc x = int n"
  obtains m1 m2 s2 where "put m x al = Some (None, m1, al)" "del m1 x al = Some (Some x, m2, al)"
    "give_id s1 (int n) = Some (1, s2)" "used s2 = used s" "abs m2 = abs m"
proof -
  obtain m1 where m1: "put m x al = Some (None, m1, al)" "inv m1" "abs m1 = (abs m)(key x \<mapsto> x)"
      "registry_ok desc (used s1) (abs m1)"
    using register [OF assms, of al] by blast
  have s1: "wf s1" using ids.take_wf [OF assms(1,5)] .
  obtain s2 where s2: "give_id s1 (int n) = Some (1, s2)" "used s2 = used s"
    using ids.take_then_give [OF assms(1,5)] by blast
  obtain m2 s2' where m2: "del m1 x al = Some (Some x, m2, al)" "abs m2 = (abs m1)(key x := None)"
    using unregister [OF s1 m1(2,4), of x x n al] m1(3) assms(7) by auto
  from m1(3) m2(2) assms(6) have "abs m2 = abs m" by auto
  with m1(1) m2(1) s2 that show thesis by blast
qed

end

end
