(* ===== verification/Bitmask.thy ===== *)
theory Bitmask
  imports Tag_Interfaces
begin

text \<open>
  The allocator of tag descriptors, \<open>utils/bitmask/bitmask.c\<close>: an array of 64-bit slots, one
  bit per descriptor. \<open>get_avail_number\<close> returns the least free number and marks it,
  \<open>clear_number\<close> releases one. The abstraction \<open>bm_used\<close> is the set of numbers taken; the
  interface \<open>id_pool\<close> states what a client relies on and is interpreted on the operations at
  the end of the theory.
\<close>

section \<open>The data structure\<close>

record bitmask =
  bm_mask :: "u64 list"
  bm_n_bits :: int
  bm_slots :: int
  bm_slot_size :: int
  bm_bits_per_slot :: int

text \<open>The macros \<open>CHECK_BIT\<close>, \<open>SET_BIT\<close> and \<open>CLEAR_BIT\<close> on one slot.\<close>

definition CHECK_BIT :: "u64 \<Rightarrow> int \<Rightarrow> u64" where
  "CHECK_BIT msk pos = msk AND push_bit (nat pos) 1"

definition SET_BIT :: "u64 \<Rightarrow> int \<Rightarrow> u64" where
  "SET_BIT msk pos = msk OR push_bit (nat pos) 1"

definition CLEAR_BIT :: "u64 \<Rightarrow> int \<Rightarrow> u64" where
  "CLEAR_BIT msk pos = msk AND NOT (push_bit (nat pos) 1)"

text \<open>
  \<open>sizeof(unsigned long long)\<close> is 8. The two calls of the allocator are decided by the
  outcomes; a failed allocation returns a null pointer, here \<open>None\<close>.
\<close>

definition bm_number_slot :: "int \<Rightarrow> int" where
  "bm_number_slot number_bits = number_bits div (8 * 8) + (if number_bits mod (8 * 8) \<noteq> 0 then 1 else 0)"

definition initialize_bitmask :: "int \<Rightarrow> outcomes \<Rightarrow> bitmask option \<times> outcomes" where
  "initialize_bitmask number_bits al =
     (if number_bits < 1 then (None, al)
      else
        let slot_size = 8;
            number_slot = bm_number_slot number_bits;
            (ok1, al1) = next_outcome al
        in if \<not> ok1 then (None, al1)
           else
             let (ok2, al2) = next_outcome al1
             in if \<not> ok2 then (None, al2)
                else (Some \<lparr>bm_mask = replicate (nat number_slot) 0, bm_n_bits = number_bits,
                            bm_slots = number_slot, bm_slot_size = slot_size,
                            bm_bits_per_slot = slot_size * 8\<rparr>, al2))"

function get_free_bit_loop :: "u64 \<Rightarrow> int \<Rightarrow> int \<Rightarrow> int" where
  "get_free_bit_loop msk bits_per_slot pos =
     (if pos < bits_per_slot then
        (if CHECK_BIT msk pos = 0 then pos
         else get_free_bit_loop msk bits_per_slot (pos + 1))
      else - 1)"
  by pat_completeness auto
termination
  by (relation "measure (\<lambda>(msk, bits_per_slot, pos). nat (bits_per_slot - pos))") auto

declare get_free_bit_loop.simps [simp del]

definition get_free_bit :: "u64 \<Rightarrow> int \<Rightarrow> int" where
  "get_free_bit msk bits_per_slot = get_free_bit_loop msk bits_per_slot 0"

text \<open>The loop over the slots, from slot \<open>i\<close>; the last component is the updated structure.\<close>

function get_avail_loop :: "bitmask \<Rightarrow> int \<Rightarrow> int \<times> bitmask" where
  "get_avail_loop bm i =
     (if i < bm_slots bm then
        let slot_mask = bm_mask bm ! nat i
        in if slot_mask = 0xFFFFFFFFFFFFFFFF then get_avail_loop bm (i + 1)
           else
             let free_bit = get_free_bit slot_mask (bm_bits_per_slot bm)
             in if free_bit \<noteq> - 1 then
                  let number = free_bit + i * bm_bits_per_slot bm
                  in if number \<ge> bm_n_bits bm then (- 1, bm)
                     else (number,
                           bm\<lparr>bm_mask := (bm_mask bm)[nat i := SET_BIT slot_mask free_bit]\<rparr>)
                else get_avail_loop bm (i + 1)
      else (- 1, bm))"
  by pat_completeness auto
termination
  by (relation "measure (\<lambda>(bm, i). nat (bm_slots bm - i))") auto

declare get_avail_loop.simps [simp del]

definition get_avail_number :: "bitmask \<Rightarrow> int \<times> bitmask" where
  "get_avail_number bm = get_avail_loop bm 0"

text \<open>
  \<open>number / (sizeof(unsigned long long) * 8)\<close> divides an unsigned 64-bit value, so a negative
  number is converted first and the quotient is cut to an \<open>int\<close>. An access outside the array
  (which only a negative number can cause) is \<open>None\<close>: the code has no defined result there.
\<close>

definition clear_number :: "bitmask \<Rightarrow> int \<Rightarrow> (int \<times> bitmask) option" where
  "clear_number bm number =
     (let slot = to_c_int (int_to_u64 number div 64)
      in if number \<ge> bm_n_bits bm then Some (- 1, bm)
         else if slot < 0 \<or> slot \<ge> int (length (bm_mask bm)) then None
         else
           let pos = number mod bm_bits_per_slot bm;
               slot_mask = bm_mask bm ! nat slot
           in if CHECK_BIT slot_mask pos = 0 then Some (0, bm)
              else Some (1, bm\<lparr>bm_mask := (bm_mask bm)[nat slot := CLEAR_BIT slot_mask pos]\<rparr>))"

section \<open>Well-formedness and abstraction\<close>

definition bm_used :: "bitmask \<Rightarrow> nat set" where
  "bm_used bm = {n. n < 64 * length (bm_mask bm) \<and> bit (bm_mask bm ! (n div 64)) (n mod 64)}"

definition bm_cap :: "bitmask \<Rightarrow> nat" where
  "bm_cap bm = nat (bm_n_bits bm)"

definition bm_wf :: "bitmask \<Rightarrow> bool" where
  "bm_wf bm \<longleftrightarrow> 1 \<le> bm_n_bits bm \<and> bm_n_bits bm \<le> INT_MAX \<and>
     bm_slot_size bm = 8 \<and> bm_bits_per_slot bm = 64 \<and>
     bm_slots bm = (bm_n_bits bm + 63) div 64 \<and>
     int (length (bm_mask bm)) = bm_slots bm \<and> bm_used bm \<subseteq> {..<bm_cap bm}"

lemma round_up_div_64:
  assumes "n = 64 * q + r" "0 \<le> r" "r < (64::int)"
  shows "(n + 63) div 64 = q + (if r \<noteq> 0 then 1 else 0)"
proof (rule int_div_pos_eq [where r = "if r \<noteq> 0 then r - 1 else 63"])
  show "0 \<le> (if r \<noteq> 0 then r - 1 else 63)" using assms(2) by auto
qed (use assms in auto)

lemma bm_number_slot_round_up: "bm_number_slot n = (n + 63) div 64"
  using round_up_div_64 [of n "n div 64" "n mod 64"] by (simp add: bm_number_slot_def)

lemma bm_used_zero: "bm_used \<lparr>bm_mask = replicate k 0, bm_n_bits = a, bm_slots = b,
    bm_slot_size = c, bm_bits_per_slot = d\<rparr> = {}"
  by (auto simp: bm_used_def less_mult_imp_div_less)

lemma initialize_bitmask_fields:
  assumes "initialize_bitmask n al = (Some bm, al')"
  shows "1 \<le> n" "bm = \<lparr>bm_mask = replicate (nat ((n + 63) div 64)) 0, bm_n_bits = n,
    bm_slots = (n + 63) div 64, bm_slot_size = 8, bm_bits_per_slot = 64\<rparr>"
  using assms
  by (auto simp: initialize_bitmask_def bm_number_slot_round_up Let_def
      split: if_splits prod.splits)

lemma initialize_bitmask_wf:
  assumes "initialize_bitmask n al = (Some bm, al')" and "n \<le> INT_MAX"
  shows "bm_wf bm \<and> bm_used bm = {} \<and> bm_n_bits bm = n"
  using initialize_bitmask_fields [OF assms(1)] assms(2)
  by (simp add: bm_wf_def bm_used_zero)

lemma bm_used_memI:
  "n < 64 * length (bm_mask bm) \<Longrightarrow>
     n \<in> bm_used bm \<longleftrightarrow> bit (bm_mask bm ! (n div 64)) (n mod 64)"
  by (simp add: bm_used_def)

lemma bm_wf_cap_le: "bm_wf bm \<Longrightarrow> bm_cap bm \<le> 64 * length (bm_mask bm)"
  by (auto simp: bm_wf_def bm_cap_def)

lemma bm_used_update_iff:
  assumes "s < length (bm_mask bm)" and "n < 64 * length (bm_mask bm)"
  shows "n \<in> bm_used (bm\<lparr>bm_mask := (bm_mask bm)[s := w]\<rparr>) \<longleftrightarrow>
    (if n div 64 = s then bit w (n mod 64) else n \<in> bm_used bm)"
  using assms by (auto simp: bm_used_def)

lemma bm_used_slot_eqI:
  assumes "s < length (bm_mask bm)" and "b < 64"
    and "\<And>n. n < 64 \<Longrightarrow> bit w n \<longleftrightarrow> (if n = b then v else bit (bm_mask bm ! s) n)"
  shows "bm_used (bm\<lparr>bm_mask := (bm_mask bm)[s := w]\<rparr>) =
    (if v then insert (64 * s + b) (bm_used bm) else bm_used bm - {64 * s + b})"
proof (rule set_eqI)
  fix n
  let ?bm' = "bm\<lparr>bm_mask := (bm_mask bm)[s := w]\<rparr>"
  have split: "n = 64 * s + b \<longleftrightarrow> n div 64 = s \<and> n mod 64 = b"
    using assms(2) by auto
  show "n \<in> bm_used ?bm' \<longleftrightarrow>
      n \<in> (if v then insert (64 * s + b) (bm_used bm) else bm_used bm - {64 * s + b})"
  proof (cases "n < 64 * length (bm_mask bm)")
    case True
    show ?thesis
    proof (cases "n div 64 = s")
      case slot: True
      with True assms show ?thesis
        by (simp add: bm_used_update_iff split bm_used_memI)
    next
      case False
      with True assms(1) split show ?thesis by (simp add: bm_used_update_iff)
    qed
  next
    case False
    with assms(1,2) show ?thesis by (auto simp: bm_used_def)
  qed
qed

lemma bm_used_set_bit:
  assumes "s < length (bm_mask bm)" and "b < 64"
  shows "bm_used (bm\<lparr>bm_mask := (bm_mask bm)[s := SET_BIT (bm_mask bm ! s) (int b)]\<rparr>) =
    insert (64 * s + b) (bm_used bm)"
  using bm_used_slot_eqI [OF assms, of "SET_BIT (bm_mask bm ! s) (int b)" True] assms(2)
  by (auto simp: SET_BIT_def bit_or_exp)

lemma bm_used_clear_bit:
  assumes "s < length (bm_mask bm)" and "b < 64"
  shows "bm_used (bm\<lparr>bm_mask := (bm_mask bm)[s := CLEAR_BIT (bm_mask bm ! s) (int b)]\<rparr>) =
    bm_used bm - {64 * s + b}"
  using bm_used_slot_eqI [OF assms, of "CLEAR_BIT (bm_mask bm ! s) (int b)" False] assms(2)
  by (auto simp: CLEAR_BIT_def bit_and_not_exp)

section \<open>Finding a free bit\<close>

text \<open>The scan of a slot returns its least clear bit, or -1 when there is none.\<close>

definition least_clear_from :: "u64 \<Rightarrow> int \<Rightarrow> int \<Rightarrow> bool" where
  "least_clear_from w b r \<longleftrightarrow>
     (if r = - 1 then \<forall>k. b \<le> int k \<and> k < 64 \<longrightarrow> bit w k
      else b \<le> r \<and> r < 64 \<and> \<not> bit w (nat r) \<and> (\<forall>k. b \<le> int k \<and> int k < r \<longrightarrow> bit w k))"

lemma least_clear_from_step:
  assumes "0 \<le> b" and "bit w (nat b)" and "least_clear_from w (b + 1) r"
  shows "least_clear_from w b r"
proof -
  have "b \<le> int k \<Longrightarrow> bit w k \<or> b + 1 \<le> int k" for k
    using assms(1,2) by (cases "int k = b") auto
  with assms(3) show ?thesis
    unfolding least_clear_from_def by (smt (verit))
qed

lemma get_free_bit_loop_spec:
  "0 \<le> b \<Longrightarrow> b \<le> 64 \<Longrightarrow> least_clear_from w b (get_free_bit_loop w 64 b)"
proof (induction "nat (64 - b)" arbitrary: b)
  case 0
  then show ?case
    by (auto simp: get_free_bit_loop.simps [of w 64 64] least_clear_from_def)
next
  case (Suc m)
  then have b: "b < 64" by simp
  show ?case
  proof (cases "bit w (nat b)")
    case False
    with b Suc.prems show ?thesis
      by (auto simp: get_free_bit_loop.simps [of w 64 b] CHECK_BIT_def word_and_bit_eq_0
          least_clear_from_def)
  next
    case True
    have "least_clear_from w (b + 1) (get_free_bit_loop w 64 (b + 1))"
      using Suc.hyps(2) Suc.prems b by (intro Suc.hyps(1)) auto
    with b True Suc.prems(1) show ?thesis
      by (simp add: get_free_bit_loop.simps [of w 64 b] CHECK_BIT_def word_and_bit_eq_0
          least_clear_from_step)
  qed
qed

lemma get_free_bit_full: "get_free_bit w 64 = - 1 \<longleftrightarrow> w = - 1"
proof -
  have "get_free_bit w 64 = - 1 \<longleftrightarrow> (\<forall>k<64. bit w k)"
    using get_free_bit_loop_spec [of 0 w]
    by (auto simp: get_free_bit_def least_clear_from_def split: if_splits
        intro!: exI [of _ "nat (get_free_bit_loop w 64 0)"])
  also have "\<dots> \<longleftrightarrow> w = - 1"
    using word_not_minus_one_ex [of w] by auto
  finally show ?thesis .
qed

lemma get_free_bit_least:
  assumes "w \<noteq> - 1"
  obtains b where "get_free_bit w 64 = int b" "b < 64" "\<not> bit w b" "\<forall>k<b. bit w k"
proof -
  have "get_free_bit w 64 \<noteq> - 1" using assms by (simp add: get_free_bit_full)
  then have "0 \<le> get_free_bit w 64" "get_free_bit w 64 < 64"
      "\<not> bit w (nat (get_free_bit w 64))" "\<forall>k. int k < get_free_bit w 64 \<longrightarrow> bit w k"
    using get_free_bit_loop_spec [of 0 w] by (auto simp: get_free_bit_def least_clear_from_def)
  then show thesis by (intro that [of "nat (get_free_bit w 64)"]) auto
qed

lemma full_slot_literal: "(0xFFFFFFFFFFFFFFFF :: u64) = - 1"
  by simp

section \<open>The operations on the set of numbers taken\<close>

lemma bm_wf_slots:
  assumes "bm_wf bm"
  shows "bm_bits_per_slot bm = 64" "int (length (bm_mask bm)) = bm_slots bm" "1 \<le> bm_slots bm"
    "bm_n_bits bm \<le> 64 * bm_slots bm" "64 * (bm_slots bm - 1) < bm_n_bits bm"
    "int (bm_cap bm) = bm_n_bits bm"
  using assms by (auto simp: bm_wf_def bm_cap_def)

lemma bm_wf_update:
  assumes "bm_wf bm" and "bm_used (bm\<lparr>bm_mask := m\<rparr>) \<subseteq> {..<bm_cap bm}"
    and "length m = length (bm_mask bm)"
  shows "bm_wf (bm\<lparr>bm_mask := m\<rparr>)"
  using assms by (simp add: bm_wf_def bm_cap_def)

lemma full_slot_used:
  "s < length (bm_mask bm) \<Longrightarrow> bm_mask bm ! s = - 1 \<Longrightarrow> n div 64 = s \<Longrightarrow> n \<in> bm_used bm"
  by (auto simp: bm_used_def)

text \<open>
  The state of the loop at slot \<open>i\<close>: every number of the earlier slots is taken. Its result is
  either -1, when all numbers are taken, or the least free number, now marked.
\<close>

definition avail_result :: "bitmask \<Rightarrow> int \<times> bitmask \<Rightarrow> bool" where
  "avail_result bm r \<longleftrightarrow>
     (case r of (number, bm') \<Rightarrow>
        (number = - 1 \<and> bm' = bm \<and> bm_used bm = {..<bm_cap bm}) \<or>
        (\<exists>n<bm_cap bm. number = int n \<and> n \<notin> bm_used bm \<and> {..<n} \<subseteq> bm_used bm \<and>
           bm_wf bm' \<and> bm_used bm' = insert n (bm_used bm) \<and>
           bm' = bm\<lparr>bm_mask := bm_mask bm'\<rparr>))"

lemma avail_result_full:
  "bm_wf bm \<Longrightarrow> {..<bm_cap bm} \<subseteq> bm_used bm \<Longrightarrow> avail_result bm (- 1, bm)"
  by (simp add: avail_result_def bm_wf_def subset_antisym)

lemma avail_result_found:
  assumes "n < bm_cap bm" "n \<notin> bm_used bm" "{..<n} \<subseteq> bm_used bm" "bm_wf (bm\<lparr>bm_mask := m\<rparr>)"
    "bm_used (bm\<lparr>bm_mask := m\<rparr>) = insert n (bm_used bm)"
  shows "avail_result bm (int n, bm\<lparr>bm_mask := m\<rparr>)"
  unfolding avail_result_def prod.case using assms by (intro disjI2 exI [of _ n]) simp

lemma get_avail_loop_spec:
  assumes "bm_wf bm" and "0 \<le> i" and "i \<le> bm_slots bm"
    and "{n. n < 64 * nat i} \<subseteq> bm_used bm"
  shows "avail_result bm (get_avail_loop bm i)"
  using assms(2-)
proof (induction "nat (bm_slots bm - i)" arbitrary: i)
  case 0
  then have "bm_cap bm \<le> 64 * nat i" using bm_wf_slots [OF assms(1)] by auto
  with 0 have "{..<bm_cap bm} \<subseteq> bm_used bm" by auto
  with assms(1) 0 show ?case
    by (simp add: get_avail_loop.simps [of bm i] avail_result_full)
next
  case (Suc m)
  note wf = bm_wf_slots [OF assms(1)]
  define s where "s = nat i"
  have s: "i = int s" "s < length (bm_mask bm)" using Suc.prems Suc.hyps(2) wf by (auto simp: s_def)
  have before: "n \<in> bm_used bm" if "n div 64 < s" for n
  proof -
    from that have "n < 64 * nat i" by (simp add: s_def div_less_iff_less_mult)
    with Suc.prems(3) show ?thesis by blast
  qed
  show ?case
  proof (cases "bm_mask bm ! s = - 1")
    case True
    have "{n. n < 64 * nat (i + 1)} \<subseteq> bm_used bm"
    proof
      fix n
      assume "n \<in> {n. n < 64 * nat (i + 1)}"
      then have "n div 64 < s \<or> n div 64 = s" using s by auto
      then show "n \<in> bm_used bm"
        using before full_slot_used [OF s(2) True] by blast
    qed
    then have "avail_result bm (get_avail_loop bm (i + 1))"
      using Suc.hyps(2) Suc.prems by (intro Suc.hyps(1)) auto
    with True s wf(2) show ?thesis
      by (simp add: get_avail_loop.simps [of bm "int s"] Let_def)
  next
    case False
    then obtain b where b: "get_free_bit (bm_mask bm ! s) 64 = int b" "b < 64"
        "\<not> bit (bm_mask bm ! s) b" "\<forall>k<b. bit (bm_mask bm ! s) k"
      by (rule get_free_bit_least)
    define n where "n = 64 * s + b"
    have n_div: "n div 64 = s" "n mod 64 = b" "n < 64 * length (bm_mask bm)"
      using b(2) s(2) by (auto simp: n_def)
    have free: "n \<notin> bm_used bm" using b(3) n_div by (simp add: bm_used_def)
    have below: "{..<n} \<subseteq> bm_used bm"
    proof
      fix k
      assume k: "k \<in> {..<n}"
      show "k \<in> bm_used bm"
      proof (cases "k < 64 * s")
        case True
        then show ?thesis by (intro before) (simp add: div_less_iff_less_mult mult.commute)
      next
        case False
        with k obtain c where c: "k = 64 * s + c" "c < b"
          by (auto simp: n_def not_less dest: le_Suc_ex)
        with b(2,4) s(2) show ?thesis by (simp add: bm_used_def)
      qed
    qed
    let ?bm' = "bm\<lparr>bm_mask := (bm_mask bm)[s := SET_BIT (bm_mask bm ! s) (int b)]\<rparr>"
    have notfull: "bm_mask bm ! s \<noteq> 0xFFFFFFFFFFFFFFFF"
      unfolding full_slot_literal by (rule False)
    have step: "get_avail_loop bm i = (if int n \<ge> bm_n_bits bm then (- 1, bm) else (int n, ?bm'))"
      using notfull s b(1) wf(1,2)
      by (simp add: get_avail_loop.simps [of bm "int s"] Let_def n_def algebra_simps)
    have used': "bm_used ?bm' = insert n (bm_used bm)"
      using bm_used_set_bit [OF s(2) b(2)] by (simp add: n_def)
    show ?thesis
    proof (cases "int n \<ge> bm_n_bits bm")
      case True
      then have "{..<bm_cap bm} \<subseteq> bm_used bm" using below wf(6) by auto
      with True assms(1) show ?thesis by (simp add: step avail_result_full)
    next
      case False
      then have "n < bm_cap bm" using wf(6) by linarith
      moreover from this have "bm_wf ?bm'"
        using assms(1) used' by (intro bm_wf_update) (auto simp: bm_wf_def)
      ultimately have "avail_result bm (int n, ?bm')"
        using free below used' by (intro avail_result_found)
      with False show ?thesis by (simp add: step)
    qed
  qed
qed

lemma get_avail_number_result: "bm_wf bm \<Longrightarrow> avail_result bm (get_avail_number bm)"
  unfolding get_avail_number_def
  using bm_wf_slots(3) [of bm] by (intro get_avail_loop_spec) auto

lemma clear_slot_in_range:
  assumes "bm_wf bm" and "n < bm_cap bm"
  shows "to_c_int (int_to_u64 (int n) div 64) = int (n div 64)" "n div 64 < length (bm_mask bm)"
proof -
  have "int n \<le> INT_MAX" using assms by (auto simp: bm_wf_def bm_cap_def)
  moreover from this have "int (n div 64) \<le> INT_MAX" by (auto simp: zdiv_int)
  ultimately show "to_c_int (int_to_u64 (int n) div 64) = int (n div 64)"
    by (simp add: int_to_u64_small to_c_int_small zdiv_int)
  show "n div 64 < length (bm_mask bm)"
    using bm_wf_cap_le [OF assms(1)] assms(2) by (simp add: less_mult_imp_div_less mult.commute)
qed

lemma clear_number_in_range:
  assumes "bm_wf bm" and "n < bm_cap bm"
  shows "clear_number bm (int n) =
    Some (if n \<in> bm_used bm
          then (1, bm\<lparr>bm_mask := (bm_mask bm)[n div 64 :=
                       CLEAR_BIT (bm_mask bm ! (n div 64)) (int (n mod 64))]\<rparr>)
          else (0, bm))"
proof -
  note r = clear_slot_in_range [OF assms]
  have "n \<in> bm_used bm \<longleftrightarrow> bit (bm_mask bm ! (n div 64)) (n mod 64)"
    using bm_wf_cap_le [OF assms(1)] assms(2) by (simp add: bm_used_def)
  moreover have "nat (int n mod 64) = n mod 64" by (simp add: nat_mod_distrib)
  ultimately show ?thesis
    using r assms(2) bm_wf_slots(1,6) [OF assms(1)]
    by (simp add: clear_number_def Let_def CHECK_BIT_def CLEAR_BIT_def word_and_bit_eq_0)
qed

lemma clear_number_used:
  assumes "bm_wf bm" and "n \<in> bm_used bm"
  shows "\<exists>bm'. clear_number bm (int n) = Some (1, bm') \<and> bm_wf bm' \<and>
    bm_used bm' = bm_used bm - {n} \<and> bm' = bm\<lparr>bm_mask := bm_mask bm'\<rparr>"
proof -
  have n: "n < bm_cap bm" using assms by (auto simp: bm_wf_def)
  let ?bm' = "bm\<lparr>bm_mask := (bm_mask bm)[n div 64 :=
    CLEAR_BIT (bm_mask bm ! (n div 64)) (int (n mod 64))]\<rparr>"
  have used': "bm_used ?bm' = bm_used bm - {n}"
    using bm_used_clear_bit [OF clear_slot_in_range(2) [OF assms(1) n], of "n mod 64"] by simp
  moreover have "bm_wf ?bm'"
    using assms(1) used' by (intro bm_wf_update) (auto simp: bm_wf_def)
  ultimately show ?thesis
    using clear_number_in_range [OF assms(1) n] assms(2) by simp
qed

lemma clear_number_free:
  "bm_wf bm \<Longrightarrow> n < bm_cap bm \<Longrightarrow> n \<notin> bm_used bm \<Longrightarrow> clear_number bm (int n) = Some (0, bm)"
  by (simp add: clear_number_in_range)

lemma clear_number_too_big: "bm_n_bits bm \<le> x \<Longrightarrow> clear_number bm x = Some (- 1, bm)"
  by (simp add: clear_number_def Let_def)

section \<open>The interface\<close>

lemma bm_cap_mask [simp]: "bm_cap (bm\<lparr>bm_mask := m\<rparr>) = bm_cap bm"
  by (simp add: bm_cap_def)

lemma bm_cap_result: "bm' = bm\<lparr>bm_mask := m\<rparr> \<Longrightarrow> bm_cap bm' = bm_cap bm"
  by simp

interpretation bm: id_pool get_avail_number clear_number bm_wf bm_used bm_cap
proof (unfold_locales, goal_cases)
  case (1 bm)
  then show ?case by (simp add: bm_wf_def)
next
  case (2 bm)
  with get_avail_number_result [OF 2(1)] show ?case
    by (auto simp: avail_result_def split: prod.splits)
next
  case (3 bm)
  obtain r bm' where r: "get_avail_number bm = (r, bm')" by (cases "get_avail_number bm")
  with get_avail_number_result [OF 3(1)] 3(2) obtain n where "n < bm_cap bm" "r = int n"
      "n \<notin> bm_used bm" "{..<n} \<subseteq> bm_used bm" "bm_wf bm'" "bm_used bm' = insert n (bm_used bm)"
      "bm' = bm\<lparr>bm_mask := bm_mask bm'\<rparr>"
    by (auto simp: avail_result_def)
  with r bm_cap_result show ?case by blast
next
  case (4 bm n)
  with clear_number_used [OF 4] bm_cap_result show ?case by blast
next
  case (5 bm n)
  then show ?case by (rule clear_number_free)
qed

end
