(* ===== verification/Hashmap.thy ===== *)
theory Hashmap
  imports Tag_Prelude
begin

text \<open>
  The open-addressed hash map with robin-hood probing, \<open>utils/hash-struct/hashmap.c\<close>: its
  state and its operations. The items are values of any type with a zero (the contents of memory
  cleared by \<open>memset\<close>); hash and comparison are fields of the map, as in the code. A loop
  that the code leaves only when it finds an empty bucket is a \<open>partial_function\<close>: \<open>None\<close> is
  "does not return". Null arguments (on which the code prints and then faults) have no
  counterpart, since an item is passed by value; \<open>spare\<close> and \<open>edata\<close>, scratch space inside
  the map, are the values the functions pass on.
\<close>

section \<open>The data structure\<close>

record 'a bucket =
  b_hash :: u48
  b_dib :: u16
  b_item :: 'a

record 'a hashmap =
  hm_oom :: bool
  hm_elsize :: u64
  hm_cap :: u64
  hm_seed0 :: u64
  hm_seed1 :: u64
  hm_hash :: "'a \<Rightarrow> u64 \<Rightarrow> u64 \<Rightarrow> u64"
  hm_compare :: "'a \<Rightarrow> 'a \<Rightarrow> int"
  hm_bucketsz :: u64
  hm_nbuckets :: u64
  hm_count :: u64
  hm_mask :: u64
  hm_growat :: u64
  hm_shrinkat :: u64
  hm_buckets :: "'a bucket list"

definition zero_bucket :: "'a::zero bucket" where
  "zero_bucket = \<lparr>b_hash = 0, b_dib = 0, b_item = 0\<rparr>"

definition bucket_at :: "'a bucket list \<Rightarrow> u64 \<Rightarrow> 'a bucket" where
  "bucket_at buckets index = buckets ! unat index"

definition get_hash :: "'a hashmap \<Rightarrow> 'a \<Rightarrow> u64" where
  "get_hash hm key = drop_bit 16 (push_bit 16 (hm_hash hm key (hm_seed0 hm) (hm_seed1 hm)))"

section \<open>Creation\<close>

text \<open>
  The capacity is rounded up to a power of two, at least 16, in an \<open>int\<close>: doubling beyond
  \<open>INT_MAX\<close> is an overflow, \<open>None\<close>. The bucket size is rounded up to a multiple of the size
  of a pointer.
\<close>

partial_function (option) round_ncap :: "int \<Rightarrow> u64 \<Rightarrow> int option" where
  "round_ncap ncap cap =
     (if word_of_int ncap < cap then
        (if ncap * 2 > INT_MAX then None else round_ncap (ncap * 2) cap)
      else Some ncap)"

partial_function (option) align_bucketsz :: "u64 \<Rightarrow> u64 option" where
  "align_bucketsz bucketsz =
     (if bucketsz AND (8 - 1) \<noteq> 0 then align_bucketsz (bucketsz + 1) else Some bucketsz)"

definition hashmap_new_with_allocator ::
  "u64 \<Rightarrow> u64 \<Rightarrow> u64 \<Rightarrow> u64 \<Rightarrow> ('a::zero \<Rightarrow> u64 \<Rightarrow> u64 \<Rightarrow> u64) \<Rightarrow> ('a \<Rightarrow> 'a \<Rightarrow> int) \<Rightarrow> outcomes \<Rightarrow>
   ('a hashmap option \<times> outcomes) option" where
  "hashmap_new_with_allocator elsize cap seed0 seed1 hash compare al =
     Option.bind (if cap < 16 then Some 16 else round_ncap 16 cap) (\<lambda>ncap.
     Option.bind (align_bucketsz (8 + elsize)) (\<lambda>bucketsz.
       let cap = word_of_int ncap;
           (ok_map, al1) = next_outcome al
       in if \<not> ok_map then Some (None, al1)
          else
            let (ok_buckets, al2) = next_outcome al1
            in if \<not> ok_buckets then Some (None, al2)
               else Some (Some
                 \<lparr>hm_oom = False, hm_elsize = elsize, hm_cap = cap, hm_seed0 = seed0,
                  hm_seed1 = seed1, hm_hash = hash, hm_compare = compare, hm_bucketsz = bucketsz,
                  hm_nbuckets = cap, hm_count = 0, hm_mask = cap - 1, hm_growat = cap * 3 div 4,
                  hm_shrinkat = cap div 10,
                  hm_buckets = replicate (unat cap) zero_bucket\<rparr>, al2)))"

text \<open>\<open>hashmap_new\<close> passes the default allocator on.\<close>

definition hashmap_new ::
  "u64 \<Rightarrow> u64 \<Rightarrow> u64 \<Rightarrow> u64 \<Rightarrow> ('a::zero \<Rightarrow> u64 \<Rightarrow> u64 \<Rightarrow> u64) \<Rightarrow> ('a \<Rightarrow> 'a \<Rightarrow> int) \<Rightarrow> outcomes \<Rightarrow>
   ('a hashmap option \<times> outcomes) option" where
  "hashmap_new elsize cap seed0 seed1 hash compare al =
     hashmap_new_with_allocator elsize cap seed0 seed1 hash compare al"

text \<open>
  When the allocation of the smaller array fails, the old array is kept and only its first
  \<open>cap\<close> buckets are cleared and used.
\<close>

definition hashmap_clear :: "'a::zero hashmap \<Rightarrow> bool \<Rightarrow> outcomes \<Rightarrow> 'a hashmap \<times> outcomes" where
  "hashmap_clear hm update_cap al =
     (let (hm1, al1) =
        (if update_cap then (hm\<lparr>hm_count := 0, hm_cap := hm_nbuckets hm\<rparr>, al)
         else if hm_nbuckets hm \<noteq> hm_cap hm then
           let (ok, al') = next_outcome al
           in (hm\<lparr>hm_count := 0, hm_nbuckets := hm_cap hm,
                   hm_buckets := (if ok then replicate (unat (hm_cap hm)) zero_bucket
                                  else hm_buckets hm)\<rparr>, al')
         else (hm\<lparr>hm_count := 0\<rparr>, al));
        n = hm_nbuckets hm1
      in (hm1\<lparr>hm_buckets := replicate (unat n) zero_bucket @ drop (unat n) (hm_buckets hm1),
               hm_mask := n - 1, hm_growat := n * 3 div 4, hm_shrinkat := n div 10\<rparr>, al1))"

section \<open>Resizing\<close>

text \<open>Placing one entry in the new array: the inner loop of \<open>resize\<close>.\<close>

partial_function (option) resize_place ::
  "u64 \<Rightarrow> 'a bucket list \<Rightarrow> u64 \<Rightarrow> 'a bucket \<Rightarrow> 'a bucket list option" where
  "resize_place msk buckets j entry =
     (let bucket = bucket_at buckets j
      in if b_dib bucket = 0 then Some (buckets[unat j := entry])
         else if b_dib bucket < b_dib entry then
           resize_place msk (buckets[unat j := entry]) ((j + 1) AND msk)
             (bucket\<lparr>b_dib := b_dib bucket + 1\<rparr>)
         else
           resize_place msk buckets ((j + 1) AND msk) (entry\<lparr>b_dib := b_dib entry + 1\<rparr>))"

text \<open>The outer loop, over the buckets of the old array in order.\<close>

fun resize_loop :: "u64 \<Rightarrow> 'a bucket list \<Rightarrow> 'a bucket list \<Rightarrow> 'a bucket list option" where
  "resize_loop msk [] buckets2 = Some buckets2"
| "resize_loop msk (entry # rest) buckets2 =
     (if b_dib entry = 0 then resize_loop msk rest buckets2
      else Option.bind
        (resize_place msk buckets2 (ucast (b_hash entry) AND msk) (entry\<lparr>b_dib := 1\<rparr>))
        (resize_loop msk rest))"

definition resize ::
  "'a::zero hashmap \<Rightarrow> u64 \<Rightarrow> outcomes \<Rightarrow> (bool \<times> 'a hashmap \<times> outcomes) option" where
  "resize hm new_cap al =
     Option.bind
       (hashmap_new_with_allocator (hm_elsize hm) new_cap (hm_seed1 hm) (hm_seed1 hm)
          (hm_hash hm) (hm_compare hm) al)
       (\<lambda>(r, al').
          case r of
            None \<Rightarrow> Some (False, hm, al')
          | Some hm2 \<Rightarrow>
              Option.bind
                (resize_loop (hm_mask hm2) (take (unat (hm_nbuckets hm)) (hm_buckets hm))
                   (hm_buckets hm2))
                (\<lambda>buckets2. Some (True,
                   hm\<lparr>hm_buckets := buckets2, hm_nbuckets := hm_nbuckets hm2,
                       hm_mask := hm_mask hm2, hm_growat := hm_growat hm2,
                       hm_shrinkat := hm_shrinkat hm2\<rparr>, al')))"

section \<open>Set, get, delete\<close>

text \<open>
  The loop of \<open>hashmap_set\<close>: \<open>None\<close> in the first component when the entry went to an empty
  bucket (the count grows), the item replaced otherwise.
\<close>

partial_function (option) set_loop ::
  "('a \<Rightarrow> 'a \<Rightarrow> int) \<Rightarrow> u64 \<Rightarrow> 'a bucket list \<Rightarrow> u64 \<Rightarrow> 'a bucket \<Rightarrow>
   ('a option \<times> 'a bucket list) option" where
  "set_loop compare msk buckets i entry =
     (let bucket = bucket_at buckets i
      in if b_dib bucket = 0 then Some (None, buckets[unat i := entry])
         else if b_hash entry = b_hash bucket \<and> compare (b_item entry) (b_item bucket) = 0 then
           Some (Some (b_item bucket), buckets[unat i := bucket\<lparr>b_item := b_item entry\<rparr>])
         else if b_dib bucket < b_dib entry then
           set_loop compare msk (buckets[unat i := entry]) ((i + 1) AND msk)
             (bucket\<lparr>b_dib := b_dib bucket + 1\<rparr>)
         else
           set_loop compare msk buckets ((i + 1) AND msk) (entry\<lparr>b_dib := b_dib entry + 1\<rparr>))"

definition hashmap_insert :: "'a hashmap \<Rightarrow> 'a \<Rightarrow> ('a option \<times> 'a hashmap) option" where
  "hashmap_insert hm item =
     (let entry = \<lparr>b_hash = ucast (get_hash hm item), b_dib = 1, b_item = item\<rparr>
      in Option.bind
           (set_loop (hm_compare hm) (hm_mask hm) (hm_buckets hm)
              (ucast (b_hash entry) AND hm_mask hm) entry)
           (\<lambda>(old, buckets). Some (old,
              hm\<lparr>hm_buckets := buckets,
                  hm_count := (if old = None then hm_count hm + 1 else hm_count hm)\<rparr>)))"

definition hashmap_set ::
  "'a::zero hashmap \<Rightarrow> 'a \<Rightarrow> outcomes \<Rightarrow> ('a option \<times> 'a hashmap \<times> outcomes) option" where
  "hashmap_set hm item al =
     (let hm = hm\<lparr>hm_oom := False\<rparr>
      in if hm_count hm = hm_growat hm then
           Option.bind (resize hm (hm_nbuckets hm * 2) al)
             (\<lambda>(ok, hm', al').
                if \<not> ok then Some (None, hm'\<lparr>hm_oom := True\<rparr>, al')
                else Option.bind (hashmap_insert hm' item)
                       (\<lambda>(old, hm''). Some (old, hm'', al')))
         else Option.bind (hashmap_insert hm item)
                (\<lambda>(old, hm'). Some (old, hm', al)))"

partial_function (option) get_loop ::
  "('a \<Rightarrow> 'a \<Rightarrow> int) \<Rightarrow> u64 \<Rightarrow> 'a bucket list \<Rightarrow> u64 \<Rightarrow> u64 \<Rightarrow> 'a \<Rightarrow> 'a option option" where
  "get_loop compare msk buckets hash i key =
     (let bucket = bucket_at buckets i
      in if b_dib bucket = 0 then Some None
         else if ucast (b_hash bucket) = hash \<and> compare key (b_item bucket) = 0 then
           Some (Some (b_item bucket))
         else get_loop compare msk buckets hash ((i + 1) AND msk) key)"

definition hashmap_get :: "'a hashmap \<Rightarrow> 'a \<Rightarrow> 'a option option" where
  "hashmap_get hm key =
     (let hash = get_hash hm key
      in get_loop (hm_compare hm) (hm_mask hm) (hm_buckets hm) hash (hash AND hm_mask hm) key)"

definition hashmap_probe :: "'a hashmap \<Rightarrow> u64 \<Rightarrow> 'a option" where
  "hashmap_probe hm position =
     (let bucket = bucket_at (hm_buckets hm) (position AND hm_mask hm)
      in if b_dib bucket = 0 then None else Some (b_item bucket))"

text \<open>The outer loop of \<open>hashmap_delete\<close> finds the bucket of the key.\<close>

partial_function (option) delete_find ::
  "('a \<Rightarrow> 'a \<Rightarrow> int) \<Rightarrow> u64 \<Rightarrow> 'a bucket list \<Rightarrow> u64 \<Rightarrow> u64 \<Rightarrow> 'a \<Rightarrow> u64 option option" where
  "delete_find compare msk buckets hash i key =
     (let bucket = bucket_at buckets i
      in if b_dib bucket = 0 then Some None
         else if ucast (b_hash bucket) = hash \<and> compare key (b_item bucket) = 0 then
           Some (Some i)
         else delete_find compare msk buckets hash ((i + 1) AND msk) key)"

text \<open>Its inner loop shifts the following buckets back by one.\<close>

partial_function (option) delete_shift ::
  "u64 \<Rightarrow> 'a bucket list \<Rightarrow> u64 \<Rightarrow> 'a bucket list option" where
  "delete_shift msk buckets prev =
     (let i = (prev + 1) AND msk;
          bucket = bucket_at buckets i
      in if b_dib bucket \<le> 1 then
           Some (buckets[unat prev := (bucket_at buckets prev)\<lparr>b_dib := 0\<rparr>])
         else
           delete_shift msk (buckets[unat prev := bucket\<lparr>b_dib := b_dib bucket - 1\<rparr>]) i)"

definition hashmap_delete ::
  "'a::zero hashmap \<Rightarrow> 'a \<Rightarrow> outcomes \<Rightarrow> ('a option \<times> 'a hashmap \<times> outcomes) option" where
  "hashmap_delete hm key al =
     (let hm = hm\<lparr>hm_oom := False\<rparr>;
          hash = get_hash hm key
      in Option.bind
           (delete_find (hm_compare hm) (hm_mask hm) (hm_buckets hm) hash
              (hash AND hm_mask hm) key)
           (\<lambda>found.
              case found of
                None \<Rightarrow> Some (None, hm, al)
              | Some i \<Rightarrow>
                  let bucket = bucket_at (hm_buckets hm) i;
                      buckets = (hm_buckets hm)[unat i := bucket\<lparr>b_dib := 0\<rparr>]
                  in Option.bind (delete_shift (hm_mask hm) buckets i)
                       (\<lambda>buckets'.
                          let hm' = hm\<lparr>hm_buckets := buckets', hm_count := hm_count hm - 1\<rparr>
                          in if hm_nbuckets hm' > hm_cap hm' \<and> hm_count hm' \<le> hm_shrinkat hm'
                             then Option.bind (resize hm' (hm_nbuckets hm' div 2) al)
                                    (\<lambda>(ok, hm'', al'). Some (Some (b_item bucket), hm'', al'))
                             else Some (Some (b_item bucket), hm', al))))"

definition hashmap_count :: "'a hashmap \<Rightarrow> u64" where
  "hashmap_count hm = hm_count hm"

definition hashmap_oom :: "'a hashmap \<Rightarrow> bool" where
  "hashmap_oom hm = hm_oom hm"

text \<open>
  \<open>hashmap_scan\<close> calls \<open>iter\<close> on every item, in bucket order, until one call returns false; the
  data the callback works on is its state, passed from call to call.
\<close>

fun scan_loop :: "('a \<Rightarrow> 'u \<Rightarrow> bool \<times> 'u) \<Rightarrow> 'a bucket list \<Rightarrow> 'u \<Rightarrow> bool \<times> 'u" where
  "scan_loop iter [] udata = (True, udata)"
| "scan_loop iter (bucket # rest) udata =
     (if b_dib bucket \<noteq> 0 then
        let (go_on, udata') = iter (b_item bucket) udata
        in if \<not> go_on then (False, udata') else scan_loop iter rest udata'
      else scan_loop iter rest udata)"

definition hashmap_scan :: "'a hashmap \<Rightarrow> ('a \<Rightarrow> 'u \<Rightarrow> bool \<times> 'u) \<Rightarrow> 'u \<Rightarrow> bool \<times> 'u" where
  "hashmap_scan hm iter udata = scan_loop iter (take (unat (hm_nbuckets hm)) (hm_buckets hm)) udata"

end
