(* ===== verification/Robin_Hood.thy ===== *)
theory Robin_Hood
  imports Hashmap
begin

text \<open>
  The loops of the hash map on a table of buckets. The invariant of robin-hood probing has two
  parts: every occupied bucket stands as far from its home as its \<open>dib\<close> says (\<open>rh_pos\<close>), and
  from one bucket to the next the \<open>dib\<close> grows by at most one (\<open>rh_ord\<close>). With an empty bucket
  somewhere, every probe loop ends; the order gives that a key that is present is met before the
  first empty bucket and before the first swap.
\<close>

section \<open>Tables, positions and the invariant\<close>

text \<open>The number of buckets is a power of two between 2 and \<open>2 ^ 15\<close>, and the mask is
  one less.\<close>

definition probe_table :: "u64 \<Rightarrow> 'a bucket list \<Rightarrow> bool" where
  "probe_table msk bs \<longleftrightarrow> (\<exists>k<16. 0 < k \<and> length bs = 2 ^ k \<and> msk = 2 ^ k - 1)"

definition dib :: "'a bucket list \<Rightarrow> nat \<Rightarrow> nat" where
  "dib bs j = unat (b_dib (bs ! j))"

definition occupied :: "'a bucket \<Rightarrow> bool" where
  "occupied b \<longleftrightarrow> b_dib b \<noteq> 0"

definition home :: "nat \<Rightarrow> 'a bucket \<Rightarrow> nat" where
  "home n b = unat (b_hash b) mod n"

definition rh_pos :: "'a bucket list \<Rightarrow> bool" where
  "rh_pos bs \<longleftrightarrow> (\<forall>j<length bs. occupied (bs ! j) \<longrightarrow>
     (home (length bs) (bs ! j) + (dib bs j - 1)) mod length bs = j)"

definition rh_ord :: "'a bucket list \<Rightarrow> bool" where
  "rh_ord bs \<longleftrightarrow> (\<forall>j<length bs. dib bs (Suc j mod length bs) \<le> Suc (dib bs j))"

definition hm_items :: "'a bucket list \<Rightarrow> 'a list" where
  "hm_items bs = map b_item (filter occupied bs)"

text \<open>The entry \<open>e\<close> may be stored at position \<open>i\<close>.\<close>

definition carried :: "'a bucket list \<Rightarrow> nat \<Rightarrow> 'a bucket \<Rightarrow> bool" where
  "carried bs i e \<longleftrightarrow> i < length bs \<and> occupied e \<and>
     (home (length bs) e + (unat (b_dib e) - 1)) mod length bs = i \<and>
     (\<forall>p<length bs. Suc p mod length bs = i \<longrightarrow> unat (b_dib e) \<le> Suc (dib bs p))"

lemma probe_table_length: "probe_table msk bs \<Longrightarrow> 1 < length bs \<and> length bs \<le> 2 ^ 15"
  unfolding probe_table_def
  using power_increasing [of _ 15 "2::nat"] one_less_power [of "2::nat"] by auto

lemma probe_table_update [simp]: "probe_table msk (bs[i := b]) = probe_table msk bs"
  by (simp add: probe_table_def)

lemma unat_mask_index: "probe_table msk bs \<Longrightarrow> unat (w AND msk) = unat w mod length bs"
  unfolding probe_table_def by (auto simp: unat_and_mask)

lemma unat_next_index:
  assumes "probe_table msk bs"
  shows "unat ((i + 1) AND msk) = Suc (unat i) mod length bs"
proof -
  obtain k where k: "k < 16" "length bs = 2 ^ k" using assms by (auto simp: probe_table_def)
  have "(2::nat) ^ k dvd 2 ^ 64" using k(1) by (intro le_imp_power_dvd) simp
  then have "unat (i + 1) mod 2 ^ k = Suc (unat i) mod 2 ^ k"
    by (simp add: unat_word_ariths mod_mod_cancel)
  then show ?thesis using unat_mask_index [OF assms, of "i + 1"] k(2) by simp
qed

lemma unat_ucast_hash: "unat (ucast (h :: u48) :: u64) = unat h"
proof -
  have "unat h < 2 ^ 48" using unsigned_less [of h] by simp
  then show ?thesis by (simp add: unsigned_ucast_eq take_bit_nat_eq_self_iff)
qed

lemma mod_Suc_cancel:
  assumes "Suc a mod n = Suc p mod n" and "p < (n::nat)"
  shows "a mod n = p"
proof -
  have "(Suc a + (n - 1)) mod n = (Suc p + (n - 1)) mod n"
    using assms(1) by (metis mod_add_left_eq)
  with assms(2) show ?thesis by simp
qed

lemma pred_index: "i < n \<Longrightarrow> \<exists>p<n. Suc p mod n = (i::nat)"
proof (cases i)
  case 0
  assume "i < n"
  with 0 show ?thesis by (intro exI [of _ "n - 1"]) auto
next
  case (Suc p)
  assume "i < n"
  with Suc show ?thesis by (intro exI [of _ p]) auto
qed

section \<open>Consequences of the order\<close>

lemma rh_ord_back:
  assumes "rh_ord bs" and "p < length bs"
  shows "dib bs ((p + t) mod length bs) \<le> dib bs p + t"
proof (induction t)
  case 0
  with assms(2) show ?case by simp
next
  case (Suc t)
  have "(p + t) mod length bs < length bs" using assms(2) by (cases "length bs") auto
  then have "dib bs (Suc ((p + t) mod length bs) mod length bs) \<le> Suc (dib bs ((p + t) mod length bs))"
    using assms(1) by (simp add: rh_ord_def)
  with Suc show ?case by (simp add: mod_Suc_eq)
qed

lemma dib_less_length:
  assumes "rh_ord bs" and "q < length bs" and "\<not> occupied (bs ! q)" and "j < length bs"
  shows "dib bs j < length bs"
proof -
  obtain t where t: "t < length bs" "(q + t) mod length bs = j"
    using mod_reach [OF assms(2,4)] by blast
  from rh_ord_back [OF assms(1,2), of t] t(2) have "dib bs j \<le> dib bs q + t" by simp
  also have "dib bs q = 0" using assms(3) by (simp add: dib_def occupied_def)
  finally show ?thesis using t(1) by simp
qed

lemma carried_dib_le:
  assumes "rh_ord bs" and "q < length bs" and "\<not> occupied (bs ! q)" and "carried bs i e"
  shows "unat (b_dib e) \<le> length bs"
proof -
  have "i < length bs" using assms(4) by (simp add: carried_def)
  then obtain p where p: "p < length bs" "Suc p mod length bs = i" using pred_index by blast
  with assms(4) have "unat (b_dib e) \<le> Suc (dib bs p)" by (simp add: carried_def)
  with dib_less_length [OF assms(1-3) p(1)] show ?thesis by simp
qed

lemma unat_dib_Suc: "unat (d :: u16) < 2 ^ 16 - 1 \<Longrightarrow> unat (d + 1) = Suc (unat d)"
  by (simp add: unat_word_ariths)

lemma occupied_dib: "occupied b \<longleftrightarrow> 0 < unat (b_dib b)"
  by (simp add: occupied_def unat_gt_0)

text \<open>
  Two entries with the same home: the one further from it stands the difference of the \<open>dib\<close>s
  ahead, so the bucket at the nearer position is at least as far from its own home.
\<close>

lemma same_home_ahead:
  assumes "rh_pos bs" and "carried bs i e" and "p < length bs" and "occupied (bs ! p)"
    and "b_hash (bs ! p) = b_hash e" and "unat (b_dib e) \<le> dib bs p"
  shows "p = (i + (dib bs p - unat (b_dib e))) mod length bs"
proof -
  let ?n = "length bs" and ?h = "home (length bs) e"
  have "p = (?h + (dib bs p - 1)) mod ?n"
    using assms(1,3,4,5) unfolding rh_pos_def home_def by metis
  also have "?h + (dib bs p - 1) = ?h + (unat (b_dib e) - 1) + (dib bs p - unat (b_dib e))"
    using assms(2,6) by (auto simp: carried_def occupied_dib)
  also have "\<dots> mod ?n = ((?h + (unat (b_dib e) - 1)) mod ?n + (dib bs p - unat (b_dib e))) mod ?n"
    by (simp add: mod_add_left_eq)
  also have "(?h + (unat (b_dib e) - 1)) mod ?n = i" using assms(2) by (simp add: carried_def)
  finally show ?thesis .
qed

lemma same_home_dib:
  assumes "rh_pos bs" "rh_ord bs" and "carried bs i e" and "p < length bs" and "occupied (bs ! p)"
    and "b_hash (bs ! p) = b_hash e" and "unat (b_dib e) \<le> dib bs p"
  shows "unat (b_dib e) \<le> dib bs i" and "i \<noteq> p \<Longrightarrow> unat (b_dib e) < dib bs p"
proof -
  note p = same_home_ahead [OF assms(1,3-7)]
  have i: "i < length bs" using assms(3) by (simp add: carried_def)
  have "dib bs p \<le> dib bs i + (dib bs p - unat (b_dib e))"
    using rh_ord_back [OF assms(2) i, of "dib bs p - unat (b_dib e)"] p by simp
  with assms(7) show "unat (b_dib e) \<le> dib bs i" by linarith
  show "unat (b_dib e) < dib bs p" if "i \<noteq> p"
    using p i that assms(7) by (cases "unat (b_dib e) = dib bs p") auto
qed

section \<open>Storing and carrying on\<close>

lemma dib_update: "dib (bs[i := e]) j = (if i = j \<and> i < length bs then unat (b_dib e) else dib bs j)"
  by (cases "i < length bs") (auto simp: dib_def list_update_beyond nth_list_update)

lemma rh_posD:
  "rh_pos bs \<Longrightarrow> j < length bs \<Longrightarrow> occupied (bs ! j) \<Longrightarrow>
     (home (length bs) (bs ! j) + (unat (b_dib (bs ! j)) - 1)) mod length bs = j"
  by (simp add: rh_pos_def dib_def)

lemma rh_posI:
  "(\<And>j. j < length bs \<Longrightarrow> occupied (bs ! j) \<Longrightarrow>
     (home (length bs) (bs ! j) + (unat (b_dib (bs ! j)) - 1)) mod length bs = j) \<Longrightarrow> rh_pos bs"
  by (simp add: rh_pos_def dib_def)

lemma rh_pos_update:
  assumes "rh_pos bs" and "carried bs i e"
  shows "rh_pos (bs[i := e])"
  unfolding rh_pos_def
proof (intro allI impI)
  fix j
  assume "j < length (bs[i := e])" and "occupied (bs[i := e] ! j)"
  then show "(home (length (bs[i := e])) (bs[i := e] ! j) + (dib (bs[i := e]) j - 1))
      mod length (bs[i := e]) = j"
    using assms by (cases "i = j") (auto simp: rh_pos_def carried_def dib_update)
qed

lemma rh_ord_update:
  assumes "rh_ord bs" and "carried bs i e" and "dib bs i \<le> unat (b_dib e)" and "1 < length bs"
  shows "rh_ord (bs[i := e])"
  unfolding rh_ord_def
proof (intro allI impI)
  fix j
  assume "j < length (bs[i := e])"
  then have j: "j < length bs" by simp
  have i: "i < length bs" using assms(2) by (simp add: carried_def)
  have old: "dib bs (Suc j mod length bs) \<le> Suc (dib bs j)" using assms(1) j by (simp add: rh_ord_def)
  have "j \<noteq> i \<or> Suc j mod length bs \<noteq> i" using j assms(4) by (auto simp: mod_Suc)
  with old assms(2,3) i j
  show "dib (bs[i := e]) (Suc j mod length (bs[i := e])) \<le> Suc (dib (bs[i := e]) j)"
    by (auto simp: dib_update carried_def)
qed

lemma carried_next:
  assumes "carried bs i e" and "unat (b_dib e) < 2 ^ 16 - 1" and "unat (b_dib e) \<le> dib bs' i"
    and "length bs' = length bs"
  shows "carried bs' (Suc i mod length bs) (e\<lparr>b_dib := b_dib e + 1\<rparr>)"
proof -
  let ?e = "e\<lparr>b_dib := b_dib e + 1\<rparr>"
  have d: "unat (b_dib ?e) = Suc (unat (b_dib e))" using assms(2) by (simp add: unat_dib_Suc)
  have i: "i < length bs" and pos: "0 < unat (b_dib e)"
    and eq: "(home (length bs) e + (unat (b_dib e) - 1)) mod length bs = i"
    using assms(1) by (auto simp: carried_def occupied_dib)
  have "(home (length bs) ?e + (unat (b_dib ?e) - 1)) mod length bs =
      Suc ((home (length bs) e + (unat (b_dib e) - 1)) mod length bs) mod length bs"
    using pos unfolding d by (simp add: mod_Suc_eq home_def)
  moreover have "unat (b_dib ?e) \<le> Suc (dib bs' p)"
    if "p < length bs" "Suc p mod length bs = Suc i mod length bs" for p
    using mod_Suc_cancel [of p "length bs" i] that i assms(3) d by simp
  moreover have "occupied ?e" using d by (simp add: occupied_dib)
  moreover have "Suc i mod length bs < length bs" using i by (intro mod_less_divisor) auto
  ultimately show ?thesis using assms(4) eq by (simp add: carried_def)
qed

lemma carried_bucket:
  assumes "rh_pos bs" "rh_ord bs" and "i < length bs" and "occupied (bs ! i)"
  shows "carried bs i (bs ! i)"
  using assms by (auto simp: carried_def rh_pos_def rh_ord_def dib_def)

section \<open>The contents of a table\<close>

definition hashes_ok :: "('a \<Rightarrow> u48) \<Rightarrow> 'a bucket list \<Rightarrow> bool" where
  "hashes_ok h bs \<longleftrightarrow> (\<forall>b\<in>set bs. occupied b \<longrightarrow> b_hash b = h (b_item b))"

definition rh_table :: "('a \<Rightarrow> 'k) \<Rightarrow> ('a \<Rightarrow> u48) \<Rightarrow> u64 \<Rightarrow> 'a bucket list \<Rightarrow> bool" where
  "rh_table key h msk bs \<longleftrightarrow> probe_table msk bs \<and> rh_pos bs \<and> rh_ord bs \<and> hashes_ok h bs \<and>
     distinct (map key (hm_items bs))"

lemma hashes_ok_update:
  "hashes_ok h bs \<Longrightarrow> (occupied e \<Longrightarrow> b_hash e = h (b_item e)) \<Longrightarrow> hashes_ok h (bs[i := e])"
  unfolding hashes_ok_def using set_update_subset_insert [of bs i e] by blast

lemma hm_items_update:
  assumes "i < length bs"
  shows "mset (hm_items (bs[i := e])) + (if occupied (bs ! i) then {#b_item (bs ! i)#} else {#}) =
         mset (hm_items bs) + (if occupied e then {#b_item e#} else {#})"
  using arg_cong [OF filter_update_mset [OF assms, of occupied e], of "image_mset b_item"]
  by (auto simp: hm_items_def split: if_splits)

lemma hm_items_nth: "i < length bs \<Longrightarrow> occupied (bs ! i) \<Longrightarrow> b_item (bs ! i) \<in> set (hm_items bs)"
  by (auto simp: hm_items_def)

lemma hm_items_ex: "x \<in> set (hm_items bs) \<Longrightarrow> \<exists>i<length bs. occupied (bs ! i) \<and> b_item (bs ! i) = x"
  by (auto simp: hm_items_def in_set_conv_nth)

lemma distinct_filter_nth:
  "distinct (map f (filter P xs)) \<Longrightarrow> i < length xs \<Longrightarrow> j < length xs \<Longrightarrow> P (xs ! i) \<Longrightarrow> P (xs ! j) \<Longrightarrow>
     f (xs ! i) = f (xs ! j) \<Longrightarrow> i = j"
proof (induction xs arbitrary: i j)
  case (Cons x xs)
  then show ?case
    by (cases i; cases j) (auto simp: image_iff split: if_splits)
qed simp

lemma distinct_map_add_mset:
  assumes "mset xs = add_mset x (mset ys)"
  shows "distinct (map key xs) \<longleftrightarrow> key x \<notin> key ` set ys \<and> distinct (map key ys)"
proof -
  have "mset (map key xs) = mset (map key (x # ys))" using assms by simp
  then have "distinct (map key xs) \<longleftrightarrow> distinct (map key (x # ys))"
    by (rule mset_eq_imp_distinct_iff)
  then show ?thesis by simp
qed

section \<open>The loop of hashmap_set\<close>

definition set_pre ::
  "('a \<Rightarrow> 'k) \<Rightarrow> ('a \<Rightarrow> u48) \<Rightarrow> u64 \<Rightarrow> 'a bucket list \<Rightarrow> nat \<Rightarrow> 'a bucket \<Rightarrow> bool" where
  "set_pre key h msk bs i e \<longleftrightarrow> rh_table key h msk bs \<and> carried bs i e \<and> b_hash e = h (b_item e) \<and>
     (\<forall>p<length bs. occupied (bs ! p) \<and> key (b_item (bs ! p)) = key (b_item e) \<longrightarrow>
        unat (b_dib e) \<le> dib bs p)"

definition hash_of_key :: "('a \<Rightarrow> 'k) \<Rightarrow> ('a \<Rightarrow> u48) \<Rightarrow> bool" where
  "hash_of_key key h \<longleftrightarrow> (\<forall>x y. key x = key y \<longrightarrow> h x = h y)"

lemma rh_tableD:
  assumes "rh_table key h msk bs"
  shows "probe_table msk bs" "rh_pos bs" "rh_ord bs" "hashes_ok h bs"
    "distinct (map key (hm_items bs))"
  using assms by (simp_all add: rh_table_def)

lemma set_preD:
  assumes "set_pre key h msk bs i e"
  shows "rh_table key h msk bs" "carried bs i e" "b_hash e = h (b_item e)" "i < length bs"
    "occupied e"
  using assms by (simp_all add: set_pre_def carried_def)

lemma set_pre_match_dib:
  "set_pre key h msk bs i e \<Longrightarrow> p < length bs \<Longrightarrow> occupied (bs ! p) \<Longrightarrow>
     key (b_item (bs ! p)) = key (b_item e) \<Longrightarrow> unat (b_dib e) \<le> dib bs p"
  by (simp add: set_pre_def)

lemma set_pre_match_hash:
  assumes "hash_of_key key h" and "set_pre key h msk bs i e" and "p < length bs"
    and "occupied (bs ! p)" and "key (b_item (bs ! p)) = key (b_item e)"
  shows "b_hash (bs ! p) = b_hash e"
  using assms unfolding set_pre_def rh_table_def hashes_ok_def hash_of_key_def by (metis nth_mem)

text \<open>Where the loop stores or swaps, the key is not in the table.\<close>

lemma set_pre_absent:
  assumes "hash_of_key key h" and "set_pre key h msk bs i e" and "dib bs i < unat (b_dib e)"
  shows "key (b_item e) \<notin> key ` set (hm_items bs)"
proof
  assume "key (b_item e) \<in> key ` set (hm_items bs)"
  then obtain p where p: "p < length bs" "occupied (bs ! p)" "key (b_item (bs ! p)) = key (b_item e)"
    by (metis (no_types, lifting) hm_items_ex imageE)
  have "unat (b_dib e) \<le> dib bs i"
    using same_home_dib(1) rh_tableD(2,3) set_preD(1,2) set_pre_match_dib set_pre_match_hash
      assms(1,2) p by metis
  with assms(3) show False by simp
qed

lemma set_pre_store:
  assumes "hash_of_key key h" and "set_pre key h msk bs i e" and "dib bs i < unat (b_dib e)"
  shows "rh_table key h msk (bs[i := e])" (is "rh_table _ _ _ ?bs'")
    and "mset (hm_items (bs[i := e])) + (if occupied (bs ! i) then {#b_item (bs ! i)#} else {#}) =
         add_mset (b_item e) (mset (hm_items bs))"
proof -
  note pre = set_preD [OF assms(2)]
  note tab = rh_tableD [OF pre(1)]
  show items: "mset (hm_items ?bs') + (if occupied (bs ! i) then {#b_item (bs ! i)#} else {#}) =
      add_mset (b_item e) (mset (hm_items bs))"
    using hm_items_update [OF pre(4), of e] pre(5) by simp
  have "distinct (map key (b_item e # hm_items bs))"
    using set_pre_absent [OF assms] tab(5) by simp
  moreover have "mset (hm_items ?bs') \<subseteq># mset (b_item e # hm_items bs)"
    using items by (metis mset.simps(2) mset_subset_eq_add_left)
  ultimately have "distinct (map key (hm_items ?bs'))"
    by (metis distinct_map_submset)
  moreover have "rh_ord ?bs'"
    using rh_ord_update [OF tab(3) pre(2)] assms(3) probe_table_length [OF tab(1)] by simp
  ultimately show "rh_table key h msk ?bs'"
    using rh_pos_update [OF tab(2) pre(2)] hashes_ok_update [OF tab(4) pre(3)] tab(1)
    by (simp add: rh_table_def)
qed

text \<open>After a swap the loop goes on with the entry that was displaced.\<close>

lemma set_pre_swap:
  assumes "hash_of_key key h" and "set_pre key h msk bs i e" and "dib bs i < unat (b_dib e)"
    and "occupied (bs ! i)" and "q < length bs" and "\<not> occupied (bs ! q)"
  shows "set_pre key h msk (bs[i := e]) (Suc i mod length bs) ((bs ! i)\<lparr>b_dib := b_dib (bs ! i) + 1\<rparr>)"
    and "key (b_item (bs ! i)) \<notin> key ` set (hm_items (bs[i := e]))"
proof -
  note pre = set_preD [OF assms(2)]
  note tab = rh_tableD [OF pre(1)]
  note store = set_pre_store [OF assms(1-3)]
  have "distinct (map key (b_item e # hm_items bs))"
    using set_pre_absent [OF assms(1-3)] tab(5) by simp
  moreover have "mset (b_item e # hm_items bs) = add_mset (b_item (bs ! i)) (mset (hm_items (bs[i := e])))"
    using store(2) assms(4) by simp
  ultimately show absent: "key (b_item (bs ! i)) \<notin> key ` set (hm_items (bs[i := e]))"
    using distinct_map_add_mset by metis
  have "dib bs i < length bs" by (rule dib_less_length [OF tab(3) assms(5,6) pre(4)])
  then have small: "unat (b_dib (bs ! i)) < 2 ^ 16 - 1"
    using probe_table_length [OF tab(1)] by (simp add: dib_def)
  have "carried (bs[i := e]) (Suc i mod length bs) ((bs ! i)\<lparr>b_dib := b_dib (bs ! i) + 1\<rparr>)"
    using carried_next [OF carried_bucket [OF tab(2,3) pre(4) assms(4)] small, of "bs[i := e]"]
      assms(3) pre(4) by (simp add: dib_update dib_def)
  moreover have "b_hash (bs ! i) = h (b_item (bs ! i))"
    using tab(4) assms(4) pre(4) by (simp add: hashes_ok_def)
  moreover have "key (b_item (bs[i := e] ! p)) \<noteq> key (b_item (bs ! i))"
    if "p < length bs" "occupied (bs[i := e] ! p)" for p
    using absent hm_items_nth [of p "bs[i := e]"] that by (metis image_eqI length_list_update)
  ultimately show "set_pre key h msk (bs[i := e]) (Suc i mod length bs)
      ((bs ! i)\<lparr>b_dib := b_dib (bs ! i) + 1\<rparr>)"
    using store(1) by (auto simp: set_pre_def)
qed

text \<open>Otherwise it goes on with the same entry, one bucket further.\<close>

lemma set_pre_skip:
  assumes "hash_of_key key h" and "set_pre key h msk bs i e" and "\<not> dib bs i < unat (b_dib e)"
    and "\<not> (occupied (bs ! i) \<and> key (b_item (bs ! i)) = key (b_item e))"
    and "q < length bs" and "\<not> occupied (bs ! q)"
  shows "set_pre key h msk bs (Suc i mod length bs) (e\<lparr>b_dib := b_dib e + 1\<rparr>)"
proof -
  note pre = set_preD [OF assms(2)]
  note tab = rh_tableD [OF pre(1)]
  have "unat (b_dib e) \<le> length bs" by (rule carried_dib_le [OF tab(3) assms(5,6) pre(2)])
  then have small: "unat (b_dib e) < 2 ^ 16 - 1" using probe_table_length [OF tab(1)] by simp
  have "unat (b_dib (e\<lparr>b_dib := b_dib e + 1\<rparr>)) \<le> dib bs p"
    if "p < length bs" "occupied (bs ! p)" "key (b_item (bs ! p)) = key (b_item e)" for p
  proof -
    have "i \<noteq> p" using that(2,3) assms(4) by auto
    then have "unat (b_dib e) < dib bs p"
      using same_home_dib(2) [OF tab(2,3) pre(2) that(1,2)] set_pre_match_hash [OF assms(1,2) that]
        set_pre_match_dib [OF assms(2) that] by simp
    then show ?thesis using unat_dib_Suc [OF small] by simp
  qed
  moreover have "carried bs (Suc i mod length bs) (e\<lparr>b_dib := b_dib e + 1\<rparr>)"
    using carried_next [OF pre(2) small, of bs] assms(3) by simp
  ultimately show ?thesis using pre(1,3) by (simp add: set_pre_def)
qed

text \<open>Where the key is found, only the item changes.\<close>

lemma set_pre_replace:
  assumes "hash_of_key key h" and "set_pre key h msk bs i e" and "occupied (bs ! i)"
    and "key (b_item e) = key (b_item (bs ! i))"
  shows "rh_table key h msk (bs[i := (bs ! i)\<lparr>b_item := b_item e\<rparr>])" (is "rh_table _ _ _ ?bs'")
    and "add_mset (b_item (bs ! i)) (mset (hm_items (bs[i := (bs ! i)\<lparr>b_item := b_item e\<rparr>]))) =
         add_mset (b_item e) (mset (hm_items bs))"
proof -
  note pre = set_preD [OF assms(2)]
  note tab = rh_tableD [OF pre(1)]
  let ?b = "(bs ! i)\<lparr>b_item := b_item e\<rparr>"
  have occ: "occupied ?b" using assms(3) by (simp add: occupied_def)
  show items: "add_mset (b_item (bs ! i)) (mset (hm_items ?bs')) =
      add_mset (b_item e) (mset (hm_items bs))"
    using hm_items_update [OF pre(4), of ?b] assms(3) occ by simp
  have "image_mset key (mset (hm_items ?bs')) = image_mset key (mset (hm_items bs))"
    using arg_cong [OF items, of "image_mset key"] assms(4) by simp
  then have "distinct (map key (hm_items ?bs'))"
    using tab(5) by (metis mset_eq_imp_distinct_iff mset_map)
  moreover have dib: "dib ?bs' = dib bs" by (rule ext) (simp add: dib_update, simp add: dib_def)
  have "rh_ord ?bs'" using tab(3) by (simp add: rh_ord_def dib)
  moreover have same: "b_dib (?bs' ! j) = b_dib (bs ! j) \<and> b_hash (?bs' ! j) = b_hash (bs ! j)" for j
    using pre(4) by (cases "i = j") auto
  then have "rh_pos ?bs'"
    using tab(2) by (simp add: rh_pos_def dib home_def occupied_def)
  moreover have "b_hash (bs ! i) = h (b_item e)"
    using set_pre_match_hash [OF assms(1,2) pre(4) assms(3)] assms(4) pre(3) by simp
  then have "hashes_ok h ?bs'" using tab(4) by (intro hashes_ok_update) auto
  ultimately show "rh_table key h msk ?bs'" using tab(1) by (simp add: rh_table_def)
qed

text \<open>
  What the loop promises: the table stays well formed; either the key was absent and the item was
  added, or an item with the same key was replaced and is returned.
\<close>

definition set_result ::
  "('a \<Rightarrow> 'k) \<Rightarrow> ('a \<Rightarrow> u48) \<Rightarrow> u64 \<Rightarrow> 'a bucket list \<Rightarrow> 'a \<Rightarrow> 'a option \<Rightarrow> 'a bucket list \<Rightarrow> bool" where
  "set_result key h msk bs item old bs' \<longleftrightarrow>
     rh_table key h msk bs' \<and> length bs' = length bs \<and>
     (case old of
        None \<Rightarrow> key item \<notin> key ` set (hm_items bs) \<and>
          mset (hm_items bs') = add_mset item (mset (hm_items bs))
      | Some x \<Rightarrow> x \<in> set (hm_items bs) \<and> key x = key item \<and>
          add_mset x (mset (hm_items bs')) = add_mset item (mset (hm_items bs)))"

lemma set_result_fresh:
  assumes "set_result key h msk bs item old bs'" and "key item \<notin> key ` set (hm_items bs)"
  shows "old = None"
proof (cases old)
  case (Some x)
  with assms(1) have "x \<in> set (hm_items bs)" "key x = key item" by (simp_all add: set_result_def)
  with assms(2) show ?thesis by (metis image_eqI)
qed

lemma set_loop_empty:
  assumes "hash_of_key key h" and "set_pre key h msk bs (unat i) e" and "\<not> occupied (bs ! unat i)"
  shows "set_loop compare msk bs i e = Some (None, bs[unat i := e])"
    and "set_result key h msk bs (b_item e) None (bs[unat i := e])"
proof -
  have less: "dib bs (unat i) < unat (b_dib e)"
    using set_preD(5) [OF assms(2)] assms(3) by (simp add: dib_def occupied_dib)
  show "set_loop compare msk bs i e = Some (None, bs[unat i := e])"
    using assms(3) by (simp add: set_loop.simps [of _ _ _ i] bucket_at_def occupied_def Let_def)
  show "set_result key h msk bs (b_item e) None (bs[unat i := e])"
    using set_pre_store [OF assms(1,2) less] set_pre_absent [OF assms(1,2) less] assms(3)
    by (simp add: set_result_def)
qed

lemma set_loop_found:
  assumes "hash_of_key key h" and "set_pre key h msk bs i e" and "occupied (bs ! i)"
    and "key (b_item e) = key (b_item (bs ! i))"
  shows "set_result key h msk bs (b_item e) (Some (b_item (bs ! i)))
    (bs[i := (bs ! i)\<lparr>b_item := b_item e\<rparr>])"
  using set_pre_replace [OF assms] hm_items_nth [OF set_preD(4) [OF assms(2)] assms(3)] assms(4)
  by (simp add: set_result_def)

text \<open>A swap hands the obligation on: adding the displaced item to the updated table.\<close>

lemma set_result_swap:
  assumes "hash_of_key key h" and "set_pre key h msk bs i e" and "dib bs i < unat (b_dib e)"
    and "occupied (bs ! i)" and "q < length bs" and "\<not> occupied (bs ! q)"
    and "set_result key h msk (bs[i := e]) (b_item (bs ! i)) old bs'"
  shows "set_result key h msk bs (b_item e) old bs'"
proof -
  note absent = set_pre_swap(2) [OF assms(1-6)]
  have old: "old = None" by (rule set_result_fresh [OF assms(7) absent])
  with assms(7) set_pre_store(2) [OF assms(1-3)] assms(4) set_pre_absent [OF assms(1-3)]
  show ?thesis by (simp add: set_result_def)
qed

lemma set_loop_spec:
  assumes cmp: "\<And>x y. compare x y = 0 \<longleftrightarrow> key x = key y" and hk: "hash_of_key key h"
  shows "set_pre key h msk bs (unat i) e \<Longrightarrow> \<not> occupied (bs ! ((unat i + t) mod length bs)) \<Longrightarrow>
    \<exists>old bs'. set_loop compare msk bs i e = Some (old, bs') \<and>
      set_result key h msk bs (b_item e) old bs'"
proof (induction t arbitrary: bs i e)
  case 0
  then have "\<not> occupied (bs ! unat i)" using set_preD(4) [OF 0(1)] by simp
  with set_loop_empty [OF hk 0(1)] show ?case by blast
next
  case (Suc t)
  note pre = set_preD [OF Suc(2)]
  note tab = rh_tableD [OF pre(1)]
  let ?b = "bs ! unat i" and ?i' = "(i + 1) AND msk" and ?q = "(unat i + Suc t) mod length bs"
  have i': "unat ?i' = Suc (unat i) mod length bs" by (rule unat_next_index [OF tab(1)])
  have q: "?q < length bs" using pre(4) by (intro mod_less_divisor) auto
  have q': "(unat ?i' + t) mod length bs = ?q" by (simp add: i' mod_add_left_eq)
  have unfold: "set_loop compare msk bs i e =
      (if \<not> occupied ?b then Some (None, bs[unat i := e])
       else if b_hash e = b_hash ?b \<and> compare (b_item e) (b_item ?b) = 0 then
         Some (Some (b_item ?b), bs[unat i := ?b\<lparr>b_item := b_item e\<rparr>])
       else if dib bs (unat i) < unat (b_dib e) then
         set_loop compare msk (bs[unat i := e]) ?i' (?b\<lparr>b_dib := b_dib ?b + 1\<rparr>)
       else set_loop compare msk bs ?i' (e\<lparr>b_dib := b_dib e + 1\<rparr>))"
    by (simp add: set_loop.simps [of _ _ _ i] bucket_at_def occupied_def dib_def word_less_nat_alt
        Let_def)
  have match: "b_hash e = b_hash ?b \<and> compare (b_item e) (b_item ?b) = 0 \<longleftrightarrow>
      key (b_item e) = key (b_item ?b)" if "occupied ?b"
    using set_pre_match_hash [OF hk Suc(2) pre(4) that] cmp by auto
  consider (empty) "\<not> occupied ?b" | (found) "occupied ?b" "key (b_item e) = key (b_item ?b)"
    | (swap) "occupied ?b" "key (b_item e) \<noteq> key (b_item ?b)" "dib bs (unat i) < unat (b_dib e)"
    | (skip) "occupied ?b" "key (b_item e) \<noteq> key (b_item ?b)" "\<not> dib bs (unat i) < unat (b_dib e)"
    by blast
  then show ?case
  proof cases
    case empty
    with set_loop_empty [OF hk Suc(2)] show ?thesis by blast
  next
    case found
    with match show ?thesis using set_loop_found [OF hk Suc(2)] by (simp add: unfold)
  next
    case swap
    have "?q \<noteq> unat i" using Suc(3) swap(1) by auto
    then obtain old bs' where r: "set_loop compare msk (bs[unat i := e]) ?i'
        (?b\<lparr>b_dib := b_dib ?b + 1\<rparr>) = Some (old, bs')"
        "set_result key h msk (bs[unat i := e]) (b_item ?b) old bs'"
      using Suc(1) [of "bs[unat i := e]" ?i' "?b\<lparr>b_dib := b_dib ?b + 1\<rparr>"]
        set_pre_swap(1) [OF hk Suc(2) swap(3,1) q Suc(3)] Suc(3) q' i' by auto
    then show ?thesis
      using set_result_swap [OF hk Suc(2) swap(3,1) q Suc(3) r(2)] swap match unfold by auto
  next
    case skip
    have "set_pre key h msk bs (unat ?i') (e\<lparr>b_dib := b_dib e + 1\<rparr>)"
      using set_pre_skip [OF hk Suc(2) skip(3) _ q Suc(3)] skip(2) i' by simp
    moreover have "set_loop compare msk bs i e = set_loop compare msk bs ?i' (e\<lparr>b_dib := b_dib e + 1\<rparr>)"
      by (subst unfold) (use skip match in auto)
    ultimately show ?thesis
      using Suc(1) [of bs ?i' "e\<lparr>b_dib := b_dib e + 1\<rparr>"] Suc(3) q' by simp
  qed
qed

section \<open>The loops of hashmap_get and hashmap_delete\<close>

text \<open>
  The probe for the key of \<open>k\<close> stands at distance \<open>c\<close> from its home: a bucket that holds the key
  is further away than \<open>c\<close>.
\<close>

definition find_pre ::
  "('a \<Rightarrow> 'k) \<Rightarrow> ('a \<Rightarrow> u48) \<Rightarrow> u64 \<Rightarrow> 'a bucket list \<Rightarrow> 'a \<Rightarrow> nat \<Rightarrow> nat \<Rightarrow> bool" where
  "find_pre key h msk bs k c i \<longleftrightarrow> rh_table key h msk bs \<and> i = (unat (h k) + c) mod length bs \<and>
     (\<forall>p<length bs. occupied (bs ! p) \<and> key (b_item (bs ! p)) = key k \<longrightarrow> Suc c \<le> dib bs p)"

lemma find_pre_index: "find_pre key h msk bs k c i \<Longrightarrow> i < length bs"
  using probe_table_length rh_tableD(1) mod_less_divisor
  unfolding find_pre_def by (metis less_trans zero_less_one)

lemma home_ahead:
  assumes "rh_pos bs" and "p < length bs" and "occupied (bs ! p)" and "Suc c \<le> dib bs p"
  shows "p = ((unat (b_hash (bs ! p)) + c) mod length bs + (dib bs p - Suc c)) mod length bs"
proof -
  have "p = (home (length bs) (bs ! p) + (dib bs p - 1)) mod length bs"
    using assms(1-3) unfolding rh_pos_def by metis
  also have "dib bs p - 1 = c + (dib bs p - Suc c)" using assms(4) by simp
  finally show ?thesis by (simp add: home_def mod_add_left_eq add.assoc)
qed

lemma find_pre_match:
  assumes "hash_of_key key h" and "find_pre key h msk bs k c i" and "p < length bs"
    and "occupied (bs ! p)" and "key (b_item (bs ! p)) = key k"
  shows "occupied (bs ! i)" and "i \<noteq> p \<Longrightarrow> Suc (Suc c) \<le> dib bs p"
proof -
  have tab: "rh_table key h msk bs" and far: "Suc c \<le> dib bs p"
    and i: "i = (unat (h k) + c) mod length bs"
    using assms(2-5) by (simp_all add: find_pre_def)
  have "b_hash (bs ! p) = h k"
    using rh_tableD(4) [OF tab] assms(1,3-5) unfolding hashes_ok_def hash_of_key_def
    by (metis nth_mem)
  then have p: "p = (i + (dib bs p - Suc c)) mod length bs"
    using home_ahead [OF rh_tableD(2) [OF tab] assms(3,4) far] i by simp
  have lt: "i < length bs" using i assms(3) by (auto intro: mod_less_divisor)
  have "dib bs p \<le> dib bs i + (dib bs p - Suc c)"
    using rh_ord_back [OF rh_tableD(3) [OF tab] lt, of "dib bs p - Suc c"] p by simp
  with far show "occupied (bs ! i)" by (simp add: occupied_dib dib_def)
  show "i \<noteq> p \<Longrightarrow> Suc (Suc c) \<le> dib bs p"
    using p lt far by (cases "dib bs p = Suc c") auto
qed

text \<open>What the search returns: the position of the bucket with the key, if there is one.\<close>

definition find_result :: "('a \<Rightarrow> 'k) \<Rightarrow> 'a bucket list \<Rightarrow> 'a \<Rightarrow> u64 option \<Rightarrow> bool" where
  "find_result key bs k r \<longleftrightarrow>
     (case r of
        None \<Rightarrow> key k \<notin> key ` set (hm_items bs)
      | Some j \<Rightarrow> unat j < length bs \<and> occupied (bs ! unat j) \<and> key (b_item (bs ! unat j)) = key k)"

lemma find_result_item:
  assumes "find_result key bs k (Some j)"
  shows "b_item (bs ! unat j) \<in> set (hm_items bs)"
  using assms by (simp add: find_result_def hm_items_nth)

lemma find_loops_spec:
  assumes cmp: "\<And>x y. compare x y = 0 \<longleftrightarrow> key x = key y" and hk: "hash_of_key key h"
  shows "find_pre key h msk bs k c (unat i) \<Longrightarrow>
    \<not> occupied (bs ! ((unat i + t) mod length bs)) \<Longrightarrow>
    \<exists>r. delete_find compare msk bs (ucast (h k)) i k = Some r \<and> find_result key bs k r \<and>
        get_loop compare msk bs (ucast (h k)) i k = Some (map_option (\<lambda>j. b_item (bs ! unat j)) r)"
proof (induction t arbitrary: c i)
  case 0
  have tab: "rh_table key h msk bs" using 0(1) by (simp add: find_pre_def)
  have "unat i < length bs" by (rule find_pre_index [OF 0(1)])
  with 0(2) have empty: "\<not> occupied (bs ! unat i)" by simp
  have "key k \<notin> key ` set (hm_items bs)"
    using find_pre_match(1) [OF hk 0(1)] empty hm_items_ex [of _ bs] by (metis imageE)
  with empty show ?case
    by (simp add: delete_find.simps [of _ _ _ _ i] get_loop.simps [of _ _ _ _ i] bucket_at_def
        occupied_def find_result_def Let_def)
next
  case (Suc t)
  have tab: "rh_table key h msk bs" using Suc(2) by (simp add: find_pre_def)
  note tabs = rh_tableD [OF tab]
  let ?b = "bs ! unat i" and ?i' = "(i + 1) AND msk"
  have i: "unat i < length bs" "unat i = (unat (h k) + c) mod length bs"
    using find_pre_index [OF Suc(2)] Suc(2) by (simp_all add: find_pre_def)
  have i': "unat ?i' = Suc (unat i) mod length bs" by (rule unat_next_index [OF tabs(1)])
  have match: "ucast (b_hash ?b) = (ucast (h k) :: u64) \<and> compare k (b_item ?b) = 0 \<longleftrightarrow>
      key k = key (b_item ?b)" if "occupied ?b"
    using tabs(4) that i(1) hk cmp unfolding hashes_ok_def hash_of_key_def by (metis nth_mem)
  consider (empty) "\<not> occupied ?b" | (found) "occupied ?b" "key k = key (b_item ?b)"
    | (skip) "occupied ?b" "key k \<noteq> key (b_item ?b)" by blast
  then show ?case
  proof cases
    case empty
    then have "key k \<notin> key ` set (hm_items bs)"
      using find_pre_match(1) [OF hk Suc(2)] hm_items_ex [of _ bs] by (metis imageE)
    with empty show ?thesis
      by (simp add: delete_find.simps [of _ _ _ _ i] get_loop.simps [of _ _ _ _ i] bucket_at_def
          occupied_def find_result_def Let_def)
  next
    case found
    with match i(1) show ?thesis
      by (simp add: delete_find.simps [of _ _ _ _ i] get_loop.simps [of _ _ _ _ i] bucket_at_def
          occupied_def find_result_def Let_def)
  next
    case skip
    have "Suc (Suc c) \<le> dib bs p"
      if "p < length bs" "occupied (bs ! p)" "key (b_item (bs ! p)) = key k" for p
      using find_pre_match(2) [OF hk Suc(2) that] that skip(2) by metis
    then have "find_pre key h msk bs k (Suc c) (unat ?i')"
      using tab i(2) i' by (simp add: find_pre_def mod_Suc_eq)
    moreover have "\<not> occupied (bs ! ((unat ?i' + t) mod length bs))"
      using Suc(3) by (simp add: i' mod_add_left_eq)
    moreover have "delete_find compare msk bs (ucast (h k)) i k =
          delete_find compare msk bs (ucast (h k)) ?i' k"
        "get_loop compare msk bs (ucast (h k)) i k = get_loop compare msk bs (ucast (h k)) ?i' k"
      using skip match
      by (auto simp: delete_find.simps [of _ _ _ _ i] get_loop.simps [of _ _ _ _ i]
          bucket_at_def occupied_def Let_def)
    ultimately show ?thesis using Suc(1) [of "Suc c" ?i'] by simp
  qed
qed

section \<open>The backward shift of hashmap_delete\<close>

text \<open>
  During the shift the bucket at \<open>p\<close> is stale: it is about to be overwritten or cleared, and
  \<open>hole bs p\<close> is the table without it. The order holds with the stale bucket in place.
\<close>

definition hole :: "'a bucket list \<Rightarrow> nat \<Rightarrow> 'a bucket list" where
  "hole bs p = bs[p := (bs ! p)\<lparr>b_dib := 0\<rparr>]"

definition shift_pre :: "('a \<Rightarrow> u48) \<Rightarrow> u64 \<Rightarrow> 'a bucket list \<Rightarrow> nat \<Rightarrow> bool" where
  "shift_pre h msk bs p \<longleftrightarrow> probe_table msk bs \<and> rh_ord bs \<and> hashes_ok h bs \<and> p < length bs \<and>
     occupied (bs ! p) \<and> rh_pos (hole bs p)"

lemma occupied_cleared [simp]: "\<not> occupied (b\<lparr>b_dib := 0\<rparr>)"
  by (simp add: occupied_def)

lemma length_hole [simp]: "length (hole bs p) = length bs"
  by (simp add: hole_def)

lemma hole_nth_other [simp]: "j \<noteq> p \<Longrightarrow> hole bs p ! j = bs ! j"
  by (simp add: hole_def)

lemma hole_nth_same [simp]: "p < length bs \<Longrightarrow> hole bs p ! p = (bs ! p)\<lparr>b_dib := 0\<rparr>"
  by (simp add: hole_def)

lemma hm_items_hole:
  "p < length bs \<Longrightarrow> occupied (bs ! p) \<Longrightarrow>
     add_mset (b_item (bs ! p)) (mset (hm_items (hole bs p))) = mset (hm_items bs)"
  using hm_items_update [of p bs "(bs ! p)\<lparr>b_dib := 0\<rparr>"] by (simp add: hole_def)

lemma shift_end:
  assumes "shift_pre h msk bs p" and "dib bs (Suc p mod length bs) \<le> 1"
  shows "rh_pos (hole bs p)" "rh_ord (hole bs p)" "hashes_ok h (hole bs p)"
proof -
  have pre: "rh_ord bs" "hashes_ok h bs" "p < length bs" "rh_pos (hole bs p)"
    using assms(1) by (simp_all add: shift_pre_def)
  show "rh_pos (hole bs p)" by (rule pre(4))
  show "hashes_ok h (hole bs p)"
    unfolding hole_def by (rule hashes_ok_update [OF pre(2)]) simp
  have dib_hole: "dib (hole bs p) j = (if j = p then 0 else dib bs j)" for j
    using pre(3) by (simp add: dib_def)
  show "rh_ord (hole bs p)"
    using pre(1,3) assms(2) by (simp add: rh_ord_def dib_hole)
qed

lemma shift_step:
  assumes "shift_pre h msk bs p" and "i = Suc p mod length bs" and "1 < dib bs i"
  defines "bs1 \<equiv> bs[p := (bs ! i)\<lparr>b_dib := b_dib (bs ! i) - 1\<rparr>]"
  shows "shift_pre h msk bs1 i" and "mset (hm_items (hole bs1 i)) = mset (hm_items (hole bs p))"
proof -
  have pre: "probe_table msk bs" "rh_ord bs" "hashes_ok h bs" "p < length bs" "occupied (bs ! p)"
      "rh_pos (hole bs p)" using assms(1) by (simp_all add: shift_pre_def)
  have n: "1 < length bs" using probe_table_length [OF pre(1)] by simp
  let ?b = "(bs ! i)\<lparr>b_dib := b_dib (bs ! i) - 1\<rparr>"
  have i: "i < length bs" "i \<noteq> p" using n pre(4) by (auto simp: assms(2) mod_Suc)
  have d: "unat (b_dib ?b) = dib bs i - 1"
    using assms(3) unat_sub [of 1 "b_dib (bs ! i)"] by (simp add: dib_def word_le_nat_alt)
  have occ: "occupied ?b" "occupied (bs ! i)"
    using d assms(3) by (simp_all add: occupied_dib dib_def)
  have dib1: "dib bs1 j = (if j = p then dib bs i - 1 else dib bs j)" for j
    using pre(4) d by (simp add: bs1_def dib_update)
  have "rh_ord bs1"
    unfolding rh_ord_def
  proof (intro allI impI)
    fix j
    assume "j < length bs1"
    then have j: "j < length bs" by (simp add: bs1_def)
    have "dib bs (Suc j mod length bs) \<le> Suc (dib bs j)" "dib bs i \<le> Suc (dib bs p)"
      using pre(2,4) j unfolding rh_ord_def assms(2) by blast+
    moreover have "length bs1 = length bs" by (simp add: bs1_def)
    moreover have "j = p \<Longrightarrow> Suc j mod length bs = i" by (simp add: assms(2))
    ultimately show "dib bs1 (Suc j mod length bs1) \<le> Suc (dib bs1 j)"
      using i(2) by (cases "j = p"; cases "Suc j mod length bs = p") (simp_all add: dib1)
  qed
  moreover have "rh_pos (hole bs1 i)"
  proof (rule rh_posI)
    fix j
    assume j: "j < length (hole bs1 i)" "occupied (hole bs1 i ! j)"
    have len: "length bs1 = length bs" and lt: "j < length bs" using j(1) by (simp_all add: bs1_def)
    have ji: "j \<noteq> i" using j i(1) len by auto
    show "(home (length (hole bs1 i)) (hole bs1 i ! j) + (unat (b_dib (hole bs1 i ! j)) - 1))
        mod length (hole bs1 i) = j"
    proof (cases "j = p")
      case True
      have "(home (length bs) (bs ! i) + (dib bs i - 1)) mod length bs = Suc p mod length bs"
        using rh_posD [OF pre(6), of i] i occ(2) assms(2) by (simp add: dib_def)
      moreover have "dib bs i - 1 = Suc (dib bs i - 2)" using assms(3) by linarith
      ultimately have "Suc (home (length bs) (bs ! i) + (dib bs i - 2)) mod length bs = Suc p mod length bs"
        by (metis add_Suc_right)
      then have "(home (length bs) (bs ! i) + (dib bs i - 2)) mod length bs = p"
        by (rule mod_Suc_cancel [OF _ pre(4)])
      with True ji pre(4) d show ?thesis by (simp add: bs1_def home_def numeral_2_eq_2)
    next
      case False
      then have "hole bs1 i ! j = hole bs p ! j" using ji by (simp add: bs1_def)
      with rh_posD [OF pre(6), of j] j(2) lt len show ?thesis by simp
    qed
  qed
  moreover have "hashes_ok h bs1"
    using pre(3) i(1) occ(2) unfolding bs1_def
    by (intro hashes_ok_update) (simp_all add: hashes_ok_def)
  ultimately show "shift_pre h msk bs1 i"
    using pre(1) i occ(2) by (simp add: shift_pre_def bs1_def)
  have "add_mset (b_item (bs ! p)) (mset (hm_items bs1)) = add_mset (b_item (bs ! i)) (mset (hm_items bs))"
    using hm_items_update [OF pre(4), of ?b] pre(5) occ(1) by (simp add: bs1_def)
  moreover have "add_mset (b_item (bs ! i)) (mset (hm_items (hole bs1 i))) = mset (hm_items bs1)"
    using hm_items_hole [of i bs1] i occ(2) by (simp add: bs1_def)
  ultimately have "add_mset (b_item (bs ! p)) (add_mset (b_item (bs ! i)) (mset (hm_items (hole bs1 i)))) =
      add_mset (b_item (bs ! p)) (add_mset (b_item (bs ! i)) (mset (hm_items (hole bs p))))"
    using hm_items_hole [OF pre(4,5)] by (simp add: add_mset_commute)
  then show "mset (hm_items (hole bs1 i)) = mset (hm_items (hole bs p))" by simp
qed

lemma delete_shift_spec:
  "shift_pre h msk bs (unat p) \<Longrightarrow> \<not> occupied (bs ! ((unat p + Suc t) mod length bs)) \<Longrightarrow>
    \<exists>bs'. delete_shift msk bs p = Some bs' \<and> probe_table msk bs' \<and> length bs' = length bs \<and>
      rh_pos bs' \<and> rh_ord bs' \<and> hashes_ok h bs' \<and>
      mset (hm_items bs') = mset (hm_items (hole bs (unat p)))"
proof (induction t arbitrary: bs p)
  case 0
  have tab: "probe_table msk bs" using 0(1) by (simp add: shift_pre_def)
  have i: "unat ((p + 1) AND msk) = Suc (unat p) mod length bs" by (rule unat_next_index [OF tab])
  have empty: "dib bs (Suc (unat p) mod length bs) = 0" using 0(2) by (simp add: occupied_dib dib_def)
  then have "delete_shift msk bs p = Some (hole bs (unat p))"
    by (simp add: delete_shift.simps [of _ _ p] bucket_at_def i hole_def dib_def Let_def
        word_le_nat_alt)
  with shift_end [OF 0(1)] empty tab show ?case by (auto simp: hole_def)
next
  case (Suc t)
  have tab: "probe_table msk bs" using Suc(2) by (simp add: shift_pre_def)
  let ?i = "(p + 1) AND msk"
  let ?bs1 = "bs[unat p := (bs ! unat ?i)\<lparr>b_dib := b_dib (bs ! unat ?i) - 1\<rparr>]"
  have i: "unat ?i = Suc (unat p) mod length bs" by (rule unat_next_index [OF tab])
  have unfold: "delete_shift msk bs p =
      (if dib bs (unat ?i) \<le> 1 then Some (hole bs (unat p)) else delete_shift msk ?bs1 ?i)"
    by (simp add: delete_shift.simps [of _ _ p] bucket_at_def hole_def dib_def Let_def
        word_le_nat_alt)
  show ?case
  proof (cases "dib bs (unat ?i) \<le> 1")
    case True
    with shift_end [OF Suc(2)] tab i show ?thesis by (auto simp: unfold hole_def)
  next
    case False
    then have gt: "1 < dib bs (unat ?i)" by simp
    note step = shift_step [OF Suc(2) i gt]
    have q: "(unat ?i + Suc t) mod length bs = (unat p + Suc (Suc t)) mod length bs"
      using mod_add_left_eq [of "Suc (unat p)" "length bs" "Suc t"] by (simp add: i)
    have "unat p \<noteq> (unat p + Suc (Suc t)) mod length bs"
      using Suc(2,3) by (auto simp: shift_pre_def)
    then have "\<not> occupied (?bs1 ! ((unat ?i + Suc t) mod length ?bs1))"
      using Suc(3) q by simp
    from Suc(1) [OF step(1) this] show ?thesis using False step(2) by (simp add: unfold)
  qed
qed

text \<open>The code clears the bucket before it shifts; the shift reads it only to overwrite it.\<close>

lemma delete_shift_hole:
  assumes "probe_table msk bs" and "unat p < length bs"
  shows "delete_shift msk (hole bs (unat p)) p = delete_shift msk bs p"
proof -
  have i: "unat ((p + 1) AND msk) = Suc (unat p) mod length bs" by (rule unat_next_index [OF assms(1)])
  have "Suc (unat p) mod length bs \<noteq> unat p"
    using assms(2) probe_table_length [OF assms(1)] by (auto simp: mod_Suc)
  with assms(2) show ?thesis
    by (simp add: delete_shift.simps [of _ "hole bs (unat p)" p] delete_shift.simps [of _ bs p]
        bucket_at_def i Let_def) (simp add: hole_def)
qed

section \<open>The placement loop of resize\<close>

text \<open>Where \<open>hashmap_set\<close> meets no equal key, the loop of \<open>resize\<close> makes the same steps.\<close>

lemma resize_place_set_loop:
  assumes "set_loop compare msk bs i e = Some r" and "fst r = None"
  shows "resize_place msk bs i e = Some (snd r)"
proof -
  have "fst r = None \<longrightarrow> resize_place msk bs i e = Some (snd r)"
  proof (rule set_loop.raw_induct [where P = "\<lambda>compare msk bs i e r.
        fst r = None \<longrightarrow> resize_place msk bs i e = Some (snd r)", OF _ assms(1)])
    fix loop compare msk bs i e r
    assume "\<And>compare msk bs i e r. loop compare msk bs i e = Some r \<Longrightarrow>
        fst r = None \<longrightarrow> resize_place msk bs i e = Some (snd r)"
      and "(let bucket = bucket_at bs i
        in if b_dib bucket = 0 then Some (None, bs[unat i := e])
           else if b_hash e = b_hash bucket \<and> compare (b_item e) (b_item bucket) = 0
                then Some (Some (b_item bucket), bs[unat i := bucket\<lparr>b_item := b_item e\<rparr>])
                else if b_dib bucket < b_dib e
                     then loop compare msk (bs[unat i := e]) (i + 1 AND msk)
                           (bucket\<lparr>b_dib := b_dib bucket + 1\<rparr>)
                     else loop compare msk bs (i + 1 AND msk) (e\<lparr>b_dib := b_dib e + 1\<rparr>)) = Some r"
    then show "fst r = None \<longrightarrow> resize_place msk bs i e = Some (snd r)"
      by (subst resize_place.simps) (auto simp: Let_def split: if_splits)
  qed
  with assms(2) show ?thesis by simp
qed

end
