(* ===== verification/Hashmap_Ops.thy ===== *)
theory Hashmap_Ops
  imports Robin_Hood Tag_Interfaces
begin

text \<open>
  The operations of the hash map against a finite map: \<open>hm_wf\<close> is the invariant of the whole
  record, \<open>hm_map\<close> its abstraction. \<open>key\<close> projects an item to what \<open>compare\<close> compares.
\<close>

section \<open>The invariant and the abstraction\<close>

definition hm_h :: "'a hashmap \<Rightarrow> 'a \<Rightarrow> u48" where
  "hm_h m item = ucast (get_hash m item)"

text \<open>The contract on the function pointers: comparison and hash depend on the key only.\<close>

definition hm_keyed :: "('a \<Rightarrow> 'k) \<Rightarrow> 'a hashmap \<Rightarrow> bool" where
  "hm_keyed key m \<longleftrightarrow> (\<forall>x y. hm_compare m x y = 0 \<longleftrightarrow> key x = key y) \<and>
     (\<forall>x y. key x = key y \<longrightarrow> get_hash m x = get_hash m y)"

definition hm_sizes :: "nat \<Rightarrow> nat \<Rightarrow> 'a hashmap \<Rightarrow> bool" where
  "hm_sizes c k m \<longleftrightarrow> 4 \<le> c \<and> c \<le> k \<and> k \<le> 15 \<and> hm_nbuckets m = 2 ^ k \<and> hm_cap m = 2 ^ c \<and>
     length (hm_buckets m) = 2 ^ k \<and> hm_mask m = 2 ^ k - 1 \<and> hm_growat m = 2 ^ k * 3 div 4 \<and>
     hm_shrinkat m = 2 ^ k div 10"

definition hm_wf :: "('a \<Rightarrow> 'k) \<Rightarrow> 'a hashmap \<Rightarrow> bool" where
  "hm_wf key m \<longleftrightarrow> hm_keyed key m \<and> (\<exists>c k. hm_sizes c k m) \<and>
     rh_table key (hm_h m) (hm_mask m) (hm_buckets m) \<and>
     unat (hm_count m) = length (hm_items (hm_buckets m)) \<and> hm_count m \<le> hm_growat m"

definition hm_map :: "('a \<Rightarrow> 'k) \<Rightarrow> 'a hashmap \<Rightarrow> 'k \<Rightarrow> 'a option" where
  "hm_map key m = map_of (map (\<lambda>x. (key x, x)) (hm_items (hm_buckets m)))"

lemma ucast_ucast_hash: "ucast (hm_h m x) = get_hash m x"
  by (auto intro!: bit_word_eqI simp: hm_h_def get_hash_def bit_simps)

lemma hm_keyed_hash: "hm_keyed key m \<Longrightarrow> hash_of_key key (hm_h m)"
  unfolding hm_keyed_def hash_of_key_def hm_h_def by metis

lemma map_of_keys_iff:
  "distinct (map key xs) \<Longrightarrow>
     map_of (map (\<lambda>x. (key x, x)) xs) k = Some x \<longleftrightarrow> x \<in> set xs \<and> key x = k"
  by (auto simp: comp_def map_of_eq_Some_iff)

lemma map_of_keys_None: "map_of (map (\<lambda>x. (key x, x)) xs) k = None \<longleftrightarrow> k \<notin> key ` set xs"
  by (simp add: map_of_eq_None_iff image_image)

lemma map_of_keys_add:
  assumes "mset ys = add_mset x (mset xs)" and "distinct (map key ys)"
  shows "map_of (map (\<lambda>x. (key x, x)) ys) = (map_of (map (\<lambda>x. (key x, x)) xs))(key x \<mapsto> x)"
proof -
  have "distinct (map key (x # xs))"
    using assms distinct_map_add_mset by (metis distinct.simps(2) list.set_map list.simps(9))
  moreover have "set ys = set (x # xs)" using assms(1) by (metis mset.simps(2) set_mset_mset)
  ultimately have "map_of (map (\<lambda>x. (key x, x)) ys) = map_of (map (\<lambda>x. (key x, x)) (x # xs))"
    using map_of_inject_set [of "map (\<lambda>x. (key x, x)) ys" "map (\<lambda>x. (key x, x)) (x # xs)"] assms(2)
    by (simp add: comp_def)
  then show ?thesis by simp
qed

lemma unat_2p: "k < 64 \<Longrightarrow> unat (2 ^ k :: u64) = 2 ^ k"
  using unat_of_nat [of "2 ^ k", where 'a = 64] power_strict_increasing [of k 64 "2::nat"] by simp

lemma hm_sizes_unat:
  assumes "hm_sizes c k m"
  shows "unat (hm_nbuckets m) = 2 ^ k" "unat (hm_cap m) = 2 ^ c"
    "unat (hm_growat m) = 2 ^ k * 3 div 4" "unat (hm_shrinkat m) = 2 ^ k div 10"
proof -
  have k: "k \<le> 15" "c \<le> 15" "(2::nat) ^ k \<le> 2 ^ 15"
    using assms power_increasing [of k 15 "2::nat"] by (auto simp: hm_sizes_def)
  show "unat (hm_nbuckets m) = 2 ^ k" "unat (hm_cap m) = 2 ^ c"
    using assms k by (simp_all add: hm_sizes_def unat_2p)
  have "unat (2 ^ k * 3 :: u64) = 2 ^ k * 3"
    using k by (simp add: unat_word_ariths unat_2p)
  then show "unat (hm_growat m) = 2 ^ k * 3 div 4" "unat (hm_shrinkat m) = 2 ^ k div 10"
    using assms k by (simp_all add: hm_sizes_def unat_div unat_2p)
qed

lemma hm_sizes_probe_table: "hm_sizes c k m \<Longrightarrow> probe_table (hm_mask m) (hm_buckets m)"
  unfolding hm_sizes_def probe_table_def by (intro exI [of _ k]) auto

lemma hm_wfD:
  assumes "hm_wf key m"
  shows "hm_keyed key m" "hash_of_key key (hm_h m)"
    "rh_table key (hm_h m) (hm_mask m) (hm_buckets m)"
    "unat (hm_count m) = length (hm_items (hm_buckets m))" "hm_count m \<le> hm_growat m"
    "\<And>x y. hm_compare m x y = 0 \<longleftrightarrow> key x = key y"
proof -
  show k: "hm_keyed key m" using assms by (simp add: hm_wf_def)
  show "hash_of_key key (hm_h m)" by (rule hm_keyed_hash [OF k])
  show "\<And>x y. hm_compare m x y = 0 \<longleftrightarrow> key x = key y" using k unfolding hm_keyed_def by blast
qed (use assms in \<open>simp_all add: hm_wf_def\<close>)

text \<open>The load factor leaves an empty bucket.\<close>

lemma hm_items_length: "length (hm_items bs) = length (filter occupied bs)"
  by (simp add: hm_items_def)

lemma ex_empty:
  "length (hm_items bs) < length bs \<Longrightarrow> \<exists>q<length bs. \<not> occupied (bs ! q)"
  by (metis hm_items_length filter_id_conv in_set_conv_nth less_irrefl)

lemma three_quarters: "0 < n \<Longrightarrow> n * 3 div 4 < (n::nat)"
  by linarith

lemma hm_wf_empty_bucket:
  assumes "hm_wf key m"
  shows "\<exists>q<length (hm_buckets m). \<not> occupied (hm_buckets m ! q)"
proof -
  obtain c k where sz: "hm_sizes c k m" using assms by (auto simp: hm_wf_def)
  have "unat (hm_count m) \<le> unat (hm_growat m)"
    using hm_wfD(5) [OF assms] by (simp add: word_le_nat_alt)
  also have "\<dots> < 2 ^ k" using three_quarters [of "2 ^ k"] by (simp add: hm_sizes_unat [OF sz])
  finally show ?thesis
    using hm_wfD(4) [OF assms] sz by (intro ex_empty) (simp add: hm_sizes_def)
qed

section \<open>hashmap_get\<close>

lemma home_index:
  assumes "probe_table msk bs"
  shows "unat (get_hash m x AND msk) = unat (hm_h m x) mod length bs"
  using unat_mask_index [OF assms, of "get_hash m x"] unat_ucast_hash [of "hm_h m x"]
  by (simp add: ucast_ucast_hash)

lemma find_start:
  assumes "hm_wf key m"
  shows "find_pre key (hm_h m) (hm_mask m) (hm_buckets m) x 0
    (unat (get_hash m x AND hm_mask m))"
proof -
  note tab = hm_wfD(3) [OF assms]
  have "Suc 0 \<le> dib (hm_buckets m) p" if "occupied (hm_buckets m ! p)" for p
    using that by (simp add: dib_def occupied_dib)
  then show ?thesis
    using tab home_index [OF rh_tableD(1) [OF tab], of m x] by (simp add: find_pre_def)
qed

lemma hm_find:
  assumes "hm_wf key m"
  obtains r where
    "delete_find (hm_compare m) (hm_mask m) (hm_buckets m) (get_hash m x)
       (get_hash m x AND hm_mask m) x = Some r"
    "find_result key (hm_buckets m) x r"
    "hashmap_get m x = Some (map_option (\<lambda>j. b_item (hm_buckets m ! unat j)) r)"
proof -
  note start = find_start [OF assms, of x]
  obtain q where q: "q < length (hm_buckets m)" "\<not> occupied (hm_buckets m ! q)"
    using hm_wf_empty_bucket [OF assms] by blast
  obtain t where "(unat (get_hash m x AND hm_mask m) + t) mod length (hm_buckets m) = q"
    using mod_reach [OF find_pre_index [OF start] q(1)] by blast
  with q(2) find_loops_spec [OF hm_wfD(6,2) [OF assms] start, of t] that show ?thesis
    by (auto simp: hashmap_get_def Let_def ucast_ucast_hash)
qed

lemma hm_map_find:
  assumes "hm_wf key m" and "find_result key (hm_buckets m) x r"
  shows "hm_map key m (key x) = map_option (\<lambda>j. b_item (hm_buckets m ! unat j)) r"
proof (cases r)
  case None
  with assms(2) show ?thesis by (simp add: hm_map_def find_result_def map_of_keys_None)
next
  case (Some j)
  with assms(2) have "b_item (hm_buckets m ! unat j) \<in> set (hm_items (hm_buckets m))"
      "key (b_item (hm_buckets m ! unat j)) = key x"
    using find_result_item [of key "hm_buckets m" x j] by (simp_all add: find_result_def)
  with Some rh_tableD(5) [OF hm_wfD(3) [OF assms(1)]] show ?thesis
    by (simp add: hm_map_def map_of_keys_iff)
qed

lemma hashmap_get_correct: "hm_wf key m \<Longrightarrow> hashmap_get m x = Some (hm_map key m (key x))"
  by (metis hm_find hm_map_find)

section \<open>Creation\<close>

lemma round_ncap_unfold:
  "i \<le> 30 \<Longrightarrow> round_ncap (2 ^ i) w =
     (if 2 ^ i < unat w then (if i = 30 then None else round_ncap (2 ^ Suc i) w) else Some (2 ^ i))"
proof -
  assume i: "i \<le> 30"
  have "unat (word_of_int (2 ^ i) :: u64) = 2 ^ i" using i unat_2p [of i] by simp
  then have less: "word_of_int (2 ^ i) < w \<longleftrightarrow> 2 ^ i < unat w" by (simp add: word_less_nat_alt)
  have "(2::int) ^ i * 2 > INT_MAX \<longleftrightarrow> i = 30"
  proof (cases "i = 30")
    case False
    then have "(2::int) ^ i \<le> 2 ^ 29" using i by (intro power_increasing) auto
    with False show ?thesis by (simp add: INT_MAX_def)
  qed (simp add: INT_MAX_def)
  with less show ?thesis
    by (simp add: round_ncap.simps [of "2 ^ i"] mult.commute)
qed

text \<open>Rounding a capacity of at most \<open>2 ^ 30\<close>: the least power of two that is large enough.\<close>

lemma round_ncap_least:
  assumes "unat w \<le> 2 ^ 30"
  shows "i \<le> 30 \<Longrightarrow> \<exists>j\<ge>i. j \<le> 30 \<and> round_ncap (2 ^ i) w = Some (2 ^ j) \<and> unat w \<le> 2 ^ j \<and>
    (j = i \<or> 2 ^ (j - 1) < unat w)"
proof (induction "30 - i" arbitrary: i)
  case 0
  then have "i = 30" by simp
  with assms show ?case using round_ncap_unfold [of 30 w] by (intro exI [of _ 30]) simp
next
  case (Suc d)
  show ?case
  proof (cases "2 ^ i < unat w")
    case False
    with Suc.prems show ?thesis by (intro exI [of _ i]) (simp add: round_ncap_unfold)
  next
    case True
    have d: "d = 30 - Suc i" "Suc i \<le> 30" using Suc.hyps(2) by simp_all
    obtain j where j: "Suc i \<le> j" "j \<le> 30" "round_ncap (2 ^ Suc i) w = Some (2 ^ j)"
        "unat w \<le> 2 ^ j" "j = Suc i \<or> 2 ^ (j - 1) < unat w"
      using Suc.hyps(1) [OF d] by blast
    have "round_ncap (2 ^ i) w = Some (2 ^ j)"
      using True Suc.hyps(2) Suc.prems j(3) by (subst round_ncap_unfold) auto
    with True j show ?thesis by (intro exI [of _ j]) auto
  qed
qed

lemma round_ncap_pow2:
  assumes "4 \<le> j" and "j \<le> 30"
  shows "(if (2 ^ j :: u64) < 16 then Some 16 else round_ncap 16 (2 ^ j)) = Some (2 ^ j)"
proof -
  have u: "unat (2 ^ j :: u64) = 2 ^ j" using assms(2) by (intro unat_2p) simp
  have "(2::nat) ^ 4 \<le> 2 ^ j" "(2::nat) ^ j \<le> 2 ^ 30"
    using assms power_increasing [of 4 j "2::nat"] power_increasing [of j 30 "2::nat"] by auto
  then have big: "\<not> (2 ^ j :: u64) < 16" and w: "unat (2 ^ j :: u64) \<le> 2 ^ 30"
    using u by (simp_all add: word_less_nat_alt)
  obtain i where i: "4 \<le> i" "round_ncap 16 (2 ^ j) = Some (2 ^ i)" "(2::nat) ^ j \<le> 2 ^ i"
      "i = 4 \<or> (2::nat) ^ (i - 1) < 2 ^ j"
    using round_ncap_least [OF w, of 4] u by auto
  have "j \<le> i" using i(3) by simp
  moreover have "i \<le> j"
    using i(4) assms(1) by (auto dest: power_less_imp_less_exp)
  ultimately show ?thesis using i(2) big by simp
qed

text \<open>The bucket size: the loop stops at the next multiple of eight.\<close>

lemma align_bucketsz_unfold:
  "align_bucketsz w = (if unat w mod 8 \<noteq> 0 then align_bucketsz (w + 1) else Some w)"
proof -
  have "unat (w AND (8 - 1)) = unat w mod 8" using unat_and_mask [of 3 w] by simp
  then have "w AND (8 - 1) \<noteq> 0 \<longleftrightarrow> unat w mod 8 \<noteq> 0" by (metis unat_eq_zero)
  then show ?thesis by (subst align_bucketsz.simps) presburger
qed

lemma unat_Suc_mod8: "unat ((w :: u64) + 1) mod 8 = Suc (unat w) mod 8"
  using mod_mod_cancel [of 8 "2 ^ 64" "Suc (unat w)"] by (simp add: unat_word_ariths)

lemma align_bucketsz_up:
  "(unat w + t) mod 8 = 0 \<Longrightarrow> t < 8 \<Longrightarrow> align_bucketsz w = Some (w + of_nat t)"
proof (induction t arbitrary: w)
  case 0
  then show ?case by (simp add: align_bucketsz_unfold [of w])
next
  case (Suc t)
  have "unat w mod 8 \<noteq> 0"
    using Suc.prems by (metis add_cancel_right_left mod_add_left_eq mod_less nat.simps(3))
  moreover have "(unat (w + 1) + t) mod 8 = (unat w + Suc t) mod 8"
    using unat_Suc_mod8 [of w] by (metis add_Suc_shift mod_add_left_eq)
  ultimately show ?case
    using Suc.IH [of "w + 1"] Suc.prems by (simp add: align_bucketsz_unfold [of w] algebra_simps)
qed

lemma align_bucketsz_total: "\<exists>t<8. align_bucketsz w = Some (w + of_nat t)"
proof -
  let ?t = "7 * unat w mod 8"
  have "(unat w + ?t) mod 8 = (unat w + 7 * unat w) mod 8" by (rule mod_add_right_eq)
  then have "(unat w + ?t) mod 8 = 0" "?t < 8" by simp_all
  from align_bucketsz_up [OF this] this(2) show ?thesis by (intro exI [of _ ?t] conjI)
qed

section \<open>Tables without entries\<close>

lemma zero_bucket_free [simp]: "\<not> occupied zero_bucket"
  by (simp add: occupied_def zero_bucket_def)

lemma rh_table_empty:
  assumes "probe_table msk bs" and "\<forall>b\<in>set bs. \<not> occupied b"
  shows "rh_table key h msk bs" "hm_items bs = []"
proof -
  have free: "\<not> occupied (bs ! j)" if "j < length bs" for j using assms(2) that by simp
  show items: "hm_items bs = []" using assms(2) by (simp add: hm_items_def filter_empty_conv)
  have "rh_pos bs" using free by (intro rh_posI) auto
  moreover have "rh_ord bs"
    unfolding rh_ord_def
  proof (intro allI impI)
    fix j
    assume "j < length bs"
    then have "Suc j mod length bs < length bs" by (intro mod_less_divisor) auto
    then show "dib bs (Suc j mod length bs) \<le> Suc (dib bs j)"
      using free by (simp add: dib_def occupied_dib)
  qed
  ultimately show "rh_table key h msk bs"
    using assms items by (simp add: rh_table_def hashes_ok_def)
qed

lemma hashmap_new_fields:
  assumes "4 \<le> j" and "j \<le> 15"
  shows "\<exists>r al' bsz. hashmap_new_with_allocator es (2 ^ j) s0 s1 hash cmp al = Some (r, al') \<and>
    (r = None \<or> r = Some \<lparr>hm_oom = False, hm_elsize = es, hm_cap = 2 ^ j, hm_seed0 = s0,
       hm_seed1 = s1, hm_hash = hash, hm_compare = cmp, hm_bucketsz = bsz, hm_nbuckets = 2 ^ j,
       hm_count = 0, hm_mask = 2 ^ j - 1, hm_growat = 2 ^ j * 3 div 4, hm_shrinkat = 2 ^ j div 10,
       hm_buckets = replicate (2 ^ j) zero_bucket\<rparr>)"
proof -
  obtain t where "align_bucketsz (8 + es) = Some (8 + es + of_nat t)"
    using align_bucketsz_total [of "8 + es"] by blast
  moreover have "unat (2 ^ j :: u64) = 2 ^ j" using assms(2) by (intro unat_2p) simp
  ultimately show ?thesis
    using round_ncap_pow2 [of j] assms
    by (auto simp: hashmap_new_with_allocator_def Let_def split: prod.splits)
qed

section \<open>resize\<close>

text \<open>
  The outer loop: the entries placed so far and those still to come make up the contents, and
  each entry finds its place in the new table.
\<close>

lemma start_carried:
  assumes "rh_table key h msk bs" and "b_hash e = h (b_item e)" and "b_dib e = 1"
  shows "set_pre key h msk bs (unat (ucast (b_hash e) AND msk)) e"
proof -
  note tab = rh_tableD [OF assms(1)]
  have i: "unat (ucast (b_hash e) AND msk) = unat (b_hash e) mod length bs"
    using unat_mask_index [OF tab(1)] by (simp add: unat_ucast_hash)
  have "unat (b_hash e) mod length bs < length bs"
    using probe_table_length [OF tab(1)] by (intro mod_less_divisor) auto
  with i assms show ?thesis
    by (auto simp: set_pre_def carried_def occupied_def home_def dib_def unat_gt_0 Suc_le_eq)
qed

lemma place_spec:
  assumes "hash_of_key key h" and "rh_table key h msk bs" and "length (hm_items bs) < length bs"
    and "b_hash e = h (b_item e)" and "b_dib e = 1" and "\<And>x y. cmp x y = 0 \<longleftrightarrow> key x = key y"
  shows "\<exists>old bs'. set_loop cmp msk bs (ucast (b_hash e) AND msk) e = Some (old, bs') \<and>
    set_result key h msk bs (b_item e) old bs'"
proof -
  let ?i = "ucast (b_hash e) AND msk"
  note pre = start_carried [OF assms(2,4,5)]
  obtain q where q: "q < length bs" "\<not> occupied (bs ! q)" using ex_empty [OF assms(3)] by blast
  obtain t where "(unat ?i + t) mod length bs = q"
    using mod_reach [OF set_preD(4) [OF pre] q(1)] by blast
  with q(2) set_loop_spec [OF assms(6,1) pre, of t] show ?thesis by simp
qed

lemma resize_loop_spec:
  fixes cmp :: "'a \<Rightarrow> 'a \<Rightarrow> int"
  assumes hk: "hash_of_key key h" and cmp: "\<And>x y. cmp x y = 0 \<longleftrightarrow> key x = key y"
  shows "rh_table key h msk bs2 \<Longrightarrow> hashes_ok h es \<Longrightarrow>
    length (hm_items es) + length (hm_items bs2) < length bs2 \<Longrightarrow>
    distinct (map key (hm_items es @ hm_items bs2)) \<Longrightarrow>
    \<exists>bs'. resize_loop msk es bs2 = Some bs' \<and> rh_table key h msk bs' \<and> length bs' = length bs2 \<and>
      mset (hm_items bs') = mset (hm_items es) + mset (hm_items bs2)"
proof (induction es arbitrary: bs2)
  case Nil
  then show ?case by (simp add: hm_items_def)
next
  case (Cons e es)
  show ?case
  proof (cases "occupied e")
    case False
    then have "hm_items (e # es) = hm_items es" by (simp add: hm_items_def)
    with False Cons show ?thesis by (simp add: hashes_ok_def occupied_def)
  next
    case True
    let ?e = "e\<lparr>b_dib := 1\<rparr>"
    have items: "hm_items (e # es) = b_item e # hm_items es" using True by (simp add: hm_items_def)
    have hash: "b_hash ?e = h (b_item ?e)" using Cons.prems(2) True by (simp add: hashes_ok_def)
    obtain old bs1 where set: "set_loop cmp msk bs2 (ucast (b_hash ?e) AND msk) ?e = Some (old, bs1)"
        and res: "set_result key h msk bs2 (b_item ?e) old bs1"
      using place_spec [OF hk Cons.prems(1) _ hash _ cmp] Cons.prems(3) by auto
    have "key (b_item e) \<notin> key ` set (hm_items bs2)" using Cons.prems(4) items by auto
    then have "old = None" using set_result_fresh [OF res] by simp
    with set res have place: "resize_place msk bs2 (ucast (b_hash ?e) AND msk) ?e = Some bs1"
      and bs1: "rh_table key h msk bs1" "length bs1 = length bs2"
        "mset (hm_items bs1) = add_mset (b_item e) (mset (hm_items bs2))"
      using resize_place_set_loop [OF set] by (simp_all add: set_result_def)
    have "mset (hm_items es @ hm_items bs1) = mset (hm_items (e # es) @ hm_items bs2)"
      using bs1(3) items by simp
    then have "distinct (map key (hm_items es @ hm_items bs1))"
      using Cons.prems(4) by (metis mset_eq_imp_distinct_iff mset_map)
    moreover have "length (hm_items es) + length (hm_items bs1) < length bs1"
      using Cons.prems(3) items bs1(2) arg_cong [OF bs1(3), of size] by simp
    moreover have "hashes_ok h es" using Cons.prems(2) by (simp add: hashes_ok_def)
    ultimately obtain bs' where "resize_loop msk es bs1 = Some bs'" "rh_table key h msk bs'"
        "length bs' = length bs1" "mset (hm_items bs') = mset (hm_items es) + mset (hm_items bs1)"
      using Cons.IH [OF bs1(1)] by blast
    with True place bs1 items show ?thesis by (simp add: occupied_def)
  qed
qed

text \<open>The fields no operation changes.\<close>

definition hm_same :: "'a hashmap \<Rightarrow> 'a hashmap \<Rightarrow> bool" where
  "hm_same m m' \<longleftrightarrow> hm_hash m' = hm_hash m \<and> hm_compare m' = hm_compare m \<and>
     hm_seed0 m' = hm_seed0 m \<and> hm_seed1 m' = hm_seed1 m \<and> hm_cap m' = hm_cap m \<and>
     hm_elsize m' = hm_elsize m \<and> hm_bucketsz m' = hm_bucketsz m"

lemma hm_same_funs:
  assumes "hm_same m m'"
  shows "hm_h m' = hm_h m" "hm_keyed key m' = hm_keyed key m" "get_hash m' = get_hash m"
proof -
  show g: "get_hash m' = get_hash m" using assms by (auto simp: hm_same_def get_hash_def)
  show "hm_h m' = hm_h m" by (rule ext) (simp add: hm_h_def g)
  show "hm_keyed key m' = hm_keyed key m"
    using assms unfolding hm_keyed_def g hm_same_def by metis
qed

lemma hm_keyed_cong:
  assumes "hm_compare m' = hm_compare m" "hm_hash m' = hm_hash m" "hm_seed0 m' = hm_seed0 m"
    "hm_seed1 m' = hm_seed1 m"
  shows "hm_keyed key m' = hm_keyed key m"
proof -
  have "get_hash m' = get_hash m" using assms by (auto simp: get_hash_def)
  with assms(1) show ?thesis unfolding hm_keyed_def by simp
qed

lemma hm_wfI:
  assumes "hm_keyed key m" and "hm_sizes c k m" and "rh_table key (hm_h m) (hm_mask m) (hm_buckets m)"
    and "unat (hm_count m) = length (hm_items (hm_buckets m))" and "hm_count m \<le> hm_growat m"
  shows "hm_wf key m"
  using assms by (auto simp: hm_wf_def)

lemma resize_correct:
  assumes "hm_keyed key m" and "hm_sizes c k m"
    and "rh_table key (hm_h m) (hm_mask m) (hm_buckets m)"
    and "4 \<le> j" "j \<le> 15" "c \<le> j" and "length (hm_items (hm_buckets m)) < 2 ^ j"
  obtains ok m' al' where "resize m (2 ^ j) al = Some (ok, m', al')"
    "\<not> ok \<longrightarrow> m' = m"
    "ok \<longrightarrow> hm_sizes c j m' \<and> rh_table key (hm_h m) (hm_mask m') (hm_buckets m') \<and>
       mset (hm_items (hm_buckets m')) = mset (hm_items (hm_buckets m))"
    "hm_same m m'" "hm_count m' = hm_count m" "hm_oom m' = hm_oom m"
proof -
  obtain r al' bsz where new: "hashmap_new_with_allocator (hm_elsize m) (2 ^ j) (hm_seed1 m)
      (hm_seed1 m) (hm_hash m) (hm_compare m) al = Some (r, al')"
    and r: "r = None \<or> r = Some \<lparr>hm_oom = False, hm_elsize = hm_elsize m, hm_cap = 2 ^ j,
       hm_seed0 = hm_seed1 m, hm_seed1 = hm_seed1 m, hm_hash = hm_hash m,
       hm_compare = hm_compare m, hm_bucketsz = bsz, hm_nbuckets = 2 ^ j,
       hm_count = 0, hm_mask = 2 ^ j - 1, hm_growat = 2 ^ j * 3 div 4, hm_shrinkat = 2 ^ j div 10,
       hm_buckets = replicate (2 ^ j) zero_bucket\<rparr>"
    using hashmap_new_fields [OF assms(4,5)] by blast
  show thesis
  proof (cases r)
    case None
    then have "resize m (2 ^ j) al = Some (False, m, al')" by (simp add: resize_def new)
    then show thesis by (rule that) (simp_all add: hm_same_def)
  next
    case (Some m2)
    with r have m2: "hm_buckets m2 = replicate (2 ^ j) zero_bucket" "hm_mask m2 = 2 ^ j - 1"
        "hm_nbuckets m2 = 2 ^ j" "hm_growat m2 = 2 ^ j * 3 div 4" "hm_shrinkat m2 = 2 ^ j div 10"
      by auto
    have "probe_table (hm_mask m2) (hm_buckets m2)"
      unfolding probe_table_def using m2 assms(4,5) by (intro exI [of _ j]) auto
    moreover have "\<forall>b\<in>set (hm_buckets m2). \<not> occupied b" using m2(1) by simp
    ultimately have empty: "rh_table key (hm_h m) (hm_mask m2) (hm_buckets m2)"
        "hm_items (hm_buckets m2) = []"
      by (rule rh_table_empty)+
    note tab = rh_tableD [OF assms(3)]
    have all: "take (unat (hm_nbuckets m)) (hm_buckets m) = hm_buckets m"
      using assms(2) hm_sizes_unat(1) [OF assms(2)] by (simp add: hm_sizes_def)
    obtain bs' where bs': "resize_loop (hm_mask m2) (hm_buckets m) (hm_buckets m2) = Some bs'"
        "rh_table key (hm_h m) (hm_mask m2) bs'" "length bs' = length (hm_buckets m2)"
        "mset (hm_items bs') = mset (hm_items (hm_buckets m))"
      using resize_loop_spec [OF hm_keyed_hash [OF assms(1)] _ empty(1) tab(4), where cmp = "hm_compare m"]
        assms(1,7) tab(5) empty(2) m2(1) unfolding hm_keyed_def by auto
    let ?m' = "m\<lparr>hm_buckets := bs', hm_nbuckets := hm_nbuckets m2, hm_mask := hm_mask m2,
        hm_growat := hm_growat m2, hm_shrinkat := hm_shrinkat m2\<rparr>"
    have "resize m (2 ^ j) al = Some (True, ?m', al')"
      by (simp add: resize_def new Some all bs'(1))
    then show thesis
      by (rule that)
        (use bs' m2 assms(2,4-6) in \<open>simp_all add: hm_sizes_def hm_same_def\<close>)
  qed
qed

section \<open>hashmap_set\<close>

lemma hm_map_insert:
  assumes "mset (hm_items bs') = add_mset x (mset (hm_items (hm_buckets m)))"
    and "distinct (map key (hm_items bs'))" and "hm_buckets m' = bs'"
  shows "hm_map key m' = (hm_map key m)(key x \<mapsto> x)"
  using map_of_keys_add [OF assms(1,2)] assms(3) by (simp add: hm_map_def)

lemma hm_map_replace:
  assumes "distinct (map key (hm_items (hm_buckets m)))" and "distinct (map key (hm_items bs'))"
    and "y \<in> set (hm_items (hm_buckets m))" and "key y = key x" and "hm_buckets m' = bs'"
    and "add_mset y (mset (hm_items bs')) = add_mset x (mset (hm_items (hm_buckets m)))"
  shows "hm_map key m' = (hm_map key m)(key x \<mapsto> x)" "hm_map key m (key x) = Some y"
proof -
  obtain rest where rest: "mset (hm_items (hm_buckets m)) = add_mset y (mset rest)"
    using assms(3) by (metis ex_mset in_multiset_in_set insert_DiffM)
  with assms(6) have "mset (hm_items bs') = add_mset x (mset rest)" by (simp add: add_mset_commute)
  from map_of_keys_add [OF this assms(2)] map_of_keys_add [OF rest assms(1)] assms(4,5)
  show "hm_map key m' = (hm_map key m)(key x \<mapsto> x)" by (simp add: hm_map_def)
  show "hm_map key m (key x) = Some y"
    using assms(1,3,4) by (simp add: hm_map_def map_of_keys_iff)
qed

text \<open>The part of \<open>hashmap_set\<close> after the check of the load: there is room for one more entry.\<close>

lemma hashmap_insert_correct:
  assumes "hm_wf key m" and "hm_count m \<noteq> hm_growat m"
  obtains m' where "hashmap_insert m x = Some (hm_map key m (key x), m')" "hm_wf key m'"
    "hm_map key m' = (hm_map key m)(key x \<mapsto> x)" "hm_oom m' = hm_oom m" "hm_same m m'"
proof -
  obtain c k where sz: "hm_sizes c k m" using assms(1) by (auto simp: hm_wf_def)
  note wf = hm_wfD [OF assms(1)]
  note tab = rh_tableD [OF wf(3)]
  have less: "hm_count m < hm_growat m" using wf(5) assms(2) by simp
  have lt64: "unat (hm_growat m) < 2 ^ 64" using unsigned_less [of "hm_growat m"] by simp
  have cnt: "unat (hm_count m + 1) = Suc (unat (hm_count m))" "hm_count m + 1 \<le> hm_growat m"
    using less lt64 by (auto simp: word_le_nat_alt word_less_nat_alt unat_word_ariths)
  let ?e = "\<lparr>b_hash = hm_h m x, b_dib = 1, b_item = x\<rparr>"
  have room: "length (hm_items (hm_buckets m)) < length (hm_buckets m)"
    using less sz three_quarters [of "2 ^ k"] wf(4) hm_sizes_unat(3) [OF sz]
    by (simp add: hm_sizes_def word_less_nat_alt)
  obtain old bs' where set: "set_loop (hm_compare m) (hm_mask m) (hm_buckets m)
        (ucast (b_hash ?e) AND hm_mask m) ?e = Some (old, bs')"
      and res: "set_result key (hm_h m) (hm_mask m) (hm_buckets m) x old bs'"
    using place_spec [OF wf(2,3) room, of ?e "hm_compare m"] wf(6) by auto
  let ?m' = "m\<lparr>hm_buckets := bs',
      hm_count := (if old = None then hm_count m + 1 else hm_count m)\<rparr>"
  have ins: "hashmap_insert m x = Some (old, ?m')"
    using set by (simp add: hashmap_insert_def Let_def flip: hm_h_def)
  have bs': "rh_table key (hm_h m) (hm_mask m) bs'" "length bs' = length (hm_buckets m)"
    using res by (simp_all add: set_result_def)
  have same: "hm_same m ?m'" by (simp add: hm_same_def)
  have res3: "old = hm_map key m (key x) \<and> hm_map key ?m' = (hm_map key m)(key x \<mapsto> x) \<and>
      unat (hm_count ?m') = length (hm_items bs')"
  proof (cases old)
    case None
    then have "mset (hm_items bs') = add_mset x (mset (hm_items (hm_buckets m)))"
        "hm_map key m (key x) = None"
      using res by (simp_all add: set_result_def hm_map_def map_of_keys_None)
    with None hm_map_insert [OF this(1) rh_tableD(5) [OF bs'(1)], of ?m'] cnt(1) wf(4)
      mset_add_length(1) [OF this(1)] show ?thesis by simp
  next
    case (Some y)
    with res have y: "y \<in> set (hm_items (hm_buckets m))" "key y = key x"
        "add_mset y (mset (hm_items bs')) = add_mset x (mset (hm_items (hm_buckets m)))"
      by (simp_all add: set_result_def)
    with Some hm_map_replace [OF tab(5) rh_tableD(5) [OF bs'(1)] y(1,2) _ y(3), of ?m'] wf(4)
      mset_add_length(2) [OF y(3)] show ?thesis by simp
  qed
  have "hm_buckets ?m' = bs'" by simp
  with res3 have count': "unat (hm_count ?m') = length (hm_items (hm_buckets ?m'))" by metis
  have "hm_wf key ?m'"
  proof (rule hm_wfI [OF _ _ _ count'])
    show "hm_sizes c k ?m'" using sz bs'(2) by (simp add: hm_sizes_def)
  qed (use bs' wf(1,5) cnt(2) hm_same_funs(1) [OF same] hm_same_funs(2) [OF same, of key] in simp_all)
  then show thesis
    using that [of ?m'] ins same conjunct1 [OF res3] conjunct1 [OF conjunct2 [OF res3]] by simp
qed

lemma hm_wf_oom [simp]:
  "hm_wf key (m\<lparr>hm_oom := b\<rparr>) = hm_wf key m" "hm_map key (m\<lparr>hm_oom := b\<rparr>) = hm_map key m"
proof -
  have "hm_same m (m\<lparr>hm_oom := b\<rparr>)" by (simp add: hm_same_def)
  from hm_same_funs(1,3) [OF this] hm_same_funs(2) [OF this, of key]
  show "hm_wf key (m\<lparr>hm_oom := b\<rparr>) = hm_wf key m"
    by (simp add: hm_wf_def hm_sizes_def)
qed (simp add: hm_map_def)

lemma hm_same_trans: "hm_same a b \<Longrightarrow> hm_same b c \<Longrightarrow> hm_same a c"
  by (simp add: hm_same_def)

lemma hm_same_oom [simp]: "hm_same m (m\<lparr>hm_oom := b\<rparr>)"
  by (simp add: hm_same_def)

lemma hm_same_oom_left [simp]: "hm_same (m\<lparr>hm_oom := b\<rparr>) m' = hm_same m m'"
  by (simp add: hm_same_def)

text \<open>Resizing a well-formed map to a size that holds its entries keeps it well formed.\<close>

lemma resize_wf:
  assumes "hm_wf key m" and "hm_sizes c k m" and "4 \<le> j" "j \<le> 15" "c \<le> j"
    and "unat (hm_count m) \<le> 2 ^ j * 3 div 4"
  obtains ok m' al' where "resize m (2 ^ j) al = Some (ok, m', al')" "hm_wf key m'"
    "hm_map key m' = hm_map key m" "hm_same m m'" "hm_oom m' = hm_oom m" "\<not> ok \<longrightarrow> m' = m"
    "ok \<longrightarrow> hm_sizes c j m'" "hm_count m' = hm_count m"
proof -
  note wf = hm_wfD [OF assms(1)]
  have "length (hm_items (hm_buckets m)) < 2 ^ j"
    using assms(6) wf(4) three_quarters [of "2 ^ j"] by simp
  from resize_correct [OF wf(1) assms(2) wf(3) assms(3-5) this, of al]
  obtain ok m' al' where r: "resize m (2 ^ j) al = Some (ok, m', al')" "\<not> ok \<longrightarrow> m' = m"
      "ok \<longrightarrow> hm_sizes c j m' \<and> rh_table key (hm_h m) (hm_mask m') (hm_buckets m') \<and>
       mset (hm_items (hm_buckets m')) = mset (hm_items (hm_buckets m))"
      "hm_same m m'" "hm_count m' = hm_count m" "hm_oom m' = hm_oom m" by blast
  have "hm_wf key m' \<and> hm_map key m' = hm_map key m"
  proof (cases ok)
    case True
    note ok = r(3) [rule_format, OF True]
    have len: "length (hm_items (hm_buckets m')) = length (hm_items (hm_buckets m))"
      using ok by (metis size_mset)
    have "hm_wf key m'"
    proof (rule hm_wfI)
      show "hm_sizes c j m'" using ok by simp
      show "hm_count m' \<le> hm_growat m'"
        using assms(6) hm_sizes_unat(3) [of c j m'] ok r(5) by (simp add: word_le_nat_alt)
    qed (use ok len r(5) wf hm_same_funs(1) [OF r(4)] hm_same_funs(2) [OF r(4), of key] in simp_all)
    moreover have "hm_map key m' = hm_map key m"
      unfolding hm_map_def
    proof (rule map_of_inject_set [THEN iffD2])
      have "set (hm_items (hm_buckets m')) = set (hm_items (hm_buckets m))"
        using conjunct2 [OF conjunct2 [OF ok]] by (rule mset_eq_setD)
      then show "set (map (\<lambda>x. (key x, x)) (hm_items (hm_buckets m'))) =
          set (map (\<lambda>x. (key x, x)) (hm_items (hm_buckets m)))" by simp
    next
      show "distinct (map fst (map (\<lambda>x. (key x, x)) (hm_items (hm_buckets m'))))"
        using rh_tableD(5) [OF conjunct1 [OF conjunct2 [OF ok]]] by (simp add: comp_def)
    next
      show "distinct (map fst (map (\<lambda>x. (key x, x)) (hm_items (hm_buckets m))))"
        using rh_tableD(5) [OF wf(3)] by (simp add: comp_def)
    qed
    ultimately show ?thesis by simp
  qed (use r(2) assms(1) in simp)
  moreover have "ok \<longrightarrow> hm_sizes c j m'" using r(3) by simp
  ultimately show thesis
    using that [OF r(1) _ _ r(4,6,2) _ r(5)] by simp
qed

text \<open>
  The whole operation. When the map is at its load limit it is first doubled; if the memory for
  that is refused, nothing changes but the flag.
\<close>

lemma hashmap_set_correct:
  assumes "hm_wf key m" and "hm_count m = hm_growat m \<Longrightarrow> hm_nbuckets m < 2 ^ 15"
  obtains old m' al' where "hashmap_set m x al = Some (old, m', al')" "hm_wf key m'" "hm_same m m'"
    "hm_oom m' \<Longrightarrow> old = None \<and> hm_map key m' = hm_map key m \<and> hm_count m = hm_growat m"
    "\<not> hm_oom m' \<Longrightarrow> old = hm_map key m (key x) \<and> hm_map key m' = (hm_map key m)(key x \<mapsto> x)"
proof -
  let ?m = "m\<lparr>hm_oom := False\<rparr>"
  have wf: "hm_wf key ?m" using assms(1) by simp
  show thesis
  proof (cases "hm_count m = hm_growat m")
    case False
    obtain m' where m': "hashmap_insert ?m x = Some (hm_map key ?m (key x), m')" "hm_wf key m'"
        "hm_map key m' = (hm_map key ?m)(key x \<mapsto> x)" "hm_oom m' = hm_oom ?m" "hm_same ?m m'"
      using hashmap_insert_correct [OF wf] False by auto
    then show thesis using False by (intro that) (simp_all add: hashmap_set_def Let_def)
  next
    case True
    obtain c k where sz: "hm_sizes c k m" using assms(1) by (auto simp: hm_wf_def)
    then have sz': "hm_sizes c k ?m" by (simp add: hm_sizes_def)
    have "(2::nat) ^ k < 2 ^ 15"
      using assms(2) [OF True] hm_sizes_unat(1) [OF sz] by (simp add: word_less_nat_alt)
    then have k: "k < 15" by (rule power_less_imp_less_exp [rotated]) simp
    have cnt: "unat (hm_count ?m) = 2 ^ k * 3 div 4" using True hm_sizes_unat(3) [OF sz] by simp
    have dbl: "hm_nbuckets m * 2 = 2 ^ Suc k" using sz by (simp add: hm_sizes_def)
    have pre: "4 \<le> Suc k" "Suc k \<le> 15" "c \<le> Suc k" "unat (hm_count ?m) \<le> 2 ^ Suc k * 3 div 4"
      using k sz cnt by (auto simp: hm_sizes_def intro: div_le_mono)
    obtain ok m1 al1 where r: "resize ?m (2 ^ Suc k) al = Some (ok, m1, al1)" "hm_wf key m1"
        "hm_map key m1 = hm_map key ?m" "hm_same ?m m1" "hm_oom m1 = hm_oom ?m" "\<not> ok \<longrightarrow> m1 = ?m"
        "ok \<longrightarrow> hm_sizes c (Suc k) m1" "hm_count m1 = hm_count ?m"
      using resize_wf [OF wf sz' pre, of al] by blast
    show thesis
    proof (cases ok)
      case False
      with r(1,6) True dbl have "hashmap_set m x al = Some (None, m\<lparr>hm_oom := True\<rparr>, al1)"
        by (simp add: hashmap_set_def Let_def)
      then show thesis by (rule that) (use assms(1) True in simp_all)
    next
      case ok: True
      have "unat (hm_growat m1) = 2 ^ Suc k * 3 div 4" by (rule hm_sizes_unat(3) [OF r(7) [rule_format, OF ok]])
      moreover have "(2::nat) ^ k * 3 div 4 < 2 ^ Suc k * 3 div 4"
        using sz power_increasing [of 4 k "2::nat"] by (simp add: hm_sizes_def)
      ultimately have "hm_count m1 \<noteq> hm_growat m1" using r(8) cnt by auto
      then obtain m' where m': "hashmap_insert m1 x = Some (hm_map key m1 (key x), m')" "hm_wf key m'"
          "hm_map key m' = (hm_map key m1)(key x \<mapsto> x)" "hm_oom m' = hm_oom m1" "hm_same m1 m'"
        using hashmap_insert_correct [OF r(2)] by blast
      with r(1) True ok dbl have "hashmap_set m x al = Some (hm_map key m1 (key x), m', al1)"
        by (simp add: hashmap_set_def Let_def)
      then show thesis
        by (rule that) (use m' r hm_same_trans [OF r(4) m'(5)] in simp_all)
    qed
  qed
qed

section \<open>hashmap_delete\<close>

lemma hashmap_delete_shift:
  assumes "hm_wf key m" and "unat i < length (hm_buckets m)" and "occupied (hm_buckets m ! unat i)"
  obtains bs' where "delete_shift (hm_mask m) (hole (hm_buckets m) (unat i)) i = Some bs'"
    "rh_table key (hm_h m) (hm_mask m) bs'" "length bs' = length (hm_buckets m)"
    "add_mset (b_item (hm_buckets m ! unat i)) (mset (hm_items bs')) = mset (hm_items (hm_buckets m))"
proof -
  let ?bs = "hm_buckets m"
  note tab = rh_tableD [OF hm_wfD(3) [OF assms(1)]]
  have "rh_pos (hole ?bs (unat i))"
  proof (rule rh_posI)
    fix j
    assume j: "j < length (hole ?bs (unat i))" "occupied (hole ?bs (unat i) ! j)"
    then have "j \<noteq> unat i" using assms(2) by auto
    with j show "(home (length (hole ?bs (unat i))) (hole ?bs (unat i) ! j) +
        (unat (b_dib (hole ?bs (unat i) ! j)) - 1)) mod length (hole ?bs (unat i)) = j"
      using rh_posD [OF tab(2), of j] by simp
  qed
  then have pre: "shift_pre (hm_h m) (hm_mask m) ?bs (unat i)"
    using tab assms(2,3) by (simp add: shift_pre_def)
  obtain q where q: "q < length ?bs" "\<not> occupied (?bs ! q)"
    using hm_wf_empty_bucket [OF assms(1)] by blast
  obtain t where t: "(unat i + t) mod length ?bs = q" using mod_reach [OF assms(2) q(1)] by blast
  with q assms(2,3) have "t \<noteq> 0" by (cases t) auto
  then obtain t' where "t = Suc t'" by (cases t) auto
  with t q(2) delete_shift_spec [OF pre, of t'] delete_shift_hole [OF tab(1) assms(2)]
  obtain bs' where bs': "delete_shift (hm_mask m) (hole ?bs (unat i)) i = Some bs'"
      "probe_table (hm_mask m) bs'" "length bs' = length ?bs" "rh_pos bs'" "rh_ord bs'"
      "hashes_ok (hm_h m) bs'" "mset (hm_items bs') = mset (hm_items (hole ?bs (unat i)))"
    by auto
  have items: "add_mset (b_item (?bs ! unat i)) (mset (hm_items bs')) = mset (hm_items ?bs)"
    using hm_items_hole [OF assms(2,3)] bs'(7) by simp
  then have "mset (hm_items bs') \<subseteq># mset (hm_items ?bs)"
    by (metis add_mset_add_single mset_subset_eq_add_left)
  then have "distinct (map key (hm_items bs'))" using tab(5) by (rule distinct_map_submset)
  with bs' items that show thesis by (simp add: rh_table_def)
qed

lemma hm_map_remove:
  assumes "add_mset x (mset (hm_items bs')) = mset (hm_items (hm_buckets m))"
    and "distinct (map key (hm_items (hm_buckets m)))" and "hm_buckets m' = bs'"
  shows "hm_map key m' = (hm_map key m)(key x := None)"
proof -
  have "hm_map key m = (hm_map key m')(key x \<mapsto> x)"
    using map_of_keys_add [OF assms(1) [symmetric] assms(2)] assms(3) by (simp add: hm_map_def)
  moreover have "hm_map key m' (key x) = None"
  proof -
    have "mset (map key (hm_items (hm_buckets m))) = mset (map key (x # hm_items bs'))"
      using assms(1) by (metis mset.simps(2) mset_map)
    then have "distinct (map key (x # hm_items bs'))"
      using assms(2) mset_eq_imp_distinct_iff by blast
    then show ?thesis using assms(3) by (simp add: hm_map_def map_of_keys_None)
  qed
  ultimately show ?thesis by auto
qed

text \<open>The removal proper, before the map considers shrinking.\<close>

lemma hashmap_remove_correct:
  assumes "hm_wf key m" and "unat i < length (hm_buckets m)" and "occupied (hm_buckets m ! unat i)"
  obtains bs' where "delete_shift (hm_mask m) (hole (hm_buckets m) (unat i)) i = Some bs'"
    "hm_wf key (m\<lparr>hm_buckets := bs', hm_count := hm_count m - 1\<rparr>)"
    "hm_map key (m\<lparr>hm_buckets := bs', hm_count := hm_count m - 1\<rparr>) =
       (hm_map key m)(key (b_item (hm_buckets m ! unat i)) := None)"
proof -
  let ?x = "b_item (hm_buckets m ! unat i)"
  obtain bs' where bs': "delete_shift (hm_mask m) (hole (hm_buckets m) (unat i)) i = Some bs'"
      "rh_table key (hm_h m) (hm_mask m) bs'" "length bs' = length (hm_buckets m)"
      "add_mset ?x (mset (hm_items bs')) = mset (hm_items (hm_buckets m))"
    using hashmap_delete_shift [OF assms] by blast
  let ?m' = "m\<lparr>hm_buckets := bs', hm_count := hm_count m - 1\<rparr>"
  note wf = hm_wfD [OF assms(1)]
  have same: "hm_same m ?m'" by (simp add: hm_same_def)
  have len: "length (hm_items (hm_buckets m)) = Suc (length (hm_items bs'))"
    using mset_add_length(1) [OF bs'(4) [symmetric]] .
  then have cnt: "unat (hm_count m - 1) = length (hm_items bs')"
    using wf(4) by (simp add: unat_minus_one unat_eq_zero [symmetric])
  obtain c k where "hm_sizes c k m" using assms(1) by (auto simp: hm_wf_def)
  then have sz: "hm_sizes c k ?m'" using bs'(3) by (simp add: hm_sizes_def)
  have "hm_count m - 1 \<le> hm_growat m"
    using wf(4,5) cnt len by (simp add: word_le_nat_alt)
  then have "hm_wf key ?m'"
    by (intro hm_wfI [OF _ sz]) (use bs'(2) cnt wf(1) hm_same_funs(1) [OF same]
        hm_same_funs(2) [OF same, of key] in simp_all)
  with that [OF bs'(1) this] hm_map_remove [OF bs'(4) rh_tableD(5) [OF wf(3)], of ?m'] show thesis
    by simp
qed

lemma delete_shrink_room:
  assumes "hm_sizes c k m" and "hm_nbuckets m > hm_cap m" and "hm_count m \<le> hm_shrinkat m"
  shows "hm_nbuckets m div 2 = 2 ^ (k - 1)" "4 \<le> k - 1" "k - 1 \<le> 15" "c \<le> k - 1"
    "unat (hm_count m) \<le> 2 ^ (k - 1) * 3 div 4"
proof -
  have "(2::nat) ^ c < 2 ^ k"
    using assms(2) hm_sizes_unat(1,2) [OF assms(1)] by (simp add: word_less_nat_alt)
  then have ck: "c < k" by (rule power_less_imp_less_exp [rotated]) simp
  then have k: "2 ^ k = 2 * (2 :: nat) ^ (k - 1)" by (cases k) auto
  show "4 \<le> k - 1" "k - 1 \<le> 15" "c \<le> k - 1" using ck assms(1) by (auto simp: hm_sizes_def)
  have "unat (hm_count m) \<le> 2 ^ k div 10"
    using assms(3) hm_sizes_unat(4) [OF assms(1)] by (simp add: word_le_nat_alt)
  then show "unat (hm_count m) \<le> 2 ^ (k - 1) * 3 div 4" using k by linarith
  have "unat (2 ^ (k - 1) :: u64) = 2 ^ (k - 1)"
    using ck assms(1) by (intro unat_2p) (auto simp: hm_sizes_def)
  then have "unat (hm_nbuckets m div 2) = unat (2 ^ (k - 1) :: u64)"
    using hm_sizes_unat(1) [OF assms(1)] k by (simp add: unat_div)
  then show "hm_nbuckets m div 2 = 2 ^ (k - 1)" by (simp add: word_unat_eq_iff)
qed

lemma hashmap_delete_correct:
  assumes "hm_wf key m"
  obtains m' al' where "hashmap_delete m x al = Some (hm_map key m (key x), m', al')"
    "hm_wf key m'" "hm_same m m'" "hm_map key m' = (hm_map key m)(key x := None)"
    "hm_oom m' = False"
proof -
  let ?m = "m\<lparr>hm_oom := False\<rparr>"
  have wf: "hm_wf key ?m" using assms by simp
  have maps: "hm_map key ?m = hm_map key m" by simp
  obtain r where r: "delete_find (hm_compare ?m) (hm_mask ?m) (hm_buckets ?m) (get_hash ?m x)
       (get_hash ?m x AND hm_mask ?m) x = Some r" "find_result key (hm_buckets ?m) x r"
    using hm_find [OF wf, of x] by blast
  have val: "hm_map key m (key x) = map_option (\<lambda>j. b_item (hm_buckets m ! unat j)) r"
    using hm_map_find [OF wf r(2)] by simp
  show thesis
  proof (cases r)
    case None
    with r(1) have "hashmap_delete m x al = Some (None, ?m, al)"
      by (simp add: hashmap_delete_def Let_def)
    with None val show thesis by (intro that [of ?m al]) (simp_all add: wf [simplified] fun_upd_idem)
  next
    case (Some i)
    with r(2) have i: "unat i < length (hm_buckets ?m)" "occupied (hm_buckets ?m ! unat i)"
        "key (b_item (hm_buckets m ! unat i)) = key x"
      by (simp_all add: find_result_def)
    obtain bs' where bs': "delete_shift (hm_mask ?m) (hole (hm_buckets ?m) (unat i)) i = Some bs'"
        "hm_wf key (?m\<lparr>hm_buckets := bs', hm_count := hm_count ?m - 1\<rparr>)"
        "hm_map key (?m\<lparr>hm_buckets := bs', hm_count := hm_count ?m - 1\<rparr>) =
          (hm_map key ?m)(key (b_item (hm_buckets ?m ! unat i)) := None)"
      using hashmap_remove_correct [OF wf i(1,2)] by blast
    let ?m1 = "?m\<lparr>hm_buckets := bs', hm_count := hm_count ?m - 1\<rparr>"
    have map1: "hm_map key ?m1 = (hm_map key m)(key x := None)" using bs'(3) i(3) by simp
    have same1: "hm_same m ?m1" by (simp add: hm_same_def)
    have del: "hashmap_delete m x al =
        (if hm_nbuckets ?m1 > hm_cap ?m1 \<and> hm_count ?m1 \<le> hm_shrinkat ?m1
         then Option.bind (resize ?m1 (hm_nbuckets ?m1 div 2) al)
           (\<lambda>(ok, hm'', al'). Some (hm_map key m (key x), hm'', al'))
         else Some (hm_map key m (key x), ?m1, al))"
      using r(1) bs'(1) Some val
      by (simp add: hashmap_delete_def Let_def bucket_at_def hole_def)
    show thesis
    proof (cases "hm_nbuckets ?m1 > hm_cap ?m1 \<and> hm_count ?m1 \<le> hm_shrinkat ?m1")
      case False
      then have "hashmap_delete m x al = Some (hm_map key m (key x), ?m1, al)"
        unfolding del by (rule if_not_P)
      then show thesis by (rule that) (use bs'(2) same1 map1 in simp_all)
    next
      case True
      obtain c k where sz: "hm_sizes c k ?m1" using bs'(2) unfolding hm_wf_def by blast
      note room = delete_shrink_room [OF sz conjunct1 [OF True] conjunct2 [OF True]]
      obtain ok m2 al2 where r2: "resize ?m1 (2 ^ (k - 1)) al = Some (ok, m2, al2)"
          "hm_wf key m2" "hm_map key m2 = hm_map key ?m1" "hm_same ?m1 m2" "hm_oom m2 = hm_oom ?m1"
        using resize_wf [OF bs'(2) sz room(2-5), of al] by blast
      have "hashmap_delete m x al = Some (hm_map key m (key x), m2, al2)"
        unfolding del if_P [OF True] room(1) r2(1) by simp
      then show thesis
        by (rule that) (use r2 map1 hm_same_trans [OF same1 r2(4)] in simp_all)
    qed
  qed
qed

section \<open>The other operations\<close>

text \<open>Creation with a capacity of at most 2 ^ 15: the power of two that is large enough, empty.\<close>

lemma hashmap_new_wf:
  assumes "unat w \<le> 2 ^ 15" and "\<And>x y. cmp x y = 0 \<longleftrightarrow> key x = key y"
    and "\<And>x y. key x = key y \<Longrightarrow> hash x s0 s1 = hash y s0 s1"
  obtains r al' where "hashmap_new es w s0 s1 hash cmp al = Some (r, al')"
    "\<forall>m. r = Some m \<longrightarrow> hm_wf key m \<and> hm_map key m = Map.empty \<and> hm_count m = 0 \<and>
       w \<le> hm_cap m \<and> hm_hash m = hash \<and> hm_compare m = cmp \<and> hm_seed0 m = s0 \<and> hm_seed1 m = s1"
    "al = [] \<longrightarrow> r \<noteq> None"
proof -
  have "\<exists>j. 4 \<le> j \<and> j \<le> 15 \<and> (if w < 16 then Some 16 else round_ncap 16 w) = Some (2 ^ j) \<and>
      unat w \<le> 2 ^ j"
  proof (cases "w < 16")
    case True
    then have "unat w \<le> 2 ^ 4" by (simp add: word_less_nat_alt)
    with True show ?thesis by (intro exI [of _ 4]) simp
  next
    case False
    obtain j where j: "4 \<le> j" "round_ncap 16 w = Some (2 ^ j)" "unat w \<le> 2 ^ j"
        "j = 4 \<or> 2 ^ (j - 1) < unat w"
      using round_ncap_least [of w 4] assms(1) by auto
    have "j \<le> 15"
    proof (rule ccontr)
      assume "\<not> j \<le> 15"
      then have "(2::nat) ^ 15 \<le> 2 ^ (j - 1)" "j \<noteq> 4"
        using power_increasing [of 15 "j - 1" "2::nat"] by simp_all
      with j(4) assms(1) show False by linarith
    qed
    with j False show ?thesis by auto
  qed
  then obtain j where j: "4 \<le> j" "j \<le> 15" "unat w \<le> 2 ^ j"
      "(if w < 16 then Some 16 else round_ncap 16 w) = Some (2 ^ j)" by blast
  let ?new = "\<lambda>w al. hashmap_new_with_allocator es w s0 s1 hash cmp al"
  have "?new w al = ?new (2 ^ j) al"
    unfolding hashmap_new_with_allocator_def round_ncap_pow2 [OF j(1) order_trans [OF j(2)], simplified]
      j(4) by simp
  moreover obtain r al' bsz where new: "?new (2 ^ j) al = Some (r, al')"
    and r: "r = None \<or> r = Some \<lparr>hm_oom = False, hm_elsize = es, hm_cap = 2 ^ j, hm_seed0 = s0,
       hm_seed1 = s1, hm_hash = hash, hm_compare = cmp, hm_bucketsz = bsz, hm_nbuckets = 2 ^ j,
       hm_count = 0, hm_mask = 2 ^ j - 1, hm_growat = 2 ^ j * 3 div 4, hm_shrinkat = 2 ^ j div 10,
       hm_buckets = replicate (2 ^ j) zero_bucket\<rparr>"
    using hashmap_new_fields [OF j(1,2)] by metis
  moreover have "hm_wf key m \<and> hm_map key m = Map.empty \<and> hm_count m = 0 \<and> w \<le> hm_cap m \<and>
      hm_hash m = hash \<and> hm_compare m = cmp \<and> hm_seed0 m = s0 \<and> hm_seed1 m = s1"
    if m: "r = Some m" for m
  proof -
    from m r have fields: "hm_buckets m = replicate (2 ^ j) zero_bucket" "hm_mask m = 2 ^ j - 1"
        "hm_count m = 0" "hm_cap m = 2 ^ j" "hm_hash m = hash" "hm_compare m = cmp"
        "hm_seed0 m = s0" "hm_seed1 m = s1" by auto
    have "hm_sizes j j m" using m r j(1,2) by (auto simp: hm_sizes_def)
    moreover have "hm_keyed key m"
      unfolding hm_keyed_def get_hash_def fields using assms(2,3) by (metis (no_types))
    moreover have empty: "rh_table key (hm_h m) (hm_mask m) (hm_buckets m)"
        "hm_items (hm_buckets m) = []"
      using rh_table_empty(1) [OF hm_sizes_probe_table [OF \<open>hm_sizes j j m\<close>], of key "hm_h m"]
        rh_table_empty(2) [OF hm_sizes_probe_table [OF \<open>hm_sizes j j m\<close>]] fields(1) by simp_all
    ultimately have "hm_wf key m" using fields(3) by (intro hm_wfI) simp_all
    moreover have "w \<le> hm_cap m" using j(2,3) fields(4) by (simp add: word_le_nat_alt unat_2p)
    ultimately show ?thesis using empty(2) fields by (simp add: hm_map_def)
  qed
  moreover have "r \<noteq> None" if "al = []"
    using new that by (auto simp: hashmap_new_with_allocator_def Let_def bind_eq_Some_conv)
  ultimately show thesis by (intro that [of r al']) (simp_all add: hashmap_new_def)
qed

text \<open>\<open>hashmap_scan\<close> visits the items in bucket order until a call returns false.\<close>

fun scan_items :: "('a \<Rightarrow> 'u \<Rightarrow> bool \<times> 'u) \<Rightarrow> 'a list \<Rightarrow> 'u \<Rightarrow> bool \<times> 'u" where
  "scan_items iter [] u = (True, u)"
| "scan_items iter (x # xs) u =
     (case iter x u of (True, u') \<Rightarrow> scan_items iter xs u' | (False, u') \<Rightarrow> (False, u'))"

lemma scan_loop_items: "scan_loop iter bs u = scan_items iter (hm_items bs) u"
  by (induction bs arbitrary: u)
    (auto simp: hm_items_def occupied_def split: prod.splits bool.splits)

lemma hm_wf_take: "hm_wf key m \<Longrightarrow> take (unat (hm_nbuckets m)) (hm_buckets m) = hm_buckets m"
proof -
  assume "hm_wf key m"
  then obtain c k where "hm_sizes c k m" by (auto simp: hm_wf_def)
  with hm_sizes_unat(1) [OF this] show ?thesis by (simp add: hm_sizes_def)
qed

lemma hashmap_scan_items:
  "hm_wf key m \<Longrightarrow> hashmap_scan m iter u = scan_items iter (hm_items (hm_buckets m)) u"
  by (simp add: hashmap_scan_def hm_wf_take scan_loop_items)

lemma hm_wf_items:
  assumes "hm_wf key m"
  shows "distinct (hm_items (hm_buckets m))" "set (hm_items (hm_buckets m)) = ran (hm_map key m)"
    "card (dom (hm_map key m)) = length (hm_items (hm_buckets m))"
proof -
  have d: "distinct (map key (hm_items (hm_buckets m)))"
    using rh_tableD(5) [OF hm_wfD(3) [OF assms]] .
  then show "distinct (hm_items (hm_buckets m))" by (rule distinct_map [THEN iffD1, THEN conjunct1])
  show "set (hm_items (hm_buckets m)) = ran (hm_map key m)"
    by (auto simp: ran_def hm_map_def map_of_keys_iff [OF d])
  have "dom (hm_map key m) = key ` set (hm_items (hm_buckets m))"
    by (simp add: hm_map_def dom_map_of_conv_image_fst image_image)
  then show "card (dom (hm_map key m)) = length (hm_items (hm_buckets m))"
    using d by (metis distinct_card length_map list.set_map)
qed

lemma finite_dom_hm_map [simp]: "finite (dom (hm_map key m))"
  by (simp add: hm_map_def finite_dom_map_of)

text \<open>The number of entries is the size of the domain.\<close>

lemma hashmap_count_card: "hm_wf key m \<Longrightarrow> unat (hashmap_count m) = card (dom (hm_map key m))"
  by (simp add: hashmap_count_def hm_wf_items(3) hm_wfD(4))

text \<open>\<open>hashmap_probe\<close> over all positions yields exactly the items.\<close>

lemma hashmap_probe_items:
  assumes "hm_wf key m"
  shows "(\<exists>p. hashmap_probe m p = Some x) \<longleftrightarrow> x \<in> ran (hm_map key m)"
proof -
  have pt: "probe_table (hm_mask m) (hm_buckets m)" using rh_tableD(1) [OF hm_wfD(3) [OF assms]] .
  have idx: "unat (p AND hm_mask m) = unat p mod length (hm_buckets m)" for p
    using unat_mask_index [OF pt] .
  have len: "0 < length (hm_buckets m)" "length (hm_buckets m) < 2 ^ 64"
    using probe_table_length [OF pt] by auto
  have "(\<exists>p. hashmap_probe m p = Some x) \<longleftrightarrow>
      (\<exists>j<length (hm_buckets m). occupied (hm_buckets m ! j) \<and> b_item (hm_buckets m ! j) = x)"
  proof
    assume "\<exists>p. hashmap_probe m p = Some x"
    then obtain p where "hashmap_probe m p = Some x" ..
    then show "\<exists>j<length (hm_buckets m). occupied (hm_buckets m ! j) \<and> b_item (hm_buckets m ! j) = x"
      using len(1) by (intro exI [of _ "unat p mod length (hm_buckets m)"])
        (auto simp: hashmap_probe_def Let_def bucket_at_def idx occupied_def split: if_splits)
  next
    assume "\<exists>j<length (hm_buckets m). occupied (hm_buckets m ! j) \<and> b_item (hm_buckets m ! j) = x"
    then obtain j where j: "j < length (hm_buckets m)" "occupied (hm_buckets m ! j)"
        "b_item (hm_buckets m ! j) = x" by blast
    have "unat (of_nat j :: u64) = j" using j(1) len(2) by (simp add: unat_of_nat)
    with j show "\<exists>p. hashmap_probe m p = Some x"
      by (intro exI [of _ "of_nat j"])
        (simp add: hashmap_probe_def Let_def bucket_at_def idx occupied_def)
  qed
  also have "\<dots> \<longleftrightarrow> x \<in> set (hm_items (hm_buckets m))"
    by (auto simp: hm_items_def in_set_conv_nth image_iff)
  finally show ?thesis using hm_wf_items(2) [OF assms] by simp
qed

lemma hashmap_clear_cases:
  assumes "hashmap_clear m update_cap al = (m', al')"
    and "update_cap \<or> hm_nbuckets m = hm_cap m \<or> fst (next_outcome al)"
    and "unat (hm_nbuckets m) = length (hm_buckets m)"
  obtains n where "n = (if update_cap then hm_nbuckets m else hm_cap m)"
    "m' = m\<lparr>hm_cap := n, hm_count := 0, hm_nbuckets := n, hm_mask := n - 1,
       hm_growat := n * 3 div 4, hm_shrinkat := n div 10,
       hm_buckets := replicate (unat n) zero_bucket\<rparr>"
proof (cases update_cap)
  case True
  with assms show thesis
    by (intro that [OF refl]) (auto simp: hashmap_clear_def Let_def)
next
  case False
  show thesis
  proof (cases "hm_nbuckets m = hm_cap m")
    case True
    with False assms show thesis
      by (intro that [OF refl]) (auto simp: hashmap_clear_def Let_def)
  next
    case neq: False
    with False assms show thesis
      by (intro that [OF refl]) (auto simp: hashmap_clear_def Let_def split: prod.splits)
  qed
qed

text \<open>
  \<open>hashmap_clear\<close> empties the map: with \<open>update_cap\<close>, when the array has its original size, or
  when the array of the original size could be allocated.
\<close>

lemma hashmap_clear_empty:
  assumes "hm_wf key m" and "hashmap_clear m update_cap al = (m', al')"
    and "update_cap \<or> hm_nbuckets m = hm_cap m \<or> fst (next_outcome al)"
  shows "hm_wf key m'" "hm_map key m' = Map.empty" "hashmap_count m' = 0"
proof -
  obtain c k where sz: "hm_sizes c k m" using assms(1) by (auto simp: hm_wf_def)
  have lens: "unat (hm_nbuckets m) = 2 ^ k" "hm_nbuckets m = 2 ^ k" "hm_cap m = 2 ^ c" "4 \<le> c"
      "c \<le> k" "k \<le> 15" "length (hm_buckets m) = 2 ^ k"
    using sz hm_sizes_unat(1) [OF sz] by (simp_all add: hm_sizes_def)
  obtain n where n: "n = (if update_cap then hm_nbuckets m else hm_cap m)"
    and m': "m' = m\<lparr>hm_cap := n, hm_count := 0, hm_nbuckets := n, hm_mask := n - 1,
       hm_growat := n * 3 div 4, hm_shrinkat := n div 10,
       hm_buckets := replicate (unat n) zero_bucket\<rparr>"
    using hashmap_clear_cases [OF assms(2,3)] lens(1,7) by auto
  define j where "j = (if update_cap then k else c)"
  have j: "n = 2 ^ j" "4 \<le> j" "j \<le> 15" using n lens by (auto simp: j_def)
  then have un: "unat n = 2 ^ j" by (simp add: unat_2p)
  have sz': "hm_sizes j j m'" using j un by (simp add: m' hm_sizes_def)
  have keyed: "hm_keyed key m'"
    using hm_wfD(1) [OF assms(1)] hm_keyed_cong [of m' m key] by (simp add: m')
  have empty: "rh_table key (hm_h m') (hm_mask m') (hm_buckets m')" "hm_items (hm_buckets m') = []"
    using rh_table_empty(1) [OF hm_sizes_probe_table [OF sz'], of key "hm_h m'"]
      rh_table_empty(2) [OF hm_sizes_probe_table [OF sz']] by (simp_all add: m')
  have cnt: "hm_count m' = 0" by (simp add: m')
  show "hm_wf key m'" using empty cnt by (intro hm_wfI [OF keyed sz']) simp_all
  show "hm_map key m' = Map.empty" "hashmap_count m' = 0"
    using empty(2) cnt by (simp_all add: hm_map_def hashmap_count_def)
qed

section \<open>A map that keeps its size\<close>

text \<open>
  Below the load limit \<open>hashmap_set\<close> does not allocate, and at its original size the map never
  shrinks: the array keeps its size. This is the way the module uses the map, and it gives the
  interface \<open>key_map\<close>.
\<close>

lemma hashmap_insert_sizes:
  "hashmap_insert m x = Some (old, m') \<Longrightarrow>
     hm_nbuckets m' = hm_nbuckets m \<and> hm_cap m' = hm_cap m \<and> hm_growat m' = hm_growat m"
  by (auto simp: hashmap_insert_def Let_def bind_eq_Some_conv)

lemma hashmap_delete_sizes:
  assumes "hm_nbuckets m = hm_cap m" and "hashmap_delete m x al = Some (old, m', al')"
  shows "al' = al \<and> hm_nbuckets m' = hm_nbuckets m \<and> hm_cap m' = hm_cap m \<and>
    hm_growat m' = hm_growat m"
proof -
  let ?m = "m\<lparr>hm_oom := False\<rparr>"
  from assms(2) obtain found where find: "delete_find (hm_compare ?m) (hm_mask ?m) (hm_buckets ?m)
      (get_hash ?m x) (get_hash ?m x AND hm_mask ?m) x = Some found"
    unfolding hashmap_delete_def Let_def bind_eq_Some_conv by blast
  show ?thesis
  proof (cases found)
    case None
    with assms(2) find show ?thesis by (auto simp: hashmap_delete_def Let_def)
  next
    case (Some i)
    let ?bs = "(hm_buckets ?m)[unat i := (bucket_at (hm_buckets ?m) i)\<lparr>b_dib := 0\<rparr>]"
    show ?thesis
    proof (cases "delete_shift (hm_mask ?m) ?bs i")
      case None
      with assms(2) find Some show ?thesis by (simp add: hashmap_delete_def Let_def)
    next
      case bs: (Some bs)
      let ?m1 = "?m\<lparr>hm_buckets := bs, hm_count := hm_count ?m - 1\<rparr>"
      from find Some bs have "hashmap_delete m x al =
          (if hm_nbuckets ?m1 > hm_cap ?m1 \<and> hm_count ?m1 \<le> hm_shrinkat ?m1
           then Option.bind (resize ?m1 (hm_nbuckets ?m1 div 2) al) (\<lambda>(ok, hm'', al').
             Some (Some (b_item (bucket_at (hm_buckets ?m) i)), hm'', al'))
           else Some (Some (b_item (bucket_at (hm_buckets ?m) i)), ?m1, al))"
        by (simp add: hashmap_delete_def Let_def)
      also have "\<dots> = Some (Some (b_item (bucket_at (hm_buckets ?m) i)), ?m1, al)"
        using assms(1) by (intro if_not_P) simp
      finally have "m' = ?m1" "al' = al" using assms(2) by simp_all
      then show ?thesis by simp
    qed
  qed
qed

definition hm_fixed :: "('a \<Rightarrow> 'k) \<Rightarrow> 'a hashmap \<Rightarrow> bool" where
  "hm_fixed key m \<longleftrightarrow> hm_wf key m \<and> hm_nbuckets m = hm_cap m"

lemma hashmap_set_fixed:
  assumes "hm_fixed key m" and "hm_count m < hm_growat m"
  shows "\<exists>m'. hashmap_set m x al = Some (hm_map key m (key x), m', al) \<and> hm_fixed key m' \<and>
    \<not> hm_oom m' \<and> hm_map key m' = (hm_map key m)(key x \<mapsto> x) \<and> hm_growat m' = hm_growat m"
proof -
  let ?m = "m\<lparr>hm_oom := False\<rparr>"
  have "hm_wf key ?m" "hm_count ?m \<noteq> hm_growat ?m" using assms by (auto simp: hm_fixed_def)
  then obtain m' where m': "hashmap_insert ?m x = Some (hm_map key ?m (key x), m')" "hm_wf key m'"
      "hm_map key m' = (hm_map key ?m)(key x \<mapsto> x)" "hm_oom m' = hm_oom ?m"
    by (rule hashmap_insert_correct)
  have "hashmap_set m x al = Some (hm_map key m (key x), m', al)"
    using m'(1) assms(2) by (auto simp: hashmap_set_def Let_def)
  with m' hashmap_insert_sizes [OF m'(1)] assms(1) show ?thesis
    by (simp add: hm_fixed_def)
qed

lemma hashmap_delete_fixed:
  assumes "hm_fixed key m"
  shows "\<exists>m'. hashmap_delete m x al = Some (hm_map key m (key x), m', al) \<and> hm_fixed key m' \<and>
    hm_map key m' = (hm_map key m)(key x := None) \<and> hm_growat m' = hm_growat m"
proof -
  have wf: "hm_wf key m" and sz: "hm_nbuckets m = hm_cap m" using assms by (simp_all add: hm_fixed_def)
  obtain m' al' where m': "hashmap_delete m x al = Some (hm_map key m (key x), m', al')" "hm_wf key m'"
      "hm_map key m' = (hm_map key m)(key x := None)"
    using hashmap_delete_correct [OF wf] by metis
  from hashmap_delete_sizes [OF sz m'(1)] m' sz show ?thesis by (auto simp: hm_fixed_def)
qed

lemma hm_map_key: "hm_map key m k = Some x \<Longrightarrow> key x = k"
  by (auto simp: hm_map_def dest!: map_of_SomeD)

interpretation hm: key_map hashmap_get hashmap_set hashmap_delete hashmap_oom
  "\<lambda>m. unat (hashmap_count m)" "hm_fixed key" "hm_map key" key "\<lambda>m. unat (hm_growat m)" for key
proof (unfold_locales, goal_cases)
  case (1 m x)
  then show ?case by (simp add: hm_fixed_def hashmap_get_correct)
next
  case (2 m x al)
  then show ?case
    using hashmap_set_fixed [of key m x al]
    by (auto simp: hashmap_count_def hashmap_oom_def word_less_nat_alt)
next
  case (3 m x al)
  then show ?case using hashmap_delete_fixed [of key m x al] by auto
next
  case (4 m)
  then show ?case by (simp add: hm_fixed_def hashmap_count_card finite_dom_hm_map)
next
  case (5 m k x)
  from 5(2) show ?case by (rule hm_map_key)
qed

end
