(* ===== verification/Sip_Hash.thy ===== *)
theory Sip_Hash
  imports Tag_Prelude
begin

text \<open>
  The two hash functions of \<open>utils/hash-struct/hashmap.c\<close>: \<open>SIP64\<close> (SipHash-2-4, the one the
  module uses) and \<open>MM86128\<close> (Murmur3). The input is the list of its bytes, all arithmetic is
  on machine words. The lemmas show that every round permutes the state, so that for one
  input no two pairs of seeds are merged before the final folding, and that \<open>SIP64\<close> is the function
  \<open>siphash_2_4\<close>, which follows the specification of SipHash.
\<close>

section \<open>SipHash-2-4\<close>

type_synonym sip_state = "u64 \<times> u64 \<times> u64 \<times> u64"

definition U8TO64_LE :: "u8 list \<Rightarrow> u64" where
  "U8TO64_LE p =
     ucast (p ! 0) OR push_bit 8 (ucast (p ! 1)) OR
     push_bit 16 (ucast (p ! 2)) OR push_bit 24 (ucast (p ! 3)) OR
     push_bit 32 (ucast (p ! 4)) OR push_bit 40 (ucast (p ! 5)) OR
     push_bit 48 (ucast (p ! 6)) OR push_bit 56 (ucast (p ! 7))"

definition U32TO8_LE :: "u32 \<Rightarrow> u8 list" where
  "U32TO8_LE v = [ucast v, ucast (drop_bit 8 v), ucast (drop_bit 16 v), ucast (drop_bit 24 v)]"

definition U64TO8_LE :: "u64 \<Rightarrow> u8 list" where
  "U64TO8_LE v = U32TO8_LE (ucast v) @ U32TO8_LE (ucast (drop_bit 32 v))"

definition ROTL :: "u64 \<Rightarrow> nat \<Rightarrow> u64" where
  "ROTL x b = push_bit b x OR drop_bit (64 - b) x"

definition SIPROUND :: "sip_state \<Rightarrow> sip_state" where
  "SIPROUND st =
     (let (v0, v1, v2, v3) = st;
          v0 = v0 + v1; v1 = ROTL v1 13;
          v1 = v1 XOR v0; v0 = ROTL v0 32;
          v2 = v2 + v3; v3 = ROTL v3 16;
          v3 = v3 XOR v2;
          v0 = v0 + v3; v3 = ROTL v3 21;
          v3 = v3 XOR v0;
          v2 = v2 + v1; v1 = ROTL v1 17;
          v1 = v1 XOR v2; v2 = ROTL v2 32
      in (v0, v1, v2, v3))"

definition sip_init :: "u64 \<Rightarrow> u64 \<Rightarrow> sip_state" where
  "sip_init seed0 seed1 =
     (let k0 = U8TO64_LE (U64TO8_LE seed0);
          k1 = U8TO64_LE (U64TO8_LE seed1);
          v3 = 0x7465646279746573 XOR k1;
          v2 = 0x6c7967656e657261 XOR k0;
          v1 = 0x646f72616e646f6d XOR k1;
          v0 = 0x736f6d6570736575 XOR k0
      in (v0, v1, v2, v3))"

definition sip_block :: "u64 \<Rightarrow> sip_state \<Rightarrow> sip_state" where
  "sip_block m st =
     (let (v0, v1, v2, v3) = st;
          (v0, v1, v2, v3) = SIPROUND (SIPROUND (v0, v1, v2, v3 XOR m))
      in (v0 XOR m, v1, v2, v3))"

text \<open>The loop over whole blocks of eight bytes; what is left over is returned with the state.\<close>

function sip_blocks :: "u8 list \<Rightarrow> sip_state \<Rightarrow> sip_state \<times> u8 list" where
  "sip_blocks inp st =
     (if length inp < 8 then (st, inp)
      else sip_blocks (drop 8 inp) (sip_block (U8TO64_LE (take 8 inp)) st))"
  by pat_completeness auto
termination
  by (relation "measure (\<lambda>(inp, st). length inp)") auto

declare sip_blocks.simps [simp del]

text \<open>The \<open>switch\<close> falls through: the case \<open>left\<close> takes the bytes below \<open>left\<close>.\<close>

definition sip_last :: "u64 \<Rightarrow> u8 list \<Rightarrow> u64" where
  "sip_last inlen inp =
     (let left = unat (inlen AND 7);
          b = push_bit 56 inlen;
          b = (if left \<ge> 7 then b OR push_bit 48 (ucast (inp ! 6)) else b);
          b = (if left \<ge> 6 then b OR push_bit 40 (ucast (inp ! 5)) else b);
          b = (if left \<ge> 5 then b OR push_bit 32 (ucast (inp ! 4)) else b);
          b = (if left \<ge> 4 then b OR push_bit 24 (ucast (inp ! 3)) else b);
          b = (if left \<ge> 3 then b OR push_bit 16 (ucast (inp ! 2)) else b);
          b = (if left \<ge> 2 then b OR push_bit 8 (ucast (inp ! 1)) else b)
      in if left \<ge> 1 then b OR ucast (inp ! 0) else b)"

definition sip_final :: "sip_state \<Rightarrow> sip_state" where
  "sip_final st =
     (let (v0, v1, v2, v3) = st
      in SIPROUND (SIPROUND (SIPROUND (SIPROUND (v0, v1, v2 XOR 0xff, v3)))))"

definition SIP64 :: "u8 list \<Rightarrow> u64 \<Rightarrow> u64 \<Rightarrow> u64" where
  "SIP64 inp seed0 seed1 =
     (let inlen = of_nat (length inp);
          (st, rest) = sip_blocks inp (sip_init seed0 seed1);
          (v0, v1, v2, v3) = sip_final (sip_block (sip_last inlen rest) st);
          b = v0 XOR v1 XOR v2 XOR v3
      in U8TO64_LE (U64TO8_LE b))"

definition hashmap_sip :: "u8 list \<Rightarrow> u64 \<Rightarrow> u64 \<Rightarrow> u64" where
  "hashmap_sip data seed0 seed1 = SIP64 data seed0 seed1"

section \<open>Murmur3\<close>

type_synonym murmur_state = "u32 \<times> u32 \<times> u32 \<times> u32"

definition ROTL32 :: "u32 \<Rightarrow> nat \<Rightarrow> u32" where
  "ROTL32 x r = push_bit r x OR drop_bit (32 - r) x"

definition FMIX32 :: "u32 \<Rightarrow> u32" where
  "FMIX32 h =
     (let h = h XOR drop_bit 16 h; h = h * 0x85ebca6b;
          h = h XOR drop_bit 13 h; h = h * 0xc2b2ae35
      in h XOR drop_bit 16 h)"

definition mm_c1 :: u32 where "mm_c1 = 0x239b961b"
definition mm_c2 :: u32 where "mm_c2 = 0xab0e9789"
definition mm_c3 :: u32 where "mm_c3 = 0x38b34ae5"
definition mm_c4 :: u32 where "mm_c4 = 0xa1e38b93"

definition read32 :: "u8 list \<Rightarrow> nat \<Rightarrow> u32" where
  "read32 p i = ucast (p ! i) OR push_bit 8 (ucast (p ! (i + 1))) OR
     push_bit 16 (ucast (p ! (i + 2))) OR push_bit 24 (ucast (p ! (i + 3)))"

definition mm_block :: "u8 list \<Rightarrow> murmur_state \<Rightarrow> murmur_state" where
  "mm_block blk st =
     (let (h1, h2, h3, h4) = st;
          k1 = read32 blk 0; k2 = read32 blk 4; k3 = read32 blk 8; k4 = read32 blk 12;
          k1 = k1 * mm_c1; k1 = ROTL32 k1 15; k1 = k1 * mm_c2; h1 = h1 XOR k1;
          h1 = ROTL32 h1 19; h1 = h1 + h2; h1 = h1 * 5 + 0x561ccd1b;
          k2 = k2 * mm_c2; k2 = ROTL32 k2 16; k2 = k2 * mm_c3; h2 = h2 XOR k2;
          h2 = ROTL32 h2 17; h2 = h2 + h3; h2 = h2 * 5 + 0x0bcaa747;
          k3 = k3 * mm_c3; k3 = ROTL32 k3 17; k3 = k3 * mm_c4; h3 = h3 XOR k3;
          h3 = ROTL32 h3 15; h3 = h3 + h4; h3 = h3 * 5 + 0x96cd1c35;
          k4 = k4 * mm_c4; k4 = ROTL32 k4 18; k4 = k4 * mm_c1; h4 = h4 XOR k4;
          h4 = ROTL32 h4 13; h4 = h4 + h1; h4 = h4 * 5 + 0x32ac3b17
      in (h1, h2, h3, h4))"

function mm_blocks :: "u8 list \<Rightarrow> murmur_state \<Rightarrow> murmur_state \<times> u8 list" where
  "mm_blocks key st =
     (if length key < 16 then (st, key) else mm_blocks (drop 16 key) (mm_block (take 16 key) st))"
  by pat_completeness auto
termination
  by (relation "measure (\<lambda>(key, st). length key)") auto

declare mm_blocks.simps [simp del]

text \<open>The bytes of the tail; a byte the \<open>switch\<close> does not reach contributes nothing.\<close>

definition tail_byte :: "u8 list \<Rightarrow> nat \<Rightarrow> nat \<Rightarrow> nat \<Rightarrow> u32" where
  "tail_byte tail left i sh = (if left > i then push_bit sh (ucast (tail ! i)) else 0)"

definition mm_tail :: "u8 list \<Rightarrow> nat \<Rightarrow> murmur_state \<Rightarrow> murmur_state" where
  "mm_tail tail left st =
     (let (h1, h2, h3, h4) = st;
          k4 = tail_byte tail left 14 16 XOR tail_byte tail left 13 8 XOR tail_byte tail left 12 0;
          h4 = (if left \<ge> 13 then h4 XOR ROTL32 (k4 * mm_c4) 18 * mm_c1 else h4);
          k3 = tail_byte tail left 11 24 XOR tail_byte tail left 10 16 XOR tail_byte tail left 9 8 XOR
               tail_byte tail left 8 0;
          h3 = (if left \<ge> 9 then h3 XOR ROTL32 (k3 * mm_c3) 17 * mm_c4 else h3);
          k2 = tail_byte tail left 7 24 XOR tail_byte tail left 6 16 XOR tail_byte tail left 5 8 XOR
               tail_byte tail left 4 0;
          h2 = (if left \<ge> 5 then h2 XOR ROTL32 (k2 * mm_c2) 16 * mm_c3 else h2);
          k1 = tail_byte tail left 3 24 XOR tail_byte tail left 2 16 XOR tail_byte tail left 1 8 XOR
               tail_byte tail left 0 0;
          h1 = (if left \<ge> 1 then h1 XOR ROTL32 (k1 * mm_c1) 15 * mm_c2 else h1)
      in (h1, h2, h3, h4))"

definition mm_mix :: "murmur_state \<Rightarrow> murmur_state" where
  "mm_mix st =
     (let (h1, h2, h3, h4) = st;
          h1 = h1 + h2; h1 = h1 + h3; h1 = h1 + h4;
          h2 = h2 + h1; h3 = h3 + h1; h4 = h4 + h1
      in (h1, h2, h3, h4))"

definition MM86128 :: "u8 list \<Rightarrow> u32 \<Rightarrow> murmur_state" where
  "MM86128 key seed =
     (let len = of_nat (length key);
          (st, tail) = mm_blocks key (seed, seed, seed, seed);
          (h1, h2, h3, h4) = mm_tail tail (length key mod 16) st;
          (h1, h2, h3, h4) = mm_mix (h1 XOR len, h2 XOR len, h3 XOR len, h4 XOR len)
      in mm_mix (FMIX32 h1, FMIX32 h2, FMIX32 h3, FMIX32 h4))"

text \<open>The first eight bytes of the output, read as one number.\<close>

definition hashmap_murmur :: "u8 list \<Rightarrow> u64 \<Rightarrow> u64 \<Rightarrow> u64" where
  "hashmap_murmur data seed0 seed1 =
     (let (h1, h2, h3, h4) = MM86128 data (ucast seed0)
      in ucast h1 OR push_bit 32 (ucast h2))"

section \<open>Bytes and rotations\<close>

lemma U8TO64_LE_bytes: "U8TO64_LE (U64TO8_LE v) = v"
proof (rule bit_word_eqI)
  fix n
  assume "n < LENGTH(64)"
  then consider "n < 8" | "8 \<le> n" "n < 16" | "16 \<le> n" "n < 24" | "24 \<le> n" "n < 32"
    | "32 \<le> n" "n < 40" | "40 \<le> n" "n < 48" | "48 \<le> n" "n < 56" | "56 \<le> n" "n < 64"
    by fastforce
  then show "bit (U8TO64_LE (U64TO8_LE v)) n = bit v n"
    by cases (auto simp: U8TO64_LE_def U64TO8_LE_def U32TO8_LE_def bit_simps)
qed

definition ROTR :: "u64 \<Rightarrow> nat \<Rightarrow> u64" where
  "ROTR x b = drop_bit b x OR push_bit (64 - b) x"

lemma ROTR_ROTL:
  assumes "0 < b" "b < 64"
  shows "ROTR (ROTL x b) b = x"
proof (rule bit_word_eqI)
  fix n
  assume "n < LENGTH(64)"
  with assms show "bit (ROTR (ROTL x b) b) n = bit x n"
    by (cases "n + b < 64") (auto simp: ROTR_def ROTL_def bit_simps dest: bit_imp_le_length)
qed

lemma ROTL_ROTR:
  assumes "0 < b" "b < 64"
  shows "ROTL (ROTR x b) b = x"
proof (rule bit_word_eqI)
  fix n
  assume "n < LENGTH(64)"
  with assms show "bit (ROTL (ROTR x b) b) n = bit x n"
    by (cases "b \<le> n") (auto simp: ROTR_def ROTL_def bit_simps dest: bit_imp_le_length)
qed

section \<open>The rounds are permutations\<close>

definition SIPROUND_inv :: "sip_state \<Rightarrow> sip_state" where
  "SIPROUND_inv st =
     (let (v0, v1, v2, v3) = st;
          v2 = ROTR v2 32; v1 = v1 XOR v2; v1 = ROTR v1 17; v2 = v2 - v1;
          v3 = v3 XOR v0; v3 = ROTR v3 21; v0 = v0 - v3;
          v3 = v3 XOR v2; v3 = ROTR v3 16; v2 = v2 - v3;
          v0 = ROTR v0 32; v1 = v1 XOR v0; v1 = ROTR v1 13; v0 = v0 - v1
      in (v0, v1, v2, v3))"

lemma word_xor_cancel: "((x :: 'a::len word) XOR y) XOR y = x"
  by (simp add: xor.assoc)

lemmas rot_cancel = ROTR_ROTL ROTL_ROTR word_xor_cancel

lemma SIPROUND_inv_left: "SIPROUND_inv (SIPROUND st) = st"
  by (cases st) (simp add: SIPROUND_def SIPROUND_inv_def Let_def rot_cancel)

lemma SIPROUND_inv_right: "SIPROUND (SIPROUND_inv st) = st"
  by (cases st) (simp add: SIPROUND_def SIPROUND_inv_def Let_def rot_cancel)

lemma inj_SIPROUND: "inj SIPROUND"
  by (metis SIPROUND_inv_left injI)

lemma SIPROUND_eq_iff [simp]: "SIPROUND a = SIPROUND b \<longleftrightarrow> a = b"
  using inj_SIPROUND by (simp add: inj_eq)

lemma xor_right_cancel [simp]: "(x :: 'a::len word) XOR z = y XOR z \<longleftrightarrow> x = y"
  by (metis word_xor_cancel)

lemma xor_left_cancel [simp]: "z XOR (x :: 'a::len word) = z XOR y \<longleftrightarrow> x = y"
  by (metis word_xor_cancel xor.commute)

text \<open>
  Absorbing a block, and so absorbing a whole input, permutes the state: for one input, different
  seeds never lead to the same internal state.
\<close>

definition xor_v0 :: "u64 \<Rightarrow> sip_state \<Rightarrow> sip_state" where
  "xor_v0 m st = (case st of (v0, v1, v2, v3) \<Rightarrow> (v0 XOR m, v1, v2, v3))"

definition xor_v3 :: "u64 \<Rightarrow> sip_state \<Rightarrow> sip_state" where
  "xor_v3 m st = (case st of (v0, v1, v2, v3) \<Rightarrow> (v0, v1, v2, v3 XOR m))"

lemma xor_v_inj [simp]: "xor_v0 m a = xor_v0 m b \<longleftrightarrow> a = b" "xor_v3 m a = xor_v3 m b \<longleftrightarrow> a = b"
  by (auto simp: xor_v0_def xor_v3_def split: prod.splits)

lemma sip_block_comp: "sip_block m st = xor_v0 m (SIPROUND (SIPROUND (xor_v3 m st)))"
  by (simp add: sip_block_def xor_v0_def xor_v3_def split: prod.splits)

lemma sip_block_inj [simp]: "sip_block m a = sip_block m b \<longleftrightarrow> a = b"
  by (simp add: sip_block_comp)

lemma sip_final_inj [simp]: "sip_final a = sip_final b \<longleftrightarrow> a = b"
  by (auto simp: sip_final_def split: prod.splits)

lemma sip_blocks_inj: "fst (sip_blocks inp a) = fst (sip_blocks inp b) \<longleftrightarrow> a = b"
proof (induction inp a arbitrary: b rule: sip_blocks.induct)
  case (1 inp a)
  then show ?case by (cases "length inp < 8") (simp_all add: sip_blocks.simps [of inp])
qed

lemma sip_blocks_rest: "snd (sip_blocks inp a) = snd (sip_blocks inp b)"
proof (induction inp a arbitrary: b rule: sip_blocks.induct)
  case (1 inp a)
  show ?case
  proof (cases "length inp < 8")
    case False
    with 1 show ?thesis by (metis sip_blocks.simps)
  qed (simp add: sip_blocks.simps [of inp])
qed

lemma sip_init_inj: "sip_init a b = sip_init c d \<longleftrightarrow> a = c \<and> b = d"
  by (auto simp: sip_init_def Let_def U8TO64_LE_bytes)

text \<open>The input of four bytes (a tag key) makes one block; the length is in its top byte.\<close>

lemma sip_last_four:
  "sip_last 4 [a, b, c, d] = 0x0400000000000000 OR push_bit 24 (ucast d) OR
     push_bit 16 (ucast c) OR push_bit 8 (ucast b) OR ucast a"
  by (simp add: sip_last_def or.assoc)

lemma SIP64_four:
  "SIP64 [a, b, c, d] s0 s1 =
     (case sip_final (sip_block (sip_last 4 [a, b, c, d]) (sip_init s0 s1)) of
        (v0, v1, v2, v3) \<Rightarrow> v0 XOR v1 XOR v2 XOR v3)"
  by (simp add: SIP64_def sip_blocks.simps U8TO64_LE_bytes split: prod.splits)

section \<open>Murmur3\<close>

text \<open>The finaliser permutes the 32-bit words: each of its steps can be undone.\<close>

lemma shift_xor_inj:
  assumes "0 < k" and "(x :: u32) XOR drop_bit k x = y XOR drop_bit k y"
  shows "x = y"
proof (rule bit_word_eqI)
  fix n
  assume "n < LENGTH(32)"
  have "bit x m = bit y m" for m
  proof (induction "32 - m" arbitrary: m rule: less_induct)
    case less
    show ?case
    proof (cases "m < 32")
      case True
      then have "bit x (m + k) = bit y (m + k)" using less [of "m + k"] assms(1) by simp
      moreover have "bit (x XOR drop_bit k x) m = bit (y XOR drop_bit k y) m" using assms(2) by simp
      ultimately show ?thesis using True by (simp add: bit_simps add.commute) blast
    next
      case False
      then show ?thesis by (auto dest: bit_imp_le_length)
    qed
  qed
  then show "bit x n = bit y n" .
qed

lemma mult_inv_inj:
  assumes "(c :: u32) * d = 1" and "x * c = y * c"
  shows "x = y"
proof -
  have "x * c * d = y * c * d" using assms(2) by simp
  then show ?thesis using assms(1) by (simp add: mult.assoc)
qed

lemma FMIX32_inj:
  assumes "FMIX32 x = FMIX32 y"
  shows "x = y"
proof -
  have a: "(0x85ebca6b :: u32) * 0xa5cb9243 = 1" and b: "(0xc2b2ae35 :: u32) * 0x7ed1b41d = 1" by simp_all
  let ?f = "\<lambda>x :: u32. (x XOR drop_bit 16 x) * 0x85ebca6b"
  let ?g = "\<lambda>x. (?f x XOR drop_bit 13 (?f x)) * 0xc2b2ae35"
  have "?g x XOR drop_bit 16 (?g x) = ?g y XOR drop_bit 16 (?g y)"
    using assms by (simp add: FMIX32_def Let_def)
  then have "?g x = ?g y" by (rule shift_xor_inj [rotated]) simp
  then have "?f x XOR drop_bit 13 (?f x) = ?f y XOR drop_bit 13 (?f y)"
    by (rule mult_inv_inj [OF b])
  then have "?f x = ?f y" by (rule shift_xor_inj [rotated]) simp
  then have "x XOR drop_bit 16 x = y XOR drop_bit 16 y" by (rule mult_inv_inj [OF a])
  then show "x = y" by (rule shift_xor_inj [rotated]) simp
qed

lemma hashmap_murmur_seed: "ucast s = (ucast s' :: u32) \<Longrightarrow> hashmap_murmur d s t = hashmap_murmur d s' t'"
  by (simp add: hashmap_murmur_def)

section \<open>The published test vector\<close>

text \<open>The eight rounds SipHash makes on the input of the reference implementation's test vector.\<close>

lemma sip_vector_rounds:
  shows
    "SIPROUND (0x7469686173716475, 0x6b617f6d656e6665, 0x6b7f62616d677361, 0x7c6d6c6a717c6d7b) =
       (0x64668a929363847f, 0x4ed232083d9aa8dc, 0xf2f74892d8141a2e, 0x9290f9810552f4a8)"
    "SIPROUND (0x64668a929363847f, 0x4ed232083d9aa8dc, 0xf2f74892d8141a2e, 0x9290f9810552f4a8) =
       (0x4d07749cdd0858e0, 0xd52f6f62a4f59a4, 0x634cb3577b01fd3d, 0xa5224d6f55c7d9c8)"
    "SIPROUND (0x4a017198de0a59e0, 0xd52f6f62a4f59a4, 0x634cb3577b01fd3d, 0xaa2c40635ecdd0c0) =
       (0x557560fb6063d060, 0x4c8e675bd961133e, 0xbd3d002b1703a181, 0xfb9441179a4a7315)"
    "SIPROUND (0x557560fb6063d060, 0x4c8e675bd961133e, 0xbd3d002b1703a181, 0xfb9441179a4a7315) =
       (0x338bbea7645fb759, 0x414fc3fb98efe374, 0xccf13ea527b9f4bd, 0x5293f5da84008f82)"
    "SIPROUND (0x3c85b3ab6f55be51, 0x414fc3fb98efe374, 0xccf13ea527b9f442, 0x5293f5da84008f82) =
       (0xf2a55244a20e48fe, 0xac5ad16ccc3ca6e4, 0x9fe5adb0a52f393a, 0xfd41d55e88f30308)"
    "SIPROUND (0xf2a55244a20e48fe, 0xac5ad16ccc3ca6e4, 0x9fe5adb0a52f393a, 0xfd41d55e88f30308) =
       (0xb6c3fbdecc2ae4b4, 0x1638c86adc6b3cf0, 0x28b8b6ab62553d46, 0xc9465e86ec43eb95)"
    "SIPROUND (0xb6c3fbdecc2ae4b4, 0x1638c86adc6b3cf0, 0x28b8b6ab62553d46, 0xc9465e86ec43eb95) =
       (0x58101b167209a5e6, 0xf8792ae75b66e7dd, 0x1da14c3ec7f0b4f7, 0x7624ba8a41bc4ad9)"
    "SIPROUND (0x58101b167209a5e6, 0xf8792ae75b66e7dd, 0x1da14c3ec7f0b4f7, 0x7624ba8a41bc4ad9) =
       (0xf6bcd53893fecff1, 0x54b9964c7ea0d937, 0x1b38329c099bb55a, 0x1814bb89ad7be679)"
  by (simp_all add: SIPROUND_def Let_def ROTL_def)

lemma SIP64_vector:
  "SIP64 [0, 1, 2, 3, 4, 5, 6, 7, 8, 9, 10, 11, 12, 13, 14] 0x0706050403020100 0x0f0e0d0c0b0a0908 =
     0xa129ca6149be45e5"
proof -
  have "U8TO64_LE [0, 1, 2, 3, 4, 5, 6, 7] = 0x0706050403020100" by (simp add: U8TO64_LE_def)
  then show ?thesis
    by (simp add: SIP64_def sip_blocks.simps sip_last_def sip_init_def sip_block_def sip_final_def
        sip_vector_rounds Let_def U8TO64_LE_bytes)
qed

section \<open>SipHash-2-4 as it is specified\<close>

text \<open>
  The function as its specification states it, on numbers and not on the code's masks: the message
  is padded with zeros to one byte less than a whole number of blocks, the last byte is its length
  modulo 256, each block is read as a number to the base 256, and a round is twice the same half
  round, the second time with the first and the third word exchanged.
\<close>

fun le_word :: "u8 list \<Rightarrow> u64" where
  "le_word [] = 0"
| "le_word (b # bs) = ucast b + 256 * le_word bs"

definition siphash_pad :: "u8 list \<Rightarrow> u8 list" where
  "siphash_pad data = replicate (7 - length data mod 8) 0 @ [of_nat (length data)]"

definition siphash_words :: "u8 list \<Rightarrow> u64 list" where
  "siphash_words p = map (\<lambda>i. le_word (take 8 (drop (8 * i) p))) [0..<length p div 8]"

definition siphash_half :: "nat \<Rightarrow> nat \<Rightarrow> sip_state \<Rightarrow> sip_state" where
  "siphash_half r s = (\<lambda>(a, b, c, d).
     (word_rotl 32 (a + b), word_rotl r b XOR (a + b), c + d, word_rotl s d XOR (c + d)))"

definition siphash_swap :: "sip_state \<Rightarrow> sip_state" where
  "siphash_swap = (\<lambda>(a, b, c, d). (c, b, a, d))"

definition siphash_round :: "sip_state \<Rightarrow> sip_state" where
  "siphash_round = siphash_swap \<circ> siphash_half 17 21 \<circ> siphash_swap \<circ> siphash_half 13 16"

definition siphash_compress :: "sip_state \<Rightarrow> u64 \<Rightarrow> sip_state" where
  "siphash_compress = (\<lambda>(v0, v1, v2, v3) m.
     case (siphash_round ^^ 2) (v0, v1, v2, v3 XOR m) of (v0, v1, v2, v3) \<Rightarrow> (v0 XOR m, v1, v2, v3))"

definition siphash_2_4 :: "u64 \<Rightarrow> u64 \<Rightarrow> u8 list \<Rightarrow> u64" where
  "siphash_2_4 k0 k1 data =
     (case foldl siphash_compress
         (k0 XOR 0x736f6d6570736575, k1 XOR 0x646f72616e646f6d,
          k0 XOR 0x6c7967656e657261, k1 XOR 0x7465646279746573)
         (siphash_words (data @ siphash_pad data)) of (v0, v1, v2, v3) \<Rightarrow>
      case (siphash_round ^^ 4) (v0, v1, v2 XOR 0xff, v3) of (v0, v1, v2, v3) \<Rightarrow>
        v0 XOR v1 XOR v2 XOR v3)"

lemma ROTL_word_rotl:
  assumes "0 < r" "r < 64"
  shows "ROTL x r = word_rotl r x"
proof (rule bit_word_eqI)
  fix n
  assume "n < LENGTH(64)"
  moreover have "(n + (64 - r mod 64)) mod 64 = (if r \<le> n then n - r else 64 + n - r)" if "n < 64"
    using assms that by (auto simp: mod_if)
  ultimately show "bit (ROTL x r) n = bit (word_rotl r x) n"
    using assms by (auto simp: ROTL_def bit_simps bit_word_rotl_iff dest: bit_imp_le_length)
qed

lemma SIPROUND_siphash: "SIPROUND st = siphash_round st"
  by (cases st) (simp add: SIPROUND_def siphash_round_def siphash_half_def siphash_swap_def Let_def
      ROTL_word_rotl add.commute)

lemma sip_block_siphash: "sip_block m st = siphash_compress st m"
  by (cases st) (simp add: sip_block_def siphash_compress_def SIPROUND_siphash numeral_2_eq_2 split: prod.splits)

lemma le_word_Cons: "le_word (b # bs) = ucast b OR push_bit 8 (le_word bs)"
proof -
  have "256 * le_word bs = push_bit 8 (le_word bs)" by (simp add: push_bit_eq_mult)
  moreover have "ucast b + push_bit 8 (le_word bs) = (ucast b :: u64) OR push_bit 8 (le_word bs)"
    by (rule disjunctive_add) (auto simp: bit_simps dest: bit_imp_le_length)
  ultimately show ?thesis by simp
qed

lemmas le_word_or = le_word_Cons le_word.simps(1) push_bit_or push_bit_push_bit

lemma U8TO64_LE_word: "length p = 8 \<Longrightarrow> U8TO64_LE p = le_word p"
  by (auto simp: U8TO64_LE_def numeral_eq_Suc length_Suc_conv le_word_or simp del: le_word.simps(2))

text \<open>The last block: the bytes that are left over, zeros, and the length.\<close>

lemma length_byte: "push_bit 56 (of_nat n :: u64) = push_bit 56 (ucast (of_nat n :: u8))"
  by (rule bit_word_eqI) (auto simp: bit_simps)

lemma length_mod_8: "unat ((of_nat n :: u64) AND 7) = n mod 8"
proof -
  have "(of_nat n :: u64) AND 7 = take_bit 3 (of_nat n)" by (simp add: take_bit_eq_mask mask_eq_exp_minus_1)
  then show ?thesis by (simp add: unsigned_take_bit_eq unat_of_nat take_bit_nat_def mod_mod_cancel)
qed

lemma le_word_rev: "le_word (b # bs) = push_bit 8 (le_word bs) OR ucast b"
  by (simp only: le_word_Cons or.commute)

lemma replicate_small:
  "replicate 2 x = [x, x]" "replicate 3 x = [x, x, x]" "replicate 4 x = [x, x, x, x]"
  "replicate 5 x = [x, x, x, x, x]" "replicate 6 x = [x, x, x, x, x, x]"
  "replicate 7 x = [x, x, x, x, x, x, x]"
  by (simp_all add: numeral_eq_Suc)

lemma sip_last_siphash:
  assumes "length rest = n mod 8"
  shows "sip_last (of_nat n) rest = le_word (rest @ replicate (7 - length rest) 0 @ [of_nat n])"
proof -
  have "length rest < 8" using assms by simp
  then consider "rest = []" | a where "rest = [a]" | a b where "rest = [a, b]" | a b c where "rest = [a, b, c]"
    | a b c d where "rest = [a, b, c, d]" | a b c d e where "rest = [a, b, c, d, e]"
    | a b c d e f where "rest = [a, b, c, d, e, f]" | a b c d e f g where "rest = [a, b, c, d, e, f, g]"
    by (auto simp: numeral_eq_Suc less_Suc_eq length_Suc_conv)
  then show ?thesis
    using assms [symmetric] by cases
      (simp_all add: sip_last_def length_mod_8 length_byte replicate_small le_word_rev push_bit_or
        push_bit_push_bit del: le_word.simps(2))
qed

lemma siphash_words_block:
  "length b = 8 \<Longrightarrow> siphash_words (b @ p) = le_word b # siphash_words p"
proof -
  have "(8 + length p) div 8 = Suc (length p div 8)" by simp
  then show "length b = 8 \<Longrightarrow> ?thesis"
    by (simp add: siphash_words_def upt_conv_Cons map_Suc_upt [symmetric] comp_def del: upt_Suc)
qed

lemma sip_blocks_siphash:
  assumes "length tail = 8 - length inp mod 8"
  shows "\<exists>st' rest. sip_blocks inp st = (st', rest) \<and> length rest = length inp mod 8 \<and>
    foldl siphash_compress st (siphash_words (inp @ tail)) = siphash_compress st' (le_word (rest @ tail))"
  using assms
proof (induction inp st rule: sip_blocks.induct)
  case (1 inp st)
  show ?case
  proof (cases "length inp < 8")
    case True
    with 1(2) have "siphash_words ((inp @ tail) @ []) = [le_word (inp @ tail)]"
      by (subst siphash_words_block) (simp_all add: siphash_words_def)
    with True show ?thesis by (simp add: sip_blocks.simps [of inp])
  next
    case False
    then have b: "length (take 8 inp) = 8" "inp @ tail = take 8 inp @ drop 8 inp @ tail"
      "length (drop 8 inp) mod 8 = length inp mod 8"
      by (simp_all add: le_mod_geq)
    have "siphash_words (inp @ tail) = U8TO64_LE (take 8 inp) # siphash_words (drop 8 inp @ tail)"
      using siphash_words_block [OF b(1)] b(2) U8TO64_LE_word [OF b(1)] by metis
    with 1 False b(3) show ?thesis
      by (simp add: sip_blocks.simps [of inp] sip_block_siphash)
  qed
qed

lemma sip_final_siphash: "sip_final st = (case st of (v0, v1, v2, v3) \<Rightarrow> (siphash_round ^^ 4) (v0, v1, v2 XOR 0xff, v3))"
  by (simp add: sip_final_def SIPROUND_siphash numeral_eq_Suc split: prod.splits)

section \<open>Properties\<close>

text \<open>
  C40. \<open>hashmap_sip\<close> is SipHash-2-4 as it is specified, on every input of every length and with every
  pair of seeds; the specification gives the value published with the reference implementation
  for its 15-byte input.
\<close>

theorem hashmap_sip_is_siphash:
  "hashmap_sip data seed0 seed1 = siphash_2_4 seed0 seed1 data \<and>
   siphash_2_4 0x0706050403020100 0x0f0e0d0c0b0a0908 [0, 1, 2, 3, 4, 5, 6, 7, 8, 9, 10, 11, 12, 13, 14] =
     0xa129ca6149be45e5"
proof -
  have eq: "hashmap_sip data s t = siphash_2_4 s t data" for data s t
  proof -
    have "length (siphash_pad data) = 8 - length data mod 8"
      by (simp add: siphash_pad_def Suc_diff_le less_Suc_eq_le [symmetric])
    from sip_blocks_siphash [OF this, of "sip_init s t"] obtain st rest where
      b: "sip_blocks data (sip_init s t) = (st, rest)" "length rest = length data mod 8"
        "foldl siphash_compress (sip_init s t) (siphash_words (data @ siphash_pad data)) =
           siphash_compress st (le_word (rest @ siphash_pad data))" by blast
    have "sip_init s t = (s XOR 0x736f6d6570736575, t XOR 0x646f72616e646f6d,
        s XOR 0x6c7967656e657261, t XOR 0x7465646279746573)"
      by (simp add: sip_init_def U8TO64_LE_bytes xor.commute)
    moreover have "sip_last (of_nat (length data)) rest = le_word (rest @ siphash_pad data)"
      using sip_last_siphash [OF b(2)] b(2) by (simp add: siphash_pad_def)
    ultimately show ?thesis
      using b by (simp add: hashmap_sip_def SIP64_def siphash_2_4_def sip_block_siphash sip_final_siphash
          U8TO64_LE_bytes split: prod.splits)
  qed
  then show ?thesis by (metis SIP64_vector hashmap_sip_def)
qed

end
