(* ===== verification/Tag_Table.thy ===== *)
theory Tag_Table
  imports Bitmask Hashmap_Ops Sip_Hash
begin

text \<open>
  The common data structure of the tag service, \<open>tag_table\<close> and \<open>tag_bitmask\<close> in
  \<open>tag-module/tag-module.c\<close>: the entries of the hash map, the hash and the comparison the module
  gives it, the parameters it creates it with, and the interpretation of the \<open>registry\<close>
  interface on the two structures.
\<close>

section \<open>Constants\<close>

definition SEED0 :: u64 where "SEED0 = 401861"
definition SEED1 :: u64 where "SEED1 = 879023"
definition MAX_TAGS :: int where "MAX_TAGS = 256"
definition HASHMAP_CAP :: u64 where "HASHMAP_CAP = word_of_int (MAX_TAGS * 2)"
definition LEVELS :: nat where "LEVELS = 32"
definition BUFFER_SIZE :: nat where "BUFFER_SIZE = 4096"

section \<open>Entries\<close>

text \<open>
  The key of an entry is kept as the 32 bits of the C \<open>int\<close>, because the hash reads its bytes; the
  descriptor is a number.
\<close>

datatype tag_table_entry = Tag_Entry (te_key: u32) (te_tag_key: int)

instantiation tag_table_entry :: zero
begin
definition zero_tag_table_entry :: tag_table_entry where
  "zero_tag_table_entry = Tag_Entry 0 0"
instance ..
end

definition tag_compare :: "tag_table_entry \<Rightarrow> tag_table_entry \<Rightarrow> int" where
  "tag_compare a b = sint (te_key a - te_key b)"

definition tag_hash :: "tag_table_entry \<Rightarrow> u64 \<Rightarrow> u64 \<Rightarrow> u64" where
  "tag_hash entry seed0 seed1 = hashmap_sip (U32TO8_LE (te_key entry)) seed0 seed1"

lemma tag_compare_0_iff: "tag_compare a b = 0 \<longleftrightarrow> te_key a = te_key b"
  unfolding tag_compare_def by (metis right_minus_eq signed_eq_0_iff)

text \<open>On the keys the module stores, which are not negative, the subtraction does not wrap.\<close>

lemma tag_compare_no_overflow:
  assumes "0 \<le> k" "k \<le> INT_MAX" "0 \<le> l" "l \<le> INT_MAX"
  shows "tag_compare (Tag_Entry (word_of_int k) d) (Tag_Entry (word_of_int l) e) = k - l"
proof -
  have "tag_compare (Tag_Entry (word_of_int k) d) (Tag_Entry (word_of_int l) e) =
      signed_take_bit 31 (k - l)"
    using sint_sbintrunc' [of "k - l", where 'a = 32] by (simp add: tag_compare_def)
  also have "\<dots> = k - l"
    using assms by (intro signed_take_bit_int_eq_self) (auto simp: INT_MAX_def)
  finally show ?thesis .
qed

lemma key_of_int_inject:
  assumes "0 \<le> k" "k \<le> INT_MAX" "0 \<le> l" "l \<le> INT_MAX"
  shows "(word_of_int k :: u32) = word_of_int l \<longleftrightarrow> k = l"
proof -
  have "uint (word_of_int x :: u32) = x" if "0 \<le> x" "x \<le> INT_MAX" for x
    using that by (simp add: uint_word_of_int INT_MAX_def)
  with assms show ?thesis by metis
qed

section \<open>The table of the module\<close>

text \<open>A hash map with the module's functions; \<open>tag_table_map\<close> is the map from keys to entries.\<close>

definition tag_table_ok :: "tag_table_entry hashmap \<Rightarrow> bool" where
  "tag_table_ok m \<longleftrightarrow> hm_fixed te_key m \<and> MAX_TAGS \<le> uint (hm_growat m)"

abbreviation tag_table_map :: "tag_table_entry hashmap \<Rightarrow> u32 \<Rightarrow> tag_table_entry option" where
  "tag_table_map m \<equiv> hm_map te_key m"

definition new_tag_table :: "outcomes \<Rightarrow> (tag_table_entry hashmap option \<times> outcomes) option" where
  "new_tag_table al = hashmap_new_with_allocator 8 HASHMAP_CAP SEED0 SEED1 tag_hash tag_compare al"

lemma new_tag_table_ok:
  obtains r al' where "new_tag_table al = Some (r, al')"
    "\<forall>m. r = Some m \<longrightarrow> tag_table_ok m \<and> tag_table_map m = Map.empty \<and> hashmap_count m = 0"
    "al = [] \<longrightarrow> r \<noteq> None"
proof -
  have cap: "HASHMAP_CAP = 2 ^ 9" by (simp add: HASHMAP_CAP_def MAX_TAGS_def)
  obtain r al' bsz where new: "hashmap_new_with_allocator 8 (2 ^ 9) SEED0 SEED1 tag_hash tag_compare al =
      Some (r, al')"
    and r: "r = None \<or> r = Some \<lparr>hm_oom = False, hm_elsize = 8, hm_cap = 2 ^ 9, hm_seed0 = SEED0,
       hm_seed1 = SEED1, hm_hash = tag_hash, hm_compare = tag_compare, hm_bucketsz = bsz,
       hm_nbuckets = 2 ^ 9, hm_count = 0, hm_mask = 2 ^ 9 - 1, hm_growat = 2 ^ 9 * 3 div 4,
       hm_shrinkat = 2 ^ 9 div 10, hm_buckets = replicate (2 ^ 9) zero_bucket\<rparr>"
    using hashmap_new_fields [of 9 8 SEED0 SEED1 tag_hash tag_compare al] by auto
  have "hm_wf te_key m \<and> tag_table_map m = Map.empty \<and> hashmap_count m = 0" if "r = Some m" for m
  proof -
    have "unat (2 ^ 9 :: u64) \<le> 2 ^ 15" by simp
    then obtain q al'' where q: "hashmap_new 8 (2 ^ 9) SEED0 SEED1 tag_hash tag_compare al = Some (q, al'')"
        "\<forall>m. q = Some m \<longrightarrow> hm_wf te_key m \<and> hm_map te_key m = Map.empty \<and> hm_count m = 0 \<and>
          2 ^ 9 \<le> hm_cap m \<and> hm_hash m = tag_hash \<and> hm_compare m = tag_compare \<and>
          hm_seed0 m = SEED0 \<and> hm_seed1 m = SEED1" "al = [] \<longrightarrow> q \<noteq> None"
      by (rule hashmap_new_wf [of _ tag_compare te_key tag_hash])
        (simp_all add: tag_compare_0_iff tag_hash_def)
    with new that show ?thesis by (simp add: hashmap_new_def hashmap_count_def)
  qed
  moreover have "hm_nbuckets m = hm_cap m \<and> MAX_TAGS \<le> uint (hm_growat m)" if "r = Some m" for m
    using r that by (auto simp: MAX_TAGS_def)
  moreover have "r \<noteq> None" if "al = []"
    using new that by (auto simp: hashmap_new_with_allocator_def Let_def bind_eq_Some_conv)
  ultimately show thesis
    using new by (intro that [of r al']) (simp_all add: new_tag_table_def cap tag_table_ok_def hm_fixed_def)
qed

section \<open>The registry\<close>

interpretation reg: registry get_avail_number clear_number bm_wf bm_used bm_cap
  hashmap_get hashmap_set hashmap_delete hashmap_oom "\<lambda>m. unat (hashmap_count m)"
  "hm_fixed te_key" "hm_map te_key" te_key "\<lambda>m. unat (hm_growat m)" te_tag_key
  by unfold_locales

end
