(* ===== verification/Tag_State.thy ===== *)
theory Tag_State
  imports Tag_Table "HOL-Library.Monad_Syntax"
begin

text \<open>
  The state of the tag service (\<open>tag-module/tag-struct.h\<close> and the globals of
  \<open>tag-module/tag-module.c\<close>) and the kernel primitives the handlers use on it.

  Pointers are addresses into two heaps, one of tag entries and one of levels; \<open>kfree\<close> removes
  the object, so that following a stale pointer has no result. A handler maps a state to
  \<open>Some (result, state)\<close>; \<open>None\<close> means that the calling thread cannot go on: it follows a null
  or stale pointer, frees an object twice, releases a lock that is not held, or waits for a
  lock that another thread holds. What the environment decides is part of the state: whether an
  allocation succeeds (\<open>k_alloc\<close>), whether an interruptible acquisition of a lock is interrupted
  (\<open>k_signal\<close>), how many bytes of a transfer to or from user space fail (\<open>k_copy\<close>).
\<close>

section \<open>Commands and permissions\<close>

definition TAG_OPEN :: int where "TAG_OPEN = 0"
definition TAG_CREAT :: int where "TAG_CREAT = 1"
definition TAG_AWAKE_ALL :: int where "TAG_AWAKE_ALL = 0"
definition TAG_DELETE :: int where "TAG_DELETE = 1"
definition TAG_PERM_ALL :: int where "TAG_PERM_ALL = 0"
definition TAG_PERM_USR :: int where "TAG_PERM_USR = 1"
definition IPC_PRIVATE :: int where "IPC_PRIVATE = 0"

lemmas tag_consts = TAG_OPEN_def TAG_CREAT_def TAG_AWAKE_ALL_def TAG_DELETE_def TAG_PERM_ALL_def
  TAG_PERM_USR_def IPC_PRIVATE_def

section \<open>Reader-writer semaphores\<close>

record rwsem =
  rw_readers :: nat
  rw_writer :: bool

definition init_rwsem :: rwsem where
  "init_rwsem = \<lparr>rw_readers = 0, rw_writer = False\<rparr>"

definition down_read :: "rwsem \<Rightarrow> rwsem option" where
  "down_read l = (if rw_writer l then None else Some (l\<lparr>rw_readers := Suc (rw_readers l)\<rparr>))"

definition up_read :: "rwsem \<Rightarrow> rwsem option" where
  "up_read l = (case rw_readers l of 0 \<Rightarrow> None | Suc n \<Rightarrow> Some (l\<lparr>rw_readers := n\<rparr>))"

definition down_write :: "rwsem \<Rightarrow> rwsem option" where
  "down_write l = (if rw_writer l \<or> rw_readers l \<noteq> 0 then None else Some (l\<lparr>rw_writer := True\<rparr>))"

definition up_write :: "rwsem \<Rightarrow> rwsem option" where
  "up_write l = (if rw_writer l then Some (l\<lparr>rw_writer := False\<rparr>) else None)"

section \<open>Objects\<close>

type_synonym addr = nat
type_synonym tid = nat

text \<open>
  \<open>tl_local_wq\<close> holds the threads asleep on the wait queue. The counters are small (they count
  threads), so they are unbounded integers.
\<close>

record tag_level =
  tl_level :: int
  tl_size :: nat
  tl_ready :: int
  tl_epoch :: int
  tl_waiting :: int
  tl_local_wq :: "tid list"
  tl_rcu_lock :: rwsem
  tl_w_mutex :: bool
  tl_buffer :: "u8 list"

record tag =
  tg_key :: int
  tg_tag_key :: int
  tg_ready :: int
  tg_permission :: int
  tg_euid :: int
  tg_tag_level :: "addr option list"
  tg_waiting :: int
  tg_level_lock :: "rwsem list"

record kernel =
  k_tag_table :: "tag_table_entry hashmap"
  k_tag_bitmask :: bitmask
  k_tags :: "addr option list"
  k_common_lock :: rwsem
  k_tag_lock :: "rwsem list"
  k_tag_heap :: "addr \<Rightarrow> tag option"
  k_level_heap :: "addr \<Rightarrow> tag_level option"
  k_next :: addr
  k_alloc :: outcomes
  k_signal :: outcomes
  k_copy :: "nat list"

definition CHECKPERM :: "tag \<Rightarrow> int \<Rightarrow> bool" where
  "CHECKPERM tag_entry euid \<longleftrightarrow>
     tg_permission tag_entry = TAG_PERM_USR \<and> euid \<noteq> 0 \<and> tg_euid tag_entry \<noteq> euid"

section \<open>Locks of the state\<close>

definition common_lock_op :: "(rwsem \<Rightarrow> rwsem option) \<Rightarrow> kernel \<Rightarrow> kernel option" where
  "common_lock_op f s = do { l \<leftarrow> f (k_common_lock s); Some (s\<lparr>k_common_lock := l\<rparr>) }"

definition tag_lock_op :: "(rwsem \<Rightarrow> rwsem option) \<Rightarrow> nat \<Rightarrow> kernel \<Rightarrow> kernel option" where
  "tag_lock_op f i s =
     do { l \<leftarrow> f (k_tag_lock s ! i); Some (s\<lparr>k_tag_lock := (k_tag_lock s)[i := l]\<rparr>) }"

definition level_lock_op :: "(rwsem \<Rightarrow> rwsem option) \<Rightarrow> addr \<Rightarrow> nat \<Rightarrow> kernel \<Rightarrow> kernel option" where
  "level_lock_op f te i s = do {
     tg \<leftarrow> k_tag_heap s te;
     l \<leftarrow> f (tg_level_lock tg ! i);
     Some (s\<lparr>k_tag_heap := (k_tag_heap s)(te \<mapsto>
       tg\<lparr>tg_level_lock := (tg_level_lock tg)[i := l]\<rparr>)\<rparr>) }"

definition rcu_lock_op :: "(rwsem \<Rightarrow> rwsem option) \<Rightarrow> addr \<Rightarrow> kernel \<Rightarrow> kernel option" where
  "rcu_lock_op f lp s = do {
     lv \<leftarrow> k_level_heap s lp;
     l \<leftarrow> f (tl_rcu_lock lv);
     Some (s\<lparr>k_level_heap := (k_level_heap s)(lp \<mapsto> lv\<lparr>tl_rcu_lock := l\<rparr>)\<rparr>) }"

text \<open>
  \<open>down_read_interruptible\<close> and \<open>down_write_killable\<close>: \<open>False\<close> is -EINTR. The model lets the
  environment interrupt any acquisition, also one that would not have to wait.
\<close>

definition interruptible :: "(kernel \<Rightarrow> kernel option) \<Rightarrow> kernel \<Rightarrow> (bool \<times> kernel) option" where
  "interruptible acquire s =
     (let (ok, rest) = next_outcome (k_signal s);
          s1 = s\<lparr>k_signal := rest\<rparr>
      in if ok then map_option (Pair True) (acquire s1) else Some (False, s1))"

section \<open>Memory\<close>

definition kzalloc :: "kernel \<Rightarrow> bool \<times> kernel" where
  "kzalloc s = (let (ok, rest) = next_outcome (k_alloc s) in (ok, s\<lparr>k_alloc := rest\<rparr>))"

definition update_tag :: "addr \<Rightarrow> (tag \<Rightarrow> tag) \<Rightarrow> kernel \<Rightarrow> kernel option" where
  "update_tag te f s =
     do { tg \<leftarrow> k_tag_heap s te; Some (s\<lparr>k_tag_heap := (k_tag_heap s)(te \<mapsto> f tg)\<rparr>) }"

definition update_level :: "addr \<Rightarrow> (tag_level \<Rightarrow> tag_level) \<Rightarrow> kernel \<Rightarrow> kernel option" where
  "update_level lp f s =
     do { lv \<leftarrow> k_level_heap s lp; Some (s\<lparr>k_level_heap := (k_level_heap s)(lp \<mapsto> f lv)\<rparr>) }"

definition kfree_tag :: "addr \<Rightarrow> kernel \<Rightarrow> kernel option" where
  "kfree_tag te s =
     do { _ \<leftarrow> k_tag_heap s te; Some (s\<lparr>k_tag_heap := (k_tag_heap s)(te := None)\<rparr>) }"

text \<open>
  Transfers between user space and the kernel: the environment gives the number of bytes at the
  end that cannot be transferred; bytes beyond the end of the user's data cannot be read. After a
  failed \<open>copy_from_user\<close> that part of the destination
  is zero.
\<close>

fun next_copy :: "nat list \<Rightarrow> nat \<times> nat list" where
  "next_copy [] = (0, [])"
| "next_copy (n # ns) = (n, ns)"

definition copy_from_user :: "u8 list \<Rightarrow> u8 list \<Rightarrow> nat \<Rightarrow> kernel \<Rightarrow> nat \<times> u8 list \<times> kernel" where
  "copy_from_user dst src n s =
     (let (fail, rest) = next_copy (k_copy s);
          r = max (min fail n) (n - length src)
      in (r, take (n - r) src @ replicate r 0 @ drop n dst, s\<lparr>k_copy := rest\<rparr>))"

definition copy_to_user :: "u8 list \<Rightarrow> nat \<Rightarrow> kernel \<Rightarrow> nat \<times> u8 list \<times> kernel" where
  "copy_to_user src n s =
     (let (fail, rest) = next_copy (k_copy s);
          r = min fail n
      in (r, take (n - r) src, s\<lparr>k_copy := rest\<rparr>))"

section \<open>Levels\<close>

definition create_level :: "nat \<Rightarrow> int \<Rightarrow> kernel \<Rightarrow> addr option \<times> kernel" where
  "create_level i epoch s =
     (let (ok, s) = kzalloc s
      in if \<not> ok then (None, s)
         else
           let (ok, s) = kzalloc s
           in if \<not> ok then (None, s)
              else
                let a = k_next s;
                    lv = \<lparr>tl_level = int i, tl_size = 0, tl_ready = 0, tl_epoch = epoch,
                          tl_waiting = 0, tl_local_wq = [], tl_rcu_lock = init_rwsem,
                          tl_w_mutex = False, tl_buffer = replicate BUFFER_SIZE 0\<rparr>
                in (Some a, s\<lparr>k_next := Suc a, k_level_heap := (k_level_heap s)(a \<mapsto> lv)\<rparr>))"

text \<open>The loop of \<open>add_tag_level\<close> with \<open>n\<close> levels to go, from level \<open>i\<close>.\<close>

fun add_tag_level_loop ::
  "nat \<Rightarrow> nat \<Rightarrow> addr option list \<Rightarrow> kernel \<Rightarrow> int \<times> addr option list \<times> kernel" where
  "add_tag_level_loop 0 i tag_level s = (0, tag_level, s)"
| "add_tag_level_loop (Suc n) i tag_level s =
     (case create_level i 0 s of
        (None, s1) \<Rightarrow> (- ENOMEM, tag_level, s1)
      | (Some a, s1) \<Rightarrow> add_tag_level_loop n (Suc i) (tag_level[i := Some a]) s1)"

definition add_tag_level :: "addr option list \<Rightarrow> kernel \<Rightarrow> int \<times> addr option list \<times> kernel" where
  "add_tag_level tag_level s = add_tag_level_loop LEVELS 0 tag_level s"

definition free_level :: "addr \<Rightarrow> kernel \<Rightarrow> kernel option" where
  "free_level lp s =
     do { _ \<leftarrow> k_level_heap s lp; Some (s\<lparr>k_level_heap := (k_level_heap s)(lp := None)\<rparr>) }"

fun clear_tag_level :: "addr option list \<Rightarrow> kernel \<Rightarrow> kernel option" where
  "clear_tag_level [] s = Some s"
| "clear_tag_level (None # rest) s = clear_tag_level rest s"
| "clear_tag_level (Some lp # rest) s = do { s \<leftarrow> free_level lp s; clear_tag_level rest s }"

end
