(* ===== verification/Tag_Handlers.thy ===== *)
theory Tag_Handlers
  imports Tag_State
begin

text \<open>
  The system calls of \<open>tag-module/tag-syscall.c\<close>, each whole, without its debug output:
  \<open>PRINT\<close> is \<open>if(0)\<close> unless \<open>AUDIT\<close> is defined; what it adds to a call is in \<open>Tag_Print\<close>.
  \<open>tag_receive\<close> blocks, so it is in three parts: \<open>tag_receive_enter\<close> up to the registration on a
  level, \<open>wait_condition\<close> and \<open>receive_sleep\<close> for \<open>wait_event_interruptible\<close>, and
  \<open>tag_receive_leave\<close> from there to the return; \<open>Receive_Steps\<close> takes the parts into single steps. The
  other calls run to their end. The effective user of the caller is an argument.
\<close>

section \<open>Common data structures\<close>

definition set_bitmask :: "bitmask \<Rightarrow> kernel \<Rightarrow> kernel" where
  "set_bitmask bm s = s\<lparr>k_tag_bitmask := bm\<rparr>"

definition clear_tag_common :: "int \<Rightarrow> int \<Rightarrow> kernel \<Rightarrow> (int \<times> kernel) option" where
  "clear_tag_common key tag_key s = do {
     (ok, s) \<leftarrow> interruptible (common_lock_op down_write) s;
     if \<not> ok then Some (- EINTR, s)
     else do {
       s \<leftarrow> (if key \<noteq> IPC_PRIVATE then do {
                entry \<leftarrow> hashmap_get (k_tag_table s) (Tag_Entry (word_of_int key) 0);
                case entry of
                  Some e \<Rightarrow>
                    if te_tag_key e = tag_key then do {
                      (_, t, al) \<leftarrow> hashmap_delete (k_tag_table s) (Tag_Entry (word_of_int key) 0)
                        (k_alloc s);
                      Some (s\<lparr>k_tag_table := t, k_alloc := al\<rparr>)
                    } else Some s
                | None \<Rightarrow> Some s
              } else Some s);
       (r, bm) \<leftarrow> clear_number (k_tag_bitmask s) tag_key;
       let s = set_bitmask bm s;
       s \<leftarrow> (if r \<noteq> 1 \<and> key \<noteq> IPC_PRIVATE then do {
                (_, t, al) \<leftarrow> hashmap_set (k_tag_table s) (Tag_Entry (word_of_int key) tag_key)
                  (k_alloc s);
                Some (s\<lparr>k_tag_table := t, k_alloc := al\<rparr>)
              } else Some s);
       s \<leftarrow> common_lock_op up_write s;
       Some (0, s)
     }
   }"

section \<open>tag_get\<close>

text \<open>
  The part of a creation under \<open>common_lock\<close> that enters the key: a code other than 0 is returned to
  the caller, the lock released.
\<close>

definition tag_get_register :: "int \<Rightarrow> int \<Rightarrow> kernel \<Rightarrow> (int \<times> kernel) option" where
  "tag_get_register key tag_key s = do {
     found \<leftarrow> hashmap_get (k_tag_table s) (Tag_Entry (word_of_int key) 0);
     if found \<noteq> None then do {
       (_, bm) \<leftarrow> clear_number (k_tag_bitmask s) tag_key;
       s \<leftarrow> common_lock_op up_write (set_bitmask bm s);
       Some (- EBUSY, s)
     } else do {
       (old, t, al) \<leftarrow> hashmap_set (k_tag_table s) (Tag_Entry (word_of_int key) tag_key) (k_alloc s);
       let s = s\<lparr>k_tag_table := t, k_alloc := al\<rparr>;
       if old = None \<and> hashmap_oom t then do {
         (_, bm) \<leftarrow> clear_number (k_tag_bitmask s) tag_key;
         s \<leftarrow> common_lock_op up_write (set_bitmask bm s);
         Some (- ENOMEM, s)
       } else Some (0, s)
     }
   }"

text \<open>The rest of a creation: the levels, the entry, and its publication in \<open>tags\<close>.\<close>

definition tag_get_undo :: "int \<Rightarrow> int \<Rightarrow> kernel \<Rightarrow> (int \<times> kernel) option" where
  "tag_get_undo key tag_key s = do {
     (r, s) \<leftarrow> clear_tag_common key tag_key s;
     Some (if r \<noteq> 0 then - EINTR else - ENOMEM, s)
   }"

definition tag_get_build :: "int \<Rightarrow> int \<Rightarrow> int \<Rightarrow> int \<Rightarrow> kernel \<Rightarrow> (int \<times> kernel) option" where
  "tag_get_build key tag_key permission euid s =
     (let (ok, s) = kzalloc s
      in if \<not> ok then tag_get_undo key tag_key s
         else
           let (r, tag_level, s) = add_tag_level (replicate LEVELS None) s
           in if r \<noteq> 0 then do { s \<leftarrow> clear_tag_level tag_level s; tag_get_undo key tag_key s }
              else
                let (ok, s) = kzalloc s
                in if \<not> ok then do { s \<leftarrow> clear_tag_level tag_level s; tag_get_undo key tag_key s }
                   else
                     let a = k_next s;
                         tag_entry = \<lparr>tg_key = key, tg_tag_key = tag_key, tg_ready = 0,
                           tg_permission = permission, tg_euid = euid, tg_tag_level = tag_level,
                           tg_waiting = 0, tg_level_lock = replicate LEVELS init_rwsem\<rparr>
                     in Some (tag_key,
                          s\<lparr>k_next := Suc a, k_tag_heap := (k_tag_heap s)(a \<mapsto> tag_entry),
                             k_tags := (k_tags s)[nat tag_key := Some a]\<rparr>))"

definition tag_get_create :: "int \<Rightarrow> int \<Rightarrow> int \<Rightarrow> kernel \<Rightarrow> (int \<times> kernel) option" where
  "tag_get_create key permission euid s =
     (if permission \<noteq> TAG_PERM_USR \<and> permission \<noteq> TAG_PERM_ALL then Some (- EINVAL, s)
      else do {
        (ok, s) \<leftarrow> interruptible (common_lock_op down_write) s;
        if \<not> ok then Some (- EINTR, s)
        else if uint (hashmap_count (k_tag_table s)) \<ge> MAX_TAGS then do {
          s \<leftarrow> common_lock_op up_write s;
          Some (- EMAXTAG, s)
        } else
          let (tag_key, bm) = get_avail_number (k_tag_bitmask s);
              s = set_bitmask bm s
          in if tag_key < 0 \<or> tag_key \<ge> MAX_TAGS then do {
               s \<leftarrow> common_lock_op up_write s;
               Some (- EPROTO, s)
             } else do {
               (r, s) \<leftarrow> (if key \<noteq> IPC_PRIVATE then tag_get_register key tag_key s else Some (0, s));
               if r \<noteq> 0 then Some (r, s)
               else do {
                 s \<leftarrow> common_lock_op up_write s;
                 tag_get_build key tag_key permission euid s
               }
             }
      })"

definition tag_get_open :: "int \<Rightarrow> kernel \<Rightarrow> (int \<times> kernel) option" where
  "tag_get_open key s =
     (if key = IPC_PRIVATE then Some (- EINVAL, s)
      else do {
        (ok, s) \<leftarrow> interruptible (common_lock_op down_read) s;
        if \<not> ok then Some (- EINTR, s)
        else do {
          entry \<leftarrow> hashmap_get (k_tag_table s) (Tag_Entry (word_of_int key) 0);
          case entry of
            None \<Rightarrow> do { s \<leftarrow> common_lock_op up_read s; Some (- ENODATA, s) }
          | Some e \<Rightarrow>
              if k_tags s ! nat (te_tag_key e) = None
              then do { s \<leftarrow> common_lock_op up_read s; Some (- ENODATA, s) }
              else do { s \<leftarrow> common_lock_op up_read s; Some (te_tag_key e, s) }
        }
      })"

definition tag_get :: "int \<Rightarrow> int \<Rightarrow> int \<Rightarrow> int \<Rightarrow> kernel \<Rightarrow> (int \<times> kernel) option" where
  "tag_get key command permission euid s =
     (if key < 0 then Some (- EINVAL, s)
      else if command = TAG_CREAT then tag_get_create key permission euid s
      else if command = TAG_OPEN then tag_get_open key s
      else Some (- EINVAL, s))"

section \<open>tag_send\<close>

definition wake_up_all :: "addr \<Rightarrow> kernel \<Rightarrow> kernel option" where
  "wake_up_all lp s = update_level lp (\<lambda>lv. lv\<lparr>tl_local_wq := []\<rparr>) s"

definition set_w_mutex :: "bool \<Rightarrow> addr \<Rightarrow> kernel \<Rightarrow> kernel option" where
  "set_w_mutex b lp s = update_level lp (\<lambda>lv. lv\<lparr>tl_w_mutex := b\<rparr>) s"

definition bad_message_args :: "int \<Rightarrow> int \<Rightarrow> nat \<Rightarrow> bool" where
  "bad_message_args tag level sz \<longleftrightarrow>
     tag < 0 \<or> tag \<ge> MAX_TAGS \<or> level < 0 \<or> level \<ge> int LEVELS \<or> sz > BUFFER_SIZE"

text \<open>
  The part of \<open>tag_send\<close> that holds \<open>rcu_lock\<close> of the level, from the attempt to take the mutex. It
  leaves \<open>rcu_lock\<close> and \<open>tag_lock\<close> released.
\<close>

definition tag_send_level :: "nat \<Rightarrow> addr \<Rightarrow> u8 list \<Rightarrow> nat \<Rightarrow> kernel \<Rightarrow> (int \<times> kernel) option" where
  "tag_send_level tag lp data sz s = do {
     lv \<leftarrow> k_level_heap s lp;
     if tl_w_mutex lv then do {
       s \<leftarrow> rcu_lock_op up_read lp s;
       s \<leftarrow> tag_lock_op up_read tag s;
       Some (0, s)
     } else do {
       s \<leftarrow> set_w_mutex True lp s;
       if tl_ready lv = 1 \<or> tl_waiting lv = 0 then do {
         s \<leftarrow> set_w_mutex False lp s;
         s \<leftarrow> rcu_lock_op up_read lp s;
         s \<leftarrow> tag_lock_op up_read tag s;
         Some (0, s)
       } else do {
         (fail, s) \<leftarrow> (if sz > 0 then
             let (fail, buffer, s) = copy_from_user (tl_buffer lv) data sz s
             in do { s \<leftarrow> update_level lp (\<lambda>lv. lv\<lparr>tl_buffer := buffer\<rparr>) s; Some (fail \<noteq> 0, s) }
           else Some (False, s));
         if fail then do {
           s \<leftarrow> rcu_lock_op up_read lp s;
           s \<leftarrow> tag_lock_op up_read tag s;
           s \<leftarrow> set_w_mutex False lp s;
           Some (- EFAULT, s)
         } else do {
           s \<leftarrow> update_level lp (\<lambda>lv. lv\<lparr>tl_size := sz, tl_ready := 1\<rparr>) s;
           s \<leftarrow> set_w_mutex False lp s;
           s \<leftarrow> wake_up_all lp s;
           s \<leftarrow> rcu_lock_op up_read lp s;
           s \<leftarrow> tag_lock_op up_read tag s;
           Some (1, s)
         }
       }
     }
   }"

definition tag_send ::
  "int \<Rightarrow> int \<Rightarrow> u8 list option \<Rightarrow> nat \<Rightarrow> int \<Rightarrow> kernel \<Rightarrow> (int \<times> kernel) option" where
  "tag_send tag level buffer sz euid s =
     (if bad_message_args tag level sz then Some (- EINVAL, s)
      else let sz = (if buffer = None then 0 else sz) in do {
        (ok, s) \<leftarrow> interruptible (tag_lock_op down_read (nat tag)) s;
        if \<not> ok then Some (- EINTR, s)
        else case k_tags s ! nat tag of
          None \<Rightarrow> do { s \<leftarrow> tag_lock_op up_read (nat tag) s; Some (- ENODATA, s) }
        | Some te \<Rightarrow> do {
            tag_entry \<leftarrow> k_tag_heap s te;
            if CHECKPERM tag_entry euid then do {
              s \<leftarrow> tag_lock_op up_read (nat tag) s;
              Some (- EPERM, s)
            } else if tg_waiting tag_entry = 0 then do {
              s \<leftarrow> tag_lock_op up_read (nat tag) s;
              Some (0, s)
            } else do {
              (ok, s) \<leftarrow> interruptible (level_lock_op down_read te (nat level)) s;
              if \<not> ok then do { s \<leftarrow> tag_lock_op up_read (nat tag) s; Some (- EINTR, s) }
              else do {
                tag_entry \<leftarrow> k_tag_heap s te;
                case tg_tag_level tag_entry ! nat level of
                  None \<Rightarrow> do {
                    s \<leftarrow> level_lock_op up_read te (nat level) s;
                    s \<leftarrow> tag_lock_op up_read (nat tag) s;
                    Some (- EINTR, s)
                  }
                | Some lp \<Rightarrow> do {
                    (ok, s) \<leftarrow> interruptible (rcu_lock_op down_read lp) s;
                    s \<leftarrow> level_lock_op up_read te (nat level) s;
                    if \<not> ok then do { s \<leftarrow> tag_lock_op up_read (nat tag) s; Some (- EINTR, s) }
                    else tag_send_level (nat tag) lp (case buffer of Some d \<Rightarrow> d | None \<Rightarrow> []) sz s
                  }
              }
            }
          }
      })"

section \<open>tag_receive\<close>

text \<open>A receiver between its registration and its return.\<close>

record receiver =
  rc_tag :: nat
  rc_level :: nat
  rc_entry :: addr
  rc_lp :: addr
  rc_size :: nat
  rc_buffer :: bool

text \<open>\<open>if(atomic_dec_and_test(&(tag_entry -> waiting))) tag_entry -> ready = 0\<close>\<close>

definition tag_waiting_dec :: "addr \<Rightarrow> kernel \<Rightarrow> kernel option" where
  "tag_waiting_dec te s = update_tag te (\<lambda>tg.
     tg\<lparr>tg_waiting := tg_waiting tg - 1,
        tg_ready := (if tg_waiting tg - 1 = 0 then 0 else tg_ready tg)\<rparr>) s"

text \<open>
  The level found ready: under the write side of \<open>level_lock\<close> a level of the next epoch is
  installed, unless another receiver has done so. The result is the level to receive on, locked for
  reading, or the code to return.
\<close>

definition tag_receive_epoch ::
  "nat \<Rightarrow> nat \<Rightarrow> addr \<Rightarrow> addr \<Rightarrow> kernel \<Rightarrow> ((int + addr) \<times> kernel) option" where
  "tag_receive_epoch tag level te lp s = do {
     (ok, s) \<leftarrow> interruptible (level_lock_op down_write te level) s;
     if \<not> ok then do {
       s \<leftarrow> tag_waiting_dec te s;
       s \<leftarrow> rcu_lock_op up_read lp s;
       s \<leftarrow> tag_lock_op up_read tag s;
       Some (Inl (- EINTR), s)
     } else do {
       tag_entry \<leftarrow> k_tag_heap s te;
       case tg_tag_level tag_entry ! level of
         None \<Rightarrow> do {
           s \<leftarrow> level_lock_op up_write te level s;
           s \<leftarrow> tag_waiting_dec te s;
           s \<leftarrow> rcu_lock_op up_read lp s;
           s \<leftarrow> tag_lock_op up_read tag s;
           Some (Inl (- EINVAL), s)
         }
       | Some old_level \<Rightarrow> do {
           old \<leftarrow> k_level_heap s old_level;
           let (new_level, s) =
             (if tl_ready old = 1 then create_level level (to_c_int (tl_epoch old + 1)) s
              else (Some old_level, s));
           case new_level of
             None \<Rightarrow> do {
               s \<leftarrow> level_lock_op up_write te level s;
               s \<leftarrow> tag_waiting_dec te s;
               s \<leftarrow> rcu_lock_op up_read lp s;
               s \<leftarrow> tag_lock_op up_read tag s;
               Some (Inl (- ENOMEM), s)
             }
           | Some new \<Rightarrow> do {
               s \<leftarrow> (if tl_ready old = 1
                 then update_tag te (\<lambda>tg. tg\<lparr>tg_tag_level := (tg_tag_level tg)[level := Some new]\<rparr>) s
                 else Some s);
               s \<leftarrow> rcu_lock_op up_read lp s;
               (ok, s) \<leftarrow> interruptible (rcu_lock_op down_read new) s;
               if \<not> ok then do {
                 s \<leftarrow> update_tag te (\<lambda>tg.
                   tg\<lparr>tg_tag_level := (tg_tag_level tg)[level := Some old_level]\<rparr>) s;
                 s \<leftarrow> level_lock_op up_write te level s;
                 s \<leftarrow> tag_waiting_dec te s;
                 s \<leftarrow> tag_lock_op up_read tag s;
                 Some (Inl (- EINTR), s)
               } else do {
                 s \<leftarrow> level_lock_op up_write te level s;
                 Some (Inr new, s)
               }
             }
         }
     }
   }"

text \<open>From the call to \<open>atomic_inc(&(tag_level -> waiting))\<close>.\<close>

definition tag_receive_enter ::
  "int \<Rightarrow> int \<Rightarrow> bool \<Rightarrow> nat \<Rightarrow> int \<Rightarrow> kernel \<Rightarrow> ((int + receiver) \<times> kernel) option" where
  "tag_receive_enter tag level buffer sz euid s =
     (if bad_message_args tag level sz then Some (Inl (- EINVAL), s)
      else let sz = (if \<not> buffer then 0 else sz) in do {
        (ok, s) \<leftarrow> interruptible (tag_lock_op down_read (nat tag)) s;
        if \<not> ok then Some (Inl (- EINTR), s)
        else case k_tags s ! nat tag of
          None \<Rightarrow> do { s \<leftarrow> tag_lock_op up_read (nat tag) s; Some (Inl (- ENODATA), s) }
        | Some te \<Rightarrow> do {
            tag_entry \<leftarrow> k_tag_heap s te;
            if CHECKPERM tag_entry euid then do {
              s \<leftarrow> tag_lock_op up_read (nat tag) s;
              Some (Inl (- EPERM), s)
            } else do {
              (ok, s) \<leftarrow> interruptible (level_lock_op down_read te (nat level)) s;
              if \<not> ok then do { s \<leftarrow> tag_lock_op up_read (nat tag) s; Some (Inl (- EINTR), s) }
              else do {
                tag_entry \<leftarrow> k_tag_heap s te;
                case tg_tag_level tag_entry ! nat level of
                None \<Rightarrow> do {
                  s \<leftarrow> level_lock_op up_read te (nat level) s;
                  s \<leftarrow> tag_lock_op up_read (nat tag) s;
                  Some (Inl (- EINVAL), s)
                }
              | Some lp \<Rightarrow> do {
                  s \<leftarrow> update_tag te (\<lambda>tg. tg\<lparr>tg_waiting := tg_waiting tg + 1\<rparr>) s;
                  (ok, s) \<leftarrow> interruptible (rcu_lock_op down_read lp) s;
                  if \<not> ok then do {
                    s \<leftarrow> tag_waiting_dec te s;
                    s \<leftarrow> level_lock_op up_read te (nat level) s;
                    s \<leftarrow> tag_lock_op up_read (nat tag) s;
                    Some (Inl (- EINTR), s)
                  } else do {
                    s \<leftarrow> level_lock_op up_read te (nat level) s;
                    lv \<leftarrow> k_level_heap s lp;
                    (r, s) \<leftarrow> (if tl_ready lv = 1 then tag_receive_epoch (nat tag) (nat level) te lp s
                               else Some (Inr lp, s));
                    case r of
                      Inl code \<Rightarrow> Some (Inl code, s)
                    | Inr lp \<Rightarrow> do {
                        s \<leftarrow> update_level lp (\<lambda>lv. lv\<lparr>tl_waiting := tl_waiting lv + 1\<rparr>) s;
                        Some (Inr \<lparr>rc_tag = nat tag, rc_level = nat level, rc_entry = te, rc_lp = lp,
                          rc_size = sz, rc_buffer = buffer\<rparr>, s)
                      }
                  }
                }
              }
            }
          }
      })"

text \<open>
  \<open>wait_event_interruptible\<close>: a thread that finds the condition false goes to sleep on the queue;
  one that finds it true, or has a signal pending, leaves.
\<close>

definition wait_condition :: "receiver \<Rightarrow> kernel \<Rightarrow> bool option" where
  "wait_condition rc s = do {
     lv \<leftarrow> k_level_heap s (rc_lp rc);
     tag_entry \<leftarrow> k_tag_heap s (rc_entry rc);
     Some (tl_ready lv \<noteq> 0 \<or> tg_ready tag_entry \<noteq> 0)
   }"

definition receive_sleep :: "tid \<Rightarrow> receiver \<Rightarrow> kernel \<Rightarrow> kernel option" where
  "receive_sleep t rc s =
     update_level (rc_lp rc) (\<lambda>lv. lv\<lparr>tl_local_wq := t # removeAll t (tl_local_wq lv)\<rparr>) s"

text \<open>
  The thread leaves the queue and returns; \<open>woken\<close> is whether the wait ended with the condition
  true. The result is the return code and the bytes written to the buffer of the caller. The
  spinning write acquisition of \<open>rcu_lock\<close> by the last reader is \<open>None\<close> as long as others hold it.
\<close>

definition receive_message :: "bool \<Rightarrow> receiver \<Rightarrow> kernel \<Rightarrow> (int \<times> u8 list \<times> kernel) option" where
  "receive_message woken rc s = do {
     lv \<leftarrow> k_level_heap s (rc_lp rc);
     tag_entry \<leftarrow> k_tag_heap s (rc_entry rc);
     let return_code = (if woken then
           (if tg_ready tag_entry \<noteq> 0 then 0 else if tl_ready lv \<noteq> 0 then 1 else 0) else 0);
     let current_size = min (rc_size rc) (tl_size lv);
     if return_code = 1 \<and> tl_ready lv \<noteq> 0 \<and> current_size > 0 \<and> rc_buffer rc then
       let (fail, bytes, s) = copy_to_user (tl_buffer lv) current_size s
       in Some (if fail \<noteq> 0 then - EFAULT else return_code, bytes, s)
     else Some (return_code, [], s)
   }"

text \<open>The last reader of a level; \<open>False\<close> if none is installed, the lock then still held.\<close>

definition receive_last :: "receiver \<Rightarrow> kernel \<Rightarrow> (bool \<times> kernel) option" where
  "receive_last rc s = do {
     s \<leftarrow> rcu_lock_op down_write (rc_lp rc) s;
     tag_entry \<leftarrow> k_tag_heap s (rc_entry rc);
     case tg_tag_level tag_entry ! rc_level rc of
       None \<Rightarrow> Some (False, s)
     | Some new \<Rightarrow> do {
         new_lv \<leftarrow> k_level_heap s new;
         lv \<leftarrow> k_level_heap s (rc_lp rc);
         if tl_epoch new_lv > tl_epoch lv then do {
           s \<leftarrow> rcu_lock_op up_write (rc_lp rc) s;
           s \<leftarrow> free_level (rc_lp rc) s;
           Some (True, s)
         } else do {
           s \<leftarrow> update_level (rc_lp rc) (\<lambda>lv. lv\<lparr>tl_ready := 0, tl_size := 0\<rparr>) s;
           s \<leftarrow> update_level (rc_lp rc) (\<lambda>lv. lv\<lparr>tl_buffer :=
             replicate (tl_size lv) 0 @ drop (tl_size lv) (tl_buffer lv)\<rparr>) s;
           s \<leftarrow> rcu_lock_op up_write (rc_lp rc) s;
           Some (True, s)
         }
       }
   }"

definition tag_receive_leave ::
  "tid \<Rightarrow> bool \<Rightarrow> receiver \<Rightarrow> kernel \<Rightarrow> (int \<times> u8 list \<times> kernel) option" where
  "tag_receive_leave t woken rc s = do {
     s \<leftarrow> update_level (rc_lp rc) (\<lambda>lv. lv\<lparr>tl_local_wq := removeAll t (tl_local_wq lv)\<rparr>) s;
     (return_code, bytes, s) \<leftarrow> receive_message woken rc s;
     s \<leftarrow> rcu_lock_op up_read (rc_lp rc) s;
     s \<leftarrow> update_level (rc_lp rc) (\<lambda>lv. lv\<lparr>tl_waiting := tl_waiting lv - 1\<rparr>) s;
     lv \<leftarrow> k_level_heap s (rc_lp rc);
     (ok, s) \<leftarrow> (if tl_waiting lv = 0 then receive_last rc s else Some (True, s));
     s \<leftarrow> tag_waiting_dec (rc_entry rc) s;
     s \<leftarrow> (if ok then Some s else rcu_lock_op up_write (rc_lp rc) s);
     s \<leftarrow> tag_lock_op up_read (rc_tag rc) s;
     Some (if ok then return_code else - EPROTO, bytes, s)
   }"

section \<open>tag_ctl\<close>

text \<open>The loop of \<open>AWAKE_ALL\<close> from level \<open>i\<close> with \<open>n\<close> levels to go; \<open>False\<close> when interrupted.\<close>

fun awake_levels :: "nat \<Rightarrow> nat \<Rightarrow> addr \<Rightarrow> kernel \<Rightarrow> (bool \<times> kernel) option" where
  "awake_levels 0 i te s = Some (True, s)"
| "awake_levels (Suc n) i te s = do {
     (ok, s) \<leftarrow> interruptible (level_lock_op down_read te i) s;
     if \<not> ok then Some (False, s)
     else do {
       tag_entry \<leftarrow> k_tag_heap s te;
       (ok, s) \<leftarrow> (case tg_tag_level tag_entry ! i of
           None \<Rightarrow> Some (True, s)
         | Some lp \<Rightarrow> do {
             (ok, s) \<leftarrow> interruptible (rcu_lock_op down_read lp) s;
             if \<not> ok then Some (False, s)
             else do {
               lv \<leftarrow> k_level_heap s lp;
               s \<leftarrow> (if tl_waiting lv > 0 then wake_up_all lp s else Some s);
               s \<leftarrow> rcu_lock_op up_read lp s;
               Some (True, s)
             }
           });
       s \<leftarrow> level_lock_op up_read te i s;
       if \<not> ok then Some (False, s) else awake_levels n (Suc i) te s
     }
   }"

definition tag_ctl_awake_all :: "nat \<Rightarrow> int \<Rightarrow> kernel \<Rightarrow> (int \<times> kernel) option" where
  "tag_ctl_awake_all tag euid s = do {
     (ok, s) \<leftarrow> interruptible (tag_lock_op down_read tag) s;
     if \<not> ok then Some (- EINTR, s)
     else case k_tags s ! tag of
       None \<Rightarrow> do { s \<leftarrow> tag_lock_op up_read tag s; Some (- ENODATA, s) }
     | Some te \<Rightarrow> do {
         tag_entry \<leftarrow> k_tag_heap s te;
         if CHECKPERM tag_entry euid then do {
           s \<leftarrow> tag_lock_op up_read tag s;
           Some (- EPERM, s)
         } else if tg_ready tag_entry = 1 \<or> tg_waiting tag_entry = 0 then do {
           s \<leftarrow> tag_lock_op up_read tag s;
           Some (0, s)
         } else do {
           s \<leftarrow> update_tag te (\<lambda>tg. tg\<lparr>tg_ready := 1\<rparr>) s;
           (ok, s) \<leftarrow> awake_levels LEVELS 0 te s;
           s \<leftarrow> tag_lock_op up_read tag s;
           Some (if ok then 1 else - EINTR, s)
         }
       }
   }"

definition tag_ctl_delete :: "nat \<Rightarrow> int \<Rightarrow> kernel \<Rightarrow> (int \<times> kernel) option" where
  "tag_ctl_delete tag euid s =
     (case tag_lock_op down_write tag s of
        None \<Rightarrow> Some (0, s)
      | Some s \<Rightarrow>
          case k_tags s ! tag of
            None \<Rightarrow> do { s \<leftarrow> tag_lock_op up_write tag s; Some (- ENODATA, s) }
          | Some te \<Rightarrow> do {
              tag_entry \<leftarrow> k_tag_heap s te;
              if CHECKPERM tag_entry euid then do {
                s \<leftarrow> tag_lock_op up_write tag s;
                Some (- EPERM, s)
              } else do {
                s \<leftarrow> tag_lock_op up_write tag (s\<lparr>k_tags := (k_tags s)[tag := None]\<rparr>);
                if tg_waiting tag_entry \<noteq> 0
                then Some (- EPROTO, s\<lparr>k_tags := (k_tags s)[tag := Some te]\<rparr>)
                else do {
                  (r, s) \<leftarrow> clear_tag_common (tg_key tag_entry) (tg_tag_key tag_entry) s;
                  if r \<noteq> 0 then Some (- EINTR, s\<lparr>k_tags := (k_tags s)[tag := Some te]\<rparr>)
                  else do {
                    s \<leftarrow> clear_tag_level (tg_tag_level tag_entry) s;
                    s \<leftarrow> kfree_tag te s;
                    Some (1, s)
                  }
                }
              }
            })"

definition tag_ctl :: "int \<Rightarrow> int \<Rightarrow> int \<Rightarrow> kernel \<Rightarrow> (int \<times> kernel) option" where
  "tag_ctl tag command euid s =
     (if tag < 0 \<or> tag \<ge> MAX_TAGS then Some (- EINVAL, s)
      else if command = TAG_AWAKE_ALL then tag_ctl_awake_all (nat tag) euid s
      else if command = TAG_DELETE then tag_ctl_delete (nat tag) euid s
      else Some (- EINVAL, s))"

end
