(* ===== verification/Tag_Invariant.thy ===== *)
theory Tag_Invariant
  imports Tag_Handlers
begin

text \<open>
  The invariant of the tag service between the atomic parts of its handlers. \<open>R\<close> maps each thread
  that is inside \<open>tag_receive\<close>, past its registration, to its local state.
\<close>

section \<open>Looking up tags and levels\<close>

type_synonym receivers = "tid \<Rightarrow> receiver option"

definition entry_at :: "kernel \<Rightarrow> nat \<Rightarrow> tag option" where
  "entry_at k i = Option.bind (k_tags k ! i) (k_tag_heap k)"

definition lp_at :: "kernel \<Rightarrow> nat \<Rightarrow> nat \<Rightarrow> addr option" where
  "lp_at k i l = Option.bind (entry_at k i) (\<lambda>tg. tg_tag_level tg ! l)"

definition level_at :: "kernel \<Rightarrow> nat \<Rightarrow> nat \<Rightarrow> tag_level option" where
  "level_at k i l = Option.bind (lp_at k i l) (k_level_heap k)"

definition tag_waiters :: "receivers \<Rightarrow> nat \<Rightarrow> tid set" where
  "tag_waiters R i = {t. \<exists>c. R t = Some c \<and> rc_tag c = i}"

definition lp_waiters :: "receivers \<Rightarrow> addr \<Rightarrow> tid set" where
  "lp_waiters R p = {t. \<exists>c. R t = Some c \<and> rc_lp c = p}"

definition read_locked :: "nat \<Rightarrow> rwsem" where
  "read_locked n = \<lparr>rw_readers = n, rw_writer = False\<rparr>"

section \<open>The parts of the invariant\<close>

text \<open>
  A level counts its receivers, each of which holds \<open>rcu_lock\<close> for reading; a level that holds a
  message has receivers and none of them is asleep.
\<close>

definition lv_ok :: "receivers \<Rightarrow> addr \<Rightarrow> tag_level \<Rightarrow> bool" where
  "lv_ok R p lv \<longleftrightarrow>
     tl_waiting lv = int (card (lp_waiters R p)) \<and>
     tl_rcu_lock lv = read_locked (card (lp_waiters R p)) \<and> \<not> tl_w_mutex lv \<and>
     tl_ready lv \<in> {0, 1} \<and> set (tl_local_wq lv) \<subseteq> lp_waiters R p \<and>
     (tl_ready lv = 1 \<longrightarrow> lp_waiters R p \<noteq> {} \<and> tl_local_wq lv = []) \<and>
     length (tl_buffer lv) = BUFFER_SIZE \<and> tl_size lv \<le> BUFFER_SIZE"

definition tg_ok :: "receivers \<Rightarrow> nat \<Rightarrow> tag \<Rightarrow> bool" where
  "tg_ok R i tg \<longleftrightarrow>
     tg_tag_key tg = int i \<and> 0 \<le> tg_key tg \<and> tg_key tg \<le> INT_MAX \<and>
     length (tg_tag_level tg) = LEVELS \<and> tg_level_lock tg = replicate LEVELS init_rwsem \<and>
     tg_waiting tg = int (card (tag_waiters R i)) \<and> tg_ready tg \<in> {0, 1} \<and>
     (tg_ready tg = 1 \<longrightarrow> tag_waiters R i \<noteq> {})"

definition tags_ok :: "kernel \<Rightarrow> receivers \<Rightarrow> bool" where
  "tags_ok k R \<longleftrightarrow>
     (\<forall>i<256. \<forall>te. k_tags k ! i = Some te \<longrightarrow>
        (\<exists>tg. k_tag_heap k te = Some tg \<and> tg_ok R i tg \<and>
          (\<forall>l<LEVELS. \<exists>p lv. tg_tag_level tg ! l = Some p \<and> k_level_heap k p = Some lv \<and>
             lv_ok R p lv)))"

text \<open>
  A receiver works on a live tag and a live level; the level is the one installed, or an older
  one that holds a message.
\<close>

definition rc_ok :: "kernel \<Rightarrow> receivers \<Rightarrow> receiver \<Rightarrow> bool" where
  "rc_ok k R c \<longleftrightarrow>
     rc_tag c < 256 \<and> rc_level c < LEVELS \<and> k_tags k ! rc_tag c = Some (rc_entry c) \<and>
     rc_size c \<le> BUFFER_SIZE \<and>
     (\<exists>lv. k_level_heap k (rc_lp c) = Some lv \<and> lv_ok R (rc_lp c) lv \<and>
        (lp_at k (rc_tag c) (rc_level c) = Some (rc_lp c) \<or>
         tl_ready lv = 1 \<and> (\<exists>new. level_at k (rc_tag c) (rc_level c) = Some new \<and>
           tl_epoch lv < tl_epoch new)))"

text \<open>A level belongs to one tag and one position.\<close>

definition owns :: "kernel \<Rightarrow> receivers \<Rightarrow> addr \<Rightarrow> nat \<Rightarrow> nat \<Rightarrow> bool" where
  "owns k R p i l \<longleftrightarrow> i < 256 \<and> l < LEVELS \<and>
     (lp_at k i l = Some p \<or> (\<exists>t c. R t = Some c \<and> rc_lp c = p \<and> rc_tag c = i \<and> rc_level c = l))"

definition owners_ok :: "kernel \<Rightarrow> receivers \<Rightarrow> bool" where
  "owners_ok k R \<longleftrightarrow>
     (\<forall>p i l j m. owns k R p i l \<longrightarrow> owns k R p j m \<longrightarrow> i = j \<and> l = m)"

definition locks_ok :: "kernel \<Rightarrow> receivers \<Rightarrow> bool" where
  "locks_ok k R \<longleftrightarrow> k_common_lock k = init_rwsem \<and> length (k_tag_lock k) = 256 \<and>
     (\<forall>i<256. k_tag_lock k ! i = read_locked (card (tag_waiters R i)))"

text \<open>
  The registry agrees with the tags. An entry without a tag stands for a creation that failed and
  whose clean-up was interrupted.
\<close>

definition registry_inv :: "kernel \<Rightarrow> bool" where
  "registry_inv k \<longleftrightarrow>
     bm_wf (k_tag_bitmask k) \<and> bm_cap (k_tag_bitmask k) = 256 \<and> tag_table_ok (k_tag_table k) \<and>
     registry_ok te_tag_key (bm_used (k_tag_bitmask k)) (tag_table_map (k_tag_table k)) \<and>
     length (k_tags k) = 256 \<and>
     (\<forall>i<256. \<forall>tg. entry_at k i = Some tg \<longrightarrow> i \<in> bm_used (k_tag_bitmask k) \<and>
        (\<forall>w e. tag_table_map (k_tag_table k) w = Some e \<and> te_tag_key e = int i \<longrightarrow>
           tg_key tg \<noteq> 0 \<and> w = word_of_int (tg_key tg)) \<and>
        (tg_key tg \<noteq> 0 \<longrightarrow> tag_table_map (k_tag_table k) (word_of_int (tg_key tg)) =
           Some (Tag_Entry (word_of_int (tg_key tg)) (int i))))"

definition heap_ok :: "kernel \<Rightarrow> bool" where
  "heap_ok k \<longleftrightarrow> (\<forall>a\<ge>k_next k. k_tag_heap k a = None \<and> k_level_heap k a = None)"

definition sys_inv :: "kernel \<Rightarrow> receivers \<Rightarrow> bool" where
  "sys_inv k R \<longleftrightarrow> finite (dom R) \<and> tags_ok k R \<and> (\<forall>t c. R t = Some c \<longrightarrow> rc_ok k R c) \<and>
     owners_ok k R \<and> locks_ok k R \<and> registry_inv k \<and> heap_ok k"

section \<open>Using the invariant\<close>

text \<open>States that differ in the choices of the environment only.\<close>

definition env_eq :: "kernel \<Rightarrow> kernel \<Rightarrow> bool" where
  "env_eq k k' \<longleftrightarrow>
     k' = k\<lparr>k_alloc := k_alloc k', k_signal := k_signal k', k_copy := k_copy k'\<rparr>"

lemma env_eq_refl [simp]: "env_eq k k"
  by (simp add: env_eq_def)

lemma env_eqI [simp]:
  "env_eq k (k\<lparr>k_signal := g\<rparr>)" "env_eq k (k\<lparr>k_copy := c\<rparr>)" "env_eq k (k\<lparr>k_alloc := a\<rparr>)"
  "env_eq k (k\<lparr>k_signal := g, k_copy := c\<rparr>)" "env_eq k (k\<lparr>k_copy := c, k_signal := g\<rparr>)"
  "env_eq k (k\<lparr>k_alloc := a, k_signal := g\<rparr>)" "env_eq k (k\<lparr>k_signal := g, k_alloc := a\<rparr>)"
  by (simp_all add: env_eq_def)

lemma env_eqD:
  assumes "env_eq k k'"
  shows "k_tag_table k' = k_tag_table k" "k_tag_bitmask k' = k_tag_bitmask k" "k_tags k' = k_tags k"
    "k_common_lock k' = k_common_lock k" "k_tag_lock k' = k_tag_lock k"
    "k_tag_heap k' = k_tag_heap k" "k_level_heap k' = k_level_heap k" "k_next k' = k_next k"
  by (subst assms [unfolded env_eq_def], simp)+

lemma env_eq_sys_inv: "env_eq k k' \<Longrightarrow> sys_inv k' R = sys_inv k R"
  by (simp add: sys_inv_def tags_ok_def rc_ok_def owners_ok_def owns_def locks_ok_def
      registry_inv_def heap_ok_def lp_at_def level_at_def entry_at_def env_eqD)

lemma sys_invD:
  assumes "sys_inv k R"
  shows "finite (dom R)" "tags_ok k R" "\<And>t c. R t = Some c \<Longrightarrow> rc_ok k R c" "owners_ok k R"
    "locks_ok k R" "registry_inv k" "heap_ok k"
  using assms by (simp_all add: sys_inv_def)

lemma waiters_finite:
  assumes "finite (dom R)"
  shows "finite (tag_waiters R i)" "finite (lp_waiters R p)"
  by (rule finite_subset [OF _ assms], auto simp: tag_waiters_def lp_waiters_def)+

lemma tags_okE:
  assumes "tags_ok k R" and "i < 256" and "k_tags k ! i = Some te"
  obtains tg where "k_tag_heap k te = Some tg" "tg_ok R i tg" "entry_at k i = Some tg"
    "\<And>l. l < LEVELS \<Longrightarrow> \<exists>p lv. tg_tag_level tg ! l = Some p \<and> k_level_heap k p = Some lv \<and>
       lv_ok R p lv \<and> lp_at k i l = Some p \<and> level_at k i l = Some lv"
proof -
  from assms obtain tg where tg: "k_tag_heap k te = Some tg" "tg_ok R i tg"
      "\<forall>l<LEVELS. \<exists>p lv. tg_tag_level tg ! l = Some p \<and> k_level_heap k p = Some lv \<and> lv_ok R p lv"
    unfolding tags_ok_def by blast
  moreover from tg(1) assms(3) have e: "entry_at k i = Some tg" by (simp add: entry_at_def)
  ultimately show thesis using that by (fastforce simp: lp_at_def level_at_def)
qed

end
