(* ===== verification/Tag_Send.thy ===== *)
theory Tag_Send
  imports Tag_Invariant
begin

text \<open>
  The lock operations on states of the invariant, and what \<open>tag_send\<close> does in such a state: it
  always returns, with every lock as before, and it changes at most one level, the one it delivers
  to.
\<close>

section \<open>Locks\<close>

lemma rwsem_ops [simp]:
  "down_read (read_locked n) = Some (read_locked (Suc n))"
  "up_read (read_locked (Suc n)) = Some (read_locked n)"
  "down_write (read_locked n) = (if n = 0 then Some \<lparr>rw_readers = 0, rw_writer = True\<rparr> else None)"
  "up_write \<lparr>rw_readers = m, rw_writer = True\<rparr> = Some (read_locked m)"
  by (simp_all add: down_read_def up_read_def down_write_def up_write_def read_locked_def)

lemma read_locked_sel [simp]: "rw_readers (read_locked n) = n" "\<not> rw_writer (read_locked n)"
  by (simp_all add: read_locked_def)

lemma init_rwsem_read_locked: "init_rwsem = read_locked 0"
  by (simp add: init_rwsem_def read_locked_def)

lemma map_upd_same: "m a = Some x \<Longrightarrow> m(a \<mapsto> x) = m"
  by auto

lemma tag_lock_op_eq:
  "f (k_tag_lock s ! i) = Some l \<Longrightarrow> tag_lock_op f i s = Some (s\<lparr>k_tag_lock := (k_tag_lock s)[i := l]\<rparr>)"
  by (simp add: tag_lock_op_def)

lemma level_lock_op_eq:
  "k_tag_heap s te = Some tg \<Longrightarrow> f (tg_level_lock tg ! l) = Some x \<Longrightarrow>
     level_lock_op f te l s = Some (s\<lparr>k_tag_heap := (k_tag_heap s)(te \<mapsto>
       tg\<lparr>tg_level_lock := (tg_level_lock tg)[l := x]\<rparr>)\<rparr>)"
  by (simp add: level_lock_op_def)

lemma rcu_lock_op_eq:
  "k_level_heap s lp = Some lv \<Longrightarrow> f (tl_rcu_lock lv) = Some x \<Longrightarrow>
     rcu_lock_op f lp s = Some (s\<lparr>k_level_heap := (k_level_heap s)(lp \<mapsto> lv\<lparr>tl_rcu_lock := x\<rparr>)\<rparr>)"
  by (simp add: rcu_lock_op_def)

lemma update_level_eq:
  "k_level_heap s lp = Some lv \<Longrightarrow>
     update_level lp f s = Some (s\<lparr>k_level_heap := (k_level_heap s)(lp \<mapsto> f lv)\<rparr>)"
  by (simp add: update_level_def)

lemma update_tag_eq:
  "k_tag_heap s te = Some tg \<Longrightarrow>
     update_tag te f s = Some (s\<lparr>k_tag_heap := (k_tag_heap s)(te \<mapsto> f tg)\<rparr>)"
  by (simp add: update_tag_def)

lemmas op_eqs = tag_lock_op_eq level_lock_op_eq rcu_lock_op_eq update_level_eq update_tag_eq
  set_w_mutex_def wake_up_all_def

lemma interruptible_eq:
  "interruptible acq s = (if fst (next_outcome (k_signal s))
     then map_option (Pair True) (acq (s\<lparr>k_signal := snd (next_outcome (k_signal s))\<rparr>))
     else Some (False, s\<lparr>k_signal := snd (next_outcome (k_signal s))\<rparr>))"
  by (simp add: interruptible_def Let_def split: prod.splits)

section \<open>tag_send\<close>

text \<open>The code of a call that is neither interrupted nor fails in copying.\<close>

definition send_code :: "kernel \<Rightarrow> int \<Rightarrow> int \<Rightarrow> nat \<Rightarrow> int \<Rightarrow> int" where
  "send_code k tag level sz euid =
     (if bad_message_args tag level sz then - EINVAL
      else case entry_at k (nat tag) of
        None \<Rightarrow> - ENODATA
      | Some tg \<Rightarrow>
          if CHECKPERM tg euid then - EPERM
          else if tg_waiting tg = 0 then 0
          else case level_at k (nat tag) (nat level) of
            None \<Rightarrow> - EINTR
          | Some lv \<Rightarrow> if tl_ready lv = 1 \<or> tl_waiting lv = 0 then 0 else 1)"

text \<open>The copy of the message: how many bytes failed, the new contents of the buffer.\<close>

definition send_copy :: "tag_level \<Rightarrow> u8 list \<Rightarrow> nat \<Rightarrow> kernel \<Rightarrow> nat \<times> u8 list \<times> nat list" where
  "send_copy lv data sz s =
     (if sz > 0 then
        let (fail, rest) = next_copy (k_copy s); r = max (min fail sz) (sz - length data)
        in (r, take (sz - r) data @ replicate r 0 @ drop sz (tl_buffer lv), rest)
      else (0, tl_buffer lv, k_copy s))"

definition send_unlock :: "nat \<Rightarrow> nat \<Rightarrow> addr \<Rightarrow> nat \<Rightarrow> tag_level \<Rightarrow> nat list \<Rightarrow> kernel \<Rightarrow> kernel" where
  "send_unlock i m lp n lv cs s =
     s\<lparr>k_tag_lock := (k_tag_lock s)[i := read_locked m], k_copy := cs,
       k_level_heap := (k_level_heap s)(lp \<mapsto> lv\<lparr>tl_rcu_lock := read_locked n\<rparr>)\<rparr>"

lemma mutex_off: "\<not> tl_w_mutex lv \<Longrightarrow> lv\<lparr>tl_w_mutex := False\<rparr> = lv"
  by simp

lemma tag_send_level_eq:
  assumes lv: "k_level_heap s lp = Some lv" "\<not> tl_w_mutex lv" "tl_rcu_lock lv = read_locked (Suc n)"
    and lock: "i < length (k_tag_lock s)" "k_tag_lock s ! i = read_locked (Suc m)"
  shows "tag_send_level i lp data sz s =
    (if tl_ready lv = 1 \<or> tl_waiting lv = 0 then Some (0, send_unlock i m lp n lv (k_copy s) s)
     else case send_copy lv data sz s of (fail, buf, cs) \<Rightarrow>
       if fail \<noteq> 0 then Some (- EFAULT, send_unlock i m lp n (lv\<lparr>tl_buffer := buf\<rparr>) cs s)
       else Some (1, send_unlock i m lp n
              (lv\<lparr>tl_buffer := buf, tl_size := sz, tl_ready := 1, tl_local_wq := []\<rparr>) cs s))"
proof (cases "tl_ready lv = 1 \<or> tl_waiting lv = 0")
  case True
  with assms show ?thesis
    by (simp add: tag_send_level_def op_eqs send_unlock_def mutex_off)
next
  case False
  then have F: "(tl_ready lv = 1 \<or> tl_waiting lv = 0) = False" by simp
  show ?thesis
  proof (cases "sz > 0")
    case True
    with assms F show ?thesis
      by (simp add: tag_send_level_def op_eqs send_unlock_def send_copy_def copy_from_user_def
          Let_def mutex_off split: prod.splits)
        (auto intro!: kernel.equality tag_level.equality)
  next
    case zero: False
    with assms F show ?thesis
      by (simp add: tag_send_level_def op_eqs send_unlock_def send_copy_def mutex_off)
  qed
qed

lemma next_outcome_False:
  "next_outcome g = (ok, g') \<Longrightarrow> (\<not> ok \<longrightarrow> False \<in> set g) \<and> set g' \<subseteq> set g"
  by (cases g) auto

lemma bad_message_argsD:
  assumes "\<not> bad_message_args tag level sz"
  shows "0 \<le> tag" "nat tag < 256" "0 \<le> level" "nat level < LEVELS" "sz \<le> BUFFER_SIZE"
    "int (nat tag) = tag" "int (nat level) = level"
  using assms by (auto simp: bad_message_args_def MAX_TAGS_def nat_less_iff)

text \<open>What the invariant says of the locks and objects of one tag.\<close>

lemma sys_inv_locks:
  assumes "sys_inv k R" and "i < 256"
  shows "k_tag_lock k ! i = read_locked (card (tag_waiters R i))" "i < length (k_tag_lock k)"
    "(k_tag_lock k)[i := read_locked (card (tag_waiters R i))] = k_tag_lock k"
  using sys_invD(5) [OF assms(1)] assms(2) by (simp_all add: locks_ok_def list_update_same_conv)

lemma tg_okD:
  assumes "tg_ok R i tg" and "l < LEVELS"
  shows "tg_level_lock tg ! l = read_locked 0" "(tg_level_lock tg)[l := read_locked 0] = tg_level_lock tg"
    "length (tg_tag_level tg) = LEVELS" "length (tg_level_lock tg) = LEVELS"
  using assms by (simp_all add: tg_ok_def init_rwsem_read_locked list_update_same_conv)

lemma lv_okD:
  assumes "lv_ok R p lv"
  shows "tl_rcu_lock lv = read_locked (card (lp_waiters R p))" "\<not> tl_w_mutex lv"
    "tl_waiting lv = int (card (lp_waiters R p))"
  using assms by (simp_all add: lv_ok_def)

text \<open>What a call delivers to the level.\<close>

definition send_delivery :: "tag_level \<Rightarrow> nat \<Rightarrow> int \<Rightarrow> u8 list \<Rightarrow> tag_level" where
  "send_delivery lv sz r buf =
     (if r = 1 then lv\<lparr>tl_buffer := buf, tl_size := sz, tl_ready := 1, tl_local_wq := []\<rparr>
      else lv\<lparr>tl_buffer := buf\<rparr>)"

definition send_args :: "u8 list option \<Rightarrow> nat \<Rightarrow> u8 list \<times> nat" where
  "send_args buffer sz = (case buffer of None \<Rightarrow> ([], 0) | Some d \<Rightarrow> (d, sz))"

definition send_result ::
  "kernel \<Rightarrow> int \<Rightarrow> int \<Rightarrow> u8 list option \<Rightarrow> nat \<Rightarrow> int \<Rightarrow> int \<Rightarrow> kernel \<Rightarrow> bool" where
  "send_result k tag level buffer sz euid r k' \<longleftrightarrow>
     env_eq k k' \<and> r \<noteq> 1 \<and>
       (r = send_code k tag level sz euid \<or> r = - EINTR \<and> False \<in> set (k_signal k)) \<or>
     send_code k tag level sz euid = 1 \<and>
       (\<exists>lp lv fail buf cs g. lp_at k (nat tag) (nat level) = Some lp \<and> k_level_heap k lp = Some lv \<and>
          send_copy lv (fst (send_args buffer sz)) (snd (send_args buffer sz)) k = (fail, buf, cs) \<and>
          r = (if fail \<noteq> 0 then - EFAULT else 1) \<and>
          k' = k\<lparr>k_signal := g, k_copy := cs, k_level_heap := (k_level_heap k)(lp \<mapsto>
            send_delivery lv (snd (send_args buffer sz)) r buf)\<rparr>)"

lemma tag_send_result:
  assumes inv: "sys_inv k R"
  shows "\<exists>r k'. tag_send tag level buffer sz euid k = Some (r, k') \<and>
    send_result k tag level buffer sz euid r k'"
proof (cases "bad_message_args tag level sz")
  case True
  then show ?thesis by (simp add: tag_send_def send_result_def send_code_def EINVAL_def)
next
  case False
  note args = bad_message_argsD [OF False]
  let ?i = "nat tag" and ?l = "nat level"
  note lock = sys_inv_locks [OF inv args(2)]
  obtain ok1 g1 where g1: "next_outcome (k_signal k) = (ok1, g1)" by force
  obtain ok2 g2 where g2: "next_outcome g1 = (ok2, g2)" by force
  obtain ok3 g3 where g3: "next_outcome g2 = (ok3, g3)" by force
  note sig = next_outcome_False [OF g1] next_outcome_False [OF g2] next_outcome_False [OF g3]
  note eqs = tag_send_def False interruptible_eq tag_lock_op_eq g1 g2 g3 lock send_result_def
    send_code_def
  show ?thesis
  proof (cases "k_tags k ! ?i")
    case None
    then have "entry_at k ?i = None" by (simp add: entry_at_def)
    with None show ?thesis using sig by (cases ok1) (auto simp: eqs ENODATA_def EINTR_def Let_def)
  next
    case (Some te)
    obtain tg where tg: "k_tag_heap k te = Some tg" "tg_ok R ?i tg" "entry_at k ?i = Some tg"
      "\<And>l. l < LEVELS \<Longrightarrow> \<exists>p lv. tg_tag_level tg ! l = Some p \<and> k_level_heap k p = Some lv \<and>
         lv_ok R p lv \<and> lp_at k ?i l = Some p \<and> level_at k ?i l = Some lv"
      using tags_okE [OF sys_invD(2) [OF inv] args(2) Some] by blast
    obtain lp lv where lp: "tg_tag_level tg ! ?l = Some lp" "k_level_heap k lp = Some lv"
        "lv_ok R lp lv" "lp_at k ?i ?l = Some lp" "level_at k ?i ?l = Some lv"
      using tg(4) [OF args(4)] by blast
    note lvl = tg_okD [OF tg(2) args(4)] and rcu = lv_okD [OF lp(3)]
    consider "\<not> ok1" | "ok1" "CHECKPERM tg euid" | "ok1" "\<not> CHECKPERM tg euid" "tg_waiting tg = 0"
      | "ok1" "\<not> CHECKPERM tg euid" "tg_waiting tg \<noteq> 0" "\<not> ok2"
      | "ok1" "\<not> CHECKPERM tg euid" "tg_waiting tg \<noteq> 0" "ok2" "\<not> ok3"
      | (go) "ok1" "\<not> CHECKPERM tg euid" "tg_waiting tg \<noteq> 0" "ok2" "ok3" by blast
    then show ?thesis
    proof cases
      case 1
      then show ?thesis using sig(1) by (simp add: eqs EINTR_def Let_def)
    next
      case 2
      then show ?thesis using Some tg(1,3) by (simp add: eqs EPERM_def Let_def)
    next
      case 3
      then show ?thesis using Some tg(1,3) by (simp add: eqs Let_def)
    next
      case 4
      then have "False \<in> set (k_signal k)" using sig by blast
      with 4 show ?thesis using Some tg(1,3) by (simp add: eqs EINTR_def Let_def)
    next
      case 5
      then have "False \<in> set (k_signal k)" using sig by blast
      with 5 show ?thesis using Some tg(1,3) lvl lp(1,2) args(4)
        by (simp add: eqs EINTR_def Let_def level_lock_op_eq map_upd_same)
    next
      case go
      let ?S = "k\<lparr>k_signal := g3,
        k_tag_lock := (k_tag_lock k)[?i := read_locked (Suc (card (tag_waiters R ?i)))],
        k_level_heap := (k_level_heap k)(lp \<mapsto>
          lv\<lparr>tl_rcu_lock := read_locked (Suc (card (lp_waiters R lp)))\<rparr>)\<rparr>"
      have call: "tag_send tag level buffer sz euid k =
          tag_send_level ?i lp (fst (send_args buffer sz)) (snd (send_args buffer sz)) ?S"
        using go Some tg(1,3) lvl lp(1,2) args(4) rcu(1)
        by (auto simp: eqs Let_def level_lock_op_eq rcu_lock_op_eq map_upd_same send_args_def
            split: option.splits intro!: arg_cong [where f = "tag_send_level _ _ _ _"] kernel.equality)
      let ?lv = "lv\<lparr>tl_rcu_lock := read_locked (Suc (card (lp_waiters R lp)))\<rparr>"
      have S: "k_level_heap ?S lp = Some ?lv" "\<not> tl_w_mutex ?lv"
          "tl_rcu_lock ?lv = read_locked (Suc (card (lp_waiters R lp)))" "?i < length (k_tag_lock ?S)"
          "k_tag_lock ?S ! ?i = read_locked (Suc (card (tag_waiters R ?i)))"
        using rcu(2) lock(2) by simp_all
      note level = tag_send_level_eq [OF S, of "fst (send_args buffer sz)" "snd (send_args buffer sz)"]
      show ?thesis
      proof (cases "tl_ready lv = 1 \<or> tl_waiting lv = 0")
        case True
        then show ?thesis
          using go tg(3) lp rcu lock(3) False
          by (simp add: call level send_result_def send_code_def send_unlock_def map_upd_same)
      next
        case deliver: False
        then have code: "send_code k tag level sz euid = 1"
          using go tg(3) lp False by (simp add: send_code_def)
        obtain fail buf cs where c: "send_copy lv (fst (send_args buffer sz))
            (snd (send_args buffer sz)) k = (fail, buf, cs)" by (cases "send_copy lv
            (fst (send_args buffer sz)) (snd (send_args buffer sz)) k") auto
        have "send_copy ?lv (fst (send_args buffer sz)) (snd (send_args buffer sz)) ?S =
            send_copy lv (fst (send_args buffer sz)) (snd (send_args buffer sz)) k"
          by (simp add: send_copy_def)
        with c have c': "send_copy ?lv (fst (send_args buffer sz))
            (snd (send_args buffer sz)) ?S = (fail, buf, cs)" by (rule trans [rotated])
        show ?thesis
          using deliver code lp(2,4) rcu(1) lock(3) c
          by (cases "fail = 0") (auto simp: call level c' send_result_def send_unlock_def
              send_delivery_def EFAULT_def intro!: exI [of _ g3] kernel.equality tag_level.equality)
      qed
    qed
  qed
qed

section \<open>Changing one level\<close>

lemma lookup_level_heap [simp]:
  "entry_at (k\<lparr>k_level_heap := h\<rparr>) i = entry_at k i" "lp_at (k\<lparr>k_level_heap := h\<rparr>) i l = lp_at k i l"
  by (simp_all add: entry_at_def lp_at_def)

lemma level_at_update:
  "level_at (k\<lparr>k_level_heap := (k_level_heap k)(p := x)\<rparr>) i l =
     (if lp_at k i l = Some p then x else level_at k i l)"
  by (cases "lp_at k i l") (auto simp: level_at_def)

lemma owns_level_heap [simp]: "owns (k\<lparr>k_level_heap := h\<rparr>) = owns k"
  by (intro ext) (simp add: owns_def)

lemma registry_inv_level_heap [simp]: "registry_inv (k\<lparr>k_level_heap := h\<rparr>) = registry_inv k"
  by (simp add: registry_inv_def)

lemma sys_inv_level_update:
  assumes inv: "sys_inv k R" and lv: "k_level_heap k p = Some lv" "lv_ok R p lv'"
    and mono: "tl_epoch lv' = tl_epoch lv" "tl_ready lv = 1 \<longrightarrow> tl_ready lv' = 1"
  shows "sys_inv (k\<lparr>k_level_heap := (k_level_heap k)(p \<mapsto> lv')\<rparr>) R" (is "sys_inv ?k R")
proof -
  note D = sys_invD [OF inv]
  have "tags_ok ?k R"
    using D(2) lv unfolding tags_ok_def by fastforce
  moreover have "rc_ok ?k R c" if R: "R t = Some c" for t c
  proof -
    obtain w where w: "k_level_heap k (rc_lp c) = Some w" "lv_ok R (rc_lp c) w"
        "lp_at k (rc_tag c) (rc_level c) = Some (rc_lp c) \<or>
         tl_ready w = 1 \<and> (\<exists>new. level_at k (rc_tag c) (rc_level c) = Some new \<and>
           tl_epoch w < tl_epoch new)"
      using D(3) [OF R] unfolding rc_ok_def by blast
    have "\<exists>new. level_at ?k (rc_tag c) (rc_level c) = Some new \<and> tl_epoch w < tl_epoch new"
      if "level_at k (rc_tag c) (rc_level c) = Some new" "tl_epoch w < tl_epoch new" for new
    proof (cases "lp_at k (rc_tag c) (rc_level c) = Some p")
      case True
      then have "level_at k (rc_tag c) (rc_level c) = Some lv" using lv(1) by (simp add: level_at_def)
      with True that mono(1) show ?thesis by (simp add: level_at_update)
    next
      case False
      with that show ?thesis by (simp add: level_at_update)
    qed
    with w lv mono D(3) [OF R] show ?thesis
      unfolding rc_ok_def by (cases "rc_lp c = p") auto
  qed
  moreover have "heap_ok ?k"
    using D(7) lv(1) by (auto simp: heap_ok_def)
  ultimately show ?thesis
    using D unfolding sys_inv_def by (auto simp: owners_ok_def locks_ok_def)
qed

lemma send_copy_length:
  assumes "send_copy lv data sz k = (fail, buf, cs)" and "length (tl_buffer lv) = BUFFER_SIZE"
    and "sz \<le> BUFFER_SIZE"
  shows "length buf = BUFFER_SIZE"
  using assms by (auto simp: send_copy_def Let_def max_def min_def split: if_splits prod.splits)

lemma tag_send_inv:
  assumes inv: "sys_inv k R" and send: "tag_send tag level buffer sz euid k = Some (r, k')"
  shows "sys_inv k' R"
proof -
  obtain q k'' where q: "tag_send tag level buffer sz euid k = Some (q, k'')"
      "send_result k tag level buffer sz euid q k''" using tag_send_result [OF inv] by blast
  with send have res: "send_result k tag level buffer sz euid r k'" by simp
  show ?thesis
  proof (cases "env_eq k k'")
    case True
    with inv show ?thesis by (simp add: env_eq_sys_inv)
  next
    case False
    let ?sz = "snd (send_args buffer sz)"
    obtain lp lv fail buf cs g where code: "send_code k tag level sz euid = 1"
      and lp: "lp_at k (nat tag) (nat level) = Some lp" "k_level_heap k lp = Some lv"
      and copy: "send_copy lv (fst (send_args buffer sz)) ?sz k = (fail, buf, cs)"
      and k': "k' = k\<lparr>k_signal := g, k_copy := cs, k_level_heap := (k_level_heap k)(lp \<mapsto>
            send_delivery lv ?sz r buf)\<rparr>"
      using res False unfolding send_result_def by blast
    have args: "\<not> bad_message_args tag level sz"
      using code by (auto simp: send_code_def EINVAL_def split: if_splits)
    note a = bad_message_argsD [OF args]
    obtain te where te: "k_tags k ! nat tag = Some te"
      using lp(1) by (auto simp: lp_at_def entry_at_def bind_eq_Some_conv)
    have ok: "lv_ok R lp lv"
      using tags_okE [OF sys_invD(2) [OF inv] a(2) te] a(4) lp by (metis option.inject)
    have "tl_waiting lv \<noteq> 0" "tl_ready lv \<noteq> 1"
      using code args lp
      by (auto simp: send_code_def level_at_def errno_defs split: option.splits if_splits)
    then have some: "lp_waiters R lp \<noteq> {}" using ok by (auto simp: lv_ok_def)
    have sz: "?sz \<le> BUFFER_SIZE" using a(5) by (simp add: send_args_def split: option.splits)
    have "length buf = BUFFER_SIZE"
      using send_copy_length [OF copy _ sz] ok by (simp add: lv_ok_def)
    then have ok': "lv_ok R lp (send_delivery lv ?sz r buf)"
      using ok some sz by (auto simp: lv_ok_def send_delivery_def)
    have "sys_inv (k\<lparr>k_level_heap := (k_level_heap k)(lp \<mapsto> send_delivery lv ?sz r buf)\<rparr>) R"
      by (rule sys_inv_level_update [OF inv lp(2) ok']) (auto simp: send_delivery_def)
    then show ?thesis
      by (rule env_eq_sys_inv [THEN iffD2, rotated]) (simp add: k' env_eq_def)
  qed
qed

end
