(* ===== verification/Tag_Receive.thy ===== *)
theory Tag_Receive
  imports Tag_Send
begin

text \<open>
  \<open>tag_receive\<close> keeps the invariant: registration on the installed level, installation of a
  level of the next epoch, sleeping, and leaving, with the level kept, reset or freed.
\<close>

section \<open>Receivers coming and going\<close>

lemma waiters_update:
  assumes "R' = R(t := x)" and "\<forall>c. R t = Some c \<or> x = Some c \<longrightarrow> rc_tag c = i \<and> rc_lp c = p"
  shows "j \<noteq> i \<Longrightarrow> tag_waiters R' j = tag_waiters R j" "q \<noteq> p \<Longrightarrow> lp_waiters R' q = lp_waiters R q"
  using assms by (auto simp: tag_waiters_def lp_waiters_def split: if_splits)

lemma waiters_join:
  assumes "R t = None"
  shows "tag_waiters (R(t \<mapsto> c)) i = (if rc_tag c = i then insert t (tag_waiters R i) else tag_waiters R i)"
    "lp_waiters (R(t \<mapsto> c)) p = (if rc_lp c = p then insert t (lp_waiters R p) else lp_waiters R p)"
    "t \<notin> tag_waiters R i" "t \<notin> lp_waiters R p"
  using assms by (auto simp: tag_waiters_def lp_waiters_def)

lemma waiters_leave:
  "tag_waiters (R(t := None)) i = tag_waiters R i - {t}"
  "lp_waiters (R(t := None)) p = lp_waiters R p - {t}"
  by (auto simp: tag_waiters_def lp_waiters_def)

lemma waiters_mem:
  "R t = Some c \<Longrightarrow> t \<in> tag_waiters R (rc_tag c)" "R t = Some c \<Longrightarrow> t \<in> lp_waiters R (rc_lp c)"
  by (auto simp: tag_waiters_def lp_waiters_def)

text \<open>Different descriptors have different entries.\<close>

lemma tags_distinct:
  assumes "tags_ok k R" "i < 256" "j < 256" "k_tags k ! i = Some te" "k_tags k ! j = Some te"
  shows "i = j"
proof -
  obtain tg where "k_tag_heap k te = Some tg" "tg_ok R i tg" by (rule tags_okE [OF assms(1,2,4)])
  moreover obtain tg' where "k_tag_heap k te = Some tg'" "tg_ok R j tg'"
    by (rule tags_okE [OF assms(1,3,5)])
  ultimately show ?thesis by (simp add: tg_ok_def)
qed

text \<open>
  The state after one receiver has come or gone: its tag entry and its level are replaced
  (\<open>y = None\<close>: the level is freed), the tag lock counts the receivers of the tag.
\<close>

definition change :: "nat \<Rightarrow> nat \<Rightarrow> addr \<Rightarrow> tag \<Rightarrow> addr \<Rightarrow> tag_level option \<Rightarrow> kernel \<Rightarrow> kernel" where
  "change i n te tg p y k =
     k\<lparr>k_tag_lock := (k_tag_lock k)[i := read_locked n], k_tag_heap := (k_tag_heap k)(te \<mapsto> tg),
       k_level_heap := (k_level_heap k)(p := y)\<rparr>"

lemma change_lookups:
  assumes "tags_ok k R" "i < 256" "k_tags k ! i = Some te" "k_tag_heap k te = Some tg"
    and "tg_tag_level tg' = tg_tag_level tg" and "j < 256"
  shows "entry_at (change i n te tg' p y k) j = (if j = i then Some tg' else entry_at k j)"
    "lp_at (change i n te tg' p y k) j l = lp_at k j l"
    "level_at (change i n te tg' p y k) j l = (if lp_at k j l = Some p then y else level_at k j l)"
proof -
  have other: "k_tags k ! j \<noteq> Some te" if "j \<noteq> i"
    using tags_distinct [OF assms(1,2,6,3)] that by blast
  show entry: "entry_at (change i n te tg' p y k) j = (if j = i then Some tg' else entry_at k j)"
    using other assms(3) by (cases "k_tags k ! j") (auto simp: entry_at_def change_def)
  show lp: "lp_at (change i n te tg' p y k) j l = lp_at k j l"
    unfolding lp_at_def entry using assms(3-5) by (simp add: entry_at_def)
  show "level_at (change i n te tg' p y k) j l = (if lp_at k j l = Some p then y else level_at k j l)"
    unfolding level_at_def lp by (cases "lp_at k j l") (auto simp: change_def)
qed

lemma change_fields [simp]:
  "k_tags (change i n te tg p y k) = k_tags k" "k_tag_table (change i n te tg p y k) = k_tag_table k"
  "k_tag_bitmask (change i n te tg p y k) = k_tag_bitmask k"
  "k_common_lock (change i n te tg p y k) = k_common_lock k"
  "k_next (change i n te tg p y k) = k_next k"
  "k_level_heap (change i n te tg p y k) = (k_level_heap k)(p := y)"
  "k_tag_heap (change i n te tg p y k) = (k_tag_heap k)(te \<mapsto> tg)"
  "k_tag_lock (change i n te tg p y k) = (k_tag_lock k)[i := read_locked n]"
  by (simp_all add: change_def)

lemma lv_ok_cong: "lp_waiters R' q = lp_waiters R q \<Longrightarrow> lv_ok R' q lv = lv_ok R q lv"
  by (simp add: lv_ok_def)

lemma tg_ok_cong: "tag_waiters R' j = tag_waiters R j \<Longrightarrow> tg_ok R' j tg = tg_ok R j tg"
  by (simp add: tg_ok_def)

lemma sys_inv_change:
  assumes inv: "sys_inv k R" and i: "i < 256" "k_tags k ! i = Some te" "k_tag_heap k te = Some tg"
    and tg': "tg_ok R' i tg'" "tg_tag_level tg' = tg_tag_level tg" "tg_key tg' = tg_key tg"
    and R': "R' = R(t := x)" "\<forall>c. R t = Some c \<or> x = Some c \<longrightarrow> rc_tag c = i \<and> rc_lp c = p"
    and p: "k_level_heap k p = Some lv"
    and keep: "lp_waiters R' p \<noteq> {} \<or> (\<exists>j<256. \<exists>m<LEVELS. lp_at k j m = Some p) \<Longrightarrow>
      \<exists>w. y = Some w \<and> lv_ok R' p w \<and> tl_epoch w = tl_epoch lv \<and>
        (lp_waiters R' p \<noteq> {} \<and> tl_ready lv = 1 \<longrightarrow> tl_ready w = 1)"
    and new: "\<And>c. x = Some c \<Longrightarrow> rc_level c < LEVELS \<and> rc_entry c = te \<and> rc_size c \<le> BUFFER_SIZE \<and>
      lp_at k i (rc_level c) = Some p"
  shows "sys_inv (change i (card (tag_waiters R' i)) te tg' p y k) R'" (is "sys_inv ?k R'")
proof -
  note D = sys_invD [OF inv]
  note look = change_lookups [OF D(2) i(1-3) tg'(2)]
  note W = waiters_update [OF R']
  have fin: "finite (dom R')" using D(1) R'(1) by (simp add: dom_fun_upd)
  have lp: "k_level_heap ?k q = Some w \<and> lv_ok R' q w"
    if "k_level_heap k q = Some w" "lv_ok R q w" "q \<noteq> p" for q w
    using that W(2) [of q] lv_ok_cong [of R' q R] by simp
  have tags: "tags_ok ?k R'"
    unfolding tags_ok_def
  proof (intro allI impI)
    fix j te'
    assume j: "j < 256" "k_tags ?k ! j = Some te'"
    then have te': "k_tags k ! j = Some te'" by simp
    obtain tgj where tgj: "k_tag_heap k te' = Some tgj" "tg_ok R j tgj"
      "\<And>l. l < LEVELS \<Longrightarrow> \<exists>q w. tg_tag_level tgj ! l = Some q \<and> k_level_heap k q = Some w \<and>
         lv_ok R q w \<and> lp_at k j l = Some q \<and> level_at k j l = Some w"
      using tags_okE [OF D(2) j(1) te'] by blast
    have levels: "\<exists>q w. tg_tag_level tgj ! l = Some q \<and> k_level_heap ?k q = Some w \<and> lv_ok R' q w"
      if l: "l < LEVELS" for l
    proof -
      obtain q w where q: "tg_tag_level tgj ! l = Some q" "k_level_heap k q = Some w" "lv_ok R q w"
          "lp_at k j l = Some q" using tgj(3) [OF l] by blast
      show ?thesis
      proof (cases "q = p")
        case True
        with q(4) j(1) l keep obtain w' where "y = Some w'" "lv_ok R' p w'" by blast
        with True q(1) show ?thesis by auto
      next
        case False
        with lp [OF q(2,3)] q(1) show ?thesis by blast
      qed
    qed
    show "\<exists>tg. k_tag_heap ?k te' = Some tg \<and> tg_ok R' j tg \<and>
        (\<forall>l<LEVELS. \<exists>q w. tg_tag_level tg ! l = Some q \<and> k_level_heap ?k q = Some w \<and> lv_ok R' q w)"
    proof (cases "j = i")
      case True
      then have "te' = te" using te' i(2) by simp
      with True tg' levels tgj(1) i(3) show ?thesis by auto
    next
      case False
      then have "te' \<noteq> te" using tags_distinct [OF D(2) i(1) j(1) i(2)] te' by blast
      with False tgj levels W(1) [of j] tg_ok_cong [of R' j R] show ?thesis by auto
    qed
  qed
  have recv: "rc_ok ?k R' c" if c: "R' u = Some c" for u c
  proof (cases "u = t")
    case True
    then have x: "x = Some c" using c R'(1) by simp
    then have c': "rc_tag c = i" "rc_lp c = p" using R'(2) by simp_all
    have n: "rc_level c < LEVELS" "rc_entry c = te" "rc_size c \<le> BUFFER_SIZE"
        "lp_at k i (rc_level c) = Some p" using new [OF x] by simp_all
    obtain w where "y = Some w" "lv_ok R' p w" using keep n(1,4) i(1) by blast
    with c' n i(1,2) look(2) [OF i(1)] show ?thesis by (simp add: rc_ok_def)
  next
    case False
    then have Ru: "R u = Some c" using c R'(1) by simp
    obtain w where w: "k_level_heap k (rc_lp c) = Some w" "lv_ok R (rc_lp c) w"
        "lp_at k (rc_tag c) (rc_level c) = Some (rc_lp c) \<or>
         tl_ready w = 1 \<and> (\<exists>new. level_at k (rc_tag c) (rc_level c) = Some new \<and>
           tl_epoch w < tl_epoch new)"
      and b: "rc_tag c < 256" "rc_level c < LEVELS" "k_tags k ! rc_tag c = Some (rc_entry c)"
        "rc_size c \<le> BUFFER_SIZE"
      using D(3) [OF Ru] unfolding rc_ok_def by blast
    have new': "\<exists>new. level_at ?k (rc_tag c) (rc_level c) = Some new \<and> tl_epoch w < tl_epoch new"
      if h: "level_at k (rc_tag c) (rc_level c) = Some new" "tl_epoch w < tl_epoch new" for new
    proof (cases "lp_at k (rc_tag c) (rc_level c) = Some p")
      case True
      then have "new = lv" using h(1) p by (simp add: level_at_def)
      moreover obtain w' where "y = Some w'" "tl_epoch w' = tl_epoch lv" using keep True b by blast
      ultimately show ?thesis using h(2) True look(3) [OF b(1)] by simp
    next
      case False
      with h look(3) [OF b(1)] show ?thesis by simp
    qed
    show ?thesis
    proof (cases "rc_lp c = p")
      case True
      have "u \<in> lp_waiters R' p" using c True by (auto simp: lp_waiters_def)
      then obtain w' where "y = Some w'" "lv_ok R' p w'" "tl_epoch w' = tl_epoch lv"
          "tl_ready lv = 1 \<longrightarrow> tl_ready w' = 1" using keep by blast
      moreover have "w = lv" using w(1) True p by simp
      ultimately show ?thesis
        using w(3) b True new' look(2) [OF b(1)] unfolding rc_ok_def by auto
    next
      case False
      with lp [OF w(1,2)] w(3) b new' look(2) [OF b(1)] show ?thesis unfolding rc_ok_def by auto
    qed
  qed
  have owns: "owns k R q j m" if "owns ?k R' q j m" for q j m
  proof -
    have "owns k R q j m" if h: "R' u = Some c" "rc_lp c = q" "rc_tag c = j" "rc_level c = m"
        "j < 256" "m < LEVELS" for u c
    proof (cases "u = t")
      case True
      then have "x = Some c" using h(1) R'(1) by simp
      with new h R'(2) show ?thesis by (auto simp: owns_def)
    next
      case False
      with h R'(1) show ?thesis by (auto simp: owns_def)
    qed
    with that look(2) show ?thesis by (auto simp: owns_def)
  qed
  have "owners_ok ?k R'" using D(4) owns unfolding owners_ok_def by blast
  moreover have "locks_ok ?k R'"
    using D(5) W(1) i(1) unfolding locks_ok_def by (auto simp: nth_list_update)
  moreover have "registry_inv ?k"
  proof -
    have "entry_at k i = Some tg" using i(2,3) by (simp add: entry_at_def)
    with D(6) look(1) tg'(3) show ?thesis unfolding registry_inv_def by auto
  qed
  moreover have "heap_ok ?k"
    using D(7) i(3) p unfolding heap_ok_def by (auto simp: change_def)
  ultimately show ?thesis using fin tags recv unfolding sys_inv_def by blast
qed

section \<open>A level of the next epoch\<close>

definition fresh_level :: "nat \<Rightarrow> int \<Rightarrow> tag_level" where
  "fresh_level l epoch = \<lparr>tl_level = int l, tl_size = 0, tl_ready = 0, tl_epoch = epoch,
     tl_waiting = 0, tl_local_wq = [], tl_rcu_lock = read_locked 0, tl_w_mutex = False,
     tl_buffer = replicate BUFFER_SIZE 0\<rparr>"

lemma create_level_eq:
  "create_level l epoch s =
     (let (ok1, a1) = next_outcome (k_alloc s); (ok2, a2) = next_outcome a1
      in if \<not> ok1 then (None, s\<lparr>k_alloc := a1\<rparr>)
         else if \<not> ok2 then (None, s\<lparr>k_alloc := a2\<rparr>)
         else (Some (k_next s), s\<lparr>k_alloc := a2, k_next := Suc (k_next s),
                k_level_heap := (k_level_heap s)(k_next s \<mapsto> fresh_level l epoch)\<rparr>))"
  by (simp add: create_level_def kzalloc_def fresh_level_def init_rwsem_read_locked Let_def
      split: prod.splits)

text \<open>A new object nobody refers to does no harm.\<close>

lemma fresh_unused:
  assumes "sys_inv k R"
  shows "k_level_heap k (k_next k) = None" "k_tag_heap k (k_next k) = None"
    "lp_waiters R (k_next k) = {}" "\<And>i l. i < 256 \<Longrightarrow> l < LEVELS \<Longrightarrow> lp_at k i l \<noteq> Some (k_next k)"
proof -
  note D = sys_invD [OF assms]
  show f: "k_level_heap k (k_next k) = None" "k_tag_heap k (k_next k) = None"
    using D(7) by (simp_all add: heap_ok_def)
  show "lp_waiters R (k_next k) = {}"
    using D(3) f(1) unfolding lp_waiters_def rc_ok_def by fastforce
  show "lp_at k i l \<noteq> Some (k_next k)" if il: "i < 256" "l < LEVELS" for i l
  proof
    assume h: "lp_at k i l = Some (k_next k)"
    then obtain te where te: "k_tags k ! i = Some te"
      by (auto simp: lp_at_def entry_at_def bind_eq_Some_conv)
    show False using tags_okE [OF D(2) il(1) te] il(2) h f(1) by (metis option.distinct(1) option.inject)
  qed
qed

lemma sys_inv_leak:
  assumes inv: "sys_inv k R"
  shows "sys_inv (k\<lparr>k_next := Suc (k_next k),
    k_level_heap := (k_level_heap k)(k_next k \<mapsto> x)\<rparr>) R" (is "sys_inv ?k R")
proof -
  note D = sys_invD [OF inv] and F = fresh_unused [OF inv]
  have look: "entry_at ?k = entry_at k" "lp_at ?k = lp_at k"
    by (intro ext; simp add: entry_at_def lp_at_def)+
  have keep: "k_level_heap k q = Some w \<Longrightarrow> k_level_heap ?k q = Some w" for q w
    using F(1) by auto
  have level: "level_at ?k i l = Some w" if h: "level_at k i l = Some w" for i l w
  proof (cases "lp_at k i l")
    case (Some q)
    with h have "k_level_heap k q = Some w" by (simp add: level_at_def)
    from keep [OF this] show ?thesis unfolding level_at_def look Some by simp
  qed (use h in \<open>simp add: level_at_def\<close>)
  have "tags_ok ?k R"
    unfolding tags_ok_def
  proof (intro allI impI)
    fix j te
    assume j: "j < 256" "k_tags ?k ! j = Some te"
    then have te: "k_tags k ! j = Some te" by simp
    obtain tg where "k_tag_heap k te = Some tg" "tg_ok R j tg"
      and l: "\<forall>l<LEVELS. \<exists>p lv. tg_tag_level tg ! l = Some p \<and> k_level_heap k p = Some lv \<and> lv_ok R p lv"
      using D(2) [unfolded tags_ok_def] j(1) te by blast
    moreover have "\<forall>l<LEVELS. \<exists>p lv. tg_tag_level tg ! l = Some p \<and> k_level_heap ?k p = Some lv \<and>
        lv_ok R p lv" using l keep by blast
    ultimately show "\<exists>tg. k_tag_heap ?k te = Some tg \<and> tg_ok R j tg \<and>
        (\<forall>l<LEVELS. \<exists>p lv. tg_tag_level tg ! l = Some p \<and> k_level_heap ?k p = Some lv \<and> lv_ok R p lv)"
      by (intro exI [of _ tg]) simp
  qed
  moreover have "rc_ok ?k R c" if c: "R t = Some c" for t c
  proof -
    obtain w where w: "k_level_heap k (rc_lp c) = Some w" "lv_ok R (rc_lp c) w"
        "lp_at k (rc_tag c) (rc_level c) = Some (rc_lp c) \<or>
         tl_ready w = 1 \<and> (\<exists>new. level_at k (rc_tag c) (rc_level c) = Some new \<and>
           tl_epoch w < tl_epoch new)"
      and b: "rc_tag c < 256" "rc_level c < LEVELS" "k_tags k ! rc_tag c = Some (rc_entry c)"
        "rc_size c \<le> BUFFER_SIZE"
      using D(3) [OF c] unfolding rc_ok_def by blast
    show ?thesis
      unfolding rc_ok_def look
    proof (intro conjI exI [of _ w])
      show "k_level_heap ?k (rc_lp c) = Some w" by (rule keep [OF w(1)])
      show "lp_at k (rc_tag c) (rc_level c) = Some (rc_lp c) \<or>
         tl_ready w = 1 \<and> (\<exists>new. level_at ?k (rc_tag c) (rc_level c) = Some new \<and>
           tl_epoch w < tl_epoch new)" using w(3) level by (elim disjE conjE exE) blast+
      show "k_tags ?k ! rc_tag c = Some (rc_entry c)" using b(3) by simp
    qed (rule b w(2))+
  qed
  moreover have "owners_ok ?k R = owners_ok k R" unfolding owners_ok_def owns_def look by (rule refl)
  moreover have "registry_inv ?k = registry_inv k"
    unfolding registry_inv_def look by simp
  moreover have "locks_ok ?k R" using D(5) by (simp add: locks_ok_def)
  moreover have "heap_ok ?k" using D(7) by (simp add: heap_ok_def)
  ultimately show ?thesis using D(1,4,6) unfolding sys_inv_def by blast
qed

text \<open>Installing a prepared level in place of one that holds a message.\<close>

lemma sys_inv_install:
  assumes inv: "sys_inv k R" and il: "i < 256" "l < LEVELS"
    and te: "k_tags k ! i = Some te" "k_tag_heap k te = Some tg"
    and old: "tg_tag_level tg ! l = Some p" "k_level_heap k p = Some old" "tl_ready old = 1"
    and new: "k_level_heap k a = Some new" "lv_ok R a new" "tl_epoch old < tl_epoch new"
    and free: "\<And>j m. \<not> owns k R a j m"
  shows "sys_inv (k\<lparr>k_tag_heap := (k_tag_heap k)(te \<mapsto>
    tg\<lparr>tg_tag_level := (tg_tag_level tg)[l := Some a]\<rparr>)\<rparr>) R" (is "sys_inv ?k R")
proof -
  note D = sys_invD [OF inv]
  let ?tg = "tg\<lparr>tg_tag_level := (tg_tag_level tg)[l := Some a]\<rparr>"
  have tg: "tg_ok R i tg" "entry_at k i = Some tg"
    using tags_okE [OF D(2) il(1) te(1)] te(2) by (metis option.inject)+
  have len: "l < length (tg_tag_level tg)" using tg(1) il(2) by (simp add: tg_ok_def)
  have p: "lp_at k i l = Some p" "level_at k i l = Some old"
    using tg(2) old(1,2) by (simp_all add: lp_at_def level_at_def)
  have other: "k_tags k ! j \<noteq> Some te" if "j < 256" "j \<noteq> i" for j
    using tags_distinct [OF D(2) il(1) that(1) te(1)] that(2) by blast
  have entry: "entry_at ?k j = (if j = i then Some ?tg else entry_at k j)" if "j < 256" for j
    using other [OF that] te(1) by (cases "k_tags k ! j") (auto simp: entry_at_def)
  have lp: "lp_at ?k j m = (if j = i \<and> m = l then Some a else lp_at k j m)" if "j < 256" for j m
    unfolding lp_at_def entry [OF that] using tg(2) len by (auto simp: nth_list_update)
  have level: "level_at ?k j m = (if j = i \<and> m = l then Some new else level_at k j m)"
    if "j < 256" for j m
    unfolding level_at_def lp [OF that] using new(1) by auto
  have tags: "tags_ok ?k R"
    unfolding tags_ok_def
  proof (intro allI impI)
    fix j te'
    assume j: "j < 256" "k_tags ?k ! j = Some te'"
    then have te': "k_tags k ! j = Some te'" by simp
    obtain tgj where tgj: "k_tag_heap k te' = Some tgj" "tg_ok R j tgj"
      "\<And>l. l < LEVELS \<Longrightarrow> \<exists>q w. tg_tag_level tgj ! l = Some q \<and> k_level_heap k q = Some w \<and>
         lv_ok R q w \<and> lp_at k j l = Some q \<and> level_at k j l = Some w"
      using tags_okE [OF D(2) j(1) te'] by blast
    show "\<exists>tg. k_tag_heap ?k te' = Some tg \<and> tg_ok R j tg \<and>
        (\<forall>l<LEVELS. \<exists>q w. tg_tag_level tg ! l = Some q \<and> k_level_heap ?k q = Some w \<and> lv_ok R q w)"
    proof (cases "j = i")
      case True
      then have eq: "te' = te" "tgj = tg" using te' te tgj(1) by simp_all
      have "\<exists>q w. tg_tag_level ?tg ! m = Some q \<and> k_level_heap ?k q = Some w \<and> lv_ok R q w"
        if "m < LEVELS" for m
        using tgj(3) [OF that] new(1,2) len eq(2) by (cases "m = l") auto
      moreover have "tg_ok R j ?tg" using tgj(2) eq(2) by (simp add: tg_ok_def)
      ultimately show ?thesis using eq(1) by auto
    next
      case False
      then have "te' \<noteq> te" using other [OF j(1)] te' by blast
      with tgj show ?thesis by simp blast
    qed
  qed
  have recv: "rc_ok ?k R c" if c: "R t = Some c" for t c
  proof -
    obtain w where w: "k_level_heap k (rc_lp c) = Some w" "lv_ok R (rc_lp c) w"
        "lp_at k (rc_tag c) (rc_level c) = Some (rc_lp c) \<or>
         tl_ready w = 1 \<and> (\<exists>new. level_at k (rc_tag c) (rc_level c) = Some new \<and>
           tl_epoch w < tl_epoch new)"
      and b: "rc_tag c < 256" "rc_level c < LEVELS" "k_tags k ! rc_tag c = Some (rc_entry c)"
        "rc_size c \<le> BUFFER_SIZE"
      using D(3) [OF c] unfolding rc_ok_def by blast
    show ?thesis
    proof (cases "rc_tag c = i \<and> rc_level c = l")
      case True
      have "tl_ready w = 1 \<and> tl_epoch w < tl_epoch new"
      proof (cases "rc_lp c = p")
        case True
        with w(1) old(2,3) new(3) show ?thesis by simp
      next
        case False
        with True w(3) p new(3) show ?thesis by auto
      qed
      with True w b level [OF b(1)] show ?thesis unfolding rc_ok_def by auto
    next
      case False
      with w b lp [OF b(1)] level [OF b(1)] show ?thesis unfolding rc_ok_def by auto
    qed
  qed
  have owns: "q = a \<and> j = i \<and> m = l \<or> owns k R q j m" if "owns ?k R q j m" for q j m
    using that lp by (auto simp: owns_def split: if_splits)
  have "owners_ok ?k R"
    unfolding owners_ok_def
  proof (intro allI impI)
    fix q j m j' m'
    assume "owns ?k R q j m" "owns ?k R q j' m'"
    from owns [OF this(1)] owns [OF this(2)] show "j = j' \<and> m = m'"
      using free D(4) unfolding owners_ok_def by blast
  qed
  moreover have "registry_inv ?k"
    using D(6) entry tg(2) unfolding registry_inv_def by auto
  moreover have "heap_ok ?k" using D(7) te(2) unfolding heap_ok_def by auto
  ultimately show ?thesis
    using D(1,5) tags recv unfolding sys_inv_def by (simp add: locks_ok_def)
qed

section \<open>Registering on a level\<close>

definition dec_waiting :: "tag \<Rightarrow> tag" where
  "dec_waiting tg = tg\<lparr>tg_waiting := tg_waiting tg - 1,
     tg_ready := (if tg_waiting tg - 1 = 0 then 0 else tg_ready tg)\<rparr>"

lemma tag_waiting_dec_eq:
  "k_tag_heap s te = Some tg \<Longrightarrow>
     tag_waiting_dec te s = Some (s\<lparr>k_tag_heap := (k_tag_heap s)(te \<mapsto> dec_waiting tg)\<rparr>)"
  by (simp add: tag_waiting_dec_def update_tag_def dec_waiting_def)

text \<open>What a receiver gives back when it returns before it has registered.\<close>

definition enter_undo :: "nat \<Rightarrow> nat \<Rightarrow> addr \<Rightarrow> tag \<Rightarrow> addr \<Rightarrow> tag_level \<Rightarrow> nat \<Rightarrow> kernel \<Rightarrow> kernel" where
  "enter_undo i m te tg lp lv n s =
     s\<lparr>k_tag_lock := (k_tag_lock s)[i := read_locked m],
       k_tag_heap := (k_tag_heap s)(te \<mapsto> dec_waiting tg),
       k_level_heap := (k_level_heap s)(lp \<mapsto> lv\<lparr>tl_rcu_lock := read_locked n\<rparr>)\<rparr>"

definition enter_epoch :: "nat \<Rightarrow> addr \<Rightarrow> tag \<Rightarrow> addr \<Rightarrow> tag_level \<Rightarrow> nat \<Rightarrow> kernel \<Rightarrow> kernel" where
  "enter_epoch l te tg lp lv n s =
     s\<lparr>k_next := Suc (k_next s),
       k_tag_heap := (k_tag_heap s)(te \<mapsto>
         tg\<lparr>tg_tag_level := (tg_tag_level tg)[l := Some (k_next s)]\<rparr>),
       k_level_heap := (k_level_heap s)(lp \<mapsto> lv\<lparr>tl_rcu_lock := read_locked n\<rparr>,
         k_next s \<mapsto> (fresh_level l (to_c_int (tl_epoch lv + 1)))\<lparr>tl_rcu_lock := read_locked 1\<rparr>)\<rparr>"

lemma tag_receive_epoch_eq:
  assumes tg: "k_tag_heap s te = Some tg" "tg_level_lock tg ! l = read_locked 0"
      "tg_tag_level tg ! l = Some lp" "l < length (tg_level_lock tg)" "l < length (tg_tag_level tg)"
      "(tg_level_lock tg)[l := read_locked 0] = tg_level_lock tg"
    and lv: "k_level_heap s lp = Some lv" "tl_rcu_lock lv = read_locked (Suc n)" "tl_ready lv = 1"
      "lp \<noteq> k_next s"
    and lock: "i < length (k_tag_lock s)" "k_tag_lock s ! i = read_locked (Suc m)"
    and g: "next_outcome (k_signal s) = (ok1, g1)" "next_outcome g1 = (ok2, g2)"
    and a: "next_outcome (k_alloc s) = (al1, a1)" "next_outcome a1 = (al2, a2)"
  shows "tag_receive_epoch i l te lp s =
    (if \<not> ok1 then Some (Inl (- EINTR), enter_undo i m te tg lp lv n (s\<lparr>k_signal := g1\<rparr>))
     else if \<not> al1 then
       Some (Inl (- ENOMEM), enter_undo i m te tg lp lv n (s\<lparr>k_signal := g1, k_alloc := a1\<rparr>))
     else if \<not> al2 then
       Some (Inl (- ENOMEM), enter_undo i m te tg lp lv n (s\<lparr>k_signal := g1, k_alloc := a2\<rparr>))
     else if \<not> ok2 then
       Some (Inl (- EINTR), enter_undo i m te tg lp lv n (s\<lparr>k_signal := g2, k_alloc := a2,
         k_next := Suc (k_next s), k_level_heap := (k_level_heap s)(k_next s \<mapsto>
           fresh_level l (to_c_int (tl_epoch lv + 1)))\<rparr>))
     else Some (Inr (k_next s), enter_epoch l te tg lp lv n (s\<lparr>k_signal := g2, k_alloc := a2\<rparr>)))"
proof -
  consider "\<not> ok1" | "ok1" "\<not> al1" | "ok1" "al1" "\<not> al2" | "ok1" "al1" "al2" "\<not> ok2"
    | "ok1" "al1" "al2" "ok2" by blast
  then show ?thesis
  proof cases
    case 1
    with assms show ?thesis
      by (simp add: tag_receive_epoch_def interruptible_eq tag_waiting_dec_eq op_eqs enter_undo_def)
  next
    case 2
    with assms show ?thesis
      by (simp add: tag_receive_epoch_def interruptible_eq tag_waiting_dec_eq op_eqs enter_undo_def
          create_level_eq map_upd_same)
  next
    case 3
    with assms show ?thesis
      by (simp add: tag_receive_epoch_def interruptible_eq tag_waiting_dec_eq op_eqs enter_undo_def
          create_level_eq map_upd_same)
  next
    case 4
    have "(tg_tag_level tg)[l := Some lp] = tg_tag_level tg" using tg(3) by (metis list_update_id)
    with 4 assms show ?thesis
      by (simp add: tag_receive_epoch_def interruptible_eq tag_waiting_dec_eq op_eqs enter_undo_def
          create_level_eq map_upd_same)
  next
    case 5
    with assms show ?thesis
      by (simp add: tag_receive_epoch_def interruptible_eq op_eqs enter_epoch_def
          create_level_eq map_upd_same fresh_level_def)
  qed
qed

text \<open>The code of a call that does not come to wait, if it is not interrupted.\<close>

definition receive_code :: "kernel \<Rightarrow> int \<Rightarrow> int \<Rightarrow> nat \<Rightarrow> int \<Rightarrow> int option" where
  "receive_code k tag level sz euid =
     (if bad_message_args tag level sz then Some (- EINVAL)
      else case entry_at k (nat tag) of
        None \<Rightarrow> Some (- ENODATA)
      | Some tg \<Rightarrow> if CHECKPERM tg euid then Some (- EPERM) else None)"

definition join_level :: "tag_level \<Rightarrow> tag_level" where
  "join_level lv = lv\<lparr>tl_rcu_lock := read_locked (Suc (rw_readers (tl_rcu_lock lv))),
     tl_waiting := tl_waiting lv + 1\<rparr>"

definition join_tag :: "tag \<Rightarrow> tag" where
  "join_tag tg = tg\<lparr>tg_waiting := tg_waiting tg + 1\<rparr>"

text \<open>The state with the level of the next epoch prepared, and with it installed.\<close>

definition prepare_epoch :: "nat \<Rightarrow> tag_level \<Rightarrow> kernel \<Rightarrow> kernel" where
  "prepare_epoch l lv k = k\<lparr>k_next := Suc (k_next k),
     k_level_heap := (k_level_heap k)(k_next k \<mapsto> fresh_level l (to_c_int (tl_epoch lv + 1)))\<rparr>"

definition install_epoch :: "nat \<Rightarrow> addr \<Rightarrow> tag \<Rightarrow> tag_level \<Rightarrow> kernel \<Rightarrow> kernel" where
  "install_epoch l te tg lv k = (prepare_epoch l lv k)\<lparr>k_tag_heap := (k_tag_heap k)(te \<mapsto>
     tg\<lparr>tg_tag_level := (tg_tag_level tg)[l := Some (k_next k)]\<rparr>)\<rparr>"

text \<open>
  The effect of a registration: on the installed level if it holds no message, otherwise on a new
  level of the next epoch.
\<close>

definition enter_effect :: "kernel \<Rightarrow> receivers \<Rightarrow> nat \<Rightarrow> nat \<Rightarrow> addr \<Rightarrow> tag \<Rightarrow> addr \<Rightarrow> tag_level \<Rightarrow> addr \<Rightarrow> kernel" where
  "enter_effect k R i l te tg lp lv p =
     (if tl_ready lv = 1
      then change i (Suc (card (tag_waiters R i))) te
        (join_tag (tg\<lparr>tg_tag_level := (tg_tag_level tg)[l := Some (k_next k)]\<rparr>)) p
        (Some (join_level (fresh_level l (to_c_int (tl_epoch lv + 1))))) (install_epoch l te tg lv k)
      else change i (Suc (card (tag_waiters R i))) te (join_tag tg) p (Some (join_level lv)) k)"

definition enter_result ::
  "kernel \<Rightarrow> receivers \<Rightarrow> int \<Rightarrow> int \<Rightarrow> bool \<Rightarrow> nat \<Rightarrow> int \<Rightarrow> int + receiver \<Rightarrow> kernel \<Rightarrow> bool" where
  "enter_result k R tag level buffer sz euid r k' \<longleftrightarrow>
     (case r of
        Inl code \<Rightarrow>
          (receive_code k tag level sz euid = Some code \<and> env_eq k k') \<or>
          (code = - EINTR \<and> False \<in> set (k_signal k) \<or> code = - ENOMEM \<and> False \<in> set (k_alloc k)) \<and>
          (env_eq k k' \<or> (\<exists>lv. env_eq (prepare_epoch (nat level) lv k) k'))
      | Inr c \<Rightarrow> receive_code k tag level sz euid = None \<and>
          (\<exists>te tg lp lv. k_tags k ! nat tag = Some te \<and> k_tag_heap k te = Some tg \<and>
             tg_tag_level tg ! nat level = Some lp \<and> k_level_heap k lp = Some lv \<and>
             c = \<lparr>rc_tag = nat tag, rc_level = nat level, rc_entry = te,
                  rc_lp = (if tl_ready lv = 1 then k_next k else lp),
                  rc_size = (if buffer then sz else 0), rc_buffer = buffer\<rparr> \<and>
             env_eq (enter_effect k R (nat tag) (nat level) te tg lp lv (rc_lp c)) k'))"

lemma dec_join_tag:
  assumes "tg_ok R i tg" and "finite (dom R)"
  shows "dec_waiting (join_tag tg) = tg"
    "(if tg_waiting tg = 0 then 0 else tg_ready tg) = tg_ready tg"
proof -
  have "tg_ready tg = 0" if "tg_waiting tg = 0"
  proof -
    have "tag_waiters R i = {}"
      using assms that waiters_finite(1) [OF assms(2), of i] by (simp add: tg_ok_def)
    with assms(1) show ?thesis by (auto simp: tg_ok_def)
  qed
  then show "dec_waiting (join_tag tg) = tg"
    "(if tg_waiting tg = 0 then 0 else tg_ready tg) = tg_ready tg"
    by (simp_all add: dec_waiting_def join_tag_def)
qed

text \<open>
  A receiver that finds a message: the result depends on the choices of the environment for the two
  remaining locks and the two allocations.
\<close>

lemma tag_receive_enter_epoch:
  assumes inv: "sys_inv k R" and args: "\<not> bad_message_args tag level sz"
    and te: "k_tags k ! nat tag = Some te" "k_tag_heap k te = Some tg" "\<not> CHECKPERM tg euid"
    and lp: "tg_tag_level tg ! nat level = Some lp" "k_level_heap k lp = Some lv" "tl_ready lv = 1"
    and g: "next_outcome (k_signal k) = (True, g1)" "next_outcome g1 = (True, g2)"
      "next_outcome g2 = (True, g3)" "next_outcome g3 = (ok4, g4)" "next_outcome g4 = (ok5, g5)"
    and a: "next_outcome (k_alloc k) = (al1, a1)" "next_outcome a1 = (al2, a2)"
  shows "\<exists>r k'. tag_receive_enter tag level buffer sz euid k = Some (r, k') \<and>
    (if ok4 \<and> al1 \<and> al2 \<and> ok5
     then r = Inr \<lparr>rc_tag = nat tag, rc_level = nat level, rc_entry = te, rc_lp = k_next k,
         rc_size = (if buffer then sz else 0), rc_buffer = buffer\<rparr> \<and>
       env_eq (enter_effect k R (nat tag) (nat level) te tg lp lv (k_next k)) k'
     else if ok4 \<and> al1 \<and> al2 then r = Inl (- EINTR) \<and> env_eq (prepare_epoch (nat level) lv k) k'
     else r = Inl (if ok4 then - ENOMEM else - EINTR) \<and> env_eq k k')"
proof -
  let ?i = "nat tag" and ?l = "nat level"
  note arg = bad_message_argsD [OF args]
  note lock = sys_inv_locks [OF inv arg(2)]
  have tg: "tg_ok R ?i tg" "lv_ok R lp lv"
    using tags_okE [OF sys_invD(2) [OF inv] arg(2) te(1)] te(2) lp(1,2) arg(4)
    by (metis option.inject)+
  note lvl = tg_okD [OF tg(1) arg(4)] and rcu = lv_okD [OF tg(2)]
  note dec = dec_join_tag [OF tg(1) sys_invD(1) [OF inv]]
  let ?n = "card (tag_waiters R ?i)" and ?m = "card (lp_waiters R lp)"
  let ?lv = "lv\<lparr>tl_rcu_lock := read_locked (Suc ?m)\<rparr>"
  let ?S = "k\<lparr>k_tag_lock := (k_tag_lock k)[?i := read_locked (Suc ?n)], k_signal := g3,
    k_level_heap := (k_level_heap k)(lp \<mapsto> ?lv), k_tag_heap := (k_tag_heap k)(te \<mapsto> join_tag tg)\<rparr>"
  have call: "tag_receive_enter tag level buffer sz euid k = do {
      (r, s) \<leftarrow> tag_receive_epoch ?i ?l te lp ?S;
      case r of
        Inl code \<Rightarrow> Some (Inl code, s)
      | Inr lp \<Rightarrow> do {
          s \<leftarrow> update_level lp (\<lambda>lv. lv\<lparr>tl_waiting := tl_waiting lv + 1\<rparr>) s;
          Some (Inr \<lparr>rc_tag = ?i, rc_level = ?l, rc_entry = te, rc_lp = lp,
            rc_size = (if buffer then sz else 0), rc_buffer = buffer\<rparr>, s)
        }
    }"
    using te lp lvl arg(4) rcu
    by (simp add: tag_receive_enter_def args interruptible_eq tag_lock_op_eq g lock Let_def level_lock_op_eq rcu_lock_op_eq update_tag_eq join_tag_def)
  have F: "k_next k \<noteq> lp" using fresh_unused(1) [OF inv] lp(2) by auto
  have S: "k_tag_heap ?S te = Some (join_tag tg)" "tg_level_lock (join_tag tg) ! ?l = read_locked 0"
      "tg_tag_level (join_tag tg) ! ?l = Some lp" "?l < length (tg_level_lock (join_tag tg))"
      "?l < length (tg_tag_level (join_tag tg))"
      "(tg_level_lock (join_tag tg))[?l := read_locked 0] = tg_level_lock (join_tag tg)"
      "k_level_heap ?S lp = Some ?lv" "tl_rcu_lock ?lv = read_locked (Suc ?m)" "tl_ready ?lv = 1"
      "lp \<noteq> k_next ?S" "?i < length (k_tag_lock ?S)" "k_tag_lock ?S ! ?i = read_locked (Suc ?n)"
      "next_outcome (k_signal ?S) = (ok4, g4)" "next_outcome (k_alloc ?S) = (al1, a1)"
    using lvl lp arg(4) lock(2) g a F by (simp_all add: join_tag_def)
  note ep = tag_receive_epoch_eq [OF S(1-13) g(5) S(14) a(2)]
  consider (e1) "\<not> (ok4 \<and> al1 \<and> al2)" | (e4) "ok4" "al1" "al2" "\<not> ok5" | (ok) "ok4" "al1" "al2" "ok5" by blast
  then show ?thesis
  proof cases
    case e1
    then show ?thesis using lp(2) rcu(1) lock(3) te(2)
      by (auto simp: call ep enter_undo_def dec map_upd_same)
  next
    case e4
    have "env_eq (prepare_epoch ?l lv k) (enter_undo ?i ?n te (join_tag tg) lp ?lv ?m
        (?S\<lparr>k_signal := g5, k_alloc := a2, k_next := Suc (k_next ?S),
          k_level_heap := (k_level_heap ?S)(k_next ?S \<mapsto> fresh_level ?l (to_c_int (tl_epoch lv + 1)))\<rparr>))"
      using F lp(2) rcu(1) lock(3) te(2)
      by (simp add: enter_undo_def dec map_upd_same prepare_epoch_def env_eq_def fun_upd_twist [OF F])
    then show ?thesis using e4 by (simp add: call ep)
  next
    case ok
    let ?k = "k\<lparr>k_signal := g5, k_alloc := a2, k_next := Suc (k_next k),
      k_tag_lock := (k_tag_lock k)[?i := read_locked (Suc ?n)],
      k_tag_heap := (k_tag_heap k)(te \<mapsto> join_tag (tg\<lparr>tg_tag_level := (tg_tag_level tg)[?l := Some (k_next k)]\<rparr>)),
      k_level_heap := (k_level_heap k)(k_next k \<mapsto> join_level (fresh_level ?l (to_c_int (tl_epoch lv + 1))))\<rparr>"
    have ep': "tag_receive_epoch ?i ?l te lp ?S = Some (Inr (k_next k), enter_epoch ?l te
        (join_tag tg) lp ?lv ?m (?S\<lparr>k_signal := g5, k_alloc := a2\<rparr>))"
      using ok by (simp add: ep)
    have comm: "tg\<lparr>tg_waiting := x, tg_tag_level := y\<rparr> = tg\<lparr>tg_tag_level := y, tg_waiting := x\<rparr>"
      for x y by simp
    have "tag_receive_enter tag level buffer sz euid k =
        Some (Inr \<lparr>rc_tag = ?i, rc_level = ?l, rc_entry = te, rc_lp = k_next k,
          rc_size = (if buffer then sz else 0), rc_buffer = buffer\<rparr>, ?k)"
      unfolding call ep' using F lp(2) rcu(1) te(2)
      by (simp add: enter_epoch_def map_upd_same update_level_eq join_tag_def
          join_level_def fresh_level_def fun_upd_twist [OF F] comm)
    moreover have "env_eq (enter_effect k R ?i ?l te tg lp lv (k_next k)) ?k"
      using lp(3) by (simp add: enter_effect_def change_def install_epoch_def prepare_epoch_def env_eq_def)
    ultimately show ?thesis using ok by simp
  qed
qed

lemma tag_receive_enter_result:
  assumes inv: "sys_inv k R"
  shows "\<exists>r k'. tag_receive_enter tag level buffer sz euid k = Some (r, k') \<and>
    enter_result k R tag level buffer sz euid r k'"
proof (cases "bad_message_args tag level sz")
  case True
  then show ?thesis by (simp add: tag_receive_enter_def enter_result_def receive_code_def)
next
  case False
  note args = bad_message_argsD [OF False]
  let ?i = "nat tag" and ?l = "nat level"
  note lock = sys_inv_locks [OF inv args(2)]
  obtain ok1 g1 where g1: "next_outcome (k_signal k) = (ok1, g1)" by force
  obtain ok2 g2 where g2: "next_outcome g1 = (ok2, g2)" by force
  obtain ok3 g3 where g3: "next_outcome g2 = (ok3, g3)" by force
  obtain ok4 g4 where g4: "next_outcome g3 = (ok4, g4)" by force
  obtain ok5 g5 where g5: "next_outcome g4 = (ok5, g5)" by force
  obtain al1 a1 where a1: "next_outcome (k_alloc k) = (al1, a1)" by force
  obtain al2 a2 where a2: "next_outcome a1 = (al2, a2)" by force
  note sig = next_outcome_False [OF g1] next_outcome_False [OF g2] next_outcome_False [OF g3]
    next_outcome_False [OF g4] next_outcome_False [OF g5]
  note als = next_outcome_False [OF a1] next_outcome_False [OF a2]
  note eqs = tag_receive_enter_def False interruptible_eq tag_lock_op_eq g1 g2 g3 lock
    enter_result_def receive_code_def
  show ?thesis
  proof (cases "k_tags k ! ?i")
    case None
    then have "entry_at k ?i = None" by (simp add: entry_at_def)
    with None show ?thesis using sig(1) by (cases ok1) (simp_all add: eqs Let_def)
  next
    case (Some te)
    obtain tg where tg: "k_tag_heap k te = Some tg" "tg_ok R ?i tg" "entry_at k ?i = Some tg"
      "\<And>l. l < LEVELS \<Longrightarrow> \<exists>p lv. tg_tag_level tg ! l = Some p \<and> k_level_heap k p = Some lv \<and>
         lv_ok R p lv \<and> lp_at k ?i l = Some p \<and> level_at k ?i l = Some lv"
      using tags_okE [OF sys_invD(2) [OF inv] args(2) Some] by blast
    obtain lp lv where lp: "tg_tag_level tg ! ?l = Some lp" "k_level_heap k lp = Some lv"
        "lv_ok R lp lv" using tg(4) [OF args(4)] by blast
    note lvl = tg_okD [OF tg(2) args(4)] and rcu = lv_okD [OF lp(3)]
    note dec = dec_join_tag [OF tg(2) sys_invD(1) [OF inv]]
    consider "\<not> ok1" | "ok1" "CHECKPERM tg euid" | "ok1" "\<not> CHECKPERM tg euid" "\<not> ok2"
      | "ok1" "\<not> CHECKPERM tg euid" "ok2" "\<not> ok3"
      | (join) "ok1" "\<not> CHECKPERM tg euid" "ok2" "ok3" "tl_ready lv \<noteq> 1"
      | (epoch) "ok1" "\<not> CHECKPERM tg euid" "ok2" "ok3" "tl_ready lv = 1" by blast
    then show ?thesis
    proof cases
      case 1
      then show ?thesis using sig(1) by (simp add: eqs Let_def)
    next
      case 2
      then show ?thesis using Some tg(1,3) by (simp add: eqs Let_def)
    next
      case 3
      then have "False \<in> set (k_signal k)" using sig by blast
      with 3 show ?thesis using Some tg(1,3) by (simp add: eqs Let_def)
    next
      case 4
      then have "False \<in> set (k_signal k)" using sig by blast
      moreover have "tg_waiting tg = 0 \<Longrightarrow> tg\<lparr>tg_ready := 0\<rparr> = tg"
        using dec(2) by (simp add: tag.equality)
      ultimately show ?thesis using 4 Some tg(1,3) lvl lp(1,2) args(4)
        by (simp add: eqs Let_def level_lock_op_eq map_upd_same update_tag_eq tag_waiting_dec_eq
            dec_waiting_def dec(2))
    next
      case join
      show ?thesis
        using join Some tg(1,3) lvl lp(1,2) args(4) rcu
        by (simp add: eqs Let_def level_lock_op_eq rcu_lock_op_eq update_tag_eq update_level_eq
            enter_effect_def change_def join_level_def join_tag_def env_eq_def)
    next
      case epoch
      have code: "receive_code k tag level sz euid = None"
        using False tg(3) epoch by (simp add: receive_code_def)
      have gt: "next_outcome (k_signal k) = (True, g1)" "next_outcome g1 = (True, g2)" "next_outcome g2 = (True, g3)"
        using g1 g2 g3 epoch by simp_all
      obtain r k' where r: "tag_receive_enter tag level buffer sz euid k = Some (r, k')"
        "if ok4 \<and> al1 \<and> al2 \<and> ok5
         then r = Inr \<lparr>rc_tag = ?i, rc_level = ?l, rc_entry = te, rc_lp = k_next k,
             rc_size = (if buffer then sz else 0), rc_buffer = buffer\<rparr> \<and>
           env_eq (enter_effect k R ?i ?l te tg lp lv (k_next k)) k'
         else if ok4 \<and> al1 \<and> al2 then r = Inl (- EINTR) \<and> env_eq (prepare_epoch ?l lv k) k'
         else r = Inl (if ok4 then - ENOMEM else - EINTR) \<and> env_eq k k'"
        using tag_receive_enter_epoch [OF inv False Some tg(1) epoch(2) lp(1,2) epoch(5)
            gt g4 g5 a1 a2] by blast
      have env: "\<not> ok4 \<or> \<not> ok5 \<Longrightarrow> False \<in> set (k_signal k)" "\<not> al1 \<or> \<not> al2 \<Longrightarrow> False \<in> set (k_alloc k)"
        using sig als by blast+
      show ?thesis
        using r env Some tg(1) lp(1,2) epoch(5) code
        by (auto simp: enter_result_def split: if_splits)
    qed
  qed
qed

text \<open>
  The epoch of a level is a C \<open>int\<close>. The statements below assume that no level has reached the last
  one; beyond it the comparison of epochs would no longer tell new levels from old.
\<close>

definition epochs_left :: "kernel \<Rightarrow> bool" where
  "epochs_left k \<longleftrightarrow>
     (\<forall>p lv. k_level_heap k p = Some lv \<longrightarrow> 0 \<le> tl_epoch lv \<and> tl_epoch lv < INT_MAX)"

lemma lv_ok_fresh: "lp_waiters R p = {} \<Longrightarrow> lv_ok R p (fresh_level l e)"
  by (simp add: lv_ok_def fresh_level_def)

lemma lv_ok_join:
  assumes "lv_ok R p lv" and "finite (dom R)" and "R t = None" and "rc_lp c = p"
    and "tl_ready lv \<noteq> 1"
  shows "lv_ok (R(t \<mapsto> c)) p (join_level lv)"
proof -
  have "card (lp_waiters (R(t \<mapsto> c)) p) = Suc (card (lp_waiters R p))"
    using waiters_join [of R t] assms(3) waiters_finite(2) [OF assms(2)] assms(4) by simp
  moreover have "lp_waiters R p \<subseteq> lp_waiters (R(t \<mapsto> c)) p"
    using waiters_join(2) [of R t c p] assms(3) by auto
  ultimately show ?thesis using assms(1,5) by (auto simp: lv_ok_def join_level_def)
qed

lemma tg_ok_join:
  assumes "tg_ok R i tg" and "finite (dom R)" and "R t = None" and "rc_tag c = i"
  shows "tg_ok (R(t \<mapsto> c)) i (join_tag tg)"
    "card (tag_waiters (R(t \<mapsto> c)) i) = Suc (card (tag_waiters R i))"
proof -
  show n: "card (tag_waiters (R(t \<mapsto> c)) i) = Suc (card (tag_waiters R i))"
    using waiters_join [of R t] assms(3) waiters_finite(1) [OF assms(2)] assms(4) by simp
  show "tg_ok (R(t \<mapsto> c)) i (join_tag tg)"
    using assms(1,3,4) n waiters_join(1) [of R t c i] by (auto simp: tg_ok_def join_tag_def)
qed

lemma sys_inv_install_epoch:
  assumes inv: "sys_inv k R" and il: "i < 256" "l < LEVELS"
    and te: "k_tags k ! i = Some te" "k_tag_heap k te = Some tg"
    and old: "tg_tag_level tg ! l = Some p" "k_level_heap k p = Some old" "tl_ready old = 1"
    and ep: "epochs_left k"
  shows "sys_inv (install_epoch l te tg old k) R"
proof -
  note F = fresh_unused [OF inv]
  let ?k = "prepare_epoch l old k" and ?a = "k_next k"
  let ?f = "fresh_level l (to_c_int (tl_epoch old + 1))"
  have inv': "sys_inv ?k R" unfolding prepare_epoch_def by (rule sys_inv_leak [OF inv])
  have e: "to_c_int (tl_epoch old + 1) = tl_epoch old + 1"
    using ep old(2) by (intro to_c_int_small) (force simp: epochs_left_def)+
  have look: "lp_at ?k = lp_at k" by (intro ext) (simp add: prepare_epoch_def lp_at_def entry_at_def)
  have free: "\<not> owns ?k R ?a j m" for j m
    using F(3,4) unfolding owns_def look lp_waiters_def by blast
  have "p \<noteq> ?a" using old(2) F(1) by auto
  then have p: "k_level_heap ?k p = Some old" using old(2) by (simp add: prepare_epoch_def)
  have h: "k_tags ?k ! i = Some te" "k_tag_heap ?k te = Some tg" "k_level_heap ?k ?a = Some ?f"
    using te by (simp_all add: prepare_epoch_def)
  have "tl_epoch old < tl_epoch ?f" by (simp add: fresh_level_def e)
  from sys_inv_install [OF inv' il h(1,2) old(1) p old(3) h(3) lv_ok_fresh [OF F(3)] this free]
  show ?thesis by (simp add: install_epoch_def prepare_epoch_def)
qed

lemma tag_receive_enter_inv:
  assumes inv: "sys_inv k R" and t: "R t = None" and ep: "epochs_left k"
    and enter: "tag_receive_enter tag level buffer sz euid k = Some (r, k')"
  shows "case r of Inl code \<Rightarrow> sys_inv k' R | Inr c \<Rightarrow> sys_inv k' (R(t \<mapsto> c))"
proof -
  note D = sys_invD [OF inv]
  obtain q k'' where q: "tag_receive_enter tag level buffer sz euid k = Some (q, k'')"
      "enter_result k R tag level buffer sz euid q k''" using tag_receive_enter_result [OF inv] by blast
  with enter have res: "enter_result k R tag level buffer sz euid r k'" by simp
  show ?thesis
  proof (cases r)
    case (Inl code)
    then consider "env_eq k k'" | lv where "env_eq (prepare_epoch (nat level) lv k) k'"
      using res by (auto simp: enter_result_def)
    then have "sys_inv k' R"
    proof cases
      case 1
      with inv show ?thesis by (simp add: env_eq_sys_inv)
    next
      case 2
      have "sys_inv (prepare_epoch (nat level) lv k) R"
        unfolding prepare_epoch_def by (rule sys_inv_leak [OF inv])
      with 2 show ?thesis by (simp add: env_eq_sys_inv)
    qed
    with Inl show ?thesis by simp
  next
    case (Inr c)
    let ?i = "nat tag" and ?l = "nat level"
    obtain te tg lp lv where te: "k_tags k ! ?i = Some te" "k_tag_heap k te = Some tg"
      and lp: "tg_tag_level tg ! ?l = Some lp" "k_level_heap k lp = Some lv"
      and c: "c = \<lparr>rc_tag = ?i, rc_level = ?l, rc_entry = te,
                  rc_lp = (if tl_ready lv = 1 then k_next k else lp),
                  rc_size = (if buffer then sz else 0), rc_buffer = buffer\<rparr>"
      and eff: "env_eq (enter_effect k R ?i ?l te tg lp lv (rc_lp c)) k'"
      and code: "receive_code k tag level sz euid = None"
      using res Inr by (auto simp: enter_result_def)
    have "\<not> bad_message_args tag level sz" using code by (auto simp: receive_code_def split: if_splits)
    note args = bad_message_argsD [OF this]
    have tg: "tg_ok R ?i tg" "entry_at k ?i = Some tg"
      using tags_okE [OF D(2) args(2) te(1)] te(2) by (metis option.inject)+
    have lvok: "lv_ok R lp lv"
      using tags_okE [OF D(2) args(2) te(1)] te(2) lp args(4) by (metis option.inject)
    let ?R = "R(t \<mapsto> c)"
    have cs: "\<forall>d. R t = Some d \<or> Some c = Some d \<longrightarrow> rc_tag d = ?i \<and> rc_lp d = rc_lp c"
      using t c by simp
    have c': "rc_level c < LEVELS" "rc_entry c = te" "rc_size c \<le> BUFFER_SIZE" "rc_level c = ?l"
        "rc_tag c = ?i"
      using args c by simp_all
    have "sys_inv (enter_effect k R ?i ?l te tg lp lv (rc_lp c)) ?R"
    proof (cases "tl_ready lv = 1")
      case False
      then have p: "rc_lp c = lp" using c by simp
      note j = tg_ok_join [OF tg(1) D(1) t c'(5)]
      have "sys_inv (change ?i (card (tag_waiters ?R ?i)) te (join_tag tg) (rc_lp c)
          (Some (join_level lv)) k) ?R"
      proof (rule sys_inv_change [OF inv args(2) te j(1) _ _ refl cs])
        show "k_level_heap k (rc_lp c) = Some lv" using lp(2) p by simp
        show "\<exists>w. Some (join_level lv) = Some w \<and> lv_ok ?R (rc_lp c) w \<and> tl_epoch w = tl_epoch lv \<and>
            (lp_waiters ?R (rc_lp c) \<noteq> {} \<and> tl_ready lv = 1 \<longrightarrow> tl_ready w = 1)"
          using lv_ok_join [OF lvok D(1) t p False] p False by (simp add: join_level_def)
        show "rc_level d < LEVELS \<and> rc_entry d = te \<and> rc_size d \<le> BUFFER_SIZE \<and>
            lp_at k ?i (rc_level d) = Some (rc_lp c)" if "Some c = Some d" for d
          using that c' p lp(1) tg(2) by (auto simp: lp_at_def)
      qed (simp_all add: join_tag_def)
      with False j(2) show ?thesis by (simp add: enter_effect_def)
    next
      case True
      then have p: "rc_lp c = k_next k" using c by simp
      let ?k = "install_epoch ?l te tg lv k"
      let ?tg = "tg\<lparr>tg_tag_level := (tg_tag_level tg)[?l := Some (k_next k)]\<rparr>"
      let ?f = "fresh_level ?l (to_c_int (tl_epoch lv + 1))"
      have inv': "sys_inv ?k R"
        by (rule sys_inv_install_epoch [OF inv args(2,4) te lp True ep])
      have te': "k_tags ?k ! ?i = Some te" "k_tag_heap ?k te = Some ?tg"
          "k_level_heap ?k (rc_lp c) = Some ?f"
        using te(1) p by (simp_all add: install_epoch_def prepare_epoch_def)
      have tg': "tg_ok R ?i ?tg" using tg(1) by (simp add: tg_ok_def)
      note j = tg_ok_join [OF tg' D(1) t c'(5)]
      have "sys_inv (change ?i (card (tag_waiters ?R ?i)) te (join_tag ?tg) (rc_lp c)
          (Some (join_level ?f)) ?k) ?R"
      proof (rule sys_inv_change [OF inv' args(2) te'(1,2) j(1) _ _ refl cs te'(3)])
        have r: "tl_ready ?f \<noteq> 1" by (simp add: fresh_level_def)
        have "lp_waiters R (rc_lp c) = {}" using fresh_unused(3) [OF inv] p by simp
        from lv_ok_join [OF lv_ok_fresh [OF this] D(1) t refl r]
        show "\<exists>w. Some (join_level ?f) = Some w \<and> lv_ok ?R (rc_lp c) w \<and> tl_epoch w = tl_epoch ?f \<and>
            (lp_waiters ?R (rc_lp c) \<noteq> {} \<and> tl_ready ?f = 1 \<longrightarrow> tl_ready w = 1)"
          by (simp add: join_level_def fresh_level_def)
        have "entry_at ?k ?i = Some ?tg" using te' by (simp add: entry_at_def)
        moreover have "?l < length (tg_tag_level tg)" using tg_okD(3) [OF tg(1) args(4)] args(4) by simp
        ultimately show "rc_level d < LEVELS \<and> rc_entry d = te \<and> rc_size d \<le> BUFFER_SIZE \<and>
            lp_at ?k ?i (rc_level d) = Some (rc_lp c)" if "Some c = Some d" for d
          using that c' p by (auto simp: lp_at_def)
      qed (simp_all add: join_tag_def)
      with True j(2) show ?thesis by (simp add: enter_effect_def)
    qed
    with eff Inr show ?thesis by (simp add: env_eq_sys_inv)
  qed
qed

section \<open>Sleeping and leaving\<close>

text \<open>
  A receiver whose wait is over takes the message if the level holds one and the tag is not being
  woken as a whole: the return code, the bytes it gets, and the remaining copy outcomes.
\<close>

definition leave_message :: "bool \<Rightarrow> receiver \<Rightarrow> tag \<Rightarrow> tag_level \<Rightarrow> nat list \<Rightarrow> int \<times> u8 list \<times> nat list" where
  "leave_message woken c tg lv cs =
     (let n = min (rc_size c) (tl_size lv)
      in if woken \<and> tg_ready tg = 0 \<and> tl_ready lv \<noteq> 0 then
           (if n > 0 \<and> rc_buffer c then
              let (fail, rest) = next_copy cs; r = min fail n
              in (if r \<noteq> 0 then - EFAULT else 1, take (n - r) (tl_buffer lv), rest)
            else (1, [], cs))
         else (0, [], cs))"

lemma receive_message_eq:
  assumes "k_level_heap s (rc_lp c) = Some lv" "k_tag_heap s (rc_entry c) = Some tg"
  shows "receive_message woken c s = (case leave_message woken c tg lv (k_copy s) of
    (r, bytes, cs) \<Rightarrow> Some (r, bytes, s\<lparr>k_copy := cs\<rparr>))"
  using assms
  by (auto simp: receive_message_def leave_message_def copy_to_user_def Let_def split: prod.splits)

definition leave_level :: "tid \<Rightarrow> nat \<Rightarrow> tag_level \<Rightarrow> tag_level" where
  "leave_level t n lv = lv\<lparr>tl_local_wq := removeAll t (tl_local_wq lv),
     tl_rcu_lock := read_locked n, tl_waiting := int n\<rparr>"

text \<open>What the receiver leaves of the level: the last one resets it, or frees it if it is an old one.\<close>

definition leave_rest :: "tid \<Rightarrow> nat \<Rightarrow> bool \<Rightarrow> tag_level \<Rightarrow> tag_level option" where
  "leave_rest t n installed lv =
     (if n = 0 then
        (if installed then Some ((leave_level t 0 lv)\<lparr>tl_ready := 0, tl_size := 0\<rparr>) else None)
      else Some (leave_level t n lv))"

lemma rcu_same: "tl_rcu_lock lv = x \<Longrightarrow> lv\<lparr>tl_rcu_lock := x\<rparr> = lv"
  by auto

lemma receive_last_eq:
  assumes "k_level_heap s (rc_lp c) = Some lv" "tl_rcu_lock lv = read_locked 0"
    and "k_tag_heap s (rc_entry c) = Some tg" "tg_tag_level tg ! rc_level c = Some new"
    and "new = rc_lp c \<and> epoch = tl_epoch lv \<or>
      new \<noteq> rc_lp c \<and> map_option tl_epoch (k_level_heap s new) = Some epoch"
  shows "receive_last c s = Some (True, s\<lparr>k_level_heap := (k_level_heap s)(rc_lp c :=
    (if epoch > tl_epoch lv then None else Some (lv\<lparr>tl_ready := 0, tl_size := 0\<rparr>)))\<rparr>)"
proof (cases "new = rc_lp c")
  case True
  with assms show ?thesis
    by (simp add: receive_last_def op_eqs rcu_same)
next
  case False
  with assms(5) obtain nlv where "k_level_heap s new = Some nlv" "tl_epoch nlv = epoch" by auto
  with False assms(1-4) show ?thesis
    by (simp add: receive_last_def op_eqs free_level_def rcu_same)
qed

lemma waiters_leave_card:
  assumes "finite (dom R)" and "R t = Some c"
  shows "card (tag_waiters R (rc_tag c)) = Suc (card (tag_waiters (R(t := None)) (rc_tag c)))"
    "card (lp_waiters R (rc_lp c)) = Suc (card (lp_waiters (R(t := None)) (rc_lp c)))"
  unfolding waiters_leave
  by (rule card.remove [OF waiters_finite(1) [OF assms(1)] waiters_mem(1) [of R t, OF assms(2)]],
    rule card.remove [OF waiters_finite(2) [OF assms(1)] waiters_mem(2) [of R t, OF assms(2)]])

lemma rc_okE:
  assumes "sys_inv k R" and "R t = Some c"
  obtains tg lv new nlv where "rc_tag c < 256" "rc_level c < LEVELS"
    "k_tags k ! rc_tag c = Some (rc_entry c)" "k_tag_heap k (rc_entry c) = Some tg"
    "tg_ok R (rc_tag c) tg" "k_level_heap k (rc_lp c) = Some lv" "lv_ok R (rc_lp c) lv"
    "tg_tag_level tg ! rc_level c = Some new" "lp_at k (rc_tag c) (rc_level c) = Some new"
    "k_level_heap k new = Some nlv" "new = rc_lp c \<and> nlv = lv \<or>
       new \<noteq> rc_lp c \<and> tl_ready lv = 1 \<and> tl_epoch lv < tl_epoch nlv"
proof -
  note D = sys_invD [OF assms(1)]
  obtain lv where lv: "k_level_heap k (rc_lp c) = Some lv" "lv_ok R (rc_lp c) lv"
        "lp_at k (rc_tag c) (rc_level c) = Some (rc_lp c) \<or>
         tl_ready lv = 1 \<and> (\<exists>new. level_at k (rc_tag c) (rc_level c) = Some new \<and>
           tl_epoch lv < tl_epoch new)"
      and b: "rc_tag c < 256" "rc_level c < LEVELS" "k_tags k ! rc_tag c = Some (rc_entry c)"
    using D(3) [OF assms(2)] unfolding rc_ok_def by blast
  obtain tg where tg: "k_tag_heap k (rc_entry c) = Some tg" "tg_ok R (rc_tag c) tg"
      "entry_at k (rc_tag c) = Some tg"
    and lvls: "\<And>l. l < LEVELS \<Longrightarrow> \<exists>q w. tg_tag_level tg ! l = Some q \<and> k_level_heap k q = Some w \<and>
         lv_ok R q w \<and> lp_at k (rc_tag c) l = Some q \<and> level_at k (rc_tag c) l = Some w"
    using tags_okE [OF D(2) b(1,3)] by blast
  obtain new nlv where new: "tg_tag_level tg ! rc_level c = Some new" "k_level_heap k new = Some nlv"
      "lp_at k (rc_tag c) (rc_level c) = Some new" "level_at k (rc_tag c) (rc_level c) = Some nlv"
    using lvls [OF b(2)] by blast
  have "new = rc_lp c \<and> nlv = lv \<or> new \<noteq> rc_lp c \<and> tl_ready lv = 1 \<and> tl_epoch lv < tl_epoch nlv"
    using lv(1,3) new(2-4) by auto
  with that [OF b tg(1,2) lv(1,2) new(1,3,2)] show thesis by blast
qed

lemma tag_receive_leave_result:
  assumes inv: "sys_inv k R" and t: "R t = Some c"
    and tg: "k_tag_heap k (rc_entry c) = Some tg" and lv: "k_level_heap k (rc_lp c) = Some lv"
  shows "tag_receive_leave t woken c k =
    (case leave_message woken c tg lv (k_copy k) of (r, bytes, cs) \<Rightarrow>
      Some (r, bytes, change (rc_tag c) (card (tag_waiters (R(t := None)) (rc_tag c))) (rc_entry c)
        (dec_waiting tg) (rc_lp c) (leave_rest t (card (lp_waiters (R(t := None)) (rc_lp c)))
          (lp_at k (rc_tag c) (rc_level c) = Some (rc_lp c)) lv) (k\<lparr>k_copy := cs\<rparr>)))"
proof -
  note D = sys_invD [OF inv]
  obtain new nlv where b: "rc_tag c < 256"
    and new: "tg_tag_level tg ! rc_level c = Some new" "lp_at k (rc_tag c) (rc_level c) = Some new"
      "k_level_heap k new = Some nlv" "new = rc_lp c \<and> nlv = lv \<or>
         new \<noteq> rc_lp c \<and> tl_ready lv = 1 \<and> tl_epoch lv < tl_epoch nlv"
    and ok: "lv_ok R (rc_lp c) lv"
    using rc_okE [OF inv t] tg lv by (metis option.inject)
  let ?n = "card (lp_waiters (R(t := None)) (rc_lp c))"
  let ?m = "card (tag_waiters (R(t := None)) (rc_tag c))"
  note card = waiters_leave_card [OF D(1) t]
  have rcu: "tl_rcu_lock lv = read_locked (Suc ?n)" "tl_waiting lv = 1 + int ?n"
    using lv_okD [OF ok] card(2) by simp_all
  have lock: "k_tag_lock k ! rc_tag c = read_locked (Suc ?m)" "rc_tag c < length (k_tag_lock k)"
    using sys_inv_locks [OF inv b] card(1) by simp_all
  obtain r bytes cs where msg: "leave_message woken c tg lv (k_copy k) = (r, bytes, cs)"
    by (cases "leave_message woken c tg lv (k_copy k)")
  have "leave_message woken c tg (lv\<lparr>tl_local_wq := removeAll t (tl_local_wq lv)\<rparr>) (k_copy k) =
      leave_message woken c tg lv (k_copy k)"
    by (simp add: leave_message_def Let_def split: prod.splits)
  with msg have msg': "leave_message woken c tg (lv\<lparr>tl_local_wq := removeAll t (tl_local_wq lv)\<rparr>)
      (k_copy k) = (r, bytes, cs)" by simp
  show ?thesis
  proof (cases "?n = 0")
    case False
    with tg lv rcu lock msg' show ?thesis
      by (simp add: tag_receive_leave_def op_eqs receive_message_eq msg tag_waiting_dec_eq
          leave_rest_def leave_level_def change_def)
  next
    case True
    let ?lv = "leave_level t 0 lv"
    let ?S = "k\<lparr>k_copy := cs, k_level_heap := (k_level_heap k)(rc_lp c \<mapsto> ?lv)\<rparr>"
    have call: "tag_receive_leave t woken c k = do {
        (ok, s) \<leftarrow> receive_last c ?S;
        s \<leftarrow> tag_waiting_dec (rc_entry c) s;
        s \<leftarrow> (if ok then Some s else rcu_lock_op up_write (rc_lp c) s);
        s \<leftarrow> tag_lock_op up_read (rc_tag c) s;
        Some (if ok then r else - EPROTO, bytes, s)
      }"
      using True tg lv rcu msg'
      by (simp add: tag_receive_leave_def op_eqs receive_message_eq leave_level_def)
    have epochs: "new = rc_lp c \<and> tl_epoch nlv = tl_epoch ?lv \<or> new \<noteq> rc_lp c \<and>
        map_option tl_epoch (k_level_heap ?S new) = Some (tl_epoch nlv)"
      using new by (auto simp: leave_level_def)
    have S: "k_level_heap ?S (rc_lp c) = Some ?lv" "tl_rcu_lock ?lv = read_locked 0"
        "k_tag_heap ?S (rc_entry c) = Some tg"
      using tg by (simp_all add: leave_level_def)
    have y: "(if tl_epoch nlv > tl_epoch ?lv then None else Some (?lv\<lparr>tl_ready := 0, tl_size := 0\<rparr>)) =
        leave_rest t ?n (lp_at k (rc_tag c) (rc_level c) = Some (rc_lp c)) lv"
      using new True by (auto simp: leave_rest_def leave_level_def)
    have last: "receive_last c ?S = Some (True, ?S\<lparr>k_level_heap := (k_level_heap ?S)(rc_lp c :=
        leave_rest t ?n (lp_at k (rc_tag c) (rc_level c) = Some (rc_lp c)) lv)\<rparr>)"
      unfolding y [symmetric] by (rule receive_last_eq [OF S new(1) epochs])
    show ?thesis
      using tg lock by (simp add: call last tag_waiting_dec_eq tag_lock_op_eq msg change_def)
  qed
qed

lemma tg_ok_leave:
  assumes "tg_ok R (rc_tag c) tg" and "finite (dom R)" and "R t = Some c"
  shows "tg_ok (R(t := None)) (rc_tag c) (dec_waiting tg)"
proof -
  let ?m = "card (tag_waiters (R(t := None)) (rc_tag c))"
  have w: "tg_waiting tg = 1 + int ?m"
    using assms(1) waiters_leave_card(1) [OF assms(2,3)] by (simp add: tg_ok_def)
  have "tag_waiters (R(t := None)) (rc_tag c) \<noteq> {}" if "?m \<noteq> 0" using that by auto
  with w assms(1) show ?thesis by (auto simp: tg_ok_def dec_waiting_def)
qed

lemma lv_ok_leave:
  assumes "lv_ok R (rc_lp c) lv" and "finite (dom R)" and "R t = Some c"
    and n: "n = card (lp_waiters (R(t := None)) (rc_lp c))" and "n = 0 \<longrightarrow> installed"
  obtains w where "leave_rest t n installed lv = Some w" "lv_ok (R(t := None)) (rc_lp c) w"
    "tl_epoch w = tl_epoch lv" "n \<noteq> 0 \<longrightarrow> tl_ready w = tl_ready lv"
proof -
  have W: "lp_waiters (R(t := None)) (rc_lp c) = lp_waiters R (rc_lp c) - {t}"
    by (rule waiters_leave)
  have sub: "set (removeAll t (tl_local_wq lv)) \<subseteq> lp_waiters (R(t := None)) (rc_lp c)"
    using assms(1) W by (auto simp: lv_ok_def)
  show thesis
  proof (cases "n = 0")
    case True
    have "lp_waiters (R(t := None)) (rc_lp c) = {}"
      using True n waiters_finite(2) [OF assms(2), of "rc_lp c"] W by simp
    with True assms(1,5) sub n show thesis
      by (intro that [of "(leave_level t 0 lv)\<lparr>tl_ready := 0, tl_size := 0\<rparr>"])
        (auto simp: leave_rest_def lv_ok_def leave_level_def)
  next
    case False
    then have "lp_waiters (R(t := None)) (rc_lp c) \<noteq> {}" using n by auto
    with False assms(1) sub n show thesis
      by (intro that [of "leave_level t n lv"]) (auto simp: leave_rest_def lv_ok_def leave_level_def)
  qed
qed

lemma tag_receive_leave_inv:
  assumes inv: "sys_inv k R" and t: "R t = Some c"
  obtains r bytes k' where "tag_receive_leave t woken c k = Some (r, bytes, k')"
    "sys_inv k' (R(t := None))"
proof -
  note D = sys_invD [OF inv]
  obtain tg lv new nlv where b: "rc_tag c < 256" "rc_level c < LEVELS"
      "k_tags k ! rc_tag c = Some (rc_entry c)"
    and tg: "k_tag_heap k (rc_entry c) = Some tg" "tg_ok R (rc_tag c) tg"
    and lv: "k_level_heap k (rc_lp c) = Some lv" "lv_ok R (rc_lp c) lv"
    by (rule rc_okE [OF inv t])
  let ?R = "R(t := None)" and ?p = "rc_lp c"
  let ?n = "card (lp_waiters ?R ?p)"
  let ?inst = "lp_at k (rc_tag c) (rc_level c) = Some ?p"
  obtain r bytes cs where msg: "leave_message woken c tg lv (k_copy k) = (r, bytes, cs)"
    by (cases "leave_message woken c tg lv (k_copy k)")
  let ?k = "k\<lparr>k_copy := cs\<rparr>"
  have res: "tag_receive_leave t woken c k = Some (r, bytes,
      change (rc_tag c) (card (tag_waiters ?R (rc_tag c))) (rc_entry c) (dec_waiting tg) ?p
        (leave_rest t ?n ?inst lv) ?k)"
    using tag_receive_leave_result [OF inv t tg(1) lv(1)] msg by simp
  have inv': "sys_inv ?k R" using inv by (rule env_eq_sys_inv [THEN iffD2, rotated]) simp
  have look: "lp_at ?k = lp_at k" by (intro ext) (simp add: lp_at_def entry_at_def)
  have cs: "\<forall>d. R t = Some d \<or> None = Some d \<longrightarrow> rc_tag d = rc_tag c \<and> rc_lp d = ?p" using t by simp
  have "sys_inv (change (rc_tag c) (card (tag_waiters ?R (rc_tag c))) (rc_entry c) (dec_waiting tg) ?p
      (leave_rest t ?n ?inst lv) ?k) ?R"
  proof (rule sys_inv_change [OF inv' b(1) _ _ tg_ok_leave [OF tg(2) D(1) t] _ _ refl cs])
    assume "lp_waiters ?R ?p \<noteq> {} \<or> (\<exists>j<256. \<exists>m<LEVELS. lp_at ?k j m = Some ?p)"
    then have "?n = 0 \<longrightarrow> ?inst"
    proof (elim disjE exE conjE)
      assume "lp_waiters ?R ?p \<noteq> {}"
      then have "?n \<noteq> 0" using waiters_finite(2) [of ?R ?p] D(1) by simp
      then show ?thesis by simp
    next
      fix j m
      assume "j < 256" "m < LEVELS" "lp_at ?k j m = Some ?p"
      then have "owns k R ?p j m" "lp_at k j m = Some ?p" by (simp_all add: owns_def look)
      moreover have "owns k R ?p (rc_tag c) (rc_level c)" using b t by (auto simp: owns_def)
      ultimately have "lp_at k j m = Some ?p" "j = rc_tag c" "m = rc_level c"
        using D(4) unfolding owners_ok_def by blast+
      then show ?thesis by simp
    qed
    then obtain w where "leave_rest t ?n ?inst lv = Some w" "lv_ok ?R ?p w" "tl_epoch w = tl_epoch lv"
        "?n \<noteq> 0 \<longrightarrow> tl_ready w = tl_ready lv"
      by (rule lv_ok_leave [OF lv(2) D(1) t refl])
    moreover have "lp_waiters ?R ?p \<noteq> {} \<longrightarrow> ?n \<noteq> 0"
      using waiters_finite(2) [of ?R ?p] D(1) by simp
    ultimately show "\<exists>w. leave_rest t ?n ?inst lv = Some w \<and> lv_ok ?R ?p w \<and>
        tl_epoch w = tl_epoch lv \<and>
        (lp_waiters ?R ?p \<noteq> {} \<and> tl_ready lv = 1 \<longrightarrow> tl_ready w = 1)" by auto
  qed (use b tg lv in \<open>simp_all add: dec_waiting_def\<close>)
  with res that show thesis by blast
qed

text \<open>Sleeping only adds the thread to the queue of its level; it sleeps when nothing is ready.\<close>

lemma wait_condition_eq:
  assumes "sys_inv k R" and "R t = Some c"
  obtains tg lv where "k_tag_heap k (rc_entry c) = Some tg" "k_level_heap k (rc_lp c) = Some lv"
    "wait_condition c k = Some (tl_ready lv \<noteq> 0 \<or> tg_ready tg \<noteq> 0)"
  by (rule rc_okE [OF assms]) (simp add: wait_condition_def)

lemma receive_sleep_inv:
  assumes inv: "sys_inv k R" and t: "R t = Some c" and w: "wait_condition c k = Some False"
  obtains k' where "receive_sleep t c k = Some k'" "sys_inv k' R"
proof -
  obtain tg lv where lv: "k_tag_heap k (rc_entry c) = Some tg" "k_level_heap k (rc_lp c) = Some lv"
      "lv_ok R (rc_lp c) lv" by (rule rc_okE [OF inv t])
  then have r: "tl_ready lv = 0" using w by (simp add: wait_condition_def)
  let ?lv = "lv\<lparr>tl_local_wq := t # removeAll t (tl_local_wq lv)\<rparr>"
  have "lv_ok R (rc_lp c) ?lv"
    using lv(3) r waiters_mem(2) [of R t, OF t] by (auto simp: lv_ok_def)
  from sys_inv_level_update [OF inv lv(2) this] that show thesis
    by (simp add: receive_sleep_def update_level_eq [OF lv(2)])
qed

end
