(* ===== verification/Tag_Common.thy ===== *)
theory Tag_Common
  imports Tag_Receive
begin

text \<open>
  The common data structure in the state of the service, and what \<open>clear_tag_common\<close> does to it, on
  the interface \<open>registry\<close>.
\<close>

section \<open>The registry of a state\<close>

definition reg_ok :: "kernel \<Rightarrow> bool" where
  "reg_ok k \<longleftrightarrow> bm_wf (k_tag_bitmask k) \<and> bm_cap (k_tag_bitmask k) = 256 \<and>
     tag_table_ok (k_tag_table k) \<and>
     registry_ok te_tag_key (bm_used (k_tag_bitmask k)) (tag_table_map (k_tag_table k))"

text \<open>The descriptor \<open>i\<close> is in use for the key (0: private), and for no other.\<close>

definition linked :: "kernel \<Rightarrow> int \<Rightarrow> nat \<Rightarrow> bool" where
  "linked k key i \<longleftrightarrow> i \<in> bm_used (k_tag_bitmask k) \<and>
     (\<forall>w e. tag_table_map (k_tag_table k) w = Some e \<and> te_tag_key e = int i \<longrightarrow>
        key \<noteq> 0 \<and> w = word_of_int key) \<and>
     (key \<noteq> 0 \<longrightarrow> tag_table_map (k_tag_table k) (word_of_int key) =
        Some (Tag_Entry (word_of_int key) (int i)))"

lemma registry_inv_iff:
  "registry_inv k \<longleftrightarrow> reg_ok k \<and> length (k_tags k) = 256 \<and>
     (\<forall>i<256. \<forall>tg. entry_at k i = Some tg \<longrightarrow> linked k (tg_key tg) i)"
  unfolding registry_inv_def reg_ok_def linked_def by blast

lemma reg_okD:
  assumes "reg_ok k"
  shows "bm_wf (k_tag_bitmask k)" "bm_cap (k_tag_bitmask k) = 256"
    "hm_fixed te_key (k_tag_table k)" "tag_table_ok (k_tag_table k)"
    "registry_ok te_tag_key (bm_used (k_tag_bitmask k)) (tag_table_map (k_tag_table k))"
    "256 \<le> unat (hm_growat (k_tag_table k))"
proof -
  have "256 \<le> int (unat (hm_growat (k_tag_table k)))"
    using assms by (simp add: reg_ok_def tag_table_ok_def MAX_TAGS_def)
  then show "256 \<le> unat (hm_growat (k_tag_table k))" by linarith
qed (use assms in \<open>simp_all add: reg_ok_def tag_table_ok_def\<close>)

lemma tag_table_okI:
  "hm_fixed te_key m' \<Longrightarrow> hm_growat m' = hm_growat m \<Longrightarrow> tag_table_ok m \<Longrightarrow> tag_table_ok m'"
  by (simp add: tag_table_ok_def)

text \<open>Releasing a linked descriptor: the key and the number are gone, nothing else.\<close>

definition released :: "kernel \<Rightarrow> int \<Rightarrow> nat \<Rightarrow> bitmask \<Rightarrow> tag_table_entry hashmap \<Rightarrow> bool" where
  "released k key i bm t \<longleftrightarrow> bm_wf bm \<and> bm_cap bm = 256 \<and> tag_table_ok t \<and>
     bm_used bm = bm_used (k_tag_bitmask k) - {i} \<and>
     tag_table_map t = (if key = 0 then tag_table_map (k_tag_table k)
       else (tag_table_map (k_tag_table k))(word_of_int key := None)) \<and>
     registry_ok te_tag_key (bm_used bm) (tag_table_map t)"

lemma clear_tag_common_result:
  assumes reg: "reg_ok k" and link: "linked k key i" and lock: "k_common_lock k = read_locked 0"
  obtains g where "clear_tag_common key (int i) k = Some (- EINTR, k\<lparr>k_signal := g\<rparr>)"
      "False \<in> set (k_signal k)"
  | g bm t where "clear_tag_common key (int i) k =
      Some (0, k\<lparr>k_signal := g, k_tag_table := t, k_tag_bitmask := bm\<rparr>)" "released k key i bm t"
proof -
  obtain ok g where g: "next_outcome (k_signal k) = (ok, g)" by force
  note sig = next_outcome_False [OF g]
  note R = reg_okD [OF reg]
  show thesis
  proof (cases ok)
    case False
    then have "clear_tag_common key (int i) k = Some (- EINTR, k\<lparr>k_signal := g\<rparr>)"
      using g by (simp add: clear_tag_common_def interruptible_eq)
    with that(1) sig False show thesis by blast
  next
    case True
    show thesis
    proof (cases "key = 0")
      case key: True
      have used: "i \<in> bm_used (k_tag_bitmask k)" using link by (simp add: linked_def)
      obtain bm where bm: "clear_number (k_tag_bitmask k) (int i) = Some (1, bm)" "bm_wf bm"
          "bm_used bm = bm_used (k_tag_bitmask k) - {i}" "bm_cap bm = bm_cap (k_tag_bitmask k)"
        using bm.give_used [OF R(1) used] by blast
      have "registry_ok te_tag_key (bm_used bm) (tag_table_map (k_tag_table k))"
        unfolding bm(3) using link key by (intro registry_ok_drop [OF R(5)]) (auto simp: linked_def)
      then have "released k key i bm (k_tag_table k)"
        using bm R key by (simp add: released_def)
      moreover have "clear_tag_common key (int i) k =
          Some (0, k\<lparr>k_signal := g, k_tag_table := k_tag_table k, k_tag_bitmask := bm\<rparr>)"
        using g True key bm(1) lock
        by (simp add: clear_tag_common_def interruptible_eq common_lock_op_def IPC_PRIVATE_def
            set_bitmask_def)
      ultimately show thesis using that(2) by blast
    next
      case key: False
      let ?e = "Tag_Entry (word_of_int key) 0" and ?x = "Tag_Entry (word_of_int key) (int i)"
      have x: "tag_table_map (k_tag_table k) (te_key ?e) = Some ?x" using link key by (simp add: linked_def)
      obtain t bm where t: "hashmap_delete (k_tag_table k) ?e (k_alloc k) = Some (Some ?x, t, k_alloc k)"
          "hm_fixed te_key t" "tag_table_map t = (tag_table_map (k_tag_table k))(te_key ?e := None)"
          "unat (hm_growat t) = unat (hm_growat (k_tag_table k))"
        and bm: "clear_number (k_tag_bitmask k) (int i) = Some (1, bm)" "bm_wf bm"
          "bm_used bm = bm_used (k_tag_bitmask k) - {i}" "bm_cap bm = bm_cap (k_tag_bitmask k)"
          "registry_ok te_tag_key (bm_used bm) (tag_table_map t)"
        using reg.unregister [OF R(1,3,5) x, of i "k_alloc k"] by auto
      have get: "hashmap_get (k_tag_table k) ?e = Some (Some ?x)"
        using hm.get_abs [OF R(3), of ?e] x by simp
      have "tag_table_ok t"
        by (rule tag_table_okI [OF t(2) _ R(4)]) (use t(4) in \<open>simp add: word_unat_eq_iff\<close>)
      then have "released k key i bm t" using bm R t key by (simp add: released_def)
      moreover have "clear_tag_common key (int i) k =
          Some (0, k\<lparr>k_signal := g, k_tag_table := t, k_tag_bitmask := bm\<rparr>)"
        using g True key bm(1) t(1) get lock
        by (simp add: clear_tag_common_def interruptible_eq common_lock_op_def IPC_PRIVATE_def
            set_bitmask_def)
      ultimately show thesis using that(2) by blast
    qed
  qed
qed

end
