(* ===== verification/Tag_Levels.thy ===== *)
theory Tag_Levels
  imports Tag_Common
begin

text \<open>
  Whole arrays of levels: \<open>add_tag_level\<close> allocates a block of objects, or stops in the middle when
  memory runs out; \<open>clear_tag_level\<close> frees every object of an array.
\<close>

section \<open>Allocation\<close>

text \<open>The state with \<open>m\<close> new levels in a row, the first one for position \<open>i\<close>.\<close>

definition with_levels :: "nat \<Rightarrow> nat \<Rightarrow> kernel \<Rightarrow> kernel" where
  "with_levels i m s = s\<lparr>k_next := k_next s + m, k_level_heap := (\<lambda>a.
     if k_next s \<le> a \<and> a < k_next s + m then Some (fresh_level (i + (a - k_next s)) 0)
     else k_level_heap s a)\<rparr>"

lemma with_levels_0 [simp]: "with_levels i 0 s = s"
proof -
  have "(\<lambda>a. if k_next s \<le> a \<and> a < k_next s then Some (fresh_level (i + (a - k_next s)) 0)
      else k_level_heap s a) = k_level_heap s" by (intro ext) auto
  then show ?thesis by (simp add: with_levels_def)
qed

lemma with_levels_fields [simp]:
  "k_next (with_levels i m s) = k_next s + m" "k_tags (with_levels i m s) = k_tags s"
  "k_tag_heap (with_levels i m s) = k_tag_heap s" "k_alloc (with_levels i m s) = k_alloc s"
  "k_tag_table (with_levels i m s) = k_tag_table s" "k_signal (with_levels i m s) = k_signal s"
  "k_tag_bitmask (with_levels i m s) = k_tag_bitmask s"
  "k_common_lock (with_levels i m s) = k_common_lock s"
  "k_tag_lock (with_levels i m s) = k_tag_lock s"
  by (simp_all add: with_levels_def)

lemma with_levels_env [simp]:
  "(with_levels i m s)\<lparr>k_alloc := al\<rparr> = with_levels i m (s\<lparr>k_alloc := al\<rparr>)"
  "(with_levels i m s)\<lparr>k_signal := g\<rparr> = with_levels i m (s\<lparr>k_signal := g\<rparr>)"
  by (simp_all add: with_levels_def cong: if_cong)

lemma with_levels_heap:
  "k_level_heap (with_levels i m s) a = (if k_next s \<le> a \<and> a < k_next s + m
     then Some (fresh_level (i + (a - k_next s)) 0) else k_level_heap s a)"
  by (simp add: with_levels_def)

lemma with_levels_Suc:
  "with_levels (Suc i) m (s\<lparr>k_alloc := al, k_next := Suc (k_next s),
     k_level_heap := (k_level_heap s)(k_next s \<mapsto> fresh_level i 0)\<rparr>) =
   with_levels i (Suc m) (s\<lparr>k_alloc := al\<rparr>)"
proof -
  have "(i + (a - k_next s)) = Suc (i + (a - Suc (k_next s)))" if "Suc (k_next s) \<le> a" for a
    using that by simp
  then show ?thesis
    by (auto simp: with_levels_def fun_eq_iff intro!: kernel.equality)
qed

text \<open>The array: positions \<open>i .. i + m - 1\<close> point to the block.\<close>

definition levels_array :: "nat \<Rightarrow> nat \<Rightarrow> addr \<Rightarrow> addr option list \<Rightarrow> addr option list \<Rightarrow> bool" where
  "levels_array i m a ls ls' \<longleftrightarrow> length ls' = length ls \<and>
     (\<forall>j<length ls. ls' ! j = (if i \<le> j \<and> j < i + m then Some (a + (j - i)) else ls ! j))"

lemma add_tag_level_loop_result:
  assumes "i + n \<le> length ls"
  obtains r m ls' al where "add_tag_level_loop n i ls s = (r, ls', with_levels i m (s\<lparr>k_alloc := al\<rparr>))"
    "levels_array i m (k_next s) ls ls'" "m \<le> n"
    "r = 0 \<and> m = n \<or> r = - ENOMEM \<and> False \<in> set (k_alloc s)"
    "set al \<subseteq> set (k_alloc s)"
  using assms
proof (induction n arbitrary: i ls s thesis)
  case 0
  show ?case
    by (rule "0.prems"(1) [of 0 ls 0 "k_alloc s"]) (auto simp: levels_array_def)
next
  case (Suc n)
  obtain ok1 a1 where a1: "next_outcome (k_alloc s) = (ok1, a1)" by force
  obtain ok2 a2 where a2: "next_outcome a1 = (ok2, a2)" by force
  note al = next_outcome_False [OF a1] next_outcome_False [OF a2]
  show ?case
  proof (cases "ok1 \<and> ok2")
    case False
    then obtain al where "add_tag_level_loop (Suc n) i ls s =
        (- ENOMEM, ls, with_levels i 0 (s\<lparr>k_alloc := al\<rparr>))"
        "False \<in> set (k_alloc s)" "set al \<subseteq> set (k_alloc s)"
      using al a1 a2 by (cases ok1) (auto simp: create_level_eq)
    then show ?thesis
      by (intro Suc.prems(1) [of "- ENOMEM" ls 0]) (auto simp: levels_array_def)
  next
    case True
    let ?s = "s\<lparr>k_alloc := a2, k_next := Suc (k_next s),
      k_level_heap := (k_level_heap s)(k_next s \<mapsto> fresh_level i 0)\<rparr>"
    have step: "add_tag_level_loop (Suc n) i ls s =
        add_tag_level_loop n (Suc i) (ls[i := Some (k_next s)]) ?s"
      using True a1 a2 by (simp add: create_level_eq)
    have "Suc i + n \<le> length (ls[i := Some (k_next s)])" using Suc.prems(2) by simp
    then obtain r m ls' al where IH: "add_tag_level_loop n (Suc i) (ls[i := Some (k_next s)]) ?s =
          (r, ls', with_levels (Suc i) m (?s\<lparr>k_alloc := al\<rparr>))"
        "levels_array (Suc i) m (k_next ?s) (ls[i := Some (k_next s)]) ls'" "m \<le> n"
        "r = 0 \<and> m = n \<or> r = - ENOMEM \<and> False \<in> set (k_alloc ?s)"
        "set al \<subseteq> set (k_alloc ?s)"
      using Suc.IH by blast
    have "?s\<lparr>k_alloc := al\<rparr> = s\<lparr>k_alloc := al, k_next := Suc (k_next s),
      k_level_heap := (k_level_heap s)(k_next s \<mapsto> fresh_level i 0)\<rparr>" by simp
    then have state: "with_levels (Suc i) m (?s\<lparr>k_alloc := al\<rparr>) = with_levels i (Suc m) (s\<lparr>k_alloc := al\<rparr>)"
      by (simp only: with_levels_Suc)
    have "levels_array i (Suc m) (k_next s) ls ls'"
      using IH(2) Suc.prems(2) by (auto simp: levels_array_def nth_list_update)
    moreover have "add_tag_level_loop (Suc n) i ls s = (r, ls', with_levels i (Suc m) (s\<lparr>k_alloc := al\<rparr>))"
      by (simp only: step IH(1) state)
    moreover have "r = 0 \<and> Suc m = Suc n \<or> r = - ENOMEM \<and> False \<in> set (k_alloc s)"
        "set al \<subseteq> set (k_alloc s)"
      using IH(4,5) al by auto
    ultimately show ?thesis using IH(3) by (intro Suc.prems(1)) auto
  qed
qed

lemma add_tag_level_result:
  obtains r m ls al where "add_tag_level (replicate LEVELS None) s =
      (r, ls, with_levels 0 m (s\<lparr>k_alloc := al\<rparr>))"
    "length ls = LEVELS" "m \<le> LEVELS"
    "\<And>j. j < LEVELS \<Longrightarrow> ls ! j = (if j < m then Some (k_next s + j) else None)"
    "r = 0 \<and> m = LEVELS \<or> r = - ENOMEM \<and> False \<in> set (k_alloc s)"
    "set al \<subseteq> set (k_alloc s)"
  unfolding add_tag_level_def
  by (rule add_tag_level_loop_result [of 0 LEVELS "replicate LEVELS None" s])
    (auto simp: levels_array_def)

section \<open>Release\<close>

definition pointers :: "addr option list \<Rightarrow> addr set" where
  "pointers ls = {p. Some p \<in> set ls}"

lemma pointers_simps [simp]:
  "pointers [] = {}" "pointers (None # ls) = pointers ls"
  "pointers (Some p # ls) = insert p (pointers ls)"
  by (auto simp: pointers_def)

lemma clear_tag_level_eq:
  assumes "distinct (filter (\<lambda>x. x \<noteq> None) ls)" and "\<And>p. p \<in> pointers ls \<Longrightarrow> k_level_heap s p \<noteq> None"
  shows "clear_tag_level ls s = Some (s\<lparr>k_level_heap := (k_level_heap s) |` (- pointers ls)\<rparr>)"
  using assms
proof (induction ls s rule: clear_tag_level.induct)
  case (1 s)
  then show ?case by (simp add: restrict_map_def)
next
  case (2 ls s)
  then show ?case by simp
next
  case (3 lp ls s)
  let ?s = "s\<lparr>k_level_heap := (k_level_heap s)(lp := None)\<rparr>"
  obtain lv where lv: "k_level_heap s lp = Some lv" using "3.prems"(2) [of lp] by auto
  have "lp \<notin> pointers ls" using "3.prems"(1) by (auto simp: pointers_def)
  then have "k_level_heap ?s p \<noteq> None" if "p \<in> pointers ls" for p
    using "3.prems"(2) [of p] that by auto
  moreover have free: "free_level lp s = Some ?s" using lv by (simp add: free_level_def)
  ultimately have "clear_tag_level ls ?s = Some (?s\<lparr>k_level_heap := (k_level_heap ?s) |` (- pointers ls)\<rparr>)"
    by (intro "3.IH") (use "3.prems"(1) in simp_all)
  moreover have "(k_level_heap ?s) |` (- pointers ls) = (k_level_heap s) |` (- pointers (Some lp # ls))"
    by (intro ext) (simp add: restrict_map_def)
  ultimately show ?case by (simp only: free clear_tag_level.simps Option.bind.simps) simp
qed

text \<open>Freeing a block that has just been allocated gives the heap of before.\<close>

lemma clear_block:
  assumes len: "length ls = n" "m \<le> n"
    and ls: "\<And>j. j < n \<Longrightarrow> ls ! j = (if j < m then Some (k_next s + j) else None)"
    and free: "\<And>a. k_next s \<le> a \<Longrightarrow> k_level_heap s a = None"
  shows "clear_tag_level ls (with_levels 0 m s) = Some (s\<lparr>k_next := k_next s + m\<rparr>)"
proof -
  have eq: "ls = map (\<lambda>j. Some (k_next s + j)) [0..<m] @ replicate (n - m) None"
    using assms by (intro nth_equalityI) (auto simp: nth_append)
  have "distinct (filter (\<lambda>x. x \<noteq> None) ls)"
    unfolding eq by (simp add: distinct_map inj_on_def)
  moreover have ptrs: "pointers ls = {k_next s ..< k_next s + m}"
    unfolding eq pointers_def by (auto simp: image_iff Bex_def) presburger
  ultimately have "clear_tag_level ls (with_levels 0 m s) = Some ((with_levels 0 m s)\<lparr>k_level_heap :=
      (k_level_heap (with_levels 0 m s)) |` (- {k_next s ..< k_next s + m})\<rparr>)"
    by (subst clear_tag_level_eq) (auto simp: with_levels_heap)
  also have "(k_level_heap (with_levels 0 m s)) |` (- {k_next s ..< k_next s + m}) = k_level_heap s"
    using free by (auto simp: restrict_map_def with_levels_heap)
  finally show ?thesis by (simp add: with_levels_def)
qed

end
