(* ===== verification/Registry_Properties.thy ===== *)
theory Registry_Properties
  imports Tag_Table
begin

text \<open>
  The properties of the descriptor allocator, of the hash map and of the two together, each stated
  on the operations of the code.
\<close>

section \<open>Examples\<close>

text \<open>The structures the module creates, for the instances below.\<close>

lemma new_bitmask: "\<exists>bm. initialize_bitmask 256 [] = (Some bm, []) \<and> bm_wf bm \<and> bm_used bm = {} \<and>
    bm_cap bm = 256"
proof -
  obtain bm where bm: "initialize_bitmask 256 [] = (Some bm, [])"
    by (simp add: initialize_bitmask_def Let_def)
  have "(256::int) \<le> INT_MAX" by (simp add: INT_MAX_def)
  with initialize_bitmask_wf [OF bm] bm show ?thesis by (auto simp: bm_cap_def)
qed

lemma new_table: "\<exists>m. map_option fst (new_tag_table []) = Some (Some m) \<and> tag_table_ok m \<and>
    tag_table_map m = Map.empty \<and> hashmap_count m = 0"
proof -
  obtain r al' where r: "new_tag_table [] = Some (r, al')"
    "\<forall>m. r = Some m \<longrightarrow> tag_table_ok m \<and> tag_table_map m = Map.empty \<and> hashmap_count m = 0"
    "[] = ([] :: outcomes) \<longrightarrow> r \<noteq> None" by (rule new_tag_table_ok)
  then obtain m where "r = Some m" by auto
  with r show ?thesis by auto
qed

lemma tag_table_okD:
  assumes "tag_table_ok m"
  shows "hm_wf te_key m" "hm_fixed te_key m" "256 \<le> unat (hm_growat m)"
proof -
  have "256 \<le> int (unat (hm_growat m))" using assms by (simp add: tag_table_ok_def MAX_TAGS_def)
  then show "256 \<le> unat (hm_growat m)" by linarith
qed (use assms in \<open>simp_all add: tag_table_ok_def hm_fixed_def\<close>)

section \<open>The bitmask\<close>

text \<open>
  C33. Allocation of a descriptor: when every number is in use \<open>get_avail_number\<close> returns -1 and
  changes nothing; otherwise it returns the least number not in use and marks exactly that one.
\<close>

theorem bitmask_allocates_least:
  assumes "bm_wf bm"
  shows "case get_avail_number bm of (r, bm') \<Rightarrow> bm_wf bm' \<and>
    (if bm_used bm = {..<bm_cap bm} then r = - 1 \<and> bm' = bm
     else r = int (LEAST n. n \<notin> bm_used bm) \<and> r < bm_n_bits bm \<and>
          bm_used bm' = insert (nat r) (bm_used bm))"
proof (cases "bm_used bm = {..<bm_cap bm}")
  case True
  with bm.take_full [OF assms] assms show ?thesis by simp
next
  case False
  from bm.take_free [OF assms False] bm.take_least [OF assms False] bm_wf_slots(6) [OF assms] False
  show ?thesis by auto
qed

theorem bitmask_allocates_least_witness:
  "\<exists>bm. initialize_bitmask 256 [] = (Some bm, []) \<and> fst (get_avail_number bm) = 0"
proof -
  obtain bm where bm: "initialize_bitmask 256 [] = (Some bm, [])" "bm_wf bm" "bm_used bm = {}"
      "bm_cap bm = 256" using new_bitmask by blast
  have "0 \<in> {..<bm_cap bm}" using bm(4) by simp
  then have "bm_used bm \<noteq> {..<bm_cap bm}" using bm(3) by blast
  with bitmask_allocates_least [OF bm(2)] bm(1,3) show ?thesis
    by (auto simp: Least_equality split: prod.splits)
qed

text \<open>
  Release of a descriptor: a number in use is removed from the set and the result is 1, a
  number not in use gives 0 and a number beyond the capacity -1, both without a change.
\<close>

theorem bitmask_releases:
  assumes "bm_wf bm" and "0 \<le> k"
  shows "\<exists>bm'. clear_number bm k =
      Some (if bm_n_bits bm \<le> k then - 1 else if nat k \<in> bm_used bm then 1 else 0, bm') \<and>
    bm_wf bm' \<and> bm_used bm' = bm_used bm - {nat k}"
proof (cases "bm_n_bits bm \<le> k")
  case True
  then have "nat k \<notin> bm_used bm" using bm.used_cap [OF assms(1)] bm_wf_slots(6) [OF assms(1)] by auto
  with True assms(1) show ?thesis by (simp add: clear_number_too_big)
next
  case False
  then have "nat k < bm_cap bm" using bm_wf_slots(6) [OF assms(1)] assms(2) by simp
  with False bm.give_free [OF assms(1), of "nat k"] bm.give_used [OF assms(1), of "nat k"] assms
  show ?thesis by (cases "nat k \<in> bm_used bm") auto
qed

theorem bitmask_releases_witness:
  "\<exists>bm. initialize_bitmask 256 [] = (Some bm, []) \<and> clear_number bm 7 = Some (0, bm) \<and>
     clear_number bm 256 = Some (- 1, bm)"
proof -
  obtain bm where bm: "initialize_bitmask 256 [] = (Some bm, [])" "bm_wf bm" "bm_used bm = {}"
      "bm_cap bm = 256" using new_bitmask by blast
  from bm(4) have n: "bm_n_bits bm = 256" by (simp add: bm_cap_def)
  from bitmask_releases [OF bm(2), of 7] bitmask_releases [OF bm(2), of 256] bm n
    clear_number_free [OF bm(2), of 7] clear_number_too_big [of bm 256]
  show ?thesis by auto
qed

lemma bm_mask_eqI:
  assumes "length (bm_mask a) = length (bm_mask b)" and "bm_used a = bm_used b"
  shows "bm_mask a = bm_mask b"
proof (rule nth_equalityI)
  fix s
  assume s: "s < length (bm_mask a)"
  show "bm_mask a ! s = bm_mask b ! s"
  proof (rule bit_word_eqI)
    fix n
    assume "n < LENGTH(64)"
    then have n: "(64 * s + n) div 64 = s" "(64 * s + n) mod 64 = n"
        "64 * s + n < 64 * length (bm_mask a)" using s by auto
    have "64 * s + n \<in> bm_used a \<longleftrightarrow> 64 * s + n \<in> bm_used b" using assms(2) by simp
    with n assms(1) show "bit (bm_mask a ! s) n = bit (bm_mask b ! s) n"
      by (simp add: bm_used_memI)
  qed
qed (rule assms(1))

lemma alloc_release_same:
  assumes "bm_wf bm" and "bm_used bm \<noteq> {..<bm_cap bm}"
  shows "(case get_avail_number bm of (r, bm') \<Rightarrow> clear_number bm' r) = Some (1, bm)"
proof -
  from get_avail_number_result [OF assms(1)] assms(2) obtain n bm1 where
    r: "get_avail_number bm = (int n, bm1)" and n: "n \<notin> bm_used bm" "bm_wf bm1"
      "bm_used bm1 = insert n (bm_used bm)" "bm1 = bm\<lparr>bm_mask := bm_mask bm1\<rparr>"
    by (auto simp: avail_result_def split: prod.splits)
  obtain bm2 where bm2: "clear_number bm1 (int n) = Some (1, bm2)" "bm_wf bm2"
      "bm_used bm2 = bm_used bm1 - {n}" "bm2 = bm1\<lparr>bm_mask := bm_mask bm2\<rparr>"
    using clear_number_used [OF n(2), of n] n(3) by blast
  have eq: "bm2 = bm\<lparr>bm_mask := bm_mask bm2\<rparr>" by (subst bm2(4), subst n(4)) simp
  then have "bm_slots bm2 = bm_slots bm" by (metis bitmask.ext_inject bitmask.surjective bitmask.update_convs(1))
  then have "length (bm_mask bm2) = length (bm_mask bm)"
    using bm_wf_slots(2) [OF bm2(2)] bm_wf_slots(2) [OF assms(1)] by simp
  moreover have "bm_used bm2 = bm_used bm" using bm2(3) n(1,3) by simp
  ultimately have "bm_mask bm2 = bm_mask bm" by (rule bm_mask_eqI)
  with eq have "bm2 = bm" by simp
  with r bm2(1) show ?thesis by simp
qed

text \<open>
  Allocating and releasing at once gives back the very same structure, word for word.
\<close>

theorem bitmask_allocate_release:
  assumes "bm_wf bm" and "bm_used bm \<noteq> {..<bm_cap bm}"
  shows "(case get_avail_number bm of (r, bm') \<Rightarrow> clear_number bm' r) = Some (1, bm)"
  by (rule alloc_release_same [OF assms])

theorem bitmask_allocate_release_witness:
  "\<exists>bm. initialize_bitmask 256 [] = (Some bm, []) \<and>
     (case get_avail_number bm of (r, bm') \<Rightarrow> clear_number bm' r) = Some (1, bm)"
proof -
  obtain bm where bm: "initialize_bitmask 256 [] = (Some bm, [])" "bm_wf bm" "bm_used bm = {}"
      "bm_cap bm = 256" using new_bitmask by blast
  have "0 \<in> {..<bm_cap bm}" using bm(4) by simp
  then have "bm_used bm \<noteq> {..<bm_cap bm}" using bm(3) by blast
  from bm(1) bitmask_allocate_release [OF bm(2) this] show ?thesis by blast
qed

section \<open>The hash map\<close>

text \<open>
  C34. \<open>hashmap_get\<close> returns on every well-formed map, with the entry the map holds for the key
  and a null pointer when it holds none.
\<close>

theorem hashmap_get_finds:
  assumes "hm_wf key m"
  shows "hashmap_get m x = Some (hm_map key m (key x))"
  by (rule hashmap_get_correct [OF assms])

theorem hashmap_get_finds_witness:
  "\<exists>m. map_option fst (new_tag_table []) = Some (Some m) \<and> hashmap_get m (Tag_Entry 5 0) = Some None"
proof -
  obtain m where m: "map_option fst (new_tag_table []) = Some (Some m)" "tag_table_ok m"
      "tag_table_map m = Map.empty" using new_table by blast
  from hashmap_get_finds [OF tag_table_okD(1) [OF m(2)], of "Tag_Entry 5 0"] m(1,3) show ?thesis
    by auto
qed

text \<open>
  C35. \<open>hashmap_set\<close> returns on every well-formed map of at most 2 ^ 15 buckets and keeps it well
  formed. If the memory for a larger array is refused the flag is set, the result is a null
  pointer and the contents are the old ones; otherwise the result is the entry replaced and the
  contents are updated at the key and nowhere else.
\<close>

theorem hashmap_set_updates:
  assumes "hm_wf key m" and "hm_count m = hm_growat m \<Longrightarrow> hm_nbuckets m < 2 ^ 15"
  shows "\<exists>old m' al'. hashmap_set m x al = Some (old, m', al') \<and> hm_wf key m' \<and>
    (if hashmap_oom m' then old = None \<and> hm_map key m' = hm_map key m \<and> hm_count m = hm_growat m
     else old = hm_map key m (key x) \<and> hm_map key m' = (hm_map key m)(key x \<mapsto> x))"
  unfolding hashmap_oom_def by (rule hashmap_set_correct [OF assms]) auto

theorem hashmap_set_updates_witness:
  "\<exists>m old m' al'. map_option fst (new_tag_table []) = Some (Some m) \<and>
     hashmap_set m (Tag_Entry 5 0) [] = Some (old, m', al') \<and> old = None"
proof -
  obtain m where m: "map_option fst (new_tag_table []) = Some (Some m)" "tag_table_ok m"
      "tag_table_map m = Map.empty" "hashmap_count m = 0" using new_table by blast
  have "hm_count m \<noteq> hm_growat m"
    using m(4) tag_table_okD(3) [OF m(2)] by (auto simp: hashmap_count_def)
  with hashmap_set_updates [OF tag_table_okD(1) [OF m(2)], of "Tag_Entry 5 0" "[]"] m(1,3)
  show ?thesis by (auto split: if_splits)
qed

text \<open>
  C36. \<open>hashmap_delete\<close> returns on every well-formed map, with the entry it removed; it removes the
  key and no other, also when the array shrinks or the memory for a smaller one is refused.
\<close>

theorem hashmap_delete_removes:
  assumes "hm_wf key m"
  shows "\<exists>m' al'. hashmap_delete m x al = Some (hm_map key m (key x), m', al') \<and> hm_wf key m' \<and>
    hm_map key m' = (hm_map key m)(key x := None)"
  by (rule hashmap_delete_correct [OF assms]) auto

theorem hashmap_delete_removes_witness:
  "\<exists>m m' al'. map_option fst (new_tag_table []) = Some (Some m) \<and>
     hashmap_delete m (Tag_Entry 5 0) [] = Some (None, m', al')"
proof -
  obtain m where m: "map_option fst (new_tag_table []) = Some (Some m)" "tag_table_ok m"
      "tag_table_map m = Map.empty" using new_table by blast
  from hashmap_delete_removes [OF tag_table_okD(1) [OF m(2)], of "Tag_Entry 5 0" "[]"] m(1,3)
  show ?thesis by auto
qed

text \<open>
  Creation with any capacity of at most 2 ^ 15 returns, and unless memory is refused the map is
  well formed, empty and at least as large as asked for, whatever keyed hash and comparison the
  caller gives.
\<close>

theorem hashmap_new_empty:
  assumes "unat w \<le> 2 ^ 15" and "\<And>x y. cmp x y = 0 \<longleftrightarrow> key x = key y"
    and "\<And>x y. key x = key y \<Longrightarrow> hash x s0 s1 = hash y s0 s1"
  shows "\<exists>r al'. hashmap_new es w s0 s1 hash cmp al = Some (r, al') \<and> (al = [] \<longrightarrow> r \<noteq> None) \<and>
    (\<forall>m. r = Some m \<longrightarrow> hm_wf key m \<and> hm_map key m = Map.empty \<and> w \<le> hm_cap m)"
proof (rule hashmap_new_wf [of w cmp key hash s0 s1 es al])
  fix r al'
  assume "hashmap_new es w s0 s1 hash cmp al = Some (r, al')"
    "\<forall>m. r = Some m \<longrightarrow> hm_wf key m \<and> hm_map key m = Map.empty \<and> hm_count m = 0 \<and> w \<le> hm_cap m \<and>
       hm_hash m = hash \<and> hm_compare m = cmp \<and> hm_seed0 m = s0 \<and> hm_seed1 m = s1"
    "al = [] \<longrightarrow> r \<noteq> None"
  then show ?thesis by blast
qed (use assms in blast)+

theorem hashmap_new_empty_witness:
  "\<exists>m al'. hashmap_new 8 512 SEED0 SEED1 tag_hash tag_compare [] = Some (Some m, al') \<and>
     hm_map te_key m = Map.empty"
proof -
  have "unat (512 :: u64) \<le> 2 ^ 15" by simp
  then obtain r al' where "hashmap_new 8 512 SEED0 SEED1 tag_hash tag_compare [] = Some (r, al')"
      "r \<noteq> None" "\<forall>m. r = Some m \<longrightarrow> hm_map te_key m = Map.empty"
    using hashmap_new_empty [of 512 tag_compare te_key tag_hash SEED0 SEED1 8 "[]"]
      tag_compare_0_iff tag_hash_def by auto
  then show ?thesis by auto
qed

text \<open>
  C37. The views of the contents agree: \<open>hashmap_count\<close> is the number of keys, \<open>hashmap_probe\<close> reaches
  exactly the entries, and \<open>hashmap_scan\<close> calls its function once on each entry, in one fixed
  order, as long as the calls return true.
\<close>

theorem hashmap_views_agree:
  assumes "hm_wf key m"
  shows "\<exists>xs. distinct xs \<and> set xs = ran (hm_map key m) \<and>
    (\<forall>iter u. hashmap_scan m iter u = scan_items iter xs u) \<and>
    unat (hashmap_count m) = length xs \<and> length xs = card (dom (hm_map key m)) \<and>
    (\<forall>x. (\<exists>p. hashmap_probe m p = Some x) \<longleftrightarrow> x \<in> set xs)"
proof (intro exI [of _ "hm_items (hm_buckets m)"] conjI allI)
  show "hashmap_scan m iter u = scan_items iter (hm_items (hm_buckets m)) u" for iter and u :: 'c
    by (rule hashmap_scan_items [OF assms])
qed (use hm_wf_items [OF assms] hashmap_count_card [OF assms] hashmap_probe_items [OF assms] in auto)

theorem hashmap_views_agree_witness:
  "\<exists>m. map_option fst (new_tag_table []) = Some (Some m) \<and> hashmap_count m = 0 \<and>
     hashmap_probe m 3 = None"
proof -
  obtain m where m: "map_option fst (new_tag_table []) = Some (Some m)" "tag_table_ok m"
      "tag_table_map m = Map.empty" "hashmap_count m = 0" using new_table by blast
  have "hashmap_probe m 3 \<noteq> Some x" for x
    using hashmap_views_agree [OF tag_table_okD(1) [OF m(2)]] m(3) by auto
  with m(1,4) show ?thesis by auto
qed

section \<open>The registry\<close>

text \<open>
  C38. The descriptor pool guards the hash map: while entries of the table carry distinct descriptors
  in use, a free descriptor means that the insertion that follows needs no memory and succeeds, and
  undoing the registration restores the descriptors in use and the contents of the table.
\<close>

theorem registration_never_fails:
  assumes "bm_wf bm" "tag_table_ok m" "registry_ok te_tag_key (bm_used bm) (tag_table_map m)"
    and "bm_cap bm = 256" "get_avail_number bm = (int n, bm1)" "tag_table_map m (te_key x) = None"
    and "te_tag_key x = int n"
  shows "\<exists>m1 m2 bm2. hashmap_set m x al = Some (None, m1, al) \<and> \<not> hashmap_oom m1 \<and>
    registry_ok te_tag_key (bm_used bm1) (tag_table_map m1) \<and>
    hashmap_delete m1 x al = Some (Some x, m2, al) \<and> clear_number bm1 (int n) = Some (1, bm2) \<and>
    bm_used bm2 = bm_used bm \<and> tag_table_map m2 = tag_table_map m"
proof -
  note ok = tag_table_okD [OF assms(2)]
  have lim: "bm_cap bm \<le> unat (hm_growat m)" using ok(3) assms(4) by simp
  obtain m1 where "hashmap_set m x al = Some (None, m1, al)" "\<not> hashmap_oom m1"
      "registry_ok te_tag_key (bm_used bm1) (tag_table_map m1)"
    using reg.register [OF assms(1) ok(2) assms(3) lim assms(5-7)] by blast
  moreover obtain m1' m2 bm2 where "hashmap_set m x al = Some (None, m1', al)"
      "hashmap_delete m1' x al = Some (Some x, m2, al)" "clear_number bm1 (int n) = Some (1, bm2)"
      "bm_used bm2 = bm_used bm" "tag_table_map m2 = tag_table_map m"
    using reg.register_unregister [OF assms(1) ok(2) assms(3) lim assms(5-7)] by blast
  ultimately show ?thesis by auto
qed

theorem registration_never_fails_witness:
  "\<exists>m bm bm1 m1. map_option fst (new_tag_table []) = Some (Some m) \<and>
     initialize_bitmask 256 [] = (Some bm, []) \<and> get_avail_number bm = (0, bm1) \<and>
     hashmap_set m (Tag_Entry 5 0) [] = Some (None, m1, [])"
proof -
  obtain m where m: "map_option fst (new_tag_table []) = Some (Some m)" "tag_table_ok m"
      "tag_table_map m = Map.empty" using new_table by blast
  obtain bm where bm: "initialize_bitmask 256 [] = (Some bm, [])" "bm_wf bm" "bm_used bm = {}"
      "bm_cap bm = 256" using new_bitmask by blast
  have "0 \<in> {..<bm_cap bm}" using bm(4) by simp
  then have "bm_used bm \<noteq> {..<bm_cap bm}" using bm(3) by blast
  with bm.take_free [OF bm(2)] bm(3) obtain bm1 where bm1: "get_avail_number bm = (int 0, bm1)"
    by (auto simp: subset_empty lessThan_empty_iff)
  have "registry_ok te_tag_key (bm_used bm) (tag_table_map m)" by (simp add: m(3))
  from registration_never_fails [OF bm(2) m(2) this bm(4) bm1, of "Tag_Entry 5 0" "[]"] m(1,3) bm(1) bm1
  show ?thesis by auto
qed

end
