(* ===== verification/Tag_Get.thy ===== *)
theory Tag_Get
  imports Tag_Levels Registry_Properties
begin

text \<open>
  \<open>tag_get\<close>: a creation registers the least free descriptor, allocates 32 levels and an entry and
  publishes it, or undoes what it did; opening looks a key up. Both keep the invariant.
\<close>

section \<open>Registration\<close>

lemma reg_cong:
  assumes "k_tag_table k' = k_tag_table k" and "k_tag_bitmask k' = k_tag_bitmask k"
  shows "reg_ok k' = reg_ok k" "linked k' = linked k" "released k' = released k"
  by (simp add: assms reg_ok_def, (intro ext; simp add: assms linked_def released_def)+)

text \<open>The descriptor \<open>i\<close>, free before, is in use for the key.\<close>

definition registered :: "kernel \<Rightarrow> int \<Rightarrow> nat \<Rightarrow> bitmask \<Rightarrow> tag_table_entry hashmap \<Rightarrow> bool" where
  "registered k key i bm t \<longleftrightarrow> bm_wf bm \<and> bm_cap bm = 256 \<and> tag_table_ok t \<and> i < 256 \<and>
     i \<notin> bm_used (k_tag_bitmask k) \<and> bm_used bm = insert i (bm_used (k_tag_bitmask k)) \<and>
     (key \<noteq> 0 \<longrightarrow> tag_table_map (k_tag_table k) (word_of_int key) = None) \<and>
     tag_table_map t = (if key = 0 then tag_table_map (k_tag_table k)
       else (tag_table_map (k_tag_table k))(word_of_int key \<mapsto> Tag_Entry (word_of_int key) (int i))) \<and>
     registry_ok te_tag_key (bm_used bm) (tag_table_map t)"

lemma registered_reg_ok:
  assumes "registered k key i bm t" and "reg_ok k"
  shows "reg_ok (k\<lparr>k_tag_table := t, k_tag_bitmask := bm\<rparr>)"
    "linked (k\<lparr>k_tag_table := t, k_tag_bitmask := bm\<rparr>) key i"
proof -
  have f: "k_tag_table (k\<lparr>k_tag_table := t, k_tag_bitmask := bm\<rparr>) = t"
      "k_tag_bitmask (k\<lparr>k_tag_table := t, k_tag_bitmask := bm\<rparr>) = bm" by simp_all
  show "reg_ok (k\<lparr>k_tag_table := t, k_tag_bitmask := bm\<rparr>)"
    using assms(1) unfolding reg_ok_def registered_def f by blast
  have "te_tag_key e \<noteq> int i" if "tag_table_map (k_tag_table k) w = Some e" for w e
    using registry_okD(2) [OF reg_okD(5) [OF assms(2)] that] assms(1) by (auto simp: registered_def)
  with assms(1) show "linked (k\<lparr>k_tag_table := t, k_tag_bitmask := bm\<rparr>) key i"
    by (fastforce simp: linked_def registered_def split: if_splits)
qed

text \<open>Undoing a registration gives back the numbers and the entries of before.\<close>

lemma released_registered:
  assumes "registered k key i bm t" and "released (k\<lparr>k_tag_table := t, k_tag_bitmask := bm\<rparr>) key i bm' t'"
  shows "bm_used bm' = bm_used (k_tag_bitmask k)"
    "tag_table_map t' = tag_table_map (k_tag_table k)"
  using assms by (auto simp: registered_def released_def)

lemma tag_get_register_result:
  assumes reg: "reg_ok k" and take: "get_avail_number (k_tag_bitmask k) = (int i, bm)" "i < 256"
    and key: "key \<noteq> 0" and lock: "k_common_lock s = \<lparr>rw_readers = 0, rw_writer = True\<rparr>"
    and s: "k_tag_table s = k_tag_table k" "k_tag_bitmask s = bm"
  shows "if tag_table_map (k_tag_table k) (word_of_int key) \<noteq> None
    then tag_get_register key (int i) s =
      Some (- EBUSY, s\<lparr>k_tag_bitmask := k_tag_bitmask k, k_common_lock := read_locked 0\<rparr>)
    else \<exists>t. tag_get_register key (int i) s = Some (0, s\<lparr>k_tag_table := t\<rparr>) \<and> registered k key i bm t"
proof -
  note R = reg_okD [OF reg]
  let ?e = "Tag_Entry (word_of_int key) 0" and ?x = "Tag_Entry (word_of_int key) (int i)"
  have get: "hashmap_get (k_tag_table k) ?e = Some (tag_table_map (k_tag_table k) (word_of_int key))"
    using hm.get_abs [OF R(3), of ?e] by simp
  have used: "bm_used (k_tag_bitmask k) \<noteq> {..<bm_cap (k_tag_bitmask k)}"
    using bm.take_fails_iff [OF R(1)] take(1) by simp
  have clear: "clear_number bm (int i) = Some (1, k_tag_bitmask k)"
    using alloc_release_same [OF R(1) used] take(1) by simp
  show ?thesis
  proof (cases "tag_table_map (k_tag_table k) (word_of_int key)")
    case (Some e)
    with get clear lock s show ?thesis
      by (simp add: tag_get_register_def set_bitmask_def common_lock_op_def)
  next
    case None
    obtain t where t: "hashmap_set (k_tag_table k) ?x (k_alloc s) = Some (None, t, k_alloc s)"
        "hm_fixed te_key t" "\<not> hashmap_oom t"
        "tag_table_map t = (tag_table_map (k_tag_table k))(te_key ?x \<mapsto> ?x)"
        "unat (hm_growat t) = unat (hm_growat (k_tag_table k))"
        "registry_ok te_tag_key (bm_used bm) (tag_table_map t)"
      using reg.register [OF R(1,3,5) _ take(1), of ?x "k_alloc s"] R(2,6) None by auto
    have "tag_table_ok t"
      by (rule tag_table_okI [OF t(2) _ R(4)]) (use t(5) in \<open>simp add: word_unat_eq_iff\<close>)
    moreover have "bm_wf bm" "bm_cap bm = 256" "i \<notin> bm_used (k_tag_bitmask k)"
        "bm_used bm = insert i (bm_used (k_tag_bitmask k))"
      using bm.take_free [OF R(1) used] take(1) R(2) by auto
    ultimately have "registered k key i bm t"
      using t take(2) key None by (simp add: registered_def)
    with get t(1,3) s None show ?thesis
      by (auto simp: tag_get_register_def intro!: exI [of _ t])
  qed
qed

lemma registered_private:
  assumes "reg_ok k" and "get_avail_number (k_tag_bitmask k) = (int i, bm)" "i < 256"
  shows "registered k 0 i bm (k_tag_table k)"
proof -
  note R = reg_okD [OF assms(1)]
  have used: "bm_used (k_tag_bitmask k) \<noteq> {..<bm_cap (k_tag_bitmask k)}"
    using bm.take_fails_iff [OF R(1)] assms(2) by simp
  then have u: "bm_wf bm" "bm_cap bm = 256" "i \<notin> bm_used (k_tag_bitmask k)"
      "bm_used bm = insert i (bm_used (k_tag_bitmask k))"
    using bm.take_free [OF R(1) used] assms(2) R(2) by auto
  moreover have "registry_ok te_tag_key (bm_used bm) (tag_table_map (k_tag_table k))"
    unfolding u(4) by (rule registry_ok_mono [OF R(5)]) auto
  ultimately show ?thesis using assms(3) R(4) by (simp add: registered_def)
qed

section \<open>Building the tag\<close>

definition new_tag :: "int \<Rightarrow> nat \<Rightarrow> int \<Rightarrow> int \<Rightarrow> addr \<Rightarrow> tag" where
  "new_tag key i permission euid a = \<lparr>tg_key = key, tg_tag_key = int i, tg_ready = 0,
     tg_permission = permission, tg_euid = euid, tg_tag_level = map (\<lambda>j. Some (a + j)) [0..<LEVELS],
     tg_waiting = 0, tg_level_lock = replicate LEVELS init_rwsem\<rparr>"

definition with_tag :: "int \<Rightarrow> nat \<Rightarrow> int \<Rightarrow> int \<Rightarrow> kernel \<Rightarrow> kernel" where
  "with_tag key i permission euid k = (with_levels 0 LEVELS k)\<lparr>
     k_next := Suc (k_next k + LEVELS),
     k_tag_heap := (k_tag_heap k)(k_next k + LEVELS \<mapsto> new_tag key i permission euid (k_next k)),
     k_tags := (k_tags k)[i := Some (k_next k + LEVELS)]\<rparr>"

lemma tag_get_undo_result:
  assumes "reg_ok s" "linked s key i" "k_common_lock s = read_locked 0"
  obtains g where "tag_get_undo key (int i) s = Some (- EINTR, s\<lparr>k_signal := g\<rparr>)"
      "False \<in> set (k_signal s)"
  | g bm t where "tag_get_undo key (int i) s =
      Some (- ENOMEM, s\<lparr>k_signal := g, k_tag_table := t, k_tag_bitmask := bm\<rparr>)" "released s key i bm t"
  using assms
proof (rule clear_tag_common_result)
  fix g assume "clear_tag_common key (int i) s = Some (- EINTR, s\<lparr>k_signal := g\<rparr>)" "False \<in> set (k_signal s)"
  then show thesis by (intro that(1)) (simp_all add: tag_get_undo_def EINTR_def)
next
  fix g bm t assume "clear_tag_common key (int i) s =
      Some (0, s\<lparr>k_signal := g, k_tag_table := t, k_tag_bitmask := bm\<rparr>)" "released s key i bm t"
  then show thesis by (intro that(2)) (simp_all add: tag_get_undo_def)
qed

text \<open>The ways a failed build ends, from the state \<open>s\<close> in which the key was registered.\<close>

inductive build_undone :: "kernel \<Rightarrow> int \<Rightarrow> nat \<Rightarrow> int \<Rightarrow> kernel \<Rightarrow> bool" for s key i where
  leaked: "False \<in> set (k_alloc s) \<Longrightarrow> False \<in> set (k_signal s) \<Longrightarrow>
    build_undone s key i (- EINTR) (s\<lparr>k_alloc := al, k_next := k_next s + n, k_signal := g\<rparr>)"
| restored: "False \<in> set (k_alloc s) \<Longrightarrow> released s key i bm t \<Longrightarrow>
    build_undone s key i (- ENOMEM) (s\<lparr>k_alloc := al, k_next := k_next s + n, k_signal := g,
      k_tag_table := t, k_tag_bitmask := bm\<rparr>)"

lemma tag_get_undo_undone:
  assumes "reg_ok s" "linked s key i" "k_common_lock s = read_locked 0" "False \<in> set (k_alloc s)"
  obtains r s' where "tag_get_undo key (int i) (s\<lparr>k_alloc := al, k_next := k_next s + n\<rparr>) = Some (r, s')"
    "build_undone s key i r s'"
proof -
  let ?s = "s\<lparr>k_alloc := al, k_next := k_next s + n\<rparr>"
  have "reg_ok ?s" "linked ?s key i" "k_common_lock ?s = read_locked 0"
    using assms(1-3) by (simp_all add: reg_ok_def linked_def)
  then show thesis
  proof (cases rule: tag_get_undo_result)
    case (1 g)
    with assms(4) show thesis by (intro that [OF 1(1)] build_undone.leaked) simp_all
  next
    case (2 g bm t)
    then have "released s key i bm t" using reg_cong(3) [of ?s s] by simp
    with assms(4) show thesis by (intro that [OF 2(1)] build_undone.restored)
  qed
qed

lemma tag_get_build_result:
  assumes s: "reg_ok s" "linked s key i" "k_common_lock s = read_locked 0"
    and free: "\<And>a. k_next s \<le> a \<Longrightarrow> k_level_heap s a = None"
  obtains (made) al where "tag_get_build key (int i) permission euid s =
      Some (int i, with_tag key i permission euid (s\<lparr>k_alloc := al\<rparr>))"
  | (undone) r s' where "tag_get_build key (int i) permission euid s = Some (r, s')"
      "build_undone s key i r s'"
proof -
  obtain ok1 a1 where a1: "next_outcome (k_alloc s) = (ok1, a1)" by force
  note al1 = next_outcome_False [OF a1]
  let ?s1 = "s\<lparr>k_alloc := a1\<rparr>"
  obtain r m ls a2 where add: "add_tag_level (replicate LEVELS None) ?s1 =
        (r, ls, with_levels 0 m (?s1\<lparr>k_alloc := a2\<rparr>))"
      "length ls = LEVELS" "m \<le> LEVELS"
      "\<And>j. j < LEVELS \<Longrightarrow> ls ! j = (if j < m then Some (k_next ?s1 + j) else None)"
      "r = 0 \<and> m = LEVELS \<or> r = - ENOMEM \<and> False \<in> set (k_alloc ?s1)"
      "set a2 \<subseteq> set (k_alloc ?s1)"
    by (rule add_tag_level_result [of ?s1]) blast
  obtain ok3 a3 where a3: "next_outcome a2 = (ok3, a3)" by force
  note al3 = next_outcome_False [OF a3]
  have clear: "clear_tag_level ls (with_levels 0 m (s\<lparr>k_alloc := al\<rparr>)) =
      Some (s\<lparr>k_alloc := al, k_next := k_next s + m\<rparr>)" for al
    using clear_block [of ls LEVELS m "s\<lparr>k_alloc := al\<rparr>"] add(2-4) free by simp
  note undo = tag_get_undo_undone [OF s]
  consider "\<not> ok1" | "ok1" "r \<noteq> 0" | "ok1" "r = 0" "\<not> ok3" | "ok1" "r = 0" "ok3" by blast
  then show thesis
  proof cases
    case 1
    then have "False \<in> set (k_alloc s)" using al1 by blast
    then obtain r' s' where u: "tag_get_undo key (int i) (s\<lparr>k_alloc := a1, k_next := k_next s + 0\<rparr>) =
        Some (r', s')" "build_undone s key i r' s'" by (rule undo)
    show thesis
      by (rule undone [OF _ u(2)])
        (use 1 u(1) in \<open>simp add: tag_get_build_def kzalloc_def a1\<close>)
  next
    case 2
    then have "False \<in> set (k_alloc s)" using al1 add(5) by auto
    then obtain r' s' where u: "tag_get_undo key (int i) (s\<lparr>k_alloc := a2, k_next := k_next s + m\<rparr>) =
        Some (r', s')" "build_undone s key i r' s'" by (rule undo)
    show thesis
      by (rule undone [OF _ u(2)])
        (use 2 u(1) in \<open>simp add: tag_get_build_def kzalloc_def a1 add(1) clear\<close>)
  next
    case 3
    then have "False \<in> set (k_alloc s)" using al1 al3 add(6) by auto
    then obtain r' s' where u: "tag_get_undo key (int i) (s\<lparr>k_alloc := a3, k_next := k_next s + m\<rparr>) =
        Some (r', s')" "build_undone s key i r' s'" by (rule undo)
    show thesis
      by (rule undone [OF _ u(2)])
        (use 3 u(1) in \<open>simp add: tag_get_build_def kzalloc_def a1 add(1) a3 clear\<close>)
  next
    case 4
    have m: "m = LEVELS" using 4 add(5) by (auto simp: ENOMEM_def)
    have "ls = map (\<lambda>j. Some (k_next s + j)) [0..<LEVELS]"
      using add(2,4) m by (intro nth_equalityI) simp_all
    then show thesis
      using 4 by (intro made [of a3])
        (simp add: tag_get_build_def kzalloc_def a1 add(1) a3 m with_tag_def new_tag_def Let_def)
  qed
qed

section \<open>Creation\<close>

text \<open>The code of a creation that is not interrupted and has memory; \<open>Inr i\<close>: the descriptor \<open>i\<close>.\<close>

definition create_code :: "kernel \<Rightarrow> int \<Rightarrow> int \<Rightarrow> int + nat" where
  "create_code k key permission =
     (if permission \<noteq> TAG_PERM_USR \<and> permission \<noteq> TAG_PERM_ALL then Inl (- EINVAL)
      else if unat (hashmap_count (k_tag_table k)) \<ge> 256 then Inl (- EMAXTAG)
      else case List.find (\<lambda>i. i \<notin> bm_used (k_tag_bitmask k)) [0..<256] of
        None \<Rightarrow> Inl (- EPROTO)
      | Some i \<Rightarrow>
          if key \<noteq> 0 \<and> tag_table_map (k_tag_table k) (word_of_int key) \<noteq> None then Inl (- EBUSY)
          else Inr i)"

inductive create_result :: "kernel \<Rightarrow> int \<Rightarrow> int \<Rightarrow> int \<Rightarrow> int \<Rightarrow> kernel \<Rightarrow> bool"
  for k key permission euid where
  refused: "create_code k key permission = Inl r \<Longrightarrow> env_eq k k' \<Longrightarrow>
    create_result k key permission euid r k'"
| interrupted: "False \<in> set (k_signal k) \<Longrightarrow> env_eq k k' \<Longrightarrow>
    create_result k key permission euid (- EINTR) k'"
| created: "create_code k key permission = Inr i \<Longrightarrow> registered k key i bm t \<Longrightarrow>
    s = k\<lparr>k_signal := g, k_alloc := al, k_tag_table := t, k_tag_bitmask := bm\<rparr> \<Longrightarrow>
    set g \<subseteq> set (k_signal k) \<Longrightarrow> create_result k key permission euid (int i) (with_tag key i permission euid s)"
| failed: "create_code k key permission = Inr i \<Longrightarrow> registered k key i bm t \<Longrightarrow>
    s = k\<lparr>k_signal := g, k_tag_table := t, k_tag_bitmask := bm\<rparr> \<Longrightarrow> set g \<subseteq> set (k_signal k) \<Longrightarrow>
    build_undone s key i r k' \<Longrightarrow> create_result k key permission euid r k'"

lemma find_least:
  assumes "n < m" and "\<not> P n" and "{..<n} \<subseteq> {i. P i}"
  shows "List.find (\<lambda>i. \<not> P i) [0..<m] = Some n"
proof -
  have "[0..<m] = [0..<n] @ n # [Suc n..<m]"
    using assms(1) by (metis append_Cons append_Nil le0 less_or_eq_imp_le upt_add_eq_append upt_conv_Cons
        le_add_diff_inverse)
  moreover have "List.find (\<lambda>i. \<not> P i) xs = None \<Longrightarrow> List.find (\<lambda>i. \<not> P i) (xs @ ys) =
      List.find (\<lambda>i. \<not> P i) ys" for xs ys
    by (induction xs) (auto split: if_splits)
  moreover have "List.find (\<lambda>i. \<not> P i) [0..<n] = None"
    using assms(3) by (auto simp: find_None_iff)
  ultimately show ?thesis using assms(2) by simp
qed

lemma free_descriptor:
  assumes "reg_ok k"
  obtains (none) "get_avail_number (k_tag_bitmask k) = (- 1, k_tag_bitmask k)"
      "List.find (\<lambda>i. i \<notin> bm_used (k_tag_bitmask k)) [0..<256] = None"
  | (some) i bm where "get_avail_number (k_tag_bitmask k) = (int i, bm)" "i < 256"
      "List.find (\<lambda>i. i \<notin> bm_used (k_tag_bitmask k)) [0..<256] = Some i"
proof -
  note R = reg_okD [OF assms]
  from R(1) show thesis
  proof (cases rule: bm.take_cases)
    case full
    with R(2) show thesis by (intro that(1)) (auto simp: find_None_iff)
  next
    case (free i bm)
    with R(2) show thesis by (intro that(2) find_least) auto
  qed
qed

lemma uint_count: "reg_ok k \<Longrightarrow> uint (hashmap_count (k_tag_table k)) \<ge> MAX_TAGS \<longleftrightarrow>
    unat (hashmap_count (k_tag_table k)) \<ge> 256"
  unfolding MAX_TAGS_def unat_eq_nat_uint by arith

lemma create_locked:
  assumes reg: "reg_ok k" and lock: "k_common_lock k = read_locked 0"
    and g: "next_outcome (k_signal k) = (True, g)"
    and perm: "permission = TAG_PERM_USR \<or> permission = TAG_PERM_ALL"
  shows "(\<exists>r. create_code k key permission = Inl r \<and>
        tag_get_create key permission euid k = Some (r, k\<lparr>k_signal := g\<rparr>)) \<or>
    (\<exists>i bm t. create_code k key permission = Inr i \<and> registered k key i bm t \<and>
        tag_get_create key permission euid k = tag_get_build key (int i) permission euid
          (k\<lparr>k_signal := g, k_tag_table := t, k_tag_bitmask := bm\<rparr>))"
proof (cases "unat (hashmap_count (k_tag_table k)) \<ge> 256")
  case True
  then have "create_code k key permission = Inl (- EMAXTAG)" using perm by (auto simp: create_code_def)
  moreover have "tag_get_create key permission euid k = Some (- EMAXTAG, k\<lparr>k_signal := g\<rparr>)"
    using True perm lock by (auto simp: tag_get_create_def interruptible_eq g common_lock_op_def
        uint_count [OF reg])
  ultimately show ?thesis by blast
next
  case room: False
  note eqs = tag_get_create_def interruptible_eq g common_lock_op_def lock uint_count [OF reg] room
  from reg show ?thesis
  proof (cases rule: free_descriptor)
    case none
    have "create_code k key permission = Inl (- EPROTO)"
      using perm room none by (auto simp: create_code_def)
    moreover have "tag_get_create key permission euid k = Some (- EPROTO, k\<lparr>k_signal := g\<rparr>)"
      using perm none by (auto simp: eqs set_bitmask_def)
    ultimately show ?thesis by blast
  next
    case (some i bm)
    have bounds: "\<not> (int i < 0 \<or> int i \<ge> MAX_TAGS)" using some(2) by (simp add: MAX_TAGS_def)
    let ?s = "k\<lparr>k_signal := g, k_common_lock := \<lparr>rw_readers = 0, rw_writer = True\<rparr>,
      k_tag_bitmask := bm\<rparr>"
    show ?thesis
    proof (cases "key = 0")
      case True
      have "create_code k key permission = Inr i"
        using perm room some True by (auto simp: create_code_def)
      moreover have "registered k key i bm (k_tag_table k)"
        unfolding True by (rule registered_private [OF reg some(1,2)])
      moreover have "tag_get_create key permission euid k = tag_get_build key (int i) permission euid
          (k\<lparr>k_signal := g, k_tag_table := k_tag_table k, k_tag_bitmask := bm\<rparr>)"
        using perm some(1) bounds True lock
        by (auto simp: eqs set_bitmask_def IPC_PRIVATE_def
            intro!: arg_cong [where f = "tag_get_build _ _ _ _"] kernel.equality)
      ultimately show ?thesis by blast
    next
      case key: False
      have call: "tag_get_create key permission euid k = do {
          (r, s) \<leftarrow> tag_get_register key (int i) ?s;
          if r \<noteq> 0 then Some (r, s)
          else do { s \<leftarrow> common_lock_op up_write s; tag_get_build key (int i) permission euid s }
        }"
        using perm some(1) bounds key by (auto simp: eqs set_bitmask_def IPC_PRIVATE_def)
      note reg_res = tag_get_register_result [OF reg some(1,2) key, of ?s]
      show ?thesis
      proof (cases "tag_table_map (k_tag_table k) (word_of_int key)")
        case (Some e)
        have "create_code k key permission = Inl (- EBUSY)"
          using perm room some key Some by (auto simp: create_code_def)
        moreover have "tag_get_create key permission euid k = Some (- EBUSY, k\<lparr>k_signal := g\<rparr>)"
          using reg_res Some lock by (simp add: call EBUSY_def)
        ultimately show ?thesis by blast
      next
        case None
        have "create_code k key permission = Inr i"
          using perm room some key None by (auto simp: create_code_def)
        moreover obtain t where t: "tag_get_register key (int i) ?s = Some (0, ?s\<lparr>k_tag_table := t\<rparr>)"
            "registered k key i bm t"
          using reg_res None by auto
        have "tag_get_create key permission euid k = tag_get_build key (int i) permission euid
            (k\<lparr>k_signal := g, k_tag_table := t, k_tag_bitmask := bm\<rparr>)"
          using lock
          by (auto simp: call t(1) common_lock_op_def
              intro!: arg_cong [where f = "tag_get_build _ _ _ _"] kernel.equality)
        ultimately show ?thesis using t(2) by blast
      qed
    qed
  qed
qed

lemma tag_get_create_result:
  assumes inv: "sys_inv k R"
  obtains r k' where "tag_get_create key permission euid k = Some (r, k')"
    "create_result k key permission euid r k'"
proof (cases "permission = TAG_PERM_USR \<or> permission = TAG_PERM_ALL")
  case False
  then have "tag_get_create key permission euid k = Some (- EINVAL, k)"
    "create_code k key permission = Inl (- EINVAL)"
    by (auto simp: tag_get_create_def create_code_def)
  with that show thesis by (metis create_result.refused env_eq_refl)
next
  case perm: True
  have reg: "reg_ok k" and lock: "k_common_lock k = read_locked 0"
    using sys_invD(5,6) [OF inv] by (simp_all add: registry_inv_iff locks_ok_def init_rwsem_read_locked)
  obtain ok g where g: "next_outcome (k_signal k) = (ok, g)" by force
  note sig = next_outcome_False [OF g]
  show thesis
  proof (cases ok)
    case False
    then have "tag_get_create key permission euid k = Some (- EINTR, k\<lparr>k_signal := g\<rparr>)"
      using perm g by (auto simp: tag_get_create_def interruptible_eq)
    moreover have "create_result k key permission euid (- EINTR) (k\<lparr>k_signal := g\<rparr>)"
      using False sig by (intro create_result.interrupted) simp_all
    ultimately show thesis by (rule that)
  next
    case True
    from create_locked [OF reg lock _ perm, of g key euid] g True
    consider (no) r where "create_code k key permission = Inl r"
        "tag_get_create key permission euid k = Some (r, k\<lparr>k_signal := g\<rparr>)"
      | (yes) i bm t where "create_code k key permission = Inr i" "registered k key i bm t"
        "tag_get_create key permission euid k = tag_get_build key (int i) permission euid
          (k\<lparr>k_signal := g, k_tag_table := t, k_tag_bitmask := bm\<rparr>)" by auto
    then show thesis
    proof cases
      case no
      then show thesis by (intro that [OF no(2)] create_result.refused) simp_all
    next
      case yes
      let ?s = "k\<lparr>k_signal := g, k_tag_table := t, k_tag_bitmask := bm\<rparr>"
      have "reg_ok ?s" "linked ?s key i"
        using registered_reg_ok [OF yes(2) reg] by (simp_all add: reg_ok_def linked_def)
      moreover have "k_common_lock ?s = read_locked 0" using lock by simp
      moreover have "k_level_heap ?s a = None" if "k_next ?s \<le> a" for a
        using sys_invD(7) [OF inv] that by (simp add: heap_ok_def)
      ultimately show thesis
      proof (rule tag_get_build_result [of ?s key i])
        fix al
        assume "tag_get_build key (int i) permission euid ?s =
          Some (int i, with_tag key i permission euid (?s\<lparr>k_alloc := al\<rparr>))"
        moreover have "create_result k key permission euid (int i)
            (with_tag key i permission euid (?s\<lparr>k_alloc := al\<rparr>))"
          by (rule create_result.created [OF yes(1,2), where g = g and al = al]) (use sig in simp_all)
        ultimately show thesis using yes(3) that by simp
      next
        fix r s'
        assume undone: "tag_get_build key (int i) permission euid ?s = Some (r, s')"
          "build_undone ?s key i r s'"
        have "create_result k key permission euid r s'"
          by (rule create_result.failed [OF yes(1,2) refl _ undone(2)]) (use sig in simp)
        with undone yes(3) that show thesis by simp
      qed
    qed
  qed
qed

section \<open>Opening\<close>

definition open_code :: "kernel \<Rightarrow> int \<Rightarrow> int" where
  "open_code k key =
     (if key = 0 then - EINVAL
      else case tag_table_map (k_tag_table k) (word_of_int key) of
        None \<Rightarrow> - ENODATA
      | Some e \<Rightarrow> if entry_at k (nat (te_tag_key e)) = None then - ENODATA else te_tag_key e)"

lemma entry_at_None: "tags_ok k R \<Longrightarrow> i < 256 \<Longrightarrow> entry_at k i = None \<longleftrightarrow> k_tags k ! i = None"
  by (cases "k_tags k ! i") (auto simp: entry_at_def elim: tags_okE)

lemma tag_get_open_result:
  assumes inv: "sys_inv k R"
  obtains r k' where "tag_get_open key k = Some (r, k')" "env_eq k k'"
    "r = open_code k key \<or> r = - EINTR \<and> False \<in> set (k_signal k)"
proof (cases "key = 0")
  case True
  then show thesis
    by (intro that [of "- EINVAL" k]) (simp_all add: tag_get_open_def IPC_PRIVATE_def open_code_def)
next
  case key: False
  note D = sys_invD [OF inv]
  have reg: "reg_ok k" and lock: "k_common_lock k = read_locked 0"
    using D(5,6) by (simp_all add: registry_inv_iff locks_ok_def init_rwsem_read_locked)
  note R = reg_okD [OF reg]
  obtain ok g where g: "next_outcome (k_signal k) = (ok, g)" by force
  note sig = next_outcome_False [OF g]
  let ?e = "Tag_Entry (word_of_int key) 0"
  have get: "hashmap_get (k_tag_table k) ?e = Some (tag_table_map (k_tag_table k) (word_of_int key))"
    using hm.get_abs [OF R(3), of ?e] by simp
  note eqs = tag_get_open_def interruptible_eq g common_lock_op_def lock key IPC_PRIVATE_def get
  have same: "k\<lparr>k_signal := g, k_common_lock := read_locked 0\<rparr> = k\<lparr>k_signal := g\<rparr>"
    using lock by (intro kernel.equality) simp_all
  have "k_tags k ! nat (te_tag_key e) = None \<longleftrightarrow> entry_at k (nat (te_tag_key e)) = None"
    if "tag_table_map (k_tag_table k) (word_of_int key) = Some e" for e
  proof -
    have "nat (te_tag_key e) < 256"
      using registry_okD(2) [OF R(5) that] bm.used_cap [OF R(1)] R(2) by auto
    then show ?thesis using entry_at_None [OF D(2)] by simp
  qed
  then show thesis
    using sig same
    by (intro that [of "if ok then open_code k key else - EINTR" "k\<lparr>k_signal := g\<rparr>"])
      (auto simp: eqs open_code_def split: option.splits)
qed

section \<open>The invariant\<close>

lemma sys_inv_registry:
  assumes "sys_inv k R" and "registry_inv k'" and "k_next k \<le> k_next k'"
    and "k_tags k' = k_tags k" "k_tag_heap k' = k_tag_heap k" "k_level_heap k' = k_level_heap k"
    and "k_tag_lock k' = k_tag_lock k" "k_common_lock k' = k_common_lock k"
  shows "sys_inv k' R"
proof -
  note D = sys_invD [OF assms(1)]
  have look: "entry_at k' = entry_at k" "lp_at k' = lp_at k" "level_at k' = level_at k"
    by (intro ext; simp add: assms(4-6) entry_at_def lp_at_def level_at_def)+
  have "tags_ok k' R = tags_ok k R" by (simp add: tags_ok_def assms(4-6))
  moreover have "rc_ok k' R = rc_ok k R" by (intro ext) (simp add: rc_ok_def assms(4-6) look)
  moreover have "owners_ok k' R = owners_ok k R" unfolding owners_ok_def owns_def look by (rule refl)
  moreover have "locks_ok k' R = locks_ok k R" by (simp add: locks_ok_def assms(7,8))
  moreover have "heap_ok k'" using D(7) assms(3,5,6) by (simp add: heap_ok_def)
  ultimately show ?thesis using D(1-5) assms(2) unfolding sys_inv_def by simp
qed

lemma sys_inv_with_levels: "sys_inv k R \<Longrightarrow> sys_inv (with_levels i m k) R"
proof (induction m arbitrary: i k)
  case (Suc m)
  let ?k = "k\<lparr>k_next := Suc (k_next k), k_level_heap := (k_level_heap k)(k_next k \<mapsto> fresh_level i 0)\<rparr>"
  have "with_levels (Suc i) m ?k = with_levels i (Suc m) k"
    using with_levels_Suc [where s = k and al = "k_alloc k"] by simp
  with Suc.IH [OF sys_inv_leak [OF Suc.prems]] show ?case by metis
qed simp

lemma sys_inv_new_entry:
  assumes inv: "sys_inv k R"
  shows "sys_inv (k\<lparr>k_next := Suc (k_next k), k_tag_heap := (k_tag_heap k)(k_next k \<mapsto> tg)\<rparr>) R"
    (is "sys_inv ?k R")
proof -
  note D = sys_invD [OF inv] and F = fresh_unused [OF inv]
  have te: "te \<noteq> k_next k" if "i < 256" "k_tags k ! i = Some te" for i te
    using tags_okE [OF D(2) that] F(2) by (metis option.distinct(1))
  have look: "entry_at ?k i = entry_at k i" "lp_at ?k i l = lp_at k i l"
    "level_at ?k i l = level_at k i l" if "i < 256" for i l
    using te [OF that] by (cases "k_tags k ! i"; simp add: entry_at_def lp_at_def level_at_def)+
  have "tags_ok ?k R"
    using D(2) te unfolding tags_ok_def by simp
  moreover have "rc_ok ?k R c" if "R t = Some c" for t c
    using D(3) [OF that] look unfolding rc_ok_def by auto
  moreover have "owns ?k R = owns k R" using look by (auto simp: owns_def fun_eq_iff)
  then have "owners_ok ?k R = owners_ok k R" by (simp only: owners_ok_def)
  moreover have "registry_inv ?k = registry_inv k" using look by (simp add: registry_inv_def)
  moreover have "locks_ok ?k R" using D(5) by (simp add: locks_ok_def)
  moreover have "heap_ok ?k" using D(7) by (simp add: heap_ok_def)
  ultimately show ?thesis using D(1,4,6) unfolding sys_inv_def by blast
qed

text \<open>Other descriptors keep their keys.\<close>

lemma linked_registered:
  assumes "registered k key i bm t" and "linked k key' j"
  shows "linked (k\<lparr>k_tag_table := t, k_tag_bitmask := bm\<rparr>) key' j"
proof -
  have j: "j \<in> bm_used (k_tag_bitmask k)" using assms(2) by (simp add: linked_def)
  then have "j \<noteq> i" using assms(1) by (auto simp: registered_def)
  moreover have "(word_of_int key :: u32) \<noteq> word_of_int key'" if "key \<noteq> 0" "key' \<noteq> 0"
    using assms that by (auto simp: linked_def registered_def)
  ultimately show ?thesis
    using assms by (auto simp: linked_def registered_def)
qed

lemma linked_released:
  assumes "released k key i bm t" and "linked k key i" and "linked k key' j" and "j \<noteq> i"
  shows "linked (k\<lparr>k_tag_table := t, k_tag_bitmask := bm\<rparr>) key' j"
proof -
  have "(word_of_int key :: u32) \<noteq> word_of_int key'" if "key \<noteq> 0" "key' \<noteq> 0"
    using assms that by (auto simp: linked_def)
  then show ?thesis using assms by (auto simp: linked_def released_def)
qed

text \<open>Publishing a complete entry for a descriptor without a tag.\<close>

lemma sys_inv_publish:
  assumes inv: "sys_inv k R" and i: "i < 256" "k_tags k ! i = None"
    and te: "k_tag_heap k te = Some tg" "tg_ok R i tg" "\<And>j. j < 256 \<Longrightarrow> k_tags k ! j \<noteq> Some te"
    and lvls: "\<And>l. l < LEVELS \<Longrightarrow> \<exists>p lv. tg_tag_level tg ! l = Some p \<and> k_level_heap k p = Some lv \<and>
       lv_ok R p lv \<and> (\<forall>j m. \<not> owns k R p j m)"
    and dist: "\<And>l m. l < LEVELS \<Longrightarrow> m < LEVELS \<Longrightarrow> tg_tag_level tg ! l = tg_tag_level tg ! m \<Longrightarrow> l = m"
    and reg: "registered k (tg_key tg) i bm t"
  shows "sys_inv (k\<lparr>k_tag_table := t, k_tag_bitmask := bm, k_tags := (k_tags k)[i := Some te]\<rparr>) R"
    (is "sys_inv ?k R")
proof -
  note D = sys_invD [OF inv]
  have len: "length (k_tags k) = 256" using D(6) by (simp add: registry_inv_def)
  have entry: "entry_at ?k j = (if j = i then Some tg else entry_at k j)" if "j < 256" for j
    using te(1) i(1) len by (simp add: entry_at_def)
  have lp: "lp_at ?k j l = (if j = i then tg_tag_level tg ! l else lp_at k j l)" if "j < 256" for j l
    using entry [OF that] by (simp add: lp_at_def)
  have heaps: "k_tag_heap ?k = k_tag_heap k" "k_level_heap ?k = k_level_heap k" by simp_all
  have "tags_ok ?k R"
    unfolding tags_ok_def
  proof (intro allI impI)
    fix j a
    assume j: "j < 256" "k_tags ?k ! j = Some a"
    show "\<exists>tg. k_tag_heap ?k a = Some tg \<and> tg_ok R j tg \<and>
        (\<forall>l<LEVELS. \<exists>p lv. tg_tag_level tg ! l = Some p \<and> k_level_heap ?k p = Some lv \<and> lv_ok R p lv)"
    proof (cases "j = i")
      case True
      then have "a = te" using j i(1) len by simp
      have "\<exists>p lv. tg_tag_level tg ! l = Some p \<and> k_level_heap ?k p = Some lv \<and> lv_ok R p lv"
        if "l < LEVELS" for l using lvls [OF that] by auto
      with True te(1,2) \<open>a = te\<close> show ?thesis by (intro exI [of _ tg]) simp
    next
      case False
      then have "k_tags k ! j = Some a" using j by simp
      with D(2) [unfolded tags_ok_def] j(1) show ?thesis unfolding heaps by blast
    qed
  qed
  moreover have "rc_ok ?k R c" if c: "R u = Some c" for u c
  proof -
    have b: "rc_tag c < 256" "k_tags k ! rc_tag c = Some (rc_entry c)"
      using D(3) [OF c] by (simp_all add: rc_ok_def)
    then have ne: "rc_tag c \<noteq> i" using i(2) by auto
    have "level_at ?k (rc_tag c) (rc_level c) = level_at k (rc_tag c) (rc_level c)"
      "lp_at ?k (rc_tag c) (rc_level c) = lp_at k (rc_tag c) (rc_level c)"
      using lp [OF b(1)] ne by (simp_all add: level_at_def)
    moreover have "k_tags ?k ! rc_tag c = k_tags k ! rc_tag c" using ne by simp
    ultimately show ?thesis using D(3) [OF c] by (simp add: rc_ok_def)
  qed
  moreover have "owners_ok ?k R"
  proof -
    have old: "owns k R p j m \<or> j = i \<and> m < LEVELS \<and> tg_tag_level tg ! m = Some p \<and> (\<forall>j m. \<not> owns k R p j m)"
      if h: "owns ?k R p j m" for p j m
    proof (cases "j = i \<and> tg_tag_level tg ! m = Some p")
      case True
      with h lvls [of m] show ?thesis by (auto simp: owns_def)
    next
      case False
      with h lp [of j] show ?thesis by (auto simp: owns_def split: if_splits)
    qed
    show ?thesis
      unfolding owners_ok_def
    proof (intro allI impI)
      fix p j m j' m'
      assume "owns ?k R p j m" "owns ?k R p j' m'"
      from old [OF this(1)] old [OF this(2)] show "j = j' \<and> m = m'"
        using D(4) dist [of m m'] unfolding owners_ok_def by (elim disjE conjE) (blast, blast, blast, auto)
    qed
  qed
  moreover have "registry_inv ?k"
    unfolding registry_inv_iff
  proof (intro conjI allI impI)
    show "length (k_tags ?k) = 256" using len by simp
    have "reg_ok (k\<lparr>k_tag_table := t, k_tag_bitmask := bm\<rparr>)"
      using D(6) registered_reg_ok(1) [OF reg] by (simp only: registry_inv_iff)
    then show "reg_ok ?k" by (rule reg_cong(1) [THEN iffD1, rotated 2]) simp_all
    fix j tg'
    assume j: "j < 256" "entry_at ?k j = Some tg'"
    have "linked (k\<lparr>k_tag_table := t, k_tag_bitmask := bm\<rparr>) (tg_key tg') j"
    proof (cases "j = i")
      case True
      then have "tg' = tg" using j entry [OF j(1)] by simp
      with True registered_reg_ok(2) [OF reg] D(6) show ?thesis by (simp add: registry_inv_iff)
    next
      case False
      then have "linked k (tg_key tg') j" using j entry [OF j(1)] D(6) by (simp add: registry_inv_iff)
      then show ?thesis by (rule linked_registered [OF reg])
    qed
    then show "linked ?k (tg_key tg') j" by (subst reg_cong(2) [rotated 2]) simp_all
  qed
  moreover have "locks_ok ?k R" using D(5) by (simp add: locks_ok_def)
  moreover have "heap_ok ?k" using D(7) by (simp add: heap_ok_def)
  ultimately show ?thesis using D(1) unfolding sys_inv_def by blast
qed

lemma registered_cong:
  assumes "k_tag_table k' = k_tag_table k" and "k_tag_bitmask k' = k_tag_bitmask k"
  shows "registered k' = registered k"
  by (intro ext) (simp add: assms registered_def)

lemma fresh_block:
  assumes "sys_inv k R" and "k_next k \<le> a"
  shows "lp_waiters R a = {}" "i < 256 \<Longrightarrow> l < LEVELS \<Longrightarrow> lp_at k i l \<noteq> Some a"
    "i < 256 \<Longrightarrow> k_tags k ! i \<noteq> Some a"
proof -
  note D = sys_invD [OF assms(1)]
  have f: "k_level_heap k a = None" "k_tag_heap k a = None" using D(7) assms(2) by (auto simp: heap_ok_def)
  show "lp_waiters R a = {}" using D(3) f(1) unfolding lp_waiters_def rc_ok_def by fastforce
  show "k_tags k ! i \<noteq> Some a" if "i < 256"
    using tags_okE [OF D(2) that] f(2) by (metis option.distinct(1))
  show "lp_at k i l \<noteq> Some a" if il: "i < 256" "l < LEVELS"
  proof
    assume h: "lp_at k i l = Some a"
    then obtain te where te: "k_tags k ! i = Some te"
      by (auto simp: lp_at_def entry_at_def bind_eq_Some_conv)
    show False using tags_okE [OF D(2) il(1) te] il(2) h f(1) by (metis option.distinct(1) option.inject)
  qed
qed

lemma free_unused:
  assumes "sys_inv k R" and "i < 256" and "i \<notin> bm_used (k_tag_bitmask k)"
  shows "k_tags k ! i = None" "tag_waiters R i = {}"
proof -
  note D = sys_invD [OF assms(1)]
  have "entry_at k i = None"
    using D(6) assms(2,3) by (cases "entry_at k i") (auto simp: registry_inv_iff linked_def)
  then show none: "k_tags k ! i = None" using entry_at_None [OF D(2) assms(2)] by simp
  show "tag_waiters R i = {}"
    using D(3) none unfolding tag_waiters_def rc_ok_def by fastforce
qed

lemma sys_inv_with_tag:
  assumes inv: "sys_inv k R" and reg: "registered k key i bm t" and key: "0 \<le> key" "key \<le> INT_MAX"
  shows "sys_inv (with_tag key i permission euid (k\<lparr>k_tag_table := t, k_tag_bitmask := bm\<rparr>)) R"
proof -
  have i: "i < 256" "i \<notin> bm_used (k_tag_bitmask k)" using reg by (simp_all add: registered_def)
  note none = free_unused [OF inv i]
  let ?k1 = "with_levels 0 LEVELS k" and ?tg = "new_tag key i permission euid (k_next k)"
  let ?te = "k_next k + LEVELS"
  let ?k2 = "?k1\<lparr>k_next := Suc (k_next ?k1), k_tag_heap := (k_tag_heap ?k1)(k_next ?k1 \<mapsto> ?tg)\<rparr>"
  let ?k3 = "?k2\<lparr>k_tag_table := t, k_tag_bitmask := bm, k_tags := (k_tags ?k2)[i := Some ?te]\<rparr>"
  have "with_tag key i permission euid (k\<lparr>k_tag_table := t, k_tag_bitmask := bm\<rparr>) = ?k3"
    by (rule kernel.equality) (simp_all add: with_tag_def with_levels_def cong: if_cong)
  moreover have "sys_inv ?k3 R"
  proof (rule sys_inv_publish)
    show "sys_inv ?k2 R" by (rule sys_inv_new_entry [OF sys_inv_with_levels [OF inv]])
    show "k_tags ?k2 ! i = None" "k_tag_heap ?k2 ?te = Some ?tg" using none(1) by simp_all
    show "tg_ok R i ?tg" using none(2) key by (simp add: tg_ok_def new_tag_def)
    show "k_tags ?k2 ! j \<noteq> Some ?te" if "j < 256" for j
      using fresh_block(3) [OF inv _ that, of ?te] by simp
    show "registered ?k2 (tg_key ?tg) i bm t"
      using reg registered_cong [of ?k2 k] by (simp add: new_tag_def)
    show "l = m" if "l < LEVELS" "m < LEVELS" "tg_tag_level ?tg ! l = tg_tag_level ?tg ! m" for l m
      using that by (simp add: new_tag_def)
    fix l
    assume l: "l < LEVELS"
    have "lp_at ?k2 j m \<noteq> Some (k_next k + l)" if jm: "j < 256" "m < LEVELS" for j m
    proof -
      have "entry_at ?k2 j = entry_at k j"
        using fresh_block(3) [OF inv _ jm(1), of ?te] by (cases "k_tags k ! j") (simp_all add: entry_at_def)
      then show ?thesis using fresh_block(2) [OF inv _ jm, of "k_next k + l"] by (simp add: lp_at_def)
    qed
    moreover have w: "lp_waiters R (k_next k + l) = {}" using fresh_block(1) [OF inv] by simp
    ultimately have "\<not> owns ?k2 R (k_next k + l) j m" for j m
      by (auto simp: owns_def lp_waiters_def)
    moreover have "k_level_heap ?k2 (k_next k + l) = Some (fresh_level l 0)"
      using l by (simp add: with_levels_heap)
    ultimately show "\<exists>p lv. tg_tag_level ?tg ! l = Some p \<and> k_level_heap ?k2 p = Some lv \<and>
       lv_ok R p lv \<and> (\<forall>j m. \<not> owns ?k2 R p j m)"
      using l lv_ok_fresh [OF w] by (simp add: new_tag_def)
  qed (rule i(1))
  ultimately show ?thesis by simp
qed

lemma registry_inv_linked:
  assumes "registry_inv k" and "reg_ok k'" and "k_tags k' = k_tags k" "k_tag_heap k' = k_tag_heap k"
    and "\<And>j tg. j < 256 \<Longrightarrow> entry_at k j = Some tg \<Longrightarrow> linked k' (tg_key tg) j"
  shows "registry_inv k'"
proof -
  have "entry_at k' = entry_at k" by (intro ext) (simp add: entry_at_def assms(3,4))
  with assms show ?thesis by (simp add: registry_inv_iff)
qed

lemma registered_inv:
  assumes inv: "sys_inv k R" and reg: "registered k key i bm t"
  shows "sys_inv (k\<lparr>k_tag_table := t, k_tag_bitmask := bm\<rparr>) R" (is "sys_inv ?k R")
proof (rule sys_inv_registry [OF inv])
  have r: "registry_inv k" using sys_invD(6) [OF inv] .
  have rk: "reg_ok k" using r by (simp add: registry_inv_iff)
  show "registry_inv ?k"
    by (rule registry_inv_linked [OF r registered_reg_ok(1) [OF reg rk]])
      (use r linked_registered [OF reg] in \<open>simp_all add: registry_inv_iff\<close>)
qed simp_all

lemma build_undone_inv:
  assumes inv: "sys_inv k R" and reg: "registered k key i bm t"
    and un: "build_undone (k\<lparr>k_tag_table := t, k_tag_bitmask := bm\<rparr>) key i r k'"
  shows "sys_inv k' R"
  using un
proof cases
  case (leaked al n g)
  let ?k = "k\<lparr>k_tag_table := t, k_tag_bitmask := bm\<rparr>"
  have inv': "sys_inv ?k R" by (rule registered_inv [OF inv reg])
  have r: "registry_inv ?k" using sys_invD(6) [OF inv'] .
  have "registry_inv k'"
    by (rule registry_inv_linked [OF r]) (use r in \<open>simp_all add: leaked registry_inv_iff reg_ok_def linked_def\<close>)
  then show ?thesis by (rule sys_inv_registry [OF inv']) (simp_all add: leaked)
next
  case (restored bm' t' al n g)
  let ?k = "k\<lparr>k_tag_table := t, k_tag_bitmask := bm\<rparr>"
  note i = reg [unfolded registered_def]
  have inv': "sys_inv ?k R" by (rule registered_inv [OF inv reg])
  have r: "registry_inv k" using sys_invD(6) [OF inv] .
  have rk: "reg_ok k" using r by (simp add: registry_inv_iff)
  have link: "linked ?k key i" by (rule registered_reg_ok(2) [OF reg rk])
  have "registry_inv k'"
  proof (rule registry_inv_linked [OF r])
    have f: "k_tag_table k' = t'" "k_tag_bitmask k' = bm'" by (simp_all add: restored)
    show "reg_ok k'" using restored(4) unfolding reg_ok_def released_def f by blast
    fix j tg
    assume j: "j < 256" "entry_at k j = Some tg"
    then have lj: "linked k (tg_key tg) j" using r by (simp add: registry_inv_iff)
    then have "j \<noteq> i" using i by (auto simp: linked_def)
    from linked_released [OF restored(4) link linked_registered [OF reg lj] this]
    show "linked k' (tg_key tg) j" by (subst reg_cong(2) [rotated 2]) (simp_all add: restored)
  qed (simp_all add: restored)
  then show ?thesis by (rule sys_inv_registry [OF inv]) (simp_all add: restored)
qed

lemma create_result_inv:
  assumes inv: "sys_inv k R" and res: "create_result k key permission euid r k'"
    and key: "0 \<le> key" "key \<le> INT_MAX"
  shows "sys_inv k' R"
  using res
proof cases
  case refused
  with inv show ?thesis by (simp add: env_eq_sys_inv)
next
  case interrupted
  with inv show ?thesis by (simp add: env_eq_sys_inv)
next
  case (created i bm t s al g)
  let ?k = "k\<lparr>k_signal := g, k_alloc := al\<rparr>"
  have "sys_inv ?k R" using inv by (rule env_eq_sys_inv [THEN iffD2, rotated]) simp
  moreover have "registered ?k key i bm t" using created(4) registered_cong [of ?k k] by simp
  ultimately have "sys_inv (with_tag key i permission euid (?k\<lparr>k_tag_table := t, k_tag_bitmask := bm\<rparr>)) R"
    using key by (rule sys_inv_with_tag)
  then show ?thesis using created by simp
next
  case (failed i bm t s g)
  let ?k = "k\<lparr>k_signal := g\<rparr>"
  have "sys_inv ?k R" using inv by (rule env_eq_sys_inv [THEN iffD2, rotated]) simp
  moreover have "registered ?k key i bm t" using failed(2) registered_cong [of ?k k] by simp
  ultimately show ?thesis by (rule build_undone_inv) (use failed(5) in \<open>simp only: failed(3)\<close>)
qed

text \<open>Every call of \<open>tag_get\<close> returns.\<close>

inductive get_result :: "kernel \<Rightarrow> int \<Rightarrow> int \<Rightarrow> int \<Rightarrow> int \<Rightarrow> int \<Rightarrow> kernel \<Rightarrow> bool"
  for k key command permission euid where
  bad: "key < 0 \<or> command \<noteq> TAG_CREAT \<and> command \<noteq> TAG_OPEN \<Longrightarrow>
    get_result k key command permission euid (- EINVAL) k"
| create: "0 \<le> key \<Longrightarrow> command = TAG_CREAT \<Longrightarrow> create_result k key permission euid r k' \<Longrightarrow>
    get_result k key command permission euid r k'"
| "open": "0 \<le> key \<Longrightarrow> command = TAG_OPEN \<Longrightarrow> env_eq k k' \<Longrightarrow>
    r = open_code k key \<or> r = - EINTR \<and> False \<in> set (k_signal k) \<Longrightarrow>
    get_result k key command permission euid r k'"

lemma tag_get_result:
  assumes inv: "sys_inv k R"
  obtains r k' where "tag_get key command permission euid k = Some (r, k')"
    "get_result k key command permission euid r k'"
proof -
  consider "key < 0 \<or> command \<noteq> TAG_CREAT \<and> command \<noteq> TAG_OPEN"
    | "0 \<le> key" "command = TAG_CREAT" | "0 \<le> key" "command = TAG_OPEN" by fastforce
  then show thesis
  proof cases
    case 1
    then show thesis by (intro that [OF _ get_result.bad]) (auto simp: tag_get_def)
  next
    case 2
    obtain r k' where r: "tag_get_create key permission euid k = Some (r, k')"
        "create_result k key permission euid r k'" by (rule tag_get_create_result [OF inv])
    with 2 show thesis by (intro that [OF _ get_result.create]) (simp_all add: tag_get_def)
  next
    case 3
    obtain r k' where r: "tag_get_open key k = Some (r, k')" "env_eq k k'"
        "r = open_code k key \<or> r = - EINTR \<and> False \<in> set (k_signal k)"
      by (rule tag_get_open_result [OF inv])
    with 3 show thesis by (intro that [OF _ get_result.open]) (simp_all add: tag_get_def tag_consts)
  qed
qed

lemma get_result_inv:
  assumes inv: "sys_inv k R" and "get_result k key command permission euid r k'" and "key \<le> INT_MAX"
  shows "sys_inv k' R"
  using assms(2)
  by cases (use inv assms(3) create_result_inv in \<open>auto simp: env_eq_sys_inv\<close>)

end
