(* ===== verification/Tag_Ctl.thy ===== *)
theory Tag_Ctl
  imports Tag_Get
begin

text \<open>
  \<open>tag_ctl\<close>: \<open>AWAKE_ALL\<close> raises the flag of the tag and empties the wait queues of its levels one
  after the other; \<open>DELETE\<close> withdraws a tag that no receiver uses and frees all its objects.
\<close>

section \<open>Waking the levels\<close>

definition wake :: "tag_level \<Rightarrow> tag_level" where
  "wake lv = lv\<lparr>tl_local_wq := []\<rparr>"

definition wake_set :: "addr set \<Rightarrow> (addr \<Rightarrow> tag_level option) \<Rightarrow> addr \<Rightarrow> tag_level option" where
  "wake_set P h = (\<lambda>p. if p \<in> P then map_option wake (h p) else h p)"

lemma wake_set_empty [simp]: "wake_set {} h = h"
  by (simp add: wake_set_def fun_eq_iff)

lemma wake_set_insert:
  "h p = Some lv \<Longrightarrow> wake_set P (h(p \<mapsto> wake lv)) = wake_set (insert p P) h"
  by (auto simp: wake_set_def wake_def fun_eq_iff)

text \<open>The pointers at the positions \<open>i .. i + m - 1\<close>.\<close>

definition block_pointers :: "tag \<Rightarrow> nat \<Rightarrow> nat \<Rightarrow> addr set" where
  "block_pointers tg i m = {p. \<exists>l. i \<le> l \<and> l < i + m \<and> tg_tag_level tg ! l = Some p}"

lemma block_pointers_0 [simp]: "block_pointers tg i 0 = {}"
  by (simp add: block_pointers_def)

lemma block_pointers_Suc:
  assumes "tg_tag_level tg ! i = Some p"
  shows "block_pointers tg i (Suc m) = insert p (block_pointers tg (Suc i) m)"
proof -
  have split: "(i \<le> l \<and> l < i + Suc m) = (l = i \<or> Suc i \<le> l \<and> l < Suc i + m)" for l by auto
  show ?thesis
    unfolding block_pointers_def conj_assoc [symmetric] split using assms by auto
qed

text \<open>What the loop needs of the level at one position.\<close>

definition can_wake :: "kernel \<Rightarrow> tag \<Rightarrow> nat \<Rightarrow> bool" where
  "can_wake s tg l \<longleftrightarrow> (\<exists>p lv m. tg_tag_level tg ! l = Some p \<and> k_level_heap s p = Some lv \<and>
     tl_rcu_lock lv = read_locked m \<and> (tl_waiting lv \<le> 0 \<longrightarrow> tl_local_wq lv = []))"

lemma can_wake_step:
  assumes "can_wake s tg l" and "k_level_heap s p = Some lv"
  shows "can_wake (s\<lparr>k_signal := g, k_level_heap := (k_level_heap s)(p \<mapsto> wake lv)\<rparr>) tg l"
proof -
  obtain q w m where q: "tg_tag_level tg ! l = Some q" "k_level_heap s q = Some w"
      "tl_rcu_lock w = read_locked m" "tl_waiting w \<le> 0 \<longrightarrow> tl_local_wq w = []"
    using assms(1) by (auto simp: can_wake_def)
  with assms(2) show ?thesis
    unfolding can_wake_def by (cases "q = p") (auto simp: wake_def)
qed

lemma awake_levels_result:
  assumes "k_tag_heap s te = Some tg" and "tg_level_lock tg = replicate LEVELS init_rwsem"
    and "i + n \<le> LEVELS" and "\<And>l. l < LEVELS \<Longrightarrow> can_wake s tg l"
  shows "\<exists>ok m g. awake_levels n i te s = Some (ok, s\<lparr>k_signal := g,
      k_level_heap := wake_set (block_pointers tg i m) (k_level_heap s)\<rparr>) \<and> m \<le> n \<and>
    (ok \<longrightarrow> m = n) \<and> (\<not> ok \<longrightarrow> False \<in> set (k_signal s)) \<and> set g \<subseteq> set (k_signal s)"
  using assms
proof (induction n arbitrary: i s)
  case 0
  show ?case by (intro exI [of _ True] exI [of _ 0] exI [of _ "k_signal s"]) simp
next
  case (Suc n)
  have i: "i < LEVELS" using Suc.prems(3) by simp
  obtain ok1 g1 where g1: "next_outcome (k_signal s) = (ok1, g1)" by force
  obtain ok2 g2 where g2: "next_outcome g1 = (ok2, g2)" by force
  note sig = next_outcome_False [OF g1] next_outcome_False [OF g2]
  obtain p lv c where p: "tg_tag_level tg ! i = Some p" "k_level_heap s p = Some lv"
      "tl_rcu_lock lv = read_locked c" "tl_waiting lv \<le> 0 \<longrightarrow> tl_local_wq lv = []"
    using Suc.prems(4) [OF i] by (auto simp: can_wake_def)
  have lvl: "tg_level_lock tg ! i = read_locked 0" "i < length (tg_level_lock tg)"
      "(tg_level_lock tg)[i := read_locked 0] = tg_level_lock tg"
    using Suc.prems(2) i by (simp_all add: init_rwsem_read_locked list_update_same_conv)
  consider "\<not> ok1" | "ok1" "\<not> ok2" | "ok1" "ok2" by blast
  then show ?case
  proof cases
    case 1
    then have "awake_levels (Suc n) i te s = Some (False, s\<lparr>k_signal := g1\<rparr>)"
      using g1 by (simp add: interruptible_eq)
    with 1 sig show ?thesis
      by (intro exI [of _ False] exI [of _ 0] exI [of _ g1]) simp
  next
    case 2
    then have "awake_levels (Suc n) i te s = Some (False, s\<lparr>k_signal := g2\<rparr>)"
      using g1 g2 lvl p Suc.prems(1) by (simp add: interruptible_eq level_lock_op_eq map_upd_same)
    with 2 sig show ?thesis
      by (intro exI [of _ False] exI [of _ 0] exI [of _ g2]) auto
  next
    case 3
    let ?s = "s\<lparr>k_signal := g2, k_level_heap := (k_level_heap s)(p \<mapsto> wake lv)\<rparr>"
    have w: "wake lv = lv" if "\<not> 0 < tl_waiting lv" using p(4) that by (simp add: wake_def)
    have "awake_levels (Suc n) i te s = awake_levels n (Suc i) te ?s"
    proof (cases "0 < tl_waiting lv")
      case True
      with 3 g1 g2 lvl p(1-3) Suc.prems(1) show ?thesis
        by (simp add: interruptible_eq level_lock_op_eq rcu_lock_op_eq wake_up_all_def update_level_eq
          map_upd_same wake_def rcu_same)
    next
      case False
      with 3 g1 g2 lvl p(1-3) Suc.prems(1) show ?thesis
        by (simp add: interruptible_eq level_lock_op_eq rcu_lock_op_eq map_upd_same w rcu_same)
    qed
    moreover obtain ok m g where IH: "awake_levels n (Suc i) te ?s = Some (ok, ?s\<lparr>k_signal := g,
        k_level_heap := wake_set (block_pointers tg (Suc i) m) (k_level_heap ?s)\<rparr>)" "m \<le> n"
        "ok \<longrightarrow> m = n" "\<not> ok \<longrightarrow> False \<in> set (k_signal ?s)" "set g \<subseteq> set (k_signal ?s)"
    proof -
      have "k_tag_heap ?s te = Some tg" "Suc i + n \<le> LEVELS" using Suc.prems(1,3) by simp_all
      from Suc.IH [OF this(1) Suc.prems(2) this(2) can_wake_step [OF Suc.prems(4) p(2)]] that
      show thesis by blast
    qed
    moreover have "wake_set (block_pointers tg (Suc i) m) (k_level_heap ?s) =
        wake_set (block_pointers tg i (Suc m)) (k_level_heap s)"
      using wake_set_insert [of "k_level_heap s" p lv, OF p(2)] block_pointers_Suc [OF p(1)] by simp
    ultimately have "awake_levels (Suc n) i te s = Some (ok, s\<lparr>k_signal := g,
        k_level_heap := wake_set (block_pointers tg i (Suc m)) (k_level_heap s)\<rparr>)" by simp
    with IH(2-5) sig show ?thesis
      by (intro exI [of _ ok] exI [of _ "Suc m"] exI [of _ g]) auto
  qed
qed

section \<open>AWAKE\_ALL\<close>

definition awake_code :: "kernel \<Rightarrow> nat \<Rightarrow> int \<Rightarrow> int" where
  "awake_code k i euid =
     (case entry_at k i of
        None \<Rightarrow> - ENODATA
      | Some tg \<Rightarrow>
          if CHECKPERM tg euid then - EPERM
          else if tg_ready tg = 1 \<or> tg_waiting tg = 0 then 0 else 1)"

text \<open>The flag raised and the levels \<open>0 .. m - 1\<close> woken.\<close>

definition awaken :: "nat \<Rightarrow> addr \<Rightarrow> tag \<Rightarrow> nat \<Rightarrow> kernel \<Rightarrow> kernel" where
  "awaken i te tg m k = k\<lparr>k_tag_heap := (k_tag_heap k)(te \<mapsto> tg\<lparr>tg_ready := 1\<rparr>),
     k_level_heap := wake_set (block_pointers tg 0 m) (k_level_heap k)\<rparr>"

inductive awake_result :: "kernel \<Rightarrow> nat \<Rightarrow> int \<Rightarrow> int \<Rightarrow> kernel \<Rightarrow> bool" for k i euid where
  nothing: "awake_code k i euid = r \<Longrightarrow> r \<noteq> 1 \<Longrightarrow> env_eq k k' \<Longrightarrow> awake_result k i euid r k'"
| interrupted: "False \<in> set (k_signal k) \<Longrightarrow> env_eq k k' \<Longrightarrow> awake_result k i euid (- EINTR) k'"
| woken: "awake_code k i euid = 1 \<Longrightarrow> k_tags k ! i = Some te \<Longrightarrow> k_tag_heap k te = Some tg \<Longrightarrow>
    m \<le> LEVELS \<Longrightarrow> r = 1 \<and> m = LEVELS \<or> r = - EINTR \<and> False \<in> set (k_signal k) \<Longrightarrow>
    awake_result k i euid r ((awaken i te tg m k)\<lparr>k_signal := g\<rparr>)"

lemma tag_ctl_awake_all_result:
  assumes inv: "sys_inv k R" and i: "i < 256"
  obtains r k' where "tag_ctl_awake_all i euid k = Some (r, k')" "awake_result k i euid r k'"
proof -
  note D = sys_invD [OF inv] and lock = sys_inv_locks [OF inv i]
  obtain ok g where g: "next_outcome (k_signal k) = (ok, g)" by force
  note sig = next_outcome_False [OF g]
  note eqs = tag_ctl_awake_all_def interruptible_eq tag_lock_op_eq g lock
  show thesis
  proof (cases "ok \<and> awake_code k i euid = 1")
    case False
    have "tag_ctl_awake_all i euid k = Some (if ok then awake_code k i euid else - EINTR, k\<lparr>k_signal := g\<rparr>)"
    proof (cases "k_tags k ! i")
      case None
      then show ?thesis by (simp add: eqs awake_code_def entry_at_def)
    next
      case (Some te)
      obtain tg where "k_tag_heap k te = Some tg" "entry_at k i = Some tg"
        using tags_okE [OF D(2) i Some] by blast
      with Some False show ?thesis by (auto simp: eqs awake_code_def)
    qed
    moreover have "awake_result k i euid (if ok then awake_code k i euid else - EINTR) (k\<lparr>k_signal := g\<rparr>)"
      using False sig by (cases ok) (auto intro: awake_result.intros)
    ultimately show thesis by (rule that)
  next
    case go: True
    then obtain tg0 where "entry_at k i = Some tg0" by (auto simp: awake_code_def errno_defs split: option.splits)
    then obtain te where te: "k_tags k ! i = Some te" by (auto simp: entry_at_def bind_eq_Some_conv)
    obtain tg where tg: "k_tag_heap k te = Some tg" "tg_ok R i tg" "entry_at k i = Some tg"
      "\<And>l. l < LEVELS \<Longrightarrow> \<exists>p lv. tg_tag_level tg ! l = Some p \<and> k_level_heap k p = Some lv \<and>
         lv_ok R p lv \<and> lp_at k i l = Some p \<and> level_at k i l = Some lv"
      using tags_okE [OF D(2) i te] by blast
    let ?tg = "tg\<lparr>tg_ready := 1\<rparr>"
    let ?s = "k\<lparr>k_signal := g, k_tag_lock := (k_tag_lock k)[i := read_locked (Suc (card (tag_waiters R i)))],
      k_tag_heap := (k_tag_heap k)(te \<mapsto> ?tg)\<rparr>"
    have c: "\<not> CHECKPERM tg euid" "\<not> (tg_ready tg = 1 \<or> tg_waiting tg = 0)"
      using go tg(3) by (auto simp: awake_code_def errno_defs split: if_splits)
    have call: "tag_ctl_awake_all i euid k = do {
        (ok, s) \<leftarrow> awake_levels LEVELS 0 te ?s;
        s \<leftarrow> tag_lock_op up_read i s;
        Some (if ok then 1 else - EINTR, s)
      }"
      using go c te tg(1) by (simp add: eqs update_tag_eq)
    have can: "can_wake ?s ?tg l" if l: "l < LEVELS" for l
    proof -
      obtain p lv where p: "tg_tag_level tg ! l = Some p" "k_level_heap k p = Some lv" "lv_ok R p lv"
        using tg(4) [OF l] by blast
      have "tl_local_wq lv = []" if "tl_waiting lv \<le> 0"
        using p(3) that waiters_finite(2) [OF D(1), of p] by (simp add: lv_ok_def)
      with p lv_okD(1) [OF p(3)] show ?thesis by (auto simp: can_wake_def)
    qed
    have "k_tag_heap ?s te = Some ?tg" "tg_level_lock ?tg = replicate LEVELS init_rwsem" "0 + LEVELS \<le> LEVELS"
      using tg(2) by (simp_all add: tg_ok_def)
    from awake_levels_result [OF this can] obtain ok' m g' where
      loop: "awake_levels LEVELS 0 te ?s = Some (ok', ?s\<lparr>k_signal := g',
          k_level_heap := wake_set (block_pointers ?tg 0 m) (k_level_heap ?s)\<rparr>)" "m \<le> LEVELS"
        "ok' \<longrightarrow> m = LEVELS" "\<not> ok' \<longrightarrow> False \<in> set (k_signal ?s)" by blast
    have "block_pointers ?tg 0 m = block_pointers tg 0 m" by (simp add: block_pointers_def)
    then have "tag_ctl_awake_all i euid k =
        Some (if ok' then 1 else - EINTR, (awaken i te tg m k)\<lparr>k_signal := g'\<rparr>)"
      using lock by (simp add: call loop(1) tag_lock_op_eq awaken_def)
    moreover have "awake_result k i euid (if ok' then 1 else - EINTR) ((awaken i te tg m k)\<lparr>k_signal := g'\<rparr>)"
      using go te tg(1) loop(2-4) sig by (intro awake_result.woken) auto
    ultimately show thesis by (rule that)
  qed
qed

lemma sys_inv_woken:
  assumes inv: "sys_inv k R"
  shows "sys_inv (k\<lparr>k_level_heap := wake_set P (k_level_heap k)\<rparr>) R" (is "sys_inv ?k R")
proof -
  note D = sys_invD [OF inv]
  have step: "\<exists>lv'. k_level_heap ?k p = Some lv' \<and> (lv_ok R p lv \<longrightarrow> lv_ok R p lv') \<and>
      tl_epoch lv' = tl_epoch lv \<and> tl_ready lv' = tl_ready lv" if "k_level_heap k p = Some lv" for p lv
    using that by (auto simp: wake_set_def wake_def lv_ok_def)
  have level: "\<exists>lv'. level_at ?k i l = Some lv' \<and> tl_epoch lv' = tl_epoch lv"
    if "level_at k i l = Some lv" for i l lv
  proof (cases "lp_at k i l")
    case (Some p)
    with that step [of p lv] show ?thesis by (auto simp: level_at_def)
  qed (use that in \<open>simp add: level_at_def\<close>)
  have "tags_ok ?k R"
    unfolding tags_ok_def
  proof (intro allI impI)
    fix i te
    assume i: "i < 256" "k_tags ?k ! i = Some te"
    then have te: "k_tags k ! i = Some te" by simp
    obtain tg where tg: "k_tag_heap k te = Some tg" "tg_ok R i tg"
      "\<forall>l<LEVELS. \<exists>p lv. tg_tag_level tg ! l = Some p \<and> k_level_heap k p = Some lv \<and> lv_ok R p lv"
      using D(2) [unfolded tags_ok_def] i(1) te by blast
    have "\<exists>p lv. tg_tag_level tg ! l = Some p \<and> k_level_heap ?k p = Some lv \<and> lv_ok R p lv"
      if "l < LEVELS" for l using tg(3) that step by blast
    with tg(1,2) show "\<exists>tg. k_tag_heap ?k te = Some tg \<and> tg_ok R i tg \<and>
        (\<forall>l<LEVELS. \<exists>p lv. tg_tag_level tg ! l = Some p \<and> k_level_heap ?k p = Some lv \<and> lv_ok R p lv)"
      by (intro exI [of _ tg]) simp
  qed
  moreover have "rc_ok ?k R c" if c: "R t = Some c" for t c
  proof -
    obtain w where w: "k_level_heap k (rc_lp c) = Some w" "lv_ok R (rc_lp c) w"
        "lp_at k (rc_tag c) (rc_level c) = Some (rc_lp c) \<or>
         tl_ready w = 1 \<and> (\<exists>new. level_at k (rc_tag c) (rc_level c) = Some new \<and>
           tl_epoch w < tl_epoch new)"
      using D(3) [OF c] unfolding rc_ok_def by blast
    from step [OF w(1)] w(2) obtain w' where "k_level_heap ?k (rc_lp c) = Some w'" "lv_ok R (rc_lp c) w'"
        "tl_epoch w' = tl_epoch w" "tl_ready w' = tl_ready w" by blast
    moreover have "\<exists>new. level_at ?k (rc_tag c) (rc_level c) = Some new \<and> tl_epoch w < tl_epoch new"
      if "level_at k (rc_tag c) (rc_level c) = Some new" "tl_epoch w < tl_epoch new" for new
      using level [OF that(1)] that(2) by auto
    ultimately show ?thesis
      using D(3) [OF c] w(3) unfolding rc_ok_def by auto
  qed
  moreover have "heap_ok ?k" using D(7) by (auto simp: heap_ok_def wake_set_def)
  ultimately show ?thesis
    using D(1,4-6) unfolding sys_inv_def by (auto simp: owners_ok_def locks_ok_def)
qed

lemma sys_inv_awaken:
  assumes inv: "sys_inv k R" and i: "i < 256" and te: "k_tags k ! i = Some te" "k_tag_heap k te = Some tg"
    and w: "tg_waiting tg \<noteq> 0"
  shows "sys_inv (awaken i te tg m k) R"
proof -
  note D = sys_invD [OF inv]
  let ?tg = "tg\<lparr>tg_ready := 1\<rparr>"
  obtain p lv where p: "lp_at k i 0 = Some p" "k_level_heap k p = Some lv" "lv_ok R p lv"
    and ok: "tg_ok R i tg"
  proof (rule tags_okE [OF D(2) i te(1)])
    fix tg'
    assume t: "k_tag_heap k te = Some tg'" "tg_ok R i tg'"
      "\<And>l. l < LEVELS \<Longrightarrow> \<exists>p lv. tg_tag_level tg' ! l = Some p \<and> k_level_heap k p = Some lv \<and>
         lv_ok R p lv \<and> lp_at k i l = Some p \<and> level_at k i l = Some lv"
    from t(3) [of 0] obtain p lv where "k_level_heap k p = Some lv" "lv_ok R p lv" "lp_at k i 0 = Some p"
      by (auto simp: LEVELS_def)
    with that t(1,2) te(2) show thesis by simp
  qed
  have ready: "tg_ok R i ?tg"
    using ok w by (auto simp: tg_ok_def)
  obtain t where t: "t \<notin> dom R" using D(1) ex_new_if_finite infinite_UNIV_nat by blast
  then have R: "R = R(t := None)" "\<forall>c. R t = Some c \<or> None = Some c \<longrightarrow> rc_tag c = i \<and> rc_lp c = p"
    by (auto simp: fun_eq_iff)
  have "sys_inv (change i (card (tag_waiters R i)) te ?tg p (Some lv) k) R"
    by (rule sys_inv_change [OF inv i te ready _ _ R p(2)]) (use p(3) in simp_all)
  moreover have "change i (card (tag_waiters R i)) te ?tg p (Some lv) k =
      k\<lparr>k_tag_heap := (k_tag_heap k)(te \<mapsto> ?tg)\<rparr>"
    using sys_inv_locks [OF inv i] p(2) by (intro kernel.equality) (simp_all add: map_upd_same change_def)
  ultimately have "sys_inv (k\<lparr>k_tag_heap := (k_tag_heap k)(te \<mapsto> ?tg)\<rparr>) R" by simp
  from sys_inv_woken [OF this, of "block_pointers tg 0 m"] show ?thesis by (simp add: awaken_def)
qed

lemma awake_result_inv:
  assumes inv: "sys_inv k R" and i: "i < 256" and res: "awake_result k i euid r k'"
  shows "sys_inv k' R"
  using res
proof cases
  case nothing
  with inv show ?thesis by (simp add: env_eq_sys_inv)
next
  case interrupted
  with inv show ?thesis by (simp add: env_eq_sys_inv)
next
  case (woken te tg m g)
  have "entry_at k i = Some tg" using woken by (simp add: entry_at_def)
  then have "tg_waiting tg \<noteq> 0" using woken(2) by (auto simp: awake_code_def errno_defs split: if_splits)
  from sys_inv_awaken [OF inv i woken(3,4) this, of m]
  show ?thesis unfolding woken(1) by (rule env_eq_sys_inv [THEN iffD2, rotated]) simp
qed

section \<open>DELETE\<close>

definition delete_code :: "kernel \<Rightarrow> receivers \<Rightarrow> nat \<Rightarrow> int \<Rightarrow> int" where
  "delete_code k R i euid =
     (if tag_waiters R i \<noteq> {} then 0
      else case entry_at k i of
        None \<Rightarrow> - ENODATA
      | Some tg \<Rightarrow> if CHECKPERM tg euid then - EPERM else 1)"

text \<open>The state without the tag.\<close>

definition without_tag :: "nat \<Rightarrow> addr \<Rightarrow> tag \<Rightarrow> bitmask \<Rightarrow> tag_table_entry hashmap \<Rightarrow> kernel \<Rightarrow> kernel" where
  "without_tag i te tg bm t k = k\<lparr>k_tag_table := t, k_tag_bitmask := bm, k_tags := (k_tags k)[i := None],
     k_tag_heap := (k_tag_heap k)(te := None),
     k_level_heap := (k_level_heap k) |` (- pointers (tg_tag_level tg))\<rparr>"

inductive delete_result :: "kernel \<Rightarrow> receivers \<Rightarrow> nat \<Rightarrow> int \<Rightarrow> int \<Rightarrow> kernel \<Rightarrow> bool" for k R i euid where
  refused: "delete_code k R i euid = r \<Longrightarrow> r \<noteq> 1 \<Longrightarrow> delete_result k R i euid r k"
| interrupted: "delete_code k R i euid = 1 \<Longrightarrow> False \<in> set (k_signal k) \<Longrightarrow> env_eq k k' \<Longrightarrow>
    delete_result k R i euid (- EINTR) k'"
| deleted: "delete_code k R i euid = 1 \<Longrightarrow> k_tags k ! i = Some te \<Longrightarrow> k_tag_heap k te = Some tg \<Longrightarrow>
    released k (tg_key tg) i bm t \<Longrightarrow>
    delete_result k R i euid 1 ((without_tag i te tg bm t k)\<lparr>k_signal := g\<rparr>)"

text \<open>The levels of a tag are live and no two of them are the same object.\<close>

lemma tag_level_pointers:
  assumes inv: "sys_inv k R" and i: "i < 256" and te: "k_tags k ! i = Some te" "k_tag_heap k te = Some tg"
  shows "distinct (filter (\<lambda>x. x \<noteq> None) (tg_tag_level tg))"
    "p \<in> pointers (tg_tag_level tg) \<longleftrightarrow> (\<exists>l<LEVELS. lp_at k i l = Some p)"
    "p \<in> pointers (tg_tag_level tg) \<Longrightarrow> k_level_heap k p \<noteq> None"
proof -
  note D = sys_invD [OF inv]
  obtain len: "length (tg_tag_level tg) = LEVELS"
    and lp: "\<And>l. l < LEVELS \<Longrightarrow> \<exists>p lv. tg_tag_level tg ! l = Some p \<and> k_level_heap k p = Some lv \<and> lp_at k i l = Some p"
  proof (rule tags_okE [OF D(2) i te(1)])
    fix tg'
    assume t: "k_tag_heap k te = Some tg'" "tg_ok R i tg'"
      "\<And>l. l < LEVELS \<Longrightarrow> \<exists>p lv. tg_tag_level tg' ! l = Some p \<and> k_level_heap k p = Some lv \<and>
         lv_ok R p lv \<and> lp_at k i l = Some p \<and> level_at k i l = Some lv"
    have "tg' = tg" using t(1) te(2) by simp
    with t(2,3) show thesis by (intro that) (simp add: tg_ok_def, blast)
  qed
  have "tg_tag_level tg ! l \<noteq> tg_tag_level tg ! m" if lm: "l < LEVELS" "m < LEVELS" "l \<noteq> m" for l m
  proof
    assume "tg_tag_level tg ! l = tg_tag_level tg ! m"
    then obtain p where "lp_at k i l = Some p" "lp_at k i m = Some p"
      using lp [OF lm(1)] lp [OF lm(2)] by auto
    then have "owns k R p i l" "owns k R p i m" using i lm by (simp_all add: owns_def)
    with D(4) lm(3) show False unfolding owners_ok_def by blast
  qed
  then show "distinct (filter (\<lambda>x. x \<noteq> None) (tg_tag_level tg))"
    by (intro distinct_filter) (simp add: distinct_conv_nth len)
  show iff: "p \<in> pointers (tg_tag_level tg) \<longleftrightarrow> (\<exists>l<LEVELS. lp_at k i l = Some p)" for p
  proof
    assume "p \<in> pointers (tg_tag_level tg)"
    then obtain l where "l < LEVELS" "tg_tag_level tg ! l = Some p"
      by (auto simp: pointers_def in_set_conv_nth len)
    with lp show "\<exists>l<LEVELS. lp_at k i l = Some p" by (metis option.inject)
  next
    assume "\<exists>l<LEVELS. lp_at k i l = Some p"
    then obtain l where "l < LEVELS" "tg_tag_level tg ! l = Some p" using lp by (metis option.inject)
    then show "p \<in> pointers (tg_tag_level tg)" by (auto simp: pointers_def in_set_conv_nth len)
  qed
  show "k_level_heap k p \<noteq> None" if "p \<in> pointers (tg_tag_level tg)"
    using that iff lp by (metis option.distinct(1) option.inject)
qed

lemma tag_ctl_delete_result:
  assumes inv: "sys_inv k R" and i: "i < 256"
  obtains r k' where "tag_ctl_delete i euid k = Some (r, k')" "delete_result k R i euid r k'"
proof -
  note D = sys_invD [OF inv] and lock = sys_inv_locks [OF inv i]
  show thesis
  proof (cases "delete_code k R i euid = 1")
    case False
    have "tag_ctl_delete i euid k = Some (delete_code k R i euid, k)"
    proof (cases "tag_waiters R i = {}")
      case False
      then have "card (tag_waiters R i) \<noteq> 0" using waiters_finite(1) [OF D(1)] by simp
      with False lock show ?thesis by (simp add: tag_ctl_delete_def tag_lock_op_def delete_code_def)
    next
      case True
      then have l: "k_tag_lock k ! i = read_locked 0" "(k_tag_lock k)[i := read_locked 0] = k_tag_lock k"
        using lock by simp_all
      show ?thesis
      proof (cases "k_tags k ! i")
        case None
        with l lock(2) True show ?thesis
          by (simp add: tag_ctl_delete_def tag_lock_op_def delete_code_def entry_at_def)
      next
        case (Some te)
        obtain tg where "k_tag_heap k te = Some tg" "entry_at k i = Some tg"
          using tags_okE [OF D(2) i Some] by blast
        with l lock(2) True Some False show ?thesis
          by (simp add: tag_ctl_delete_def tag_lock_op_def delete_code_def split: if_splits)
      qed
    qed
    with False show thesis by (intro that) (auto intro: delete_result.refused)
  next
    case go: True
    then have none: "tag_waiters R i = {}" by (simp add: delete_code_def split: if_splits)
    then have l: "k_tag_lock k ! i = read_locked 0" "(k_tag_lock k)[i := read_locked 0] = k_tag_lock k"
      using lock by simp_all
    obtain tg0 where "entry_at k i = Some tg0" using go none by (auto simp: delete_code_def errno_defs split: option.splits)
    then obtain te where te: "k_tags k ! i = Some te" by (auto simp: entry_at_def bind_eq_Some_conv)
    obtain tg where tg: "k_tag_heap k te = Some tg" "tg_ok R i tg" "entry_at k i = Some tg"
      using tags_okE [OF D(2) i te] by blast
    have c: "\<not> CHECKPERM tg euid" "tg_waiting tg = 0" "tg_tag_key tg = int i"
      using go none tg(2,3) by (auto simp: delete_code_def errno_defs tg_ok_def split: if_splits)
    let ?s = "k\<lparr>k_tags := (k_tags k)[i := None]\<rparr>"
    have call: "tag_ctl_delete i euid k = do {
        (r, s) \<leftarrow> clear_tag_common (tg_key tg) (int i) ?s;
        if r \<noteq> 0 then Some (- EINTR, s\<lparr>k_tags := (k_tags s)[i := Some te]\<rparr>)
        else do { s \<leftarrow> clear_tag_level (tg_tag_level tg) s; s \<leftarrow> kfree_tag te s; Some (1, s) }
      }"
      using l lock(2) c te tg(1) by (simp add: tag_ctl_delete_def tag_lock_op_def)
    have k: "reg_ok k" "linked k (tg_key tg) i" "k_common_lock k = read_locked 0"
      using D(5,6) tg(3) i by (simp_all add: registry_inv_iff locks_ok_def init_rwsem_read_locked)
    then have "reg_ok ?s" "linked ?s (tg_key tg) i" "k_common_lock ?s = read_locked 0"
      using reg_cong(1,2) [of ?s k] by simp_all
    then show thesis
    proof (rule clear_tag_common_result)
      fix g
      assume h: "clear_tag_common (tg_key tg) (int i) ?s = Some (- EINTR, ?s\<lparr>k_signal := g\<rparr>)"
        "False \<in> set (k_signal ?s)"
      have "tag_ctl_delete i euid k = Some (- EINTR, k\<lparr>k_signal := g\<rparr>)"
      proof -
        have "(k_tags k)[i := Some te] = k_tags k" by (simp only: te [symmetric] list_update_id)
        then have "k\<lparr>k_signal := g, k_tags := (k_tags k)[i := Some te]\<rparr> = k\<lparr>k_signal := g\<rparr>"
          by (intro kernel.equality) simp_all
        then show ?thesis by (simp add: call h(1) EINTR_def)
      qed
      moreover have "delete_result k R i euid (- EINTR) (k\<lparr>k_signal := g\<rparr>)"
        using h(2) go by (intro delete_result.interrupted env_eqI) simp_all
      ultimately show thesis by (rule that)
    next
      fix g bm t
      assume h: "clear_tag_common (tg_key tg) (int i) ?s =
          Some (0, ?s\<lparr>k_signal := g, k_tag_table := t, k_tag_bitmask := bm\<rparr>)"
        "released ?s (tg_key tg) i bm t"
      let ?s' = "?s\<lparr>k_signal := g, k_tag_table := t, k_tag_bitmask := bm\<rparr>"
      note ptr = tag_level_pointers [OF inv i te tg(1)]
      have "clear_tag_level (tg_tag_level tg) ?s' =
          Some (?s'\<lparr>k_level_heap := (k_level_heap ?s') |` (- pointers (tg_tag_level tg))\<rparr>)"
        by (rule clear_tag_level_eq [OF ptr(1)]) (use ptr(3) in simp)
      then have "tag_ctl_delete i euid k = Some (1, (without_tag i te tg bm t k)\<lparr>k_signal := g\<rparr>)"
        using tg(1) by (simp add: call h(1) kfree_tag_def without_tag_def)
      moreover have "released k (tg_key tg) i bm t" using h(2) reg_cong(3) [of ?s k] by simp
      moreover note delete_result.deleted [OF go te tg(1) this, of g]
      ultimately show thesis using that by blast
    qed
  qed
qed

text \<open>Withdrawing a tag that has no receivers.\<close>

lemma sys_inv_without_tag:
  assumes inv: "sys_inv k R" and i: "i < 256" and none: "tag_waiters R i = {}"
    and te: "k_tags k ! i = Some te" "k_tag_heap k te = Some tg"
    and rel: "released k (tg_key tg) i bm t"
  shows "sys_inv (without_tag i te tg bm t k) R" (is "sys_inv ?k R")
proof -
  note D = sys_invD [OF inv] and ptr = tag_level_pointers [OF inv i te]
  have len: "length (k_tags k) = 256" using D(6) by (simp add: registry_inv_def)
  have other: "k_tags k ! j \<noteq> Some te" if "j < 256" "j \<noteq> i" for j
    using tags_distinct [OF D(2) i that(1) te(1)] that(2) by blast
  have entry: "entry_at ?k j = (if j = i then None else entry_at k j)" if "j < 256" for j
    using other [OF that] len i by (cases "k_tags k ! j") (auto simp: entry_at_def without_tag_def)
  have lp: "lp_at ?k j l = (if j = i then None else lp_at k j l)" if "j < 256" for j l
    using entry [OF that] by (simp add: lp_at_def)
  have mine: "j = i" if own: "owns k R p j m" and p: "p \<in> pointers (tg_tag_level tg)" for p j m
  proof -
    obtain l where "l < LEVELS" "lp_at k i l = Some p" using ptr(2) p by blast
    then have "owns k R p i l" using i by (simp add: owns_def)
    with own D(4) show ?thesis unfolding owners_ok_def by blast
  qed
  have keep: "k_level_heap ?k p = k_level_heap k p" if "owns k R p j m" "j \<noteq> i" for p j m
    using mine [OF that(1)] that(2) by (auto simp: without_tag_def restrict_map_def)
  have "tags_ok ?k R"
    unfolding tags_ok_def
  proof (intro allI impI)
    fix j a
    assume j: "j < 256" "k_tags ?k ! j = Some a"
    then have ne: "j \<noteq> i" and a: "k_tags k ! j = Some a"
      using len i by (auto simp: without_tag_def nth_list_update split: if_splits)
    obtain tgj where tgj: "k_tag_heap k a = Some tgj" "tg_ok R j tgj"
      "\<And>l. l < LEVELS \<Longrightarrow> \<exists>q w. tg_tag_level tgj ! l = Some q \<and> k_level_heap k q = Some w \<and>
         lv_ok R q w \<and> lp_at k j l = Some q \<and> level_at k j l = Some w"
      using tags_okE [OF D(2) j(1) a] by blast
    have "\<exists>q w. tg_tag_level tgj ! l = Some q \<and> k_level_heap ?k q = Some w \<and> lv_ok R q w"
      if l: "l < LEVELS" for l
    proof -
      obtain q w where q: "tg_tag_level tgj ! l = Some q" "k_level_heap k q = Some w" "lv_ok R q w"
          "lp_at k j l = Some q" using tgj(3) [OF l] by blast
      then have "owns k R q j l" using j(1) l by (simp add: owns_def)
      from keep [OF this ne] q show ?thesis by auto
    qed
    moreover have "a \<noteq> te" using other [OF j(1) ne] a by blast
    ultimately show "\<exists>tg. k_tag_heap ?k a = Some tg \<and> tg_ok R j tg \<and>
        (\<forall>l<LEVELS. \<exists>p lv. tg_tag_level tg ! l = Some p \<and> k_level_heap ?k p = Some lv \<and> lv_ok R p lv)"
      using tgj(1,2) by (intro exI [of _ tgj]) (simp add: without_tag_def)
  qed
  moreover have "rc_ok ?k R c" if c: "R u = Some c" for u c
  proof -
    have ne: "rc_tag c \<noteq> i" using c none by (auto simp: tag_waiters_def)
    have b: "rc_tag c < 256" "rc_level c < LEVELS" using D(3) [OF c] by (simp_all add: rc_ok_def)
    have "owns k R (rc_lp c) (rc_tag c) (rc_level c)" using b c by (auto simp: owns_def)
    from keep [OF this ne] have h: "k_level_heap ?k (rc_lp c) = k_level_heap k (rc_lp c)" .
    have l: "lp_at ?k (rc_tag c) (rc_level c) = lp_at k (rc_tag c) (rc_level c)" using lp [OF b(1)] ne by simp
    have "level_at ?k (rc_tag c) (rc_level c) = level_at k (rc_tag c) (rc_level c)"
    proof (cases "lp_at k (rc_tag c) (rc_level c)")
      case (Some q)
      then have "owns k R q (rc_tag c) (rc_level c)" using b by (simp add: owns_def)
      from keep [OF this ne] Some l show ?thesis by (simp add: level_at_def)
    qed (use l in \<open>simp add: level_at_def\<close>)
    moreover have "k_tags ?k ! rc_tag c = k_tags k ! rc_tag c" using ne by (simp add: without_tag_def)
    ultimately show ?thesis using D(3) [OF c] h l by (simp add: rc_ok_def)
  qed
  moreover have "owns k R p j m" if "owns ?k R p j m" for p j m
    using that lp [of j] by (auto simp: owns_def split: if_splits)
  then have "owners_ok ?k R" using D(4) unfolding owners_ok_def by blast
  moreover have "registry_inv ?k"
    unfolding registry_inv_iff
  proof (intro conjI allI impI)
    show "length (k_tags ?k) = 256" using len by (simp add: without_tag_def)
    have f: "k_tag_table ?k = t" "k_tag_bitmask ?k = bm" by (simp_all add: without_tag_def)
    show "reg_ok ?k" using rel unfolding reg_ok_def released_def f by blast
    fix j tg'
    assume j: "j < 256" "entry_at ?k j = Some tg'"
    then have ne: "j \<noteq> i" "entry_at k j = Some tg'" using entry [OF j(1)] by (auto split: if_splits)
    have "linked k (tg_key tg) i" "linked k (tg_key tg') j"
      using D(6) i te j(1) ne(2) by (simp_all add: registry_inv_iff entry_at_def)
    from linked_released [OF rel this ne(1)] show "linked ?k (tg_key tg') j"
      by (subst reg_cong(2) [rotated 2]) (simp_all add: without_tag_def)
  qed
  moreover have "locks_ok ?k R" using D(5) by (simp add: locks_ok_def without_tag_def)
  moreover have "heap_ok ?k" using D(7) by (auto simp: heap_ok_def without_tag_def restrict_map_def)
  ultimately show ?thesis using D(1) unfolding sys_inv_def by blast
qed

lemma delete_result_inv:
  assumes inv: "sys_inv k R" and i: "i < 256" and res: "delete_result k R i euid r k'"
  shows "sys_inv k' R"
  using res
proof cases
  case refused
  with inv show ?thesis by simp
next
  case interrupted
  with inv show ?thesis by (simp add: env_eq_sys_inv)
next
  case (deleted te tg bm t g)
  have "tag_waiters R i = {}" using deleted(3) by (simp add: delete_code_def split: if_splits)
  from sys_inv_without_tag [OF inv i this deleted(4,5,6)] show ?thesis
    unfolding deleted(2) by (rule env_eq_sys_inv [THEN iffD2, rotated]) simp
qed

text \<open>Every call of \<open>tag_ctl\<close> returns.\<close>

inductive ctl_result :: "kernel \<Rightarrow> receivers \<Rightarrow> int \<Rightarrow> int \<Rightarrow> int \<Rightarrow> int \<Rightarrow> kernel \<Rightarrow> bool"
  for k R tag command euid where
  bad: "\<not> (0 \<le> tag \<and> tag < 256) \<or> command \<noteq> TAG_AWAKE_ALL \<and> command \<noteq> TAG_DELETE \<Longrightarrow>
    ctl_result k R tag command euid (- EINVAL) k"
| awake: "0 \<le> tag \<Longrightarrow> tag < 256 \<Longrightarrow> command = TAG_AWAKE_ALL \<Longrightarrow>
    awake_result k (nat tag) euid r k' \<Longrightarrow> ctl_result k R tag command euid r k'"
| delete: "0 \<le> tag \<Longrightarrow> tag < 256 \<Longrightarrow> command = TAG_DELETE \<Longrightarrow>
    delete_result k R (nat tag) euid r k' \<Longrightarrow> ctl_result k R tag command euid r k'"

lemma tag_ctl_result:
  assumes inv: "sys_inv k R"
  obtains r k' where "tag_ctl tag command euid k = Some (r, k')" "ctl_result k R tag command euid r k'"
proof -
  consider "\<not> (0 \<le> tag \<and> tag < 256) \<or> command \<noteq> TAG_AWAKE_ALL \<and> command \<noteq> TAG_DELETE"
    | "0 \<le> tag" "tag < 256" "command = TAG_AWAKE_ALL" | "0 \<le> tag" "tag < 256" "command = TAG_DELETE" by fastforce
  then show thesis
  proof cases
    case 1
    then show thesis by (intro that [OF _ ctl_result.bad]) (auto simp: tag_ctl_def MAX_TAGS_def)
  next
    case 2
    then have i: "nat tag < 256" by simp
    obtain r k' where r: "tag_ctl_awake_all (nat tag) euid k = Some (r, k')"
        "awake_result k (nat tag) euid r k'" by (rule tag_ctl_awake_all_result [OF inv i])
    with 2 show thesis by (intro that [OF _ ctl_result.awake]) (simp_all add: tag_ctl_def MAX_TAGS_def)
  next
    case 3
    then have i: "nat tag < 256" by simp
    obtain r k' where r: "tag_ctl_delete (nat tag) euid k = Some (r, k')"
        "delete_result k R (nat tag) euid r k'" by (rule tag_ctl_delete_result [OF inv i])
    with 3 show thesis by (intro that [OF _ ctl_result.delete]) (simp_all add: tag_ctl_def MAX_TAGS_def tag_consts)
  qed
qed

lemma ctl_result_inv:
  assumes inv: "sys_inv k R" and "ctl_result k R tag command euid r k'"
  shows "sys_inv k' R"
  using assms(2)
proof cases
  case bad
  with inv show ?thesis by simp
next
  case awake
  show ?thesis by (rule awake_result_inv [OF inv _ awake(4)]) (use awake(1,2) in simp)
next
  case delete
  show ?thesis by (rule delete_result_inv [OF inv _ delete(4)]) (use delete(1,2) in simp)
qed

end
