(* ===== verification/Syscall_Table.thy ===== *)
theory Syscall_Table
  imports Tag_Prelude "HOL-Library.Monad_Syntax"
begin

unbundle bit_operations_syntax

text \<open>
  The module that looks for the system call table and puts entries in it: the page table walk of
  \<open>ptexplorer/ptexplorer.c\<close>, the register access of \<open>arch-common/arch-common.c\<close>, the search and
  the updates of \<open>scth_discovery.c\<close>.

  The machine has two views of memory: \<open>mc_mem\<close> gives the bytes at virtual addresses (\<open>None\<close>: not
  mapped), \<open>mc_phys\<close> the 8-byte entries of the page tables at physical addresses. A function that
  reads or writes memory yields \<open>None\<close> when it faults: an address that is not mapped, or a write to
  the table, which is read-only memory, while the bit WP of CR0 is set.
\<close>

section \<open>The machine\<close>

record machine =
  mc_mem :: "u64 \<Rightarrow> u8 option"
  mc_phys :: "u64 \<Rightarrow> u64"
  mc_cr0 :: u64
  mc_cr3 :: u64
  mc_irq :: bool
  mc_preempt :: nat
  mc_syscall_table_addr :: u64
  mc_sys_ni_address :: u64

definition load64 :: "(u64 \<Rightarrow> u8 option) \<Rightarrow> u64 \<Rightarrow> u64 option" where
  "load64 m a = map_option (\<lambda>bs. foldr (\<lambda>b v. ucast b OR push_bit 8 v) bs 0)
     (those (map (\<lambda>i. m (a + word_of_nat i)) [0..<8]))"

definition store64 :: "(u64 \<Rightarrow> u8 option) \<Rightarrow> u64 \<Rightarrow> u64 \<Rightarrow> (u64 \<Rightarrow> u8 option) option" where
  "store64 m a v =
     (if list_all (\<lambda>i. m (a + word_of_nat i) \<noteq> None) [0..<8]
      then Some (\<lambda>x. if x - a < 8 then Some (ucast (drop_bit (8 * unat (x - a)) v)) else m x)
      else None)"

section \<open>The page table walk\<close>

definition PT_CR3_MASK :: u64 where "PT_CR3_MASK = 0xfffffffffffff000"
definition PRESENT_BIT :: u64 where "PRESENT_BIT = 0x1"
definition PT_ADDRESS_MASK :: u64 where "PT_ADDRESS_MASK = 0x7ffffffffffff000"
definition H_PAGES :: u64 where "H_PAGES = 0x80"

definition PML4 :: "u64 \<Rightarrow> u64" where "PML4 addr = drop_bit 39 addr AND 0x1ff"
definition PDP :: "u64 \<Rightarrow> u64" where "PDP addr = drop_bit 30 addr AND 0x1ff"
definition PDE :: "u64 \<Rightarrow> u64" where "PDE addr = drop_bit 21 addr AND 0x1ff"
definition PTE :: "u64 \<Rightarrow> u64" where "PTE addr = drop_bit 12 addr AND 0x1ff"

definition get_pt_addr :: "machine \<Rightarrow> u64" where
  "get_pt_addr mc = mc_cr3 mc AND PT_CR3_MASK"

text \<open>
  \<open>frame_number\<close> is a C \<open>int\<close>: the frame is truncated to 32 bits and sign-extended again by the
  return.
\<close>

definition frame_number :: "u64 \<Rightarrow> u64" where
  "frame_number entry = scast (ucast (drop_bit 12 (entry AND PT_ADDRESS_MASK)) :: u32)"

definition get_phys_frame :: "machine \<Rightarrow> u64 \<Rightarrow> u64" where
  "get_phys_frame mc addr =
     (let pml4 = get_pt_addr mc;
          e4 = mc_phys mc (pml4 + 8 * PML4 addr)
      in if e4 AND PRESENT_BIT = 0 then - 1
         else
           let pdp = e4 AND PT_ADDRESS_MASK;
               e3 = mc_phys mc (pdp + 8 * PDP addr)
           in if e3 AND PRESENT_BIT = 0 then - 1
              else if e3 AND H_PAGES \<noteq> 0 then - 1
              else
                let pde = e3 AND PT_ADDRESS_MASK;
                    e2 = mc_phys mc (pde + 8 * PDE addr)
                in if e2 AND PRESENT_BIT = 0 then - 1
                   else if e2 AND H_PAGES \<noteq> 0 then frame_number e2
                   else
                     let pte = e2 AND PT_ADDRESS_MASK;
                         e1 = mc_phys mc (pte + 8 * PTE addr)
                     in if e1 AND PRESENT_BIT = 0 then - 1 else frame_number e1)"

section \<open>Write protection\<close>

definition X86_CR0_WP :: u64 where "X86_CR0_WP = 0x10000"

text \<open>The saved flags are the state of the interrupts.\<close>

definition disable_WP :: "u64 \<Rightarrow> machine \<Rightarrow> bool \<times> machine" where
  "disable_WP cr0 mc = (mc_irq mc,
     mc\<lparr>mc_irq := False, mc_preempt := Suc (mc_preempt mc), mc_cr0 := cr0 AND NOT X86_CR0_WP\<rparr>)"

definition enable_WP :: "bool \<Rightarrow> u64 \<Rightarrow> machine \<Rightarrow> machine" where
  "enable_WP flags cr0 mc = mc\<lparr>mc_cr0 := cr0, mc_preempt := mc_preempt mc - 1, mc_irq := flags\<rparr>"

definition store_table :: "u64 \<Rightarrow> u64 \<Rightarrow> machine \<Rightarrow> machine option" where
  "store_table a v mc =
     (if mc_cr0 mc AND X86_CR0_WP \<noteq> 0 then None
      else map_option (\<lambda>m. mc\<lparr>mc_mem := m\<rparr>) (store64 (mc_mem mc) a v))"

section \<open>Discovery\<close>

definition START_ADDR :: u64 where "START_ADDR = 0xffffffff00000000"
definition END_ADDR :: u64 where "END_ADDR = 0xfffffffffff00000"
definition PAGE_SIZE_DEF :: u64 where "PAGE_SIZE_DEF = 4096"
definition PAGE_BITMASK :: u64 where "PAGE_BITMASK = 0xfffffffffffff000"
definition FREE_ENTRIES :: nat where "FREE_ENTRIES = 7"
definition ni_syscall :: "u64 list" where "ni_syscall = [134, 174, 182, 183, 214, 215, 236]"

definition entry :: "machine \<Rightarrow> u64 \<Rightarrow> u64 \<Rightarrow> u64 option" where
  "entry mc start_tb n = load64 (mc_mem mc) (start_tb + 8 * n)"

text \<open>Whether one of the entries satisfies a condition; all of them are read.\<close>

fun any_entry :: "machine \<Rightarrow> u64 \<Rightarrow> (u64 \<Rightarrow> bool) \<Rightarrow> u64 list \<Rightarrow> bool option" where
  "any_entry mc start_tb P [] = Some False"
| "any_entry mc start_tb P (n # ns) = do {
     e \<leftarrow> entry mc start_tb n;
     b \<leftarrow> any_entry mc start_tb P ns;
     Some (P e \<or> b)
   }"

text \<open>The body of the loop at one offset: \<open>Some first_ni_syscall\<close> when the pattern fits.\<close>

definition pattern_at :: "machine \<Rightarrow> u64 \<Rightarrow> u64 option option" where
  "pattern_at mc offs = do {
     first_ni_syscall \<leftarrow> entry mc offs (ni_syscall ! 0);
     if first_ni_syscall AND 0x3 = 0 \<and> first_ni_syscall \<noteq> 0 \<and> first_ni_syscall > START_ADDR then do {
       differ \<leftarrow> any_entry mc offs (\<lambda>e. e \<noteq> first_ni_syscall)
         (map (\<lambda>i. ni_syscall ! i) [1..<FREE_ENTRIES]);
       if differ then Some None
       else do {
         before \<leftarrow> any_entry mc offs (\<lambda>e. e = first_ni_syscall)
           (map word_of_nat [1..<unat (ni_syscall ! 0)]);
         if before then Some None else Some (Some first_ni_syscall)
       }
     } else Some None
   }"

definition leaves_mapped :: "machine \<Rightarrow> u64 \<Rightarrow> bool" where
  "leaves_mapped mc offs =
     (let next_page = offs + ni_syscall ! (FREE_ENTRIES - 1) * 8
      in (offs AND PAGE_BITMASK) + PAGE_SIZE_DEF = next_page AND PAGE_BITMASK \<and>
         get_phys_frame mc next_page = - 1)"

function pattern_loop :: "u64 \<Rightarrow> u64 \<Rightarrow> machine \<Rightarrow> (bool \<times> machine) option" where
  "pattern_loop addr offs mc =
     (if offs < addr + PAGE_SIZE_DEF then
        if leaves_mapped mc offs then Some (False, mc)
        else do {
          r \<leftarrow> pattern_at mc offs;
          case r of
            Some ni \<Rightarrow> Some (True, mc\<lparr>mc_syscall_table_addr := offs, mc_sys_ni_address := ni\<rparr>)
          | None \<Rightarrow> pattern_loop addr (offs + 1) mc
        }
      else Some (False, mc))"
  by pat_completeness auto
termination
proof (relation "measure (\<lambda>(addr, offs, _). unat (addr + PAGE_SIZE_DEF) - unat offs)")
  fix addr offs :: u64 and mc :: machine and r :: "u64 option"
  assume "offs < addr + PAGE_SIZE_DEF"
  then have "unat offs < unat (addr + PAGE_SIZE_DEF)" by (simp add: word_less_nat_alt)
  moreover have "unat (addr + PAGE_SIZE_DEF) < 2 ^ LENGTH(64)" by (rule unsigned_less)
  ultimately have "unat (offs + 1) = unat offs + 1" by (simp add: unat_word_ariths)
  with \<open>unat offs < unat (addr + PAGE_SIZE_DEF)\<close> show "((addr, offs + 1, mc), addr, offs, mc)
    \<in> measure (\<lambda>(addr, offs, _). unat (addr + PAGE_SIZE_DEF) - unat offs)" by simp
qed simp

definition syscall_table_pattern :: "u64 \<Rightarrow> machine \<Rightarrow> (bool \<times> machine) option" where
  "syscall_table_pattern addr mc = pattern_loop addr addr mc"

lemma page_step: "page < END_ADDR \<Longrightarrow> unat (page + PAGE_SIZE_DEF) = unat page + 4096"
  by (simp add: END_ADDR_def PAGE_SIZE_DEF_def word_less_nat_alt unat_word_ariths)

function find_loop :: "u64 \<Rightarrow> machine \<Rightarrow> machine option" where
  "find_loop page mc =
     (if page < END_ADDR then
        if get_phys_frame mc page \<noteq> - 1 then do {
          (found, mc) \<leftarrow> syscall_table_pattern page mc;
          if found then Some mc else find_loop (page + PAGE_SIZE_DEF) mc
        } else find_loop (page + PAGE_SIZE_DEF) mc
      else Some mc)"
  by pat_completeness auto

termination
  by (relation "measure (\<lambda>(page, _). unat END_ADDR + 4096 - unat page)")
    (auto simp: page_step word_less_nat_alt)

definition find_syscall_table :: "machine \<Rightarrow> machine option" where
  "find_syscall_table mc = find_loop START_ADDR mc"

section \<open>Insertion and cleaning\<close>

text \<open>The first entry among the given ones that holds \<open>sys_ni_address\<close>.\<close>

fun find_free :: "machine \<Rightarrow> u64 list \<Rightarrow> u64 option option" where
  "find_free mc [] = Some None"
| "find_free mc (n # ns) = do {
     e \<leftarrow> entry mc (mc_syscall_table_addr mc) n;
     if e = mc_sys_ni_address mc then Some (Some n) else find_free mc ns
   }"

definition syscall_insert :: "u64 \<Rightarrow> machine \<Rightarrow> (int \<times> machine) option" where
  "syscall_insert syscall_function mc =
     (if mc_syscall_table_addr mc = 0 \<or> mc_sys_ni_address mc = 0 then Some (0, mc)
      else do {
        r \<leftarrow> find_free mc ni_syscall;
        case r of
          None \<Rightarrow> Some (0, mc)
        | Some n \<Rightarrow> do {
            let cr0 = mc_cr0 mc;
            let (flags, mc) = disable_WP cr0 mc;
            mc \<leftarrow> store_table (mc_syscall_table_addr mc + 8 * n) syscall_function mc;
            let mc = enable_WP flags cr0 mc;
            Some (uint n, mc)
          }
      })"

fun clean_loop :: "u64 list \<Rightarrow> machine \<Rightarrow> machine option" where
  "clean_loop [] mc = Some mc"
| "clean_loop (n # ns) mc = do {
     mc \<leftarrow> store_table (mc_syscall_table_addr mc + 8 * n) (mc_sys_ni_address mc) mc;
     clean_loop ns mc
   }"

definition syscall_clean :: "machine \<Rightarrow> machine option" where
  "syscall_clean mc =
     (if mc_syscall_table_addr mc = 0 \<or> mc_sys_ni_address mc = 0 then Some mc
      else do {
        let cr0 = mc_cr0 mc;
        let (flags, mc) = disable_WP cr0 mc;
        mc \<leftarrow> clean_loop ni_syscall mc;
        Some (enable_WP flags cr0 mc)
      })"

text \<open>
  The discovery module: it searches the table when it is loaded and restores it when it is unloaded.
  The argument is the dummy system call that it installs when \<open>TEST_SYSCALL\<close> is defined.
\<close>

definition scth_init_module :: "u64 option \<Rightarrow> machine \<Rightarrow> (int \<times> machine) option" where
  "scth_init_module sys_trial mc = do {
     mc \<leftarrow> find_syscall_table mc;
     case sys_trial of
       None \<Rightarrow> Some (0, mc)
     | Some f \<Rightarrow> do { (_, mc) \<leftarrow> syscall_insert f mc; Some (0, mc) }
   }"

definition scth_cleanup_module :: "machine \<Rightarrow> machine option" where
  "scth_cleanup_module mc = syscall_clean mc"

declare pattern_loop.simps [simp del] find_loop.simps [simp del]

section \<open>Memory\<close>

lemma push_low_byte: "(ucast (ucast v :: u8) :: u64) OR push_bit 8 (drop_bit 8 v) = v"
proof (rule bit_word_eqI)
  fix n
  assume "n < LENGTH(64)"
  then show "bit (ucast (ucast v :: u8) OR push_bit 8 (drop_bit 8 v)) n = bit v n"
    by (cases "n < 8") (simp_all add: bit_simps)
qed

lemma bytes_of_word:
  "foldr (\<lambda>b w. ucast b OR push_bit 8 w) (map (\<lambda>i. ucast (drop_bit (8 * i) v) :: u8) [0..<8]) 0 = (v :: u64)"
proof -
  have top: "drop_bit 64 v = 0" by (rule bit_word_eqI) (auto simp: bit_simps dest: bit_imp_le_length)
  have step: "ucast (ucast (drop_bit n v) :: u8) OR push_bit 8 (drop_bit (n + 8) v) = drop_bit n v" for n
    using push_low_byte [of "drop_bit n v"] by (simp add: drop_bit_drop_bit add.commute)
  show ?thesis
    using step [of 0] step [of 8] step [of 16] step [of 24] step [of 32] step [of 40] step [of 48]
      step [of 56] top
    by (simp add: upt_rec)
qed

lemma those_map_Some: "(\<And>x. x \<in> set xs \<Longrightarrow> f x = Some (g x)) \<Longrightarrow> those (map f xs) = Some (map g xs)"
  by (induction xs) auto

lemma load64_cong: "(\<And>i. i < 8 \<Longrightarrow> m (a + word_of_nat i) = m' (b + word_of_nat i)) \<Longrightarrow> load64 m a = load64 m' b"
  unfolding load64_def by (rule arg_cong [where f = "\<lambda>xs. map_option _ (those xs)"]) simp

lemma load64_store64_same:
  assumes "store64 m a v = Some m'"
  shows "load64 m' a = Some v"
proof -
  have m': "m' = (\<lambda>x. if x - a < 8 then Some (ucast (drop_bit (8 * unat (x - a)) v)) else m x)"
    using assms by (simp add: store64_def split: if_splits)
  have "m' (a + word_of_nat i) = Some (ucast (drop_bit (8 * i) v))" if "i \<in> set [0..<8]" for i
  proof -
    have "(word_of_nat i :: u64) < 8" "unat (word_of_nat i :: u64) = i"
      using that by (auto simp: word_less_nat_alt unat_of_nat)
    then show ?thesis by (simp add: m')
  qed
  then have "those (map (\<lambda>i. m' (a + word_of_nat i)) [0..<8]) =
      Some (map (\<lambda>i. ucast (drop_bit (8 * i) v)) [0..<8])" by (rule those_map_Some)
  then show ?thesis unfolding load64_def by (simp only: option.map bytes_of_word)
qed

lemma slot_disjoint:
  fixes n m :: u64
  assumes "n < 256" and "m < 256" and "n \<noteq> m" and "i < 8"
  shows "\<not> 8 * n + word_of_nat i - 8 * m < 8"
proof -
  have n: "unat (8 * n + word_of_nat i) = 8 * unat n + i" and m: "unat (8 * m) = 8 * unat m"
    using assms by (simp_all add: word_less_nat_alt unat_word_ariths unat_of_nat)
  have "unat n \<noteq> unat m" using assms(3) by (simp add: word_unat_eq_iff)
  moreover have "unat n < 256" "unat m < 256" using assms by (simp_all add: word_less_nat_alt)
  ultimately show ?thesis
    using assms(4) unfolding word_less_nat_alt unat_sub_if' n m by auto
qed

lemma load64_store64_slot:
  assumes "store64 m (t + 8 * k) v = Some m'" and "n < 256" "k < 256" "n \<noteq> k"
  shows "load64 m' (t + 8 * n) = load64 m (t + 8 * n)"
proof (rule load64_cong)
  fix i :: nat
  assume i: "i < 8"
  have "t + 8 * n + word_of_nat i - (t + 8 * k) = 8 * n + word_of_nat i - 8 * k" by simp
  then have d: "\<not> t + 8 * n + word_of_nat i - (t + 8 * k) < 8"
    using slot_disjoint [OF assms(2-4) i] by (simp only: not_False_eq_True)
  have "m' = (\<lambda>x. if x - (t + 8 * k) < 8 then Some (ucast (drop_bit (8 * unat (x - (t + 8 * k))) v)) else m x)"
    using assms(1) by (simp add: store64_def split: if_splits)
  with d show "m' (t + 8 * n + word_of_nat i) = m (t + 8 * n + word_of_nat i)" by (simp only: if_False)
qed

lemma load64_mapped: "load64 m a \<noteq> None \<longleftrightarrow> list_all (\<lambda>i. m (a + word_of_nat i) \<noteq> None) [0..<8]"
proof -
  have "those xs \<noteq> None \<longleftrightarrow> list_all (\<lambda>x. x \<noteq> None) xs" for xs :: "u8 option list"
    by (induction xs) (auto split: option.splits)
  then show ?thesis by (simp add: load64_def list_all_iff)
qed

lemma store64_mapped: "load64 m a \<noteq> None \<Longrightarrow> \<exists>m'. store64 m a v = Some m'"
  unfolding load64_mapped by (simp add: store64_def)

section \<open>Slots of the table\<close>

definition slot :: "machine \<Rightarrow> u64 \<Rightarrow> u64 option" where
  "slot mc n = entry mc (mc_syscall_table_addr mc) n"

definition table_ok :: "machine \<Rightarrow> bool" where
  "table_ok mc \<longleftrightarrow> mc_syscall_table_addr mc \<noteq> 0 \<and> mc_sys_ni_address mc \<noteq> 0 \<and>
     (\<forall>n\<in>set ni_syscall. slot mc n \<noteq> None)"

lemma ni_syscall_small: "n \<in> set ni_syscall \<Longrightarrow> n < 256"
  by (auto simp: ni_syscall_def)

lemma slot_fields [simp]:
  "slot (mc\<lparr>mc_cr0 := c\<rparr>) = slot mc" "slot (mc\<lparr>mc_irq := i\<rparr>) = slot mc"
  "slot (mc\<lparr>mc_preempt := p\<rparr>) = slot mc"
  by (simp_all add: fun_eq_iff slot_def entry_def)

text \<open>One write to the table changes one slot.\<close>

lemma store_table_slot:
  assumes "slot mc n \<noteq> None" and "mc_cr0 mc AND X86_CR0_WP = 0" and "n < 256"
  obtains m where "store_table (mc_syscall_table_addr mc + 8 * n) v mc = Some (mc\<lparr>mc_mem := m\<rparr>)"
    "\<And>k. k < 256 \<Longrightarrow> slot (mc\<lparr>mc_mem := m\<rparr>) k = (if k = n then Some v else slot mc k)"
proof -
  let ?a = "mc_syscall_table_addr mc + 8 * n"
  have "load64 (mc_mem mc) ?a \<noteq> None" using assms(1) by (simp add: slot_def entry_def)
  then obtain m where m: "store64 (mc_mem mc) ?a v = Some m" using store64_mapped by blast
  have "slot (mc\<lparr>mc_mem := m\<rparr>) k = (if k = n then Some v else slot mc k)" if "k < 256" for k
    using load64_store64_same [OF m] load64_store64_slot [OF m that assms(3)]
    by (simp add: slot_def entry_def)
  moreover have "store_table ?a v mc = Some (mc\<lparr>mc_mem := m\<rparr>)"
    using assms(2) m by (simp add: store_table_def)
  ultimately show thesis by (intro that)
qed

lemma WP_off: "(w AND NOT X86_CR0_WP) AND X86_CR0_WP = 0"
  by (simp add: and.assoc)

lemma find_free_eq:
  "(\<And>n. n \<in> set ns \<Longrightarrow> slot mc n \<noteq> None) \<Longrightarrow>
     find_free mc ns = Some (List.find (\<lambda>n. slot mc n = Some (mc_sys_ni_address mc)) ns)"
proof (induction ns)
  case (Cons n ns)
  then have "find_free mc ns = Some (List.find (\<lambda>n. slot mc n = Some (mc_sys_ni_address mc)) ns)" by simp
  with Cons.prems [of n] show ?case by (auto simp: slot_def)
qed simp

lemma syscall_insert_result:
  assumes "table_ok mc"
  shows "case List.find (\<lambda>n. slot mc n = Some (mc_sys_ni_address mc)) ni_syscall of
      None \<Rightarrow> syscall_insert f mc = Some (0, mc)
    | Some n \<Rightarrow> n \<in> set ni_syscall \<and> slot mc n = Some (mc_sys_ni_address mc) \<and>
        (\<exists>m. syscall_insert f mc = Some (uint n, mc\<lparr>mc_mem := m\<rparr>) \<and>
          (\<forall>k<256. slot (mc\<lparr>mc_mem := m\<rparr>) k = (if k = n then Some f else slot mc k)))"
proof (cases "List.find (\<lambda>n. slot mc n = Some (mc_sys_ni_address mc)) ni_syscall")
  case None
  with assms show ?thesis
    by (simp add: syscall_insert_def table_ok_def find_free_eq)
next
  case (Some n)
  then have n: "n \<in> set ni_syscall" "slot mc n = Some (mc_sys_ni_address mc)"
    by (auto simp: find_Some_iff in_set_conv_nth)
  let ?mc = "mc\<lparr>mc_irq := False, mc_preempt := Suc (mc_preempt mc), mc_cr0 := mc_cr0 mc AND NOT X86_CR0_WP\<rparr>"
  have "slot ?mc n \<noteq> None" "mc_cr0 ?mc AND X86_CR0_WP = 0"
    using n(2) WP_off by simp_all
  then obtain m where m: "store_table (mc_syscall_table_addr ?mc + 8 * n) f ?mc = Some (?mc\<lparr>mc_mem := m\<rparr>)"
    "\<And>k. k < 256 \<Longrightarrow> slot (?mc\<lparr>mc_mem := m\<rparr>) k = (if k = n then Some f else slot ?mc k)"
    by (rule store_table_slot [OF _ _ ni_syscall_small [OF n(1)]]) blast
  have "syscall_insert f mc = Some (uint n, mc\<lparr>mc_mem := m\<rparr>)"
    using assms m(1) Some
    by (simp add: syscall_insert_def table_ok_def find_free_eq disable_WP_def enable_WP_def)
  moreover have "slot (mc\<lparr>mc_mem := m\<rparr>) k = (if k = n then Some f else slot mc k)" if "k < 256" for k
    using m(2) [OF that] by (simp add: slot_def entry_def)
  ultimately show ?thesis using n Some by auto
qed

lemma syscall_insert_ok:
  assumes "table_ok mc" and "syscall_insert f mc = Some (r, mc')"
  shows "table_ok mc'" "mc_sys_ni_address mc' = mc_sys_ni_address mc" "mc' = mc\<lparr>mc_mem := mc_mem mc'\<rparr>"
proof -
  have "table_ok mc' \<and> mc_sys_ni_address mc' = mc_sys_ni_address mc \<and> mc' = mc\<lparr>mc_mem := mc_mem mc'\<rparr>"
    using syscall_insert_result [OF assms(1), of f] assms ni_syscall_small
    by (auto simp: table_ok_def split: option.splits)
  then show "table_ok mc'" "mc_sys_ni_address mc' = mc_sys_ni_address mc" "mc' = mc\<lparr>mc_mem := mc_mem mc'\<rparr>"
    by blast+
qed

lemma clean_loop_result:
  assumes "\<And>n. n \<in> set ns \<Longrightarrow> slot mc n \<noteq> None" and "mc_cr0 mc AND X86_CR0_WP = 0"
    and "set ns \<subseteq> {n. n < 256}"
  shows "\<exists>m. clean_loop ns mc = Some (mc\<lparr>mc_mem := m\<rparr>) \<and>
    (\<forall>k<256. slot (mc\<lparr>mc_mem := m\<rparr>) k = (if k \<in> set ns then Some (mc_sys_ni_address mc) else slot mc k))"
  using assms
proof (induction ns arbitrary: mc)
  case Nil
  show ?case by (intro exI [of _ "mc_mem mc"]) simp
next
  case (Cons n ns)
  have n: "n < 256" "slot mc n \<noteq> None" using Cons.prems(1,3) by auto
  obtain m where m: "store_table (mc_syscall_table_addr mc + 8 * n) (mc_sys_ni_address mc) mc =
      Some (mc\<lparr>mc_mem := m\<rparr>)"
    "\<And>k. k < 256 \<Longrightarrow> slot (mc\<lparr>mc_mem := m\<rparr>) k = (if k = n then Some (mc_sys_ni_address mc) else slot mc k)"
    by (rule store_table_slot [OF n(2) Cons.prems(2) n(1)]) blast
  let ?mc = "mc\<lparr>mc_mem := m\<rparr>"
  have "slot ?mc k \<noteq> None" if "k \<in> set ns" for k
    using m(2) [of k] Cons.prems(1) [of k] Cons.prems(3) that by auto
  from Cons.IH [of ?mc, OF this] Cons.prems(2,3) obtain m' where
    m': "clean_loop ns ?mc = Some (?mc\<lparr>mc_mem := m'\<rparr>)"
      "\<forall>k<256. slot (?mc\<lparr>mc_mem := m'\<rparr>) k = (if k \<in> set ns then Some (mc_sys_ni_address ?mc) else slot ?mc k)"
    by auto
  with m show ?case by (intro exI [of _ m']) auto
qed

lemma syscall_clean_result:
  assumes "table_ok mc"
  obtains m where "syscall_clean mc = Some (mc\<lparr>mc_mem := m\<rparr>)"
    "\<And>k. k < 256 \<Longrightarrow> slot (mc\<lparr>mc_mem := m\<rparr>) k =
      (if k \<in> set ni_syscall then Some (mc_sys_ni_address mc) else slot mc k)"
proof -
  let ?mc = "mc\<lparr>mc_irq := False, mc_preempt := Suc (mc_preempt mc), mc_cr0 := mc_cr0 mc AND NOT X86_CR0_WP\<rparr>"
  have "\<exists>m. clean_loop ni_syscall ?mc = Some (?mc\<lparr>mc_mem := m\<rparr>) \<and>
    (\<forall>k<256. slot (?mc\<lparr>mc_mem := m\<rparr>) k =
      (if k \<in> set ni_syscall then Some (mc_sys_ni_address ?mc) else slot ?mc k))"
    by (rule clean_loop_result) (use assms ni_syscall_small WP_off in \<open>auto simp: table_ok_def\<close>)
  then obtain m where m: "clean_loop ni_syscall ?mc = Some (?mc\<lparr>mc_mem := m\<rparr>)"
    "\<And>k. k < 256 \<Longrightarrow> slot (?mc\<lparr>mc_mem := m\<rparr>) k =
      (if k \<in> set ni_syscall then Some (mc_sys_ni_address ?mc) else slot ?mc k)" by blast
  have "syscall_clean mc = Some (mc\<lparr>mc_mem := m\<rparr>)"
    using assms m(1) by (simp add: syscall_clean_def table_ok_def disable_WP_def enable_WP_def)
  moreover have "slot (mc\<lparr>mc_mem := m\<rparr>) k =
      (if k \<in> set ni_syscall then Some (mc_sys_ni_address mc) else slot mc k)" if "k < 256" for k
    using m(2) [OF that] by (simp add: slot_def entry_def)
  ultimately show thesis by (rule that)
qed

section \<open>The search\<close>

definition table_pattern :: "machine \<Rightarrow> u64 \<Rightarrow> u64 \<Rightarrow> bool" where
  "table_pattern mc a ni \<longleftrightarrow> ni \<noteq> 0 \<and> ni AND 0x3 = 0 \<and> START_ADDR < ni \<and>
     (\<forall>n\<in>set ni_syscall. entry mc a n = Some ni) \<and>
     (\<forall>j\<in>{1..<134}. \<exists>e. entry mc a (word_of_nat j) = Some e \<and> e \<noteq> ni)"

lemma any_entry_False:
  "any_entry mc a P ns = Some False \<longleftrightarrow> (\<forall>n\<in>set ns. \<exists>e. entry mc a n = Some e \<and> \<not> P e)"
proof (induction ns)
  case (Cons n ns)
  then show ?case
    by (cases "entry mc a n"; cases "any_entry mc a P ns") auto
qed simp

lemma pattern_at_iff: "pattern_at mc a = Some (Some ni) \<longleftrightarrow> table_pattern mc a ni"
proof -
  have upt: "map (\<lambda>i. ni_syscall ! i) [1..<FREE_ENTRIES] = tl ni_syscall"
    by (simp add: FREE_ENTRIES_def ni_syscall_def upt_rec)
  have 134: "unat (ni_syscall ! 0) = 134" by (simp add: ni_syscall_def)
  have set: "(\<forall>n\<in>set ni_syscall. Q n) \<longleftrightarrow> Q (ni_syscall ! 0) \<and> (\<forall>n\<in>set (tl ni_syscall). Q n)" for Q
    by (simp add: ni_syscall_def)
  show ?thesis
  proof (cases "entry mc a (ni_syscall ! 0)")
    case None
    then show ?thesis by (simp add: pattern_at_def table_pattern_def set)
  next
    case (Some f)
    consider (bad) "\<not> (f AND 0x3 = 0 \<and> f \<noteq> 0 \<and> f > START_ADDR)"
      | (good) "f AND 0x3 = 0 \<and> f \<noteq> 0 \<and> f > START_ADDR" by blast
    then show ?thesis
    proof cases
      case bad
      then show ?thesis using Some by (auto simp: pattern_at_def table_pattern_def set)
    next
      case good
      let ?D = "any_entry mc a (\<lambda>e. e \<noteq> f) (tl ni_syscall)"
      let ?B = "any_entry mc a (\<lambda>e. e = f) (map word_of_nat [1..<134])"
      have "pattern_at mc a = do {
          differ \<leftarrow> ?D;
          if differ then Some None
          else do { before \<leftarrow> ?B; if before then Some None else Some (Some f) }
        }" unfolding pattern_at_def upt 134 using good Some by simp
      then have "pattern_at mc a = Some (Some ni) \<longleftrightarrow> ?D = Some False \<and> ?B = Some False \<and> ni = f"
        by (cases ?D; cases ?B) auto
      moreover have "?D = Some False \<longleftrightarrow> (\<forall>n\<in>set (tl ni_syscall). entry mc a n = Some f)"
        by (simp add: any_entry_False)
      moreover have "?B = Some False \<longleftrightarrow> (\<forall>j\<in>{1..<134}. \<exists>e. entry mc a (word_of_nat j) = Some e \<and> e \<noteq> f)"
        by (simp add: any_entry_False)
      moreover have "ni = f" if "table_pattern mc a ni" using that Some by (simp add: table_pattern_def set)
      ultimately show ?thesis using good Some unfolding table_pattern_def set by blast
    qed
  qed
qed

text \<open>What a search returns: the state is unchanged, or the two globals describe a table.\<close>

lemma pattern_loop_sound:
  assumes "pattern_loop addr offs mc = Some (found, mc')"
  shows "if found then \<exists>a ni. mc' = mc\<lparr>mc_syscall_table_addr := a, mc_sys_ni_address := ni\<rparr> \<and>
      offs \<le> a \<and> a < addr + PAGE_SIZE_DEF \<and> table_pattern mc a ni
    else mc' = mc"
  using assms
proof (induction addr offs mc rule: pattern_loop.induct)
  case (1 addr offs mc)
  show ?case
  proof (cases "offs < addr + PAGE_SIZE_DEF \<and> \<not> leaves_mapped mc offs")
    case False
    with "1.prems" have "found = False" "mc' = mc"
      by (subst (asm) pattern_loop.simps; auto split: if_splits)+
    then show ?thesis by simp
  next
    case True
    then obtain r where r: "pattern_at mc offs = Some r"
      using "1.prems" by (subst (asm) pattern_loop.simps) (auto simp: bind_eq_Some_conv)
    show ?thesis
    proof (cases r)
      case (Some ni)
      then have "found" "mc' = mc\<lparr>mc_syscall_table_addr := offs, mc_sys_ni_address := ni\<rparr>"
        using "1.prems" True r by (subst (asm) pattern_loop.simps; simp)+
      moreover have "table_pattern mc offs ni" using r Some pattern_at_iff by simp
      ultimately show ?thesis using True by (simp only: if_True) (intro exI [of _ offs] exI [of _ ni], simp)
    next
      case None
      then have "pattern_loop addr (offs + 1) mc = Some (found, mc')"
        using "1.prems" True r by (subst (asm) pattern_loop.simps) simp
      from "1.IH" [OF _ _ r None this] True
      have IH: "if found then \<exists>a ni. mc' = mc\<lparr>mc_syscall_table_addr := a, mc_sys_ni_address := ni\<rparr> \<and>
          offs + 1 \<le> a \<and> a < addr + PAGE_SIZE_DEF \<and> table_pattern mc a ni else mc' = mc" by simp
      have "unat (addr + PAGE_SIZE_DEF) < 2 ^ LENGTH(64)" by (rule unsigned_less)
      moreover have "unat offs < unat (addr + PAGE_SIZE_DEF)" using True by (simp add: word_less_nat_alt)
      ultimately have "unat (offs + 1) = unat offs + 1" by (simp add: unat_word_ariths)
      then have "offs \<le> offs + 1" by (simp add: word_le_nat_alt)
      with IH show ?thesis by (auto split: if_splits intro: order_trans)
    qed
  qed
qed

lemma find_loop_sound:
  assumes "find_loop page mc = Some mc'"
  shows "mc' = mc \<or> (\<exists>pg a ni. mc' = mc\<lparr>mc_syscall_table_addr := a, mc_sys_ni_address := ni\<rparr> \<and>
      page \<le> pg \<and> pg < END_ADDR \<and> get_phys_frame mc pg \<noteq> - 1 \<and>
      pg \<le> a \<and> a < pg + PAGE_SIZE_DEF \<and> table_pattern mc a ni)"
  using assms
proof (induction page mc rule: find_loop.induct)
  case (1 page mc)
  have page: "page \<le> page + PAGE_SIZE_DEF" if "page < END_ADDR"
    using page_step [OF that] by (simp add: word_le_nat_alt)
  have skip: "mc' = mc \<or> (\<exists>pg a ni. mc' = mc\<lparr>mc_syscall_table_addr := a, mc_sys_ni_address := ni\<rparr> \<and>
      page \<le> pg \<and> pg < END_ADDR \<and> get_phys_frame mc pg \<noteq> - 1 \<and>
      pg \<le> a \<and> a < pg + PAGE_SIZE_DEF \<and> table_pattern mc a ni)"
    if "page < END_ADDR" "mc' = mc \<or> (\<exists>pg a ni. mc' = mc\<lparr>mc_syscall_table_addr := a, mc_sys_ni_address := ni\<rparr> \<and>
      page + PAGE_SIZE_DEF \<le> pg \<and> pg < END_ADDR \<and> get_phys_frame mc pg \<noteq> - 1 \<and>
      pg \<le> a \<and> a < pg + PAGE_SIZE_DEF \<and> table_pattern mc a ni)"
    using that(2) page [OF that(1)] order_trans by blast
  show ?case
  proof (cases "page < END_ADDR")
    case False
    with "1.prems" show ?thesis by (subst (asm) find_loop.simps) simp
  next
    case here: True
    show ?thesis
    proof (cases "get_phys_frame mc page \<noteq> - 1")
      case False
      then have "find_loop (page + PAGE_SIZE_DEF) mc = Some mc'"
        using "1.prems" here by (subst (asm) find_loop.simps) simp
      from "1.IH"(2) [OF here _ this] False show ?thesis by (intro skip [OF here]) simp
    next
      case True
      then obtain found mc1 where p: "pattern_loop page page mc = Some (found, mc1)"
        using "1.prems" here
        by (subst (asm) find_loop.simps) (auto simp: bind_eq_Some_conv syscall_table_pattern_def)
      note sound = pattern_loop_sound [OF p]
      show ?thesis
      proof (cases found)
        case yes: True
        then have "mc' = mc1" using "1.prems" here True p
          by (subst (asm) find_loop.simps) (simp add: syscall_table_pattern_def)
        with sound yes here True show ?thesis by auto
      next
        case no: False
        then have mc1: "mc1 = mc" using sound by simp
        then have "find_loop (page + PAGE_SIZE_DEF) mc = Some mc'"
          using "1.prems" here True p no
          by (subst (asm) find_loop.simps) (simp add: syscall_table_pattern_def)
        with "1.IH"(1) [OF here True, of "(found, mc1)" found mc1] no mc1 p
        show ?thesis by (intro skip [OF here]) (simp add: syscall_table_pattern_def)
      qed
    qed
  qed
qed

end
