(* ===== verification/Tag_Module.thy ===== *)
theory Tag_Module
  imports Tag_Ctl Syscall_Table
begin

text \<open>
  The life cycle of the module (\<open>tag-module/tag-module.c\<close>), the installation of its system calls
  and their wrappers (\<open>tag-module/tag-syscall.c\<close>), and the registration of the character device
  (\<open>tag-module/tag-dev-driver.c\<close>).
\<close>

section \<open>Globals\<close>

text \<open>\<open>None\<close> is a null pointer.\<close>

record globals =
  g_tag_table :: "tag_table_entry hashmap option"
  g_tag_bitmask :: "bitmask option"
  g_tags :: "addr option list option"
  g_common_lock :: rwsem
  g_tag_lock :: "rwsem list"

definition initialize :: "globals \<Rightarrow> outcomes \<Rightarrow> (int \<times> globals \<times> outcomes) option" where
  "initialize g al = do {
     (table, al) \<leftarrow> new_tag_table al;
     let g = g\<lparr>g_tag_table := table\<rparr>;
     if table = None then Some (- 1, g, al)
     else do {
       let (bm, al) = initialize_bitmask MAX_TAGS al;
       let g = g\<lparr>g_tag_bitmask := bm\<rparr>;
       if bm = None then Some (- 1, g\<lparr>g_tag_table := None\<rparr>, al)
       else do {
         let (ok, al) = next_outcome al;
         let g = g\<lparr>g_tags := (if ok then Some (replicate (nat MAX_TAGS) None) else None)\<rparr>;
         if \<not> ok then Some (- 1, g\<lparr>g_tag_table := None, g_tag_bitmask := None\<rparr>, al)
         else Some (0, g\<lparr>g_common_lock := init_rwsem,
           g_tag_lock := replicate (nat MAX_TAGS) init_rwsem\<rparr>, al)
       }
     }
   }"

text \<open>The state of the service once the globals are set.\<close>

definition service :: "globals \<Rightarrow> outcomes \<Rightarrow> outcomes \<Rightarrow> nat list \<Rightarrow> kernel option" where
  "service g al sig cp = do {
     table \<leftarrow> g_tag_table g;
     bm \<leftarrow> g_tag_bitmask g;
     tags \<leftarrow> g_tags g;
     Some \<lparr>k_tag_table = table, k_tag_bitmask = bm, k_tags = tags, k_common_lock = g_common_lock g,
       k_tag_lock = g_tag_lock g, k_tag_heap = Map.empty, k_level_heap = Map.empty, k_next = 0,
       k_alloc = al, k_signal = sig, k_copy = cp\<rparr>
   }"

section \<open>System calls\<close>

text \<open>The addresses of the four entry points, and the numbers they get.\<close>

record handlers =
  h_tag_get :: u64
  h_tag_send :: u64
  h_tag_receive :: u64
  h_tag_ctl :: u64

record numbers =
  tag_get_nr :: int
  tag_send_nr :: int
  tag_receive_nr :: int
  tag_ctl_nr :: int

definition install_syscalls :: "handlers \<Rightarrow> machine \<Rightarrow> (int \<times> numbers \<times> machine) option" where
  "install_syscalls h mc = do {
     (n1, mc) \<leftarrow> syscall_insert (h_tag_get h) mc;
     (n2, mc) \<leftarrow> syscall_insert (h_tag_send h) mc;
     (n3, mc) \<leftarrow> syscall_insert (h_tag_receive h) mc;
     (n4, mc) \<leftarrow> syscall_insert (h_tag_ctl h) mc;
     Some (to_c_int (to_c_int (to_c_int (n1 * n2) * n3) * n4),
       \<lparr>tag_get_nr = n1, tag_send_nr = n2, tag_receive_nr = n3, tag_ctl_nr = n4\<rparr>, mc)
   }"

text \<open>
  The wrappers hold a reference to the module during the call. The kernel refuses it once the
  module is going away.
\<close>

record module_ref =
  mr_live :: bool
  mr_count :: nat

definition try_module_get :: "module_ref \<Rightarrow> bool \<times> module_ref" where
  "try_module_get m = (if mr_live m then (True, m\<lparr>mr_count := Suc (mr_count m)\<rparr>) else (False, m))"

definition module_put :: "module_ref \<Rightarrow> module_ref" where
  "module_put m = m\<lparr>mr_count := mr_count m - 1\<rparr>"

definition sys_tag_get :: "int \<Rightarrow> int \<Rightarrow> int \<Rightarrow> int \<Rightarrow> module_ref \<Rightarrow> kernel \<Rightarrow>
    (int \<times> module_ref \<times> kernel) option" where
  "sys_tag_get key command permission euid m s =
     (let (ok, m) = try_module_get m
      in if \<not> ok then Some (- 1, m, s)
         else do {
           (ret_val, s) \<leftarrow> tag_get key command permission euid s;
           Some (ret_val, module_put m, s)
         })"

definition sys_tag_send :: "int \<Rightarrow> int \<Rightarrow> u8 list option \<Rightarrow> nat \<Rightarrow> int \<Rightarrow> module_ref \<Rightarrow> kernel \<Rightarrow>
    (int \<times> module_ref \<times> kernel) option" where
  "sys_tag_send tag level buffer sz euid m s =
     (let (ok, m) = try_module_get m
      in if \<not> ok then Some (- 1, m, s)
         else do {
           (ret_val, s) \<leftarrow> tag_send tag level buffer sz euid s;
           Some (ret_val, module_put m, s)
         })"

text \<open>\<open>tag_receive\<close> in its two parts: a call that does not return keeps its reference.\<close>

definition sys_tag_receive_enter :: "int \<Rightarrow> int \<Rightarrow> bool \<Rightarrow> nat \<Rightarrow> int \<Rightarrow> module_ref \<Rightarrow> kernel \<Rightarrow>
    ((int + receiver) \<times> module_ref \<times> kernel) option" where
  "sys_tag_receive_enter tag level buffer sz euid m s =
     (let (ok, m) = try_module_get m
      in if \<not> ok then Some (Inl (- 1), m, s)
         else do {
           (r, s) \<leftarrow> tag_receive_enter tag level buffer sz euid s;
           Some (r, (case r of Inl _ \<Rightarrow> module_put m | Inr _ \<Rightarrow> m), s)
         })"

definition sys_tag_receive_leave :: "tid \<Rightarrow> bool \<Rightarrow> receiver \<Rightarrow> module_ref \<Rightarrow> kernel \<Rightarrow>
    (int \<times> u8 list \<times> module_ref \<times> kernel) option" where
  "sys_tag_receive_leave t woken rc m s = do {
     (ret_val, bytes, s) \<leftarrow> tag_receive_leave t woken rc s;
     Some (ret_val, bytes, module_put m, s)
   }"

definition sys_tag_ctl :: "int \<Rightarrow> int \<Rightarrow> int \<Rightarrow> module_ref \<Rightarrow> kernel \<Rightarrow> (int \<times> module_ref \<times> kernel) option" where
  "sys_tag_ctl tag command euid m s =
     (let (ok, m) = try_module_get m
      in if \<not> ok then Some (- 1, m, s)
         else do {
           (ret_val, s) \<leftarrow> tag_ctl tag command euid s;
           Some (ret_val, module_put m, s)
         })"

section \<open>The character device\<close>

text \<open>What the kernel holds for the device; the outcomes say which of the four calls succeed.\<close>

record chardev =
  cd_region :: bool
  cd_class :: bool
  cd_cdev :: bool
  cd_device :: bool

definition no_chardev :: chardev where
  "no_chardev = \<lparr>cd_region = False, cd_class = False, cd_cdev = False, cd_device = False\<rparr>"

definition register_chardev :: "outcomes \<Rightarrow> chardev \<Rightarrow> chardev \<times> outcomes" where
  "register_chardev os c =
     (let (ok, os) = next_outcome os
      in if \<not> ok then (c, os)
         else
           let c = c\<lparr>cd_region := True\<rparr>; (ok, os) = next_outcome os
           in if \<not> ok then (c, os)
              else
                let c = c\<lparr>cd_class := True\<rparr>; (ok, os) = next_outcome os
                in if \<not> ok then (c\<lparr>cd_class := False, cd_region := False\<rparr>, os)
                   else
                     let c = c\<lparr>cd_cdev := True\<rparr>; (ok, os) = next_outcome os
                     in if \<not> ok then (c\<lparr>cd_cdev := False, cd_class := False, cd_region := False\<rparr>, os)
                        else (c\<lparr>cd_device := True\<rparr>, os))"

definition unregister_chardev :: "chardev \<Rightarrow> chardev" where
  "unregister_chardev c =
     c\<lparr>cd_cdev := False, cd_device := False, cd_class := False, cd_region := False\<rparr>"

section \<open>Loading and unloading\<close>

record module_state =
  ms_globals :: globals
  ms_machine :: machine
  ms_numbers :: numbers
  ms_chardev :: chardev
  ms_alloc :: outcomes
  ms_dev :: outcomes

definition init_module :: "handlers \<Rightarrow> module_state \<Rightarrow> (int \<times> module_state) option" where
  "init_module h ms = do {
     (r, g, al) \<leftarrow> initialize (ms_globals ms) (ms_alloc ms);
     let ms = ms\<lparr>ms_globals := g, ms_alloc := al\<rparr>;
     if r \<noteq> 0 then Some (- 1, ms)
     else do {
       (r, ns, mc) \<leftarrow> install_syscalls h (ms_machine ms);
       let ms = ms\<lparr>ms_numbers := ns, ms_machine := mc\<rparr>;
       if r = 0
       then Some (- 1, ms\<lparr>ms_globals := g\<lparr>g_tags := None, g_tag_table := None, g_tag_bitmask := None\<rparr>\<rparr>)
       else do {
         let (cd, os) = register_chardev (ms_dev ms) (ms_chardev ms);
         Some (0, ms\<lparr>ms_chardev := cd, ms_dev := os\<rparr>)
       }
     }
   }"

text \<open>The loop of \<open>cleanup_module\<close> over the tags that are left.\<close>

fun cleanup_tags :: "addr option list \<Rightarrow> kernel \<Rightarrow> kernel option" where
  "cleanup_tags [] s = Some s"
| "cleanup_tags (None # ts) s = cleanup_tags ts s"
| "cleanup_tags (Some te # ts) s = do {
     tag_entry \<leftarrow> k_tag_heap s te;
     s \<leftarrow> clear_tag_level (tg_tag_level tag_entry) s;
     s \<leftarrow> kfree_tag te s;
     cleanup_tags ts s
   }"

definition cleanup_module :: "chardev \<Rightarrow> kernel \<Rightarrow> (chardev \<times> kernel) option" where
  "cleanup_module c s = do {
     s \<leftarrow> cleanup_tags (k_tags s) s;
     Some (unregister_chardev c, s)
   }"

section \<open>Initialisation\<close>

definition no_globals :: globals where
  "no_globals = \<lparr>g_tag_table = None, g_tag_bitmask = None, g_tags = None, g_common_lock = init_rwsem,
     g_tag_lock = []\<rparr>"

definition globals_ready :: "globals \<Rightarrow> bool" where
  "globals_ready g \<longleftrightarrow>
     (\<exists>table bm. g_tag_table g = Some table \<and> tag_table_ok table \<and> tag_table_map table = Map.empty \<and>
        g_tag_bitmask g = Some bm \<and> bm_wf bm \<and> bm_cap bm = 256 \<and> bm_used bm = {} \<and>
        g_tags g = Some (replicate 256 None) \<and> g_common_lock g = init_rwsem \<and>
        g_tag_lock g = replicate 256 init_rwsem)"

lemma initialize_result:
  obtains r g al' where "initialize no_globals al = Some (r, g, al')"
    "r = 0 \<and> globals_ready g \<or> r = - 1 \<and> g_tag_table g = None \<and> g_tag_bitmask g = None \<and> g_tags g = None"
    "al = [] \<longrightarrow> r = 0"
proof -
  obtain t al1 where t: "new_tag_table al = Some (t, al1)"
    "\<forall>m. t = Some m \<longrightarrow> tag_table_ok m \<and> tag_table_map m = Map.empty \<and> hashmap_count m = 0"
    "al = [] \<longrightarrow> t \<noteq> None" by (rule new_tag_table_ok)
  obtain b al2 where b: "initialize_bitmask MAX_TAGS al1 = (b, al2)" by force
  obtain ok al3 where ok: "next_outcome al2 = (ok, al3)" by force
  have wf: "bm_wf bm \<and> bm_used bm = {} \<and> bm_cap bm = 256" if "b = Some bm" for bm
    using initialize_bitmask_wf [of MAX_TAGS al1 bm al2] b that by (simp add: MAX_TAGS_def INT_MAX_def bm_cap_def)
  have mt: "nat MAX_TAGS = 256" by (simp add: MAX_TAGS_def)
  show thesis
  proof (cases t)
    case None
    with t show thesis by (intro that) (auto simp: initialize_def no_globals_def)
  next
    case table: (Some m)
    show thesis
    proof (cases b)
      case None
      have "al1 = []" if "al = []"
        using t(1) that by (auto simp: new_tag_table_def hashmap_new_with_allocator_def Let_def
            bind_eq_Some_conv split: if_splits)
      then have "al \<noteq> []" using None b by (auto simp: initialize_bitmask_def Let_def MAX_TAGS_def)
      with None table t b show thesis by (intro that) (auto simp: initialize_def no_globals_def)
    next
      case (Some bm)
      have al1: "al1 = []" if "al = []"
        using t(1) that by (auto simp: new_tag_table_def hashmap_new_with_allocator_def Let_def
            bind_eq_Some_conv split: if_splits)
      then have al2: "al2 = []" if "al = []" using b that by (auto simp: initialize_bitmask_def Let_def MAX_TAGS_def)
      then have nil: "ok" if "al = []" using ok that by auto
      show thesis
      proof (cases ok)
        case False
        with Some table t b ok nil show thesis by (intro that) (auto simp: initialize_def no_globals_def)
      next
        case True
        with Some table t b ok wf show thesis
          by (intro that) (auto simp: initialize_def no_globals_def globals_ready_def mt)
      qed
    qed
  qed
qed

lemma service_inv:
  assumes "globals_ready g" and "service g al sig cp = Some k"
  shows "sys_inv k Map.empty"
proof -
  obtain table bm where g: "tag_table_ok table" "tag_table_map table = Map.empty" "bm_wf bm"
      "bm_cap bm = 256" "bm_used bm = {}"
    and k: "k = \<lparr>k_tag_table = table, k_tag_bitmask = bm, k_tags = replicate 256 None,
      k_common_lock = init_rwsem, k_tag_lock = replicate 256 init_rwsem, k_tag_heap = Map.empty,
      k_level_heap = Map.empty, k_next = 0, k_alloc = al, k_signal = sig, k_copy = cp\<rparr>"
    using assms by (auto simp: globals_ready_def service_def)
  have none: "entry_at k i = None" "lp_at k i l = None" if "i < 256" for i l
    using that by (simp_all add: entry_at_def lp_at_def k)
  have tw: "tag_waiters Map.empty i = {}" for i by (simp add: tag_waiters_def)
  have "tags_ok k Map.empty" by (simp add: tags_ok_def k)
  moreover have "\<not> owns k Map.empty p i l" for p i l using none(2) [of i l] by (auto simp: owns_def)
  then have "owners_ok k Map.empty" unfolding owners_ok_def by blast
  moreover have "locks_ok k Map.empty" by (simp add: locks_ok_def k tw init_rwsem_read_locked)
  moreover have "registry_inv k"
  proof -
    have f: "k_tag_table k = table" "k_tag_bitmask k = bm" "length (k_tags k) = 256" by (simp_all add: k)
    have "registry_ok te_tag_key (bm_used bm) (tag_table_map table)" unfolding g(2) by simp
    then show ?thesis unfolding registry_inv_def f using g none by simp
  qed
  moreover have "heap_ok k" by (simp add: heap_ok_def k)
  ultimately show ?thesis unfolding sys_inv_def by simp
qed

section \<open>Installation of the system calls\<close>

definition free_slots :: "machine \<Rightarrow> u64 list" where
  "free_slots mc = filter (\<lambda>n. slot mc n = Some (mc_sys_ni_address mc)) ni_syscall"

lemma find_filter: "List.find P xs = (case filter P xs of [] \<Rightarrow> None | x # _ \<Rightarrow> Some x)"
  by (induction xs) auto

lemma insert_none:
  assumes "table_ok mc" and "free_slots mc = []"
  shows "syscall_insert f mc = Some (0, mc)"
  using syscall_insert_result [OF assms(1), of f] assms(2) by (simp add: free_slots_def find_filter)

lemma insert_first:
  assumes "table_ok mc" and "free_slots mc = n # ns" and "f \<noteq> mc_sys_ni_address mc"
  obtains m where "syscall_insert f mc = Some (uint n, mc\<lparr>mc_mem := m\<rparr>)" "table_ok (mc\<lparr>mc_mem := m\<rparr>)"
    "free_slots (mc\<lparr>mc_mem := m\<rparr>) = ns"
    "\<And>k. k < 256 \<Longrightarrow> slot (mc\<lparr>mc_mem := m\<rparr>) k = (if k = n then Some f else slot mc k)"
proof -
  have "List.find (\<lambda>n. slot mc n = Some (mc_sys_ni_address mc)) ni_syscall = Some n"
    using assms(2) by (simp add: free_slots_def find_filter)
  with syscall_insert_result [OF assms(1), of f] obtain m where
    m: "syscall_insert f mc = Some (uint n, mc\<lparr>mc_mem := m\<rparr>)"
      "\<forall>k<256. slot (mc\<lparr>mc_mem := m\<rparr>) k = (if k = n then Some f else slot mc k)" by auto
  let ?P = "\<lambda>k. slot mc k = Some (mc_sys_ni_address mc)"
  have "slot (mc\<lparr>mc_mem := m\<rparr>) k = Some (mc_sys_ni_address mc) \<longleftrightarrow> ?P k \<and> k \<noteq> n"
    if "k \<in> set ni_syscall" for k
    using m(2) ni_syscall_small [OF that] assms(3) by (cases "k = n") auto
  then have "filter (\<lambda>k. slot (mc\<lparr>mc_mem := m\<rparr>) k = Some (mc_sys_ni_address mc)) ni_syscall =
      filter (\<lambda>k. k \<noteq> n) (filter ?P ni_syscall)"
    unfolding filter_filter by (rule filter_cong [OF refl])
  also have "\<dots> = ns"
  proof -
    have "distinct (filter ?P ni_syscall)" by (rule distinct_filter) (simp add: ni_syscall_def)
    then have "n \<notin> set ns" using assms(2) by (simp add: free_slots_def)
    then have "filter (\<lambda>k. k \<noteq> n) ns = ns" by (auto intro: filter_True)
    then show ?thesis using assms(2) by (simp add: free_slots_def)
  qed
  finally have "free_slots (mc\<lparr>mc_mem := m\<rparr>) = ns" by (simp add: free_slots_def)
  then show thesis
    using m(2) by (intro that [OF m(1) syscall_insert_ok(1) [OF assms(1) m(1)]]) blast+
qed

lemma uint_slot: "n \<in> set ni_syscall \<Longrightarrow> 134 \<le> uint n \<and> uint n \<le> 236"
  by (auto simp: ni_syscall_def)

text \<open>The product of four numbers can exceed an \<open>int\<close>, but it does not wrap to 0.\<close>

lemma to_c_int_nonzero: "0 < x \<Longrightarrow> x < 4294967296 \<Longrightarrow> to_c_int x \<noteq> 0"
proof
  assume x: "0 < x" "x < 4294967296" "to_c_int x = 0"
  have "take_bit 32 (to_c_int x) = take_bit 32 x"
    by (simp add: to_c_int_def take_bit_signed_take_bit)
  with x show False by (simp add: take_bit_eq_mod)
qed

lemma number_product:
  fixes a b c d :: int
  assumes "134 \<le> a \<and> a \<le> 236" "134 \<le> b \<and> b \<le> 236" "134 \<le> c \<and> c \<le> 236" "134 \<le> d \<and> d \<le> 236"
  shows "to_c_int (to_c_int (to_c_int (a * b) * c) * d) \<noteq> 0"
proof -
  have ab: "0 < a * b" "a * b \<le> 236 * 236" using assms mult_mono [of a 236 b 236] by auto
  have abc: "0 < a * b * c" "a * b * c \<le> 236 * 236 * 236"
    using assms ab mult_mono [of "a * b" "236 * 236" c 236] by auto
  have abcd: "0 < a * b * c * d" "a * b * c * d \<le> 236 * 236 * 236 * 236"
    using assms abc mult_mono [of "a * b * c" "236 * 236 * 236" d 236] by auto
  have "to_c_int (a * b) = a * b" "to_c_int (a * b * c) = a * b * c"
    using ab abc by (auto intro!: to_c_int_small simp: INT_MAX_def)
  with abcd show ?thesis by (simp add: to_c_int_nonzero)
qed

text \<open>With four free entries the calls get the first four of them.\<close>

lemma install_syscalls_four:
  assumes ok: "table_ok mc" and free: "free_slots mc = n1 # n2 # n3 # n4 # ns"
    and h: "mc_sys_ni_address mc \<notin> {h_tag_get h, h_tag_send h, h_tag_receive h, h_tag_ctl h}"
  obtains r m where "install_syscalls h mc = Some (r, \<lparr>tag_get_nr = uint n1, tag_send_nr = uint n2,
      tag_receive_nr = uint n3, tag_ctl_nr = uint n4\<rparr>, mc\<lparr>mc_mem := m\<rparr>)" "r \<noteq> 0"
    "table_ok (mc\<lparr>mc_mem := m\<rparr>)" "free_slots (mc\<lparr>mc_mem := m\<rparr>) = ns"
    "\<And>k. k < 256 \<Longrightarrow> slot (mc\<lparr>mc_mem := m\<rparr>) k =
      (if k = n4 then Some (h_tag_ctl h) else if k = n3 then Some (h_tag_receive h)
       else if k = n2 then Some (h_tag_send h) else if k = n1 then Some (h_tag_get h) else slot mc k)"
proof -
  have mem: "n1 \<in> set ni_syscall" "n2 \<in> set ni_syscall" "n3 \<in> set ni_syscall" "n4 \<in> set ni_syscall"
    using arg_cong [OF free, of set] by (auto simp: free_slots_def)
  obtain m1 where 1: "syscall_insert (h_tag_get h) mc = Some (uint n1, mc\<lparr>mc_mem := m1\<rparr>)"
      "table_ok (mc\<lparr>mc_mem := m1\<rparr>)" "free_slots (mc\<lparr>mc_mem := m1\<rparr>) = n2 # n3 # n4 # ns"
      "\<And>k. k < 256 \<Longrightarrow> slot (mc\<lparr>mc_mem := m1\<rparr>) k = (if k = n1 then Some (h_tag_get h) else slot mc k)"
  proof -
      have "h_tag_get h \<noteq> mc_sys_ni_address mc" using h by auto
      from insert_first [OF ok free this] that show thesis by blast
    qed
  let ?mc1 = "mc\<lparr>mc_mem := m1\<rparr>"
  obtain m2 where 2: "syscall_insert (h_tag_send h) ?mc1 = Some (uint n2, ?mc1\<lparr>mc_mem := m2\<rparr>)"
      "table_ok (?mc1\<lparr>mc_mem := m2\<rparr>)" "free_slots (?mc1\<lparr>mc_mem := m2\<rparr>) = n3 # n4 # ns"
      "\<And>k. k < 256 \<Longrightarrow> slot (?mc1\<lparr>mc_mem := m2\<rparr>) k = (if k = n2 then Some (h_tag_send h) else slot ?mc1 k)"
  proof -
      have "h_tag_send h \<noteq> mc_sys_ni_address ?mc1" using h by auto
      from insert_first [OF 1(2,3) this] that show thesis by blast
    qed
  let ?mc2 = "?mc1\<lparr>mc_mem := m2\<rparr>"
  obtain m3 where 3: "syscall_insert (h_tag_receive h) ?mc2 = Some (uint n3, ?mc2\<lparr>mc_mem := m3\<rparr>)"
      "table_ok (?mc2\<lparr>mc_mem := m3\<rparr>)" "free_slots (?mc2\<lparr>mc_mem := m3\<rparr>) = n4 # ns"
      "\<And>k. k < 256 \<Longrightarrow> slot (?mc2\<lparr>mc_mem := m3\<rparr>) k = (if k = n3 then Some (h_tag_receive h) else slot ?mc2 k)"
  proof -
      have "h_tag_receive h \<noteq> mc_sys_ni_address ?mc2" using h by auto
      from insert_first [OF 2(2,3) this] that show thesis by blast
    qed
  let ?mc3 = "?mc2\<lparr>mc_mem := m3\<rparr>"
  obtain m4 where 4: "syscall_insert (h_tag_ctl h) ?mc3 = Some (uint n4, ?mc3\<lparr>mc_mem := m4\<rparr>)"
      "table_ok (?mc3\<lparr>mc_mem := m4\<rparr>)" "free_slots (?mc3\<lparr>mc_mem := m4\<rparr>) = ns"
      "\<And>k. k < 256 \<Longrightarrow> slot (?mc3\<lparr>mc_mem := m4\<rparr>) k = (if k = n4 then Some (h_tag_ctl h) else slot ?mc3 k)"
  proof -
      have "h_tag_ctl h \<noteq> mc_sys_ni_address ?mc3" using h by auto
      from insert_first [OF 3(2,3) this] that show thesis by blast
    qed
  let ?mc4 = "?mc3\<lparr>mc_mem := m4\<rparr>"
  have "to_c_int (to_c_int (to_c_int (uint n1 * uint n2) * uint n3) * uint n4) \<noteq> 0"
    by (rule number_product) (use mem uint_slot in auto)
  with 1(1) 2(1) 3(1) 4 1(4) 2(4) 3(4) show thesis
    by (intro that [of "to_c_int (to_c_int (to_c_int (uint n1 * uint n2) * uint n3) * uint n4)" m4])
      (simp_all add: install_syscalls_def)
qed

lemma install_syscalls_few:
  assumes ok: "table_ok mc" and free: "free_slots mc = [n1]"
    and h: "mc_sys_ni_address mc \<notin> {h_tag_get h, h_tag_send h, h_tag_receive h, h_tag_ctl h}"
  obtains ns m where "install_syscalls h mc = Some (0, ns, mc\<lparr>mc_mem := m\<rparr>)"
    "slot (mc\<lparr>mc_mem := m\<rparr>) n1 = Some (h_tag_get h)"
proof -
  have "n1 < 256" using arg_cong [OF free, of set] ni_syscall_small by (auto simp: free_slots_def)
  obtain m1 where 1: "syscall_insert (h_tag_get h) mc = Some (uint n1, mc\<lparr>mc_mem := m1\<rparr>)"
      "table_ok (mc\<lparr>mc_mem := m1\<rparr>)" "free_slots (mc\<lparr>mc_mem := m1\<rparr>) = []"
      "\<And>k. k < 256 \<Longrightarrow> slot (mc\<lparr>mc_mem := m1\<rparr>) k = (if k = n1 then Some (h_tag_get h) else slot mc k)"
  proof -
      have "h_tag_get h \<noteq> mc_sys_ni_address mc" using h by auto
      from insert_first [OF ok free this] that show thesis by blast
    qed
  from insert_none [OF 1(2,3)] 1(1,4) \<open>n1 < 256\<close> show thesis
    by (intro that [of _ m1]) (simp_all add: install_syscalls_def to_c_int_def)
qed

section \<open>Unloading\<close>

text \<open>The entries in the list, and the levels of those entries.\<close>

definition entries_of :: "addr option list \<Rightarrow> addr set" where
  "entries_of ts = {te. Some te \<in> set ts}"

definition levels_of :: "kernel \<Rightarrow> addr option list \<Rightarrow> addr set" where
  "levels_of s ts = {p. \<exists>te tg. Some te \<in> set ts \<and> k_tag_heap s te = Some tg \<and> p \<in> pointers (tg_tag_level tg)}"

text \<open>Each entry is live, its levels are live and distinct, and no two entries share anything.\<close>

fun separate :: "kernel \<Rightarrow> addr option list \<Rightarrow> bool" where
  "separate s [] \<longleftrightarrow> True"
| "separate s (None # ts) \<longleftrightarrow> separate s ts"
| "separate s (Some te # ts) \<longleftrightarrow> separate s ts \<and> te \<notin> entries_of ts \<and>
     (\<exists>tg. k_tag_heap s te = Some tg \<and> distinct (filter (\<lambda>x. x \<noteq> None) (tg_tag_level tg)) \<and>
       (\<forall>p\<in>pointers (tg_tag_level tg). k_level_heap s p \<noteq> None) \<and>
       pointers (tg_tag_level tg) \<inter> levels_of s ts = {})"

lemma entries_of_simps [simp]:
  "entries_of [] = {}" "entries_of (None # ts) = entries_of ts"
  "entries_of (Some te # ts) = insert te (entries_of ts)"
  by (auto simp: entries_of_def)

lemma levels_of_simps:
  "levels_of s [] = {}" "levels_of s (None # ts) = levels_of s ts"
  "k_tag_heap s te = Some tg \<Longrightarrow> levels_of s (Some te # ts) = pointers (tg_tag_level tg) \<union> levels_of s ts"
  by (auto simp: levels_of_def)

lemma levels_of_cong:
  "(\<And>te. te \<in> entries_of ts \<Longrightarrow> k_tag_heap s' te = k_tag_heap s te) \<Longrightarrow> levels_of s' ts = levels_of s ts"
  by (auto simp: levels_of_def entries_of_def)

lemma separate_cong:
  assumes "separate s ts" and "\<And>te. te \<in> entries_of ts \<Longrightarrow> k_tag_heap s' te = k_tag_heap s te"
    and "\<And>p. p \<in> levels_of s ts \<Longrightarrow> k_level_heap s' p = k_level_heap s p"
  shows "separate s' ts"
  using assms
proof (induction s ts rule: separate.induct)
  case (3 s te ts)
  then obtain tg where tg: "k_tag_heap s te = Some tg" "distinct (filter (\<lambda>x. x \<noteq> None) (tg_tag_level tg))"
      "\<forall>p\<in>pointers (tg_tag_level tg). k_level_heap s p \<noteq> None"
      "pointers (tg_tag_level tg) \<inter> levels_of s ts = {}" "separate s ts" "te \<notin> entries_of ts"
    by auto
  note lv = levels_of_simps(3) [OF tg(1)]
  have "separate s' ts" using "3.IH" tg(5) "3.prems"(2,3) lv by simp
  moreover have "levels_of s' ts = levels_of s ts" using "3.prems"(2) by (intro levels_of_cong) simp
  ultimately show ?case using tg "3.prems"(2,3) lv by simp
qed (simp_all add: levels_of_simps)

lemma cleanup_tags_result:
  assumes "separate s ts"
  shows "cleanup_tags ts s = Some (s\<lparr>k_tag_heap := (k_tag_heap s) |` (- entries_of ts),
    k_level_heap := (k_level_heap s) |` (- levels_of s ts)\<rparr>)"
  using assms
proof (induction ts s rule: cleanup_tags.induct)
  case (1 s)
  then show ?case by (simp add: levels_of_simps restrict_map_def)
next
  case (2 ts s)
  then show ?case by (simp add: levels_of_simps)
next
  case (3 te ts s)
  then obtain tg where tg: "k_tag_heap s te = Some tg" "distinct (filter (\<lambda>x. x \<noteq> None) (tg_tag_level tg))"
      "\<forall>p\<in>pointers (tg_tag_level tg). k_level_heap s p \<noteq> None"
      "pointers (tg_tag_level tg) \<inter> levels_of s ts = {}" "separate s ts" "te \<notin> entries_of ts" by auto
  let ?s1 = "s\<lparr>k_level_heap := (k_level_heap s) |` (- pointers (tg_tag_level tg))\<rparr>"
  let ?s2 = "?s1\<lparr>k_tag_heap := (k_tag_heap s)(te := None)\<rparr>"
  have clear: "clear_tag_level (tg_tag_level tg) s = Some ?s1"
    by (rule clear_tag_level_eq [OF tg(2)]) (use tg(3) in blast)
  have free: "kfree_tag te ?s1 = Some ?s2" using tg(1) by (simp add: kfree_tag_def)
  have h: "k_tag_heap ?s2 a = k_tag_heap s a" if "a \<in> entries_of ts" for a using that tg(6) by auto
  have "k_level_heap ?s2 p = k_level_heap s p" if "p \<in> levels_of s ts" for p
    using that tg(4) by (auto simp: restrict_map_def)
  then have "separate ?s2 ts" using separate_cong [OF tg(5)] h by blast
  from "3.IH" [OF tg(1) clear free this] have
    "cleanup_tags ts ?s2 = Some (?s2\<lparr>k_tag_heap := (k_tag_heap ?s2) |` (- entries_of ts),
      k_level_heap := (k_level_heap ?s2) |` (- levels_of ?s2 ts)\<rparr>)" .
  moreover have "levels_of ?s2 ts = levels_of s ts" by (rule levels_of_cong) (rule h)
  moreover have "(k_tag_heap ?s2) |` (- entries_of ts) = (k_tag_heap s) |` (- entries_of (Some te # ts))"
    by (auto simp: restrict_map_def fun_eq_iff)
  moreover have "(k_level_heap ?s2) |` (- levels_of s ts) = (k_level_heap s) |` (- levels_of s (Some te # ts))"
    unfolding levels_of_simps(3) [OF tg(1)] by (auto simp: restrict_map_def fun_eq_iff)
  moreover have "cleanup_tags (Some te # ts) s = cleanup_tags ts ?s2"
    by (simp only: cleanup_tags.simps tg(1) clear free Option.bind.simps)
  ultimately show ?case by simp
qed

text \<open>The tags of a state of the invariant are separate.\<close>

lemma separateI:
  assumes inv: "sys_inv k R"
  shows "n \<le> 256 \<Longrightarrow> separate k (drop (256 - n) (k_tags k))"
proof (induction n)
  case 0
  have "length (k_tags k) = 256" using sys_invD(6) [OF inv] by (simp add: registry_inv_def)
  then show ?case by simp
next
  case (Suc n)
  note D = sys_invD [OF inv]
  let ?i = "256 - Suc n"
  have i: "?i < 256" "Suc ?i = 256 - n" using Suc.prems by simp_all
  have len: "length (k_tags k) = 256" using D(6) by (simp add: registry_inv_def)
  then have eq: "drop ?i (k_tags k) = k_tags k ! ?i # drop (256 - n) (k_tags k)"
    using i by (metis Cons_nth_drop_Suc)
  have later: "\<exists>j. ?i < j \<and> j < 256 \<and> k_tags k ! j = Some te" if te: "Some te \<in> set (drop (256 - n) (k_tags k))" for te
  proof -
    obtain m where m: "m < length (drop (256 - n) (k_tags k))" "drop (256 - n) (k_tags k) ! m = Some te"
      using te unfolding in_set_conv_nth by blast
    have "256 - n \<le> length (k_tags k)" using len by linarith
    then have "k_tags k ! (256 - n + m) = Some te" using m(2) by (simp only: nth_drop)
    moreover have "256 - n + m < 256" using m(1) len unfolding length_drop by linarith
    moreover have "?i < 256 - n + m" using i(2) by linarith
    ultimately show ?thesis by blast
  qed
  show ?case
  proof (cases "k_tags k ! ?i")
    case None
    with eq Suc show ?thesis by simp
  next
    case (Some te)
    obtain tg where tg: "k_tag_heap k te = Some tg" using tags_okE [OF D(2) i(1) Some] by blast
    note ptr = tag_level_pointers [OF inv i(1) Some tg]
    have "te \<notin> entries_of (drop (256 - n) (k_tags k))"
    proof
      assume "te \<in> entries_of (drop (256 - n) (k_tags k))"
      then obtain j where "?i < j" "j < 256" "k_tags k ! j = Some te" using later by (auto simp: entries_of_def)
      with tags_distinct [OF D(2) i(1) _ Some] show False by blast
    qed
    moreover have "p \<notin> levels_of k (drop (256 - n) (k_tags k))" if p: "p \<in> pointers (tg_tag_level tg)" for p
    proof
      assume "p \<in> levels_of k (drop (256 - n) (k_tags k))"
      then obtain te' tg' j where j: "?i < j" "j < 256" "k_tags k ! j = Some te'" "k_tag_heap k te' = Some tg'"
          "p \<in> pointers (tg_tag_level tg')" using later by (auto simp: levels_of_def) blast
      obtain l m where "l < LEVELS" "lp_at k ?i l = Some p" "m < LEVELS" "lp_at k j m = Some p"
        using ptr(2) [of p] p tag_level_pointers(2) [OF inv j(2-4), of p] j(5) by blast
      then have "owns k R p ?i l" "owns k R p j m" using i(1) j(2) by (simp_all add: owns_def)
      with D(4) j(1) show False unfolding owners_ok_def by blast
    qed
    moreover have "separate k (drop (256 - n) (k_tags k))" using Suc by simp
    moreover have "\<forall>p\<in>pointers (tg_tag_level tg). k_level_heap k p \<noteq> None" using ptr(3) by blast
    ultimately show ?thesis unfolding eq Some separate.simps using tg ptr(1) by blast
  qed
qed

lemma cleanup_module_result:
  assumes inv: "sys_inv k R"
  shows "cleanup_module c k = Some (unregister_chardev c, k\<lparr>k_tag_heap := (k_tag_heap k) |` (- entries_of (k_tags k)),
    k_level_heap := (k_level_heap k) |` (- levels_of k (k_tags k))\<rparr>)"
  using cleanup_tags_result [of k "k_tags k"] separateI [OF inv, of 256] by (simp add: cleanup_module_def)

end
