(* ===== verification/Tag_System.thy ===== *)
theory Tag_System
  imports Tag_Module
begin

text \<open>
  The service as a transition system. Between two steps a thread is outside the handlers, or it is
  inside \<open>tag_receive\<close>, registered on a level; a step is a whole call of \<open>tag_get\<close>, \<open>tag_send\<close> or
  \<open>tag_ctl\<close>, or one of the parts of \<open>tag_receive\<close>. The invariant holds in every reachable state.
\<close>

section \<open>Steps\<close>

definition asleep :: "kernel \<Rightarrow> tid \<Rightarrow> receiver \<Rightarrow> bool" where
  "asleep k t c \<longleftrightarrow> (case k_level_heap k (rc_lp c) of None \<Rightarrow> False | Some lv \<Rightarrow> t \<in> set (tl_local_wq lv))"

text \<open>
  A sleeping thread leaves with the condition true only after it has been taken off the queue. A
  signal ends the wait at any time. The environment can renew its choices between the calls.
  \<open>epochs_left\<close> excludes the overflow of the epoch counter.
\<close>

inductive sys_step :: "kernel \<Rightarrow> receivers \<Rightarrow> kernel \<Rightarrow> receivers \<Rightarrow> bool" where
  get: "key \<le> INT_MAX \<Longrightarrow> tag_get key command permission euid k = Some (r, k') \<Longrightarrow> sys_step k R k' R"
| send: "tag_send tag level buffer sz euid k = Some (r, k') \<Longrightarrow> sys_step k R k' R"
| ctl: "tag_ctl tag command euid k = Some (r, k') \<Longrightarrow> sys_step k R k' R"
| enter: "R t = None \<Longrightarrow> epochs_left k \<Longrightarrow>
    tag_receive_enter tag level buffer sz euid k = Some (Inr c, k') \<Longrightarrow> sys_step k R k' (R(t \<mapsto> c))"
| refused: "R t = None \<Longrightarrow> epochs_left k \<Longrightarrow>
    tag_receive_enter tag level buffer sz euid k = Some (Inl code, k') \<Longrightarrow> sys_step k R k' R"
| sleep: "R t = Some c \<Longrightarrow> wait_condition c k = Some False \<Longrightarrow> receive_sleep t c k = Some k' \<Longrightarrow>
    sys_step k R k' R"
| leave: "R t = Some c \<Longrightarrow> wait_condition c k = Some True \<Longrightarrow> \<not> asleep k t c \<Longrightarrow>
    tag_receive_leave t True c k = Some (r, bytes, k') \<Longrightarrow> sys_step k R k' (R(t := None))"
| signal: "R t = Some c \<Longrightarrow> tag_receive_leave t False c k = Some (r, bytes, k') \<Longrightarrow>
    sys_step k R k' (R(t := None))"
| environment: "env_eq k k' \<Longrightarrow> sys_step k R k' R"

inductive reachable :: "kernel \<Rightarrow> receivers \<Rightarrow> bool" where
  start: "initialize no_globals al = Some (0, g, al') \<Longrightarrow> service g al' sig cp = Some k \<Longrightarrow>
    reachable k Map.empty"
| step: "reachable k R \<Longrightarrow> sys_step k R k' R' \<Longrightarrow> reachable k' R'"

inductive_cases sys_stepE: "sys_step k R k' R'"

section \<open>The invariant\<close>

lemma start_inv:
  assumes "initialize no_globals al = Some (0, g, al')" and "service g al' sig cp = Some k"
  shows "sys_inv k Map.empty"
proof -
  have "globals_ready g"
  proof (rule initialize_result [of al])
    fix r g0 al0
    assume "initialize no_globals al = Some (r, g0, al0)"
      "r = 0 \<and> globals_ready g0 \<or> r = - 1 \<and> g_tag_table g0 = None \<and> g_tag_bitmask g0 = None \<and> g_tags g0 = None"
    with assms(1) show "globals_ready g" by simp
  qed
  then show ?thesis using assms(2) by (rule service_inv)
qed

lemma sys_step_inv:
  assumes inv: "sys_inv k R" and step: "sys_step k R k' R'"
  shows "sys_inv k' R'"
  using step
proof cases
  case (get key command permission euid r)
  obtain r' k'' where r: "tag_get key command permission euid k = Some (r', k'')"
      "get_result k key command permission euid r' k''" by (rule tag_get_result [OF inv])
  with get(3) have "get_result k key command permission euid r k'" by simp
  from get_result_inv [OF inv this get(2)] get(1) show ?thesis by simp
next
  case send
  with tag_send_inv [OF inv] show ?thesis by simp
next
  case (ctl tag command euid r)
  obtain r' k'' where r: "tag_ctl tag command euid k = Some (r', k'')"
      "ctl_result k R tag command euid r' k''" by (rule tag_ctl_result [OF inv])
  with ctl(2) have "ctl_result k R tag command euid r k'" by simp
  from ctl_result_inv [OF inv this] ctl(1) show ?thesis by simp
next
  case (enter t tag level buffer sz euid c)
  from tag_receive_enter_inv [OF inv enter(2,3), of tag level buffer sz euid] enter(4)
  show ?thesis using enter(1) by auto
next
  case (refused t tag level buffer sz euid code)
  from tag_receive_enter_inv [OF inv refused(2,3), of tag level buffer sz euid] refused(4)
  show ?thesis using refused(1) by auto
next
  case (sleep t c)
  from receive_sleep_inv [OF inv sleep(2,3)] sleep(1,4) show ?thesis by auto
next
  case (leave t c r bytes)
  from tag_receive_leave_inv [OF inv leave(2), of True] leave(1,5) show ?thesis by auto
next
  case (signal t c r bytes)
  from tag_receive_leave_inv [OF inv signal(2), of False] signal(1,3) show ?thesis by auto
next
  case environment
  with inv show ?thesis by (simp add: env_eq_sys_inv)
qed

lemma reachable_inv: "reachable k R \<Longrightarrow> sys_inv k R"
proof (induction rule: reachable.induct)
  case start
  then show ?case by (rule start_inv)
next
  case step
  then show ?case using sys_step_inv by blast
qed

end
