(* ===== verification/Tag_Examples.thy ===== *)
theory Tag_Examples
  imports Tag_System
begin

text \<open>
  Small reachable states, for the instances of the properties: the module just loaded, one tag
  (descriptor 0), one receiver (thread 7 on level 3 of it), and that receiver asleep.
\<close>

lemma renew: "reachable k R \<Longrightarrow> reachable (k\<lparr>k_alloc := al, k_signal := sg, k_copy := cp\<rparr>) R"
  by (rule reachable.step, assumption, rule sys_step.environment) (simp add: env_eq_def)

lemma ex_start:
  obtains k where "reachable k Map.empty" "k_alloc k = []" "k_signal k = []" "k_copy k = []"
    "bm_used (k_tag_bitmask k) = {}" "tag_table_map (k_tag_table k) = Map.empty"
    "k_tags k = replicate 256 None" "k_next k = 0" "k_level_heap k = Map.empty"
proof -
  obtain r g al' where g: "initialize no_globals [] = Some (r, g, al')"
    "r = 0 \<and> globals_ready g \<or> r = - 1 \<and> g_tag_table g = None \<and> g_tag_bitmask g = None \<and> g_tags g = None"
    "([]::outcomes) = [] \<longrightarrow> r = 0" by (rule initialize_result [of "[]"])
  then have ready: "r = 0" "globals_ready g" by simp_all
  then obtain table bm where gr: "g_tag_table g = Some table" "tag_table_map table = Map.empty"
      "g_tag_bitmask g = Some bm" "bm_used bm = {}" "g_tags g = Some (replicate 256 None)"
    by (auto simp: globals_ready_def)
  define k where "k = \<lparr>k_tag_table = table, k_tag_bitmask = bm, k_tags = replicate 256 None,
    k_common_lock = g_common_lock g, k_tag_lock = g_tag_lock g, k_tag_heap = Map.empty,
    k_level_heap = Map.empty, k_next = 0, k_alloc = al', k_signal = [], k_copy = []\<rparr>"
  have "service g al' [] [] = Some k" using gr by (simp add: service_def k_def)
  with g(1) ready(1) have "reachable k Map.empty" by (auto intro: reachable.start)
  from that [OF renew [OF this, of "[]" "[]" "[]"]] gr show thesis by (simp add: k_def)
qed

lemma create_first:
  assumes r: "reachable k R" and env: "k_alloc k = []" "k_signal k = []"
    and code: "create_code k key permission = Inr i" and key: "0 \<le> key" "key \<le> INT_MAX"
  obtains bm t s k' where "registered k key i bm t" "tag_get key TAG_CREAT permission euid k = Some (int i, k')"
    "k' = with_tag key i permission euid s" "reachable k' R" "k_tag_table s = t" "k_tag_bitmask s = bm"
    "k_tags s = k_tags k" "k_tag_heap s = k_tag_heap k" "k_level_heap s = k_level_heap k"
    "k_next s = k_next k" "k_signal k' = []"
proof -
  obtain v k' where v: "tag_get key TAG_CREAT permission euid k = Some (v, k')"
      "get_result k key TAG_CREAT permission euid v k'" by (rule tag_get_result [OF reachable_inv [OF r]])
  have "create_result k key permission euid v k'"
    using v(2) key by cases (simp_all add: tag_consts)
  then show thesis
  proof cases
    case (created j bm t s al g)
    then have "j = i" using code by simp
    then show thesis
      using created v(1) reachable.step [OF r sys_step.get [OF key(2) v(1)]]
      by (intro that [of bm t k' s]) (simp_all add: with_tag_def env(2))
  next
    case failed
    from failed(5) show thesis by cases (use failed(3) env in simp_all)
  qed (use code env in simp_all)
qed

lemma with_tag_fields:
  "k_tags (with_tag key i permission euid k) = (k_tags k)[i := Some (k_next k + LEVELS)]"
  "k_tag_heap (with_tag key i permission euid k) =
     (k_tag_heap k)(k_next k + LEVELS \<mapsto> new_tag key i permission euid (k_next k))"
  "l < LEVELS \<Longrightarrow> k_level_heap (with_tag key i permission euid k) (k_next k + l) = Some (fresh_level l 0)"
  "k_tag_table (with_tag key i permission euid k) = k_tag_table k"
  "k_tag_bitmask (with_tag key i permission euid k) = k_tag_bitmask k"
  by (simp_all add: with_tag_def with_levels_heap)

lemma first_code:
  assumes "reachable k R" "bm_used (k_tag_bitmask k) = {}" "tag_table_map (k_tag_table k) = Map.empty"
  shows "create_code k key TAG_PERM_ALL = Inr 0" "create_code k key TAG_PERM_USR = Inr 0"
proof -
  have "reg_ok k" using sys_invD(6) [OF reachable_inv [OF assms(1)]] by (simp add: registry_inv_iff)
  then have "unat (hashmap_count (k_tag_table k)) = 0"
    using hm.count_abs [OF reg_okD(3)] assms(3) by simp
  moreover have "List.find (\<lambda>i. i \<notin> bm_used (k_tag_bitmask k)) [0..<256] = Some 0"
    unfolding assms(2) by (simp add: upt_rec)
  ultimately show "create_code k key TAG_PERM_ALL = Inr 0" "create_code k key TAG_PERM_USR = Inr 0"
    by (simp_all add: create_code_def assms(3))
qed

text \<open>One tag, with key 5.\<close>

lemma ex_tag:
  assumes "permission = TAG_PERM_ALL \<or> permission = TAG_PERM_USR"
  obtains k te a where "reachable k Map.empty" "k_tags k = (replicate 256 None)[0 := Some te]"
    "k_tag_heap k te = Some (new_tag 5 0 permission euid a)"
    "\<And>l. l < LEVELS \<Longrightarrow> k_level_heap k (a + l) = Some (fresh_level l 0)"
    "bm_used (k_tag_bitmask k) = {0}" "tag_table_map (k_tag_table k) = [5 \<mapsto> Tag_Entry 5 0]"
    "k_alloc k = al" "k_signal k = sg" "k_copy k = cp" "epochs_left k"
proof -
  obtain k0 where k0: "reachable k0 Map.empty" "k_alloc k0 = []" "k_signal k0 = []" "k_copy k0 = []"
    "bm_used (k_tag_bitmask k0) = {}" "tag_table_map (k_tag_table k0) = Map.empty"
    "k_tags k0 = replicate 256 None" "k_next k0 = 0" "k_level_heap k0 = Map.empty" by (rule ex_start)
  have code: "create_code k0 5 permission = Inr 0" using assms first_code [OF k0(1,5,6)] by auto
  have key: "0 \<le> (5::int)" "5 \<le> INT_MAX" by (simp_all add: INT_MAX_def)
  obtain bm t s k1 where k1: "registered k0 5 0 bm t"
      "tag_get 5 TAG_CREAT permission euid k0 = Some (int 0, k1)"
      "k1 = with_tag 5 0 permission euid s" "reachable k1 Map.empty"
    and s: "k_tag_table s = t" "k_tag_bitmask s = bm" "k_tags s = k_tags k0"
      "k_tag_heap s = k_tag_heap k0" "k_level_heap s = k_level_heap k0" "k_next s = k_next k0"
    by (rule create_first [OF k0(1-3) code key])
  have f: "k_tags k1 = (replicate 256 None)[0 := Some LEVELS]"
    "k_tag_heap k1 LEVELS = Some (new_tag 5 0 permission euid 0)"
    "bm_used (k_tag_bitmask k1) = {0}" "tag_table_map (k_tag_table k1) = [5 \<mapsto> Tag_Entry 5 0]"
    using k0 k1(1) s by (simp_all add: k1(3) with_tag_fields registered_def)
  have l: "k_level_heap k1 (0 + l) = Some (fresh_level l 0)" if "l < LEVELS" for l
    using with_tag_fields(3) [OF that, of 5 0 permission euid s] s(6) k0(8) by (simp add: k1(3))
  have "k_level_heap k1 = (\<lambda>p. if p < LEVELS then Some (fresh_level p 0) else None)"
    using s(5,6) k0(8,9) by (auto simp: k1(3) with_tag_def with_levels_def)
  then have "epochs_left k1" by (auto simp: epochs_left_def fresh_level_def INT_MAX_def split: if_splits)
  then have "epochs_left (k1\<lparr>k_alloc := al, k_signal := sg, k_copy := cp\<rparr>)" by (simp add: epochs_left_def)
  then show thesis
    by (intro that [OF renew [OF k1(4), where al = al and sg = sg and cp = cp], of LEVELS 0]) (use f l in simp_all)
qed

text \<open>Thread 7 registered on level 3 with a buffer of 10 bytes, awake and asleep.\<close>

definition ex_receiver :: "addr \<Rightarrow> addr \<Rightarrow> receiver" where
  "ex_receiver te lp = \<lparr>rc_tag = 0, rc_level = 3, rc_entry = te, rc_lp = lp, rc_size = 10, rc_buffer = True\<rparr>"

lemma ex_epochs:
  assumes "reachable k Map.empty" "k_tags k = (replicate 256 None)[0 := Some te]"
  shows "receive_code k 0 3 10 euid = (if CHECKPERM (the (entry_at k 0)) euid then Some (- EPERM) else None)"
proof -
  obtain tg where "entry_at k 0 = Some tg"
    using tags_okE [OF sys_invD(2) [OF reachable_inv [OF assms(1)]], of 0 te] assms(2) by auto
  then show ?thesis
    by (simp add: receive_code_def bad_message_args_def MAX_TAGS_def LEVELS_def BUFFER_SIZE_def)
qed

lemma epochs_left_update:
  assumes "epochs_left k" and "k_level_heap k p = Some lv" and "tl_epoch lv' = tl_epoch lv"
    and "k_level_heap k' = (k_level_heap k)(p \<mapsto> lv')"
  shows "epochs_left (k'\<lparr>k_alloc := al, k_signal := sg, k_copy := cp\<rparr>)" "epochs_left k'"
  using assms by (auto simp: epochs_left_def)

lemma ex_receiving:
  obtains k te lp tg lv where "reachable k [7 \<mapsto> ex_receiver te lp]" "k_tags k ! 0 = Some te"
    "k_tag_heap k te = Some tg" "tg_permission tg = TAG_PERM_ALL" "tg_ready tg = 0" "tg_waiting tg = 1"
    "tg_tag_level tg ! 3 = Some lp" "k_level_heap k lp = Some lv" "tl_ready lv = 0" "tl_waiting lv = 1"
    "tl_local_wq lv = []" "tl_epoch lv = 0" "tl_buffer lv = replicate BUFFER_SIZE 0"
    "k_alloc k = al" "k_signal k = sg" "k_copy k = cp" "epochs_left k"
proof -
  obtain k te a where k: "reachable k Map.empty" "k_tags k = (replicate 256 None)[0 := Some te]"
    "k_tag_heap k te = Some (new_tag 5 0 TAG_PERM_ALL 0 a)"
    "\<And>l. l < LEVELS \<Longrightarrow> k_level_heap k (a + l) = Some (fresh_level l 0)"
    "bm_used (k_tag_bitmask k) = {0}" "tag_table_map (k_tag_table k) = [5 \<mapsto> Tag_Entry 5 0]"
    "k_alloc k = []" "k_signal k = []" "k_copy k = []" "epochs_left k"
    by (rule ex_tag [of TAG_PERM_ALL 0 "[]" "[]" "[]"]) simp_all
  note inv = reachable_inv [OF k(1)]
  have te: "k_tags k ! 0 = Some te" using k(2) by simp
  have lv: "tg_tag_level (new_tag 5 0 TAG_PERM_ALL 0 a) ! 3 = Some (a + 3)"
    "k_level_heap k (a + 3) = Some (fresh_level 3 0)"
    using k(4) [of 3] by (simp_all add: new_tag_def LEVELS_def)
  have code: "receive_code k 0 3 10 0 = None"
    using k(3) te unfolding ex_epochs [OF k(1,2)]
    by (simp add: entry_at_def CHECKPERM_def new_tag_def tag_consts)
  obtain r k1 where r: "tag_receive_enter 0 3 True 10 0 k = Some (r, k1)"
      "enter_result k Map.empty 0 3 True 10 0 r k1" using tag_receive_enter_result [OF inv] by blast
  obtain c where c: "r = Inr c"
    using r(2) code k(7,8) by (cases r) (auto simp: enter_result_def)
  have eff: "c = ex_receiver te (a + 3)"
    "env_eq (change 0 1 te (join_tag (new_tag 5 0 TAG_PERM_ALL 0 a)) (a + 3)
      (Some (join_level (fresh_level 3 0))) k) k1"
    using r(2) c te k(3) lv
    by (auto simp: enter_result_def enter_effect_def fresh_level_def ex_receiver_def tag_waiters_def)
  have lvls: "k_level_heap k1 = (k_level_heap k)(a + 3 \<mapsto> join_level (fresh_level 3 0))"
    "k_tag_heap k1 = (k_tag_heap k)(te \<mapsto> join_tag (new_tag 5 0 TAG_PERM_ALL 0 a))" "k_tags k1 = k_tags k"
    using env_eqD [OF eff(2)] by simp_all
  have "reachable k1 [7 \<mapsto> ex_receiver te (a + 3)]"
    using reachable.step [OF k(1) sys_step.enter [where t = 7], OF _ k(10)] r(1) c eff(1) by simp
  from renew [OF this, where al = al and sg = sg and cp = cp] show thesis
    by (rule that [of _ te "a + 3" "join_tag (new_tag 5 0 TAG_PERM_ALL 0 a)" "join_level (fresh_level 3 0)"])
      (use te lv epochs_left_update(1) [OF k(10) lv(2) _ lvls(1)] in
        \<open>simp_all add: lvls new_tag_def join_tag_def join_level_def fresh_level_def\<close>)
qed

lemma ex_sleeping:
  obtains k te lp tg lv where "reachable k [7 \<mapsto> ex_receiver te lp]" "k_tags k ! 0 = Some te"
    "k_tag_heap k te = Some tg" "tg_permission tg = TAG_PERM_ALL" "tg_ready tg = 0" "tg_waiting tg = 1"
    "tg_tag_level tg ! 3 = Some lp" "k_level_heap k lp = Some lv" "tl_ready lv = 0" "tl_waiting lv = 1"
    "tl_local_wq lv = [7]" "tl_epoch lv = 0"
    "k_alloc k = al" "k_signal k = sg" "k_copy k = cp" "epochs_left k"
proof -
  obtain k te lp tg lv where k: "reachable k [7 \<mapsto> ex_receiver te lp]" "k_tags k ! 0 = Some te"
    "k_tag_heap k te = Some tg" "tg_permission tg = TAG_PERM_ALL" "tg_ready tg = 0" "tg_waiting tg = 1"
    "tg_tag_level tg ! 3 = Some lp" "k_level_heap k lp = Some lv" "tl_ready lv = 0" "tl_waiting lv = 1"
    "tl_local_wq lv = []" "tl_epoch lv = 0" "k_alloc k = al" "k_signal k = sg" "k_copy k = cp" "epochs_left k"
    by (rule ex_receiving [of al sg cp]) blast
  let ?lv = "lv\<lparr>tl_local_wq := [7]\<rparr>"
  let ?k = "k\<lparr>k_level_heap := (k_level_heap k)(lp \<mapsto> ?lv)\<rparr>"
  have "wait_condition (ex_receiver te lp) k = Some False"
    using k by (simp add: wait_condition_def ex_receiver_def)
  moreover have "receive_sleep 7 (ex_receiver te lp) k = Some ?k"
    using k by (simp add: receive_sleep_def ex_receiver_def update_level_eq)
  ultimately have "reachable ?k [7 \<mapsto> ex_receiver te lp]"
    by (intro reachable.step [OF k(1) sys_step.sleep [where t = 7]]) simp_all
  moreover have "epochs_left ?k" by (rule epochs_left_update(2) [OF k(16,8)]) simp_all
  ultimately show thesis by (intro that [of ?k te lp tg ?lv]) (use k in simp_all)
qed

text \<open>The message \<open>[1, 2, 3]\<close> on the level of the receiver.\<close>

lemma ex_message:
  obtains k te lp tg lv where "reachable k [7 \<mapsto> ex_receiver te lp]" "k_tags k ! 0 = Some te"
    "k_tag_heap k te = Some tg" "tg_permission tg = TAG_PERM_ALL" "tg_ready tg = 0" "tg_waiting tg = 1"
    "tg_tag_level tg ! 3 = Some lp" "k_level_heap k lp = Some lv" "tl_ready lv = 1" "tl_epoch lv = 0"
    "tl_size lv = 3" "take 3 (tl_buffer lv) = [1, 2, 3]"
    "k_alloc k = al" "k_signal k = sg" "k_copy k = cp" "epochs_left k"
proof -
  obtain k te lp tg lv where k: "reachable k [7 \<mapsto> ex_receiver te lp]" "k_tags k ! 0 = Some te"
    "k_tag_heap k te = Some tg" "tg_permission tg = TAG_PERM_ALL" "tg_ready tg = 0" "tg_waiting tg = 1"
    "tg_tag_level tg ! 3 = Some lp" "k_level_heap k lp = Some lv" "tl_ready lv = 0" "tl_waiting lv = 1"
    "tl_local_wq lv = [7]" "tl_epoch lv = 0" "k_alloc k = []" "k_signal k = []" "k_copy k = []" "epochs_left k"
    by (rule ex_sleeping [of "[]" "[]" "[]"]) blast
  have at: "entry_at k 0 = Some tg" "lp_at k 0 3 = Some lp" "level_at k 0 3 = Some lv"
    using k by (simp_all add: entry_at_def lp_at_def level_at_def)
  have code: "send_code k 0 3 3 0 = 1"
    using k at by (simp add: send_code_def bad_message_args_def MAX_TAGS_def LEVELS_def BUFFER_SIZE_def
        CHECKPERM_def tag_consts)
  obtain r k1 where r: "tag_send 0 3 (Some [1, 2, 3]) 3 0 k = Some (r, k1)"
      "send_result k 0 3 (Some [1, 2, 3]) 3 0 r k1" using tag_send_result [OF reachable_inv [OF k(1)]] by blast
  obtain buf where "k_level_heap k1 = (k_level_heap k)(lp \<mapsto> lv\<lparr>tl_buffer := buf, tl_size := 3, tl_ready := 1, tl_local_wq := []\<rparr>)"
    "buf = [1, 2, 3] @ drop 3 (tl_buffer lv)" "k_tags k1 = k_tags k" "k_tag_heap k1 = k_tag_heap k"
    using r(2) at(2) k(8,14,15) code
    by (auto simp: send_result_def send_args_def send_copy_def send_delivery_def)
  note k1 = this
  have "reachable k1 [7 \<mapsto> ex_receiver te lp]" by (rule reachable.step [OF k(1) sys_step.send [OF r(1)]])
  from renew [OF this, where al = al and sg = sg and cp = cp] show thesis
    by (rule that [of _ te lp tg "lv\<lparr>tl_buffer := buf, tl_size := 3, tl_ready := 1, tl_local_wq := []\<rparr>"])
      (use k k1 epochs_left_update(1) [OF k(16,8) _ k1(1)] in simp_all)
qed

end
