(* ===== verification/Message_Properties.thy ===== *)
theory Message_Properties
  imports Tag_Examples
begin

text \<open>
  The properties of \<open>tag_send\<close>, \<open>tag_receive\<close> and \<open>AWAKE_ALL\<close>: codes, delivery, stability of a
  message, wake-ups, epochs.
\<close>

section \<open>Sending\<close>

text \<open>
  \<open>tag_send\<close> always returns, and unless a signal interrupts it its code is the one of the
  table \<open>send_code\<close>: -EINVAL, -ENODATA, -EPERM, 0 when nobody waits on the tag or the level or the
  level holds a message, 1 otherwise, which a failed copy turns into -EFAULT. Only a call that
  returns 1 or -EFAULT changes more than the choices of the environment.
\<close>

theorem send_return_code:
  assumes "reachable k R" and "False \<notin> set (k_signal k)"
  shows "\<exists>r k'. tag_send tag level buffer sz euid k = Some (r, k') \<and>
    (r = send_code k tag level sz euid \<or> send_code k tag level sz euid = 1 \<and> r = - EFAULT) \<and>
    (r \<noteq> 1 \<and> r \<noteq> - EFAULT \<longrightarrow> env_eq k k')"
proof -
  obtain r k' where "tag_send tag level buffer sz euid k = Some (r, k')"
      "send_result k tag level buffer sz euid r k'"
    using tag_send_result [OF reachable_inv [OF assms(1)]] by blast
  with assms(2) show ?thesis by (auto simp: send_result_def)
qed

theorem send_return_code_witness:
  "\<exists>k te lp. reachable k [7 \<mapsto> ex_receiver te lp] \<and>
    (\<exists>k'. tag_send 0 4 (Some [9]) 1 0 k = Some (0, k') \<and> env_eq k k') \<and>
    (\<exists>k'. tag_send 0 32 (Some [9]) 1 0 k = Some (- EINVAL, k'))"
proof -
  obtain k te lp tg where k: "reachable k [7 \<mapsto> ex_receiver te lp]" "k_tags k ! 0 = Some te"
    "k_tag_heap k te = Some tg" "tg_permission tg = TAG_PERM_ALL" "tg_waiting tg = 1" "k_signal k = []"
    by (rule ex_receiving [of "[]" "[]" "[]"]) blast
  note inv = reachable_inv [OF k(1)]
  obtain p lv where p: "level_at k 0 4 = Some lv" "lv_ok [7 \<mapsto> ex_receiver te lp] p lv" "lp_at k 0 4 = Some p"
    using tags_okE [OF sys_invD(2) [OF inv] _ k(2)] by (metis LEVELS_def less_numeral_extra(1) numeral_less_iff
      semiring_norm(76) semiring_norm(78) zero_less_numeral)
  have "owns k [7 \<mapsto> ex_receiver te lp] lp 0 3" by (auto simp: owns_def ex_receiver_def LEVELS_def)
  moreover have "owns k [7 \<mapsto> ex_receiver te lp] p 0 4" using p(3) by (simp add: owns_def LEVELS_def)
  ultimately have "lp \<noteq> p" using sys_invD(4) [OF inv] unfolding owners_ok_def by force
  then have "lp_waiters [7 \<mapsto> ex_receiver te lp] p = {}"
    by (auto simp: lp_waiters_def ex_receiver_def split: if_splits)
  then have c: "send_code k 0 4 1 0 = 0" "send_code k 0 32 1 0 = - EINVAL"
    using k p by (simp_all add: send_code_def bad_message_args_def MAX_TAGS_def LEVELS_def BUFFER_SIZE_def
        entry_at_def CHECKPERM_def tag_consts lv_ok_def)
  from send_return_code [OF k(1), of 0 4 "Some [9]" 1 0] send_return_code [OF k(1), of 0 32 "Some [9]" 1 0]
  show ?thesis using k(1,6) c by (auto simp: errno_defs)
qed

section \<open>Delivery\<close>

definition sent :: "u8 list option \<Rightarrow> nat \<Rightarrow> u8 list" where
  "sent buffer sz = (case buffer of None \<Rightarrow> [] | Some data \<Rightarrow> take sz data)"

lemma send_delivered:
  assumes inv: "sys_inv k R" and send: "tag_send tag level buffer sz euid k = Some (1, k1)"
    and lp: "lp_at k (nat tag) (nat level) = Some p"
  obtains lv buf cs g where "k_level_heap k p = Some lv" "tl_ready lv \<noteq> 1"
    "snd (send_args buffer sz) = length (sent buffer sz)"
    "k1 = k\<lparr>k_signal := g, k_copy := cs, k_level_heap := (k_level_heap k)(p \<mapsto>
      lv\<lparr>tl_buffer := buf, tl_size := length (sent buffer sz), tl_ready := 1, tl_local_wq := []\<rparr>)\<rparr>"
    "take (length (sent buffer sz)) buf = sent buffer sz" "nat tag < 256" "nat level < LEVELS"
proof -
  obtain q k'' where "tag_send tag level buffer sz euid k = Some (q, k'')"
      "send_result k tag level buffer sz euid q k''" using tag_send_result [OF inv] by blast
  with send have res: "send_result k tag level buffer sz euid 1 k1" by simp
  let ?data = "fst (send_args buffer sz)" and ?n = "snd (send_args buffer sz)"
  from res obtain lv fail buf cs g where code: "send_code k tag level sz euid = 1"
    and lv: "k_level_heap k p = Some lv" and copy: "send_copy lv ?data ?n k = (fail, buf, cs)" "fail = 0"
    and k1: "k1 = k\<lparr>k_signal := g, k_copy := cs, k_level_heap := (k_level_heap k)(p \<mapsto>
      send_delivery lv ?n 1 buf)\<rparr>"
    using lp by (auto simp: send_result_def EFAULT_def split: if_splits)
  have args: "\<not> bad_message_args tag level sz"
    using code by (auto simp: send_code_def EINVAL_def split: if_splits)
  have "tl_ready lv \<noteq> 1"
    using code args lp lv by (auto simp: send_code_def level_at_def errno_defs split: option.splits if_splits)
  moreover have n: "?n \<le> length ?data \<and> take ?n buf = take ?n ?data"
    using copy by (auto simp: send_copy_def Let_def max_def split: if_splits prod.splits)
  moreover have "sent buffer sz = take ?n ?data"
    by (cases buffer) (simp_all add: sent_def send_args_def)
  ultimately show thesis
    using lv k1 bad_message_argsD(2,4) [OF args]
    by (intro that [where lv = lv and buf = buf and cs = cs and g = g]) (simp_all add: send_delivery_def)
qed

text \<open>The receivers of the level installed at a position belong to that position.\<close>

lemma receiver_position:
  assumes inv: "sys_inv k R" and t: "R t = Some c" and i: "i < 256" "l < LEVELS" "lp_at k i l = Some (rc_lp c)"
  shows "rc_tag c = i" "rc_level c = l"
proof -
  have "owns k R (rc_lp c) i l" using i by (simp add: owns_def)
  moreover have "owns k R (rc_lp c) (rc_tag c) (rc_level c)"
    using sys_invD(3) [OF inv t] t by (auto simp: owns_def rc_ok_def)
  ultimately show "rc_tag c = i" "rc_level c = l"
    using sys_invD(4) [OF inv] unfolding owners_ok_def by blast+
qed

lemma receiver_entry:
  assumes "sys_inv k R" and "R t = Some c"
  obtains tg where "k_tag_heap k (rc_entry c) = Some tg" "entry_at k (rc_tag c) = Some tg"
    "k_tags k ! rc_tag c = Some (rc_entry c)" "rc_tag c < 256"
proof -
  have b: "rc_tag c < 256" "k_tags k ! rc_tag c = Some (rc_entry c)"
    using sys_invD(3) [OF assms] by (simp_all add: rc_ok_def)
  obtain tg where "k_tag_heap k (rc_entry c) = Some tg" "entry_at k (rc_tag c) = Some tg"
    using tags_okE [OF sys_invD(2) [OF assms(1)] b] by blast
  with b that show thesis by blast
qed

section \<open>Stability of a message\<close>

text \<open>What a receiver can see of a level.\<close>

definition message :: "tag_level \<Rightarrow> int \<times> nat \<times> u8 list \<times> int" where
  "message lv = (tl_ready lv, tl_size lv, tl_buffer lv, tl_epoch lv)"

definition message_at :: "kernel \<Rightarrow> addr \<Rightarrow> (int \<times> nat \<times> u8 list \<times> int) option" where
  "message_at k p = map_option message (k_level_heap k p)"

lemma message_at_env: "env_eq k k' \<Longrightarrow> message_at k' p = message_at k p"
  by (simp add: message_at_def env_eqD)

lemma message_at_heap: "k_level_heap k' p = k_level_heap k p \<Longrightarrow> message_at k' p = message_at k p"
  by (simp add: message_at_def)

lemma live_below:
  assumes "sys_inv k R" and "k_level_heap k p = Some lv"
  shows "p < k_next k"
  using sys_invD(7) [OF assms(1)] assms(2) by (metis heap_ok_def linorder_not_less option.distinct(1))

lemma get_keeps_message:
  assumes inv: "sys_inv k R" and res: "get_result k key command permission euid r k'"
    and lv: "k_level_heap k p = Some lv"
  shows "message_at k' p = message_at k p"
  using res
proof cases
  case create
  from create(3) show ?thesis
  proof cases
    case created
    with live_below [OF inv lv] show ?thesis
      by (intro message_at_heap) (simp add: with_tag_def with_levels_heap)
  next
    case failed
    from failed(5) show ?thesis by cases (simp_all add: message_at_def failed(3))
  qed (simp_all add: message_at_env)
qed (simp_all add: message_at_env)

lemma send_keeps_message:
  assumes res: "send_result k tag level buffer sz euid r k'"
    and lv: "k_level_heap k p = Some lv" "tl_ready lv = 1"
  shows "message_at k' p = message_at k p"
proof (cases "env_eq k k'")
  case False
  then obtain q qv x where q: "send_code k tag level sz euid = 1" "lp_at k (nat tag) (nat level) = Some q"
    "k_level_heap k q = Some qv" "k_level_heap k' = (k_level_heap k)(q \<mapsto> x)"
    using res by (auto simp: send_result_def)
  then have "tl_ready qv \<noteq> 1"
    by (auto simp: send_code_def level_at_def errno_defs split: option.splits if_splits)
  then have "q \<noteq> p" using q(3) lv by auto
  then show ?thesis by (intro message_at_heap) (simp add: q(4))
qed (simp add: message_at_env)

lemma ctl_keeps_message:
  assumes inv: "sys_inv k R" and res: "ctl_result k R tag command euid r k'" and p: "lp_waiters R p \<noteq> {}"
  shows "message_at k' p = message_at k p"
  using res
proof cases
  case awake
  from awake(4) show ?thesis
  proof cases
    case woken
    show ?thesis
      by (cases "k_level_heap k p")
        (simp_all add: woken(1) message_at_def awaken_def wake_set_def message_def wake_def)
  qed (simp_all add: message_at_env)
next
  case delete
  from delete(4) show ?thesis
  proof cases
    case (deleted te tg bm t g)
    have i: "nat tag < 256" using delete(2) by simp
    obtain s c where c: "R s = Some c" "rc_lp c = p" using p by (auto simp: lp_waiters_def)
    have none: "rc_tag c \<noteq> nat tag"
      using deleted(3) c(1) by (auto simp: delete_code_def tag_waiters_def split: if_splits)
    have "p \<notin> pointers (tg_tag_level tg)"
    proof
      assume "p \<in> pointers (tg_tag_level tg)"
      then obtain l where "l < LEVELS" "lp_at k (nat tag) l = Some p"
        using tag_level_pointers(2) [OF inv i deleted(4,5)] by blast
      with receiver_position(1) [OF inv c(1) i] c(2) none show False by simp
    qed
    then show ?thesis
      by (intro message_at_heap) (simp add: deleted(2) without_tag_def)
  qed (simp_all add: message_at_env)
qed simp

lemma enter_keeps_message:
  assumes inv: "sys_inv k R" and res: "enter_result k R tag level buffer sz euid r k'"
    and lv: "k_level_heap k p = Some lv" "tl_ready lv = 1"
  shows "message_at k' p = message_at k p"
proof (cases r)
  case (Inl code)
  with res live_below [OF inv lv(1)] show ?thesis
    by (auto simp: enter_result_def message_at_def env_eqD prepare_epoch_def)
next
  case (Inr c)
  obtain te tg lp qv where q: "k_level_heap k lp = Some qv"
    "rc_lp c = (if tl_ready qv = 1 then k_next k else lp)"
    "env_eq (enter_effect k R (nat tag) (nat level) te tg lp qv (rc_lp c)) k'"
    using res Inr by (auto simp: enter_result_def)
  have "rc_lp c \<noteq> p" using q(1,2) lv live_below [OF inv lv(1)] by auto
  then show ?thesis
    using q(2) live_below [OF inv lv(1)] env_eqD(7) [OF q(3)]
    by (intro message_at_heap)
      (auto simp: enter_effect_def install_epoch_def prepare_epoch_def split: if_splits)
qed

lemma leave_keeps_message:
  assumes inv: "sys_inv k R" and t: "R t = Some c"
    and leave: "tag_receive_leave t woken c k = Some (r, bytes, k')"
    and p: "lp_waiters (R(t := None)) p \<noteq> {}"
  shows "message_at k' p = message_at k p"
proof -
  obtain tg lv where tg: "k_tag_heap k (rc_entry c) = Some tg" "k_level_heap k (rc_lp c) = Some lv"
    using rc_okE [OF inv t] by metis
  obtain n y where k': "k_level_heap k' = (k_level_heap k)(rc_lp c := y)"
    "y = leave_rest t (card (lp_waiters (R(t := None)) (rc_lp c))) n lv"
    using tag_receive_leave_result [OF inv t tg, of woken] leave
    by (auto split: prod.splits)
  show ?thesis
  proof (cases "rc_lp c = p")
    case True
    have "finite (lp_waiters (R(t := None)) p)"
      by (rule waiters_finite) (use sys_invD(1) [OF inv] in simp)
    with p True tg(2) k' show ?thesis
      by (simp add: message_at_def leave_rest_def leave_level_def message_def)
  qed (use k' in \<open>simp add: message_at_def\<close>)
qed

lemma sleep_keeps_message: "receive_sleep t c k = Some k' \<Longrightarrow> message_at k' p = message_at k p"
  by (cases "k_level_heap k (rc_lp c)")
    (auto simp: receive_sleep_def update_level_def message_at_def message_def)

lemma step_keeps_message:
  assumes inv: "sys_inv k R" and step: "sys_step k R k' R'"
    and lv: "k_level_heap k p = Some lv" "tl_ready lv = 1" and p: "lp_waiters R' p \<noteq> {}"
  shows "message_at k' p = message_at k p"
  using step
proof cases
  case (get key command permission euid r)
  then show ?thesis using tag_get_result [OF inv, of key command permission euid]
    get_keeps_message [OF inv _ lv(1)] by (metis option.inject prod.inject)
next
  case (send tag level buffer sz euid r)
  then show ?thesis using tag_send_result [OF inv, of tag level buffer sz euid]
    send_keeps_message [OF _ lv] by (metis option.inject prod.inject)
next
  case (ctl tag command euid r)
  then show ?thesis using tag_ctl_result [OF inv, of tag command euid]
    ctl_keeps_message [OF inv] p by (metis option.inject prod.inject)
next
  case (enter t tag level buffer sz euid c)
  then show ?thesis using tag_receive_enter_result [OF inv, of tag level buffer sz euid]
    enter_keeps_message [OF inv _ lv] by (metis option.inject prod.inject)
next
  case (refused t tag level buffer sz euid code)
  then show ?thesis using tag_receive_enter_result [OF inv, of tag level buffer sz euid]
    enter_keeps_message [OF inv _ lv] by (metis option.inject prod.inject)
next
  case (sleep t c)
  then show ?thesis by (simp add: sleep_keeps_message)
next
  case (leave t c r bytes)
  then show ?thesis using leave_keeps_message [OF inv] p by simp
next
  case (signal t c r bytes)
  then show ?thesis using leave_keeps_message [OF inv] p by simp
qed (simp add: message_at_env)

text \<open>Runs during which a thread stays inside \<open>tag_receive\<close>, registered with \<open>c\<close>.\<close>

inductive stays :: "tid \<Rightarrow> receiver \<Rightarrow> kernel \<Rightarrow> receivers \<Rightarrow> kernel \<Rightarrow> receivers \<Rightarrow> bool" for t c where
  stays_refl: "R t = Some c \<Longrightarrow> stays t c k R k R"
| stays_step: "stays t c k R k1 R1 \<Longrightarrow> sys_step k1 R1 k2 R2 \<Longrightarrow> R2 t = Some c \<Longrightarrow> stays t c k R k2 R2"

lemma stays_registered: "stays t c k R k' R' \<Longrightarrow> R t = Some c \<and> R' t = Some c"
  by (induction rule: stays.induct) auto

lemma stays_reachable: "stays t c k R k' R' \<Longrightarrow> reachable k R \<Longrightarrow> reachable k' R'"
  by (induction rule: stays.induct) (auto intro: reachable.step)

lemma stays_keeps_message:
  assumes "stays t c k R k' R'" and "reachable k R"
    and "k_level_heap k (rc_lp c) = Some lv" and "tl_ready lv = 1"
  shows "message_at k' (rc_lp c) = Some (message lv)"
  using assms
proof (induction rule: stays.induct)
  case (stays_step k R k1 R1 k2 R2)
  obtain lv1 where lv1: "k_level_heap k1 (rc_lp c) = Some lv1" "tl_ready lv1 = 1"
    using stays_step by (auto simp: message_at_def message_def)
  have "lp_waiters R2 (rc_lp c) \<noteq> {}" using stays_step.hyps(3) by (auto simp: lp_waiters_def)
  with step_keeps_message [OF _ stays_step.hyps(2) lv1]
    reachable_inv [OF stays_reachable [OF stays_step.hyps(1) stays_step.prems(1)]] stays_step
  show ?case by simp
qed (simp add: message_at_def)

text \<open>
  C2. Delivery: when \<open>tag_send\<close> returns 1, each receiver registered on the level is awake, and after any
  sequence of steps of the system of whole calls (\<open>sys_step\<close>) in which it has not left, it finds its
  condition true and is not asleep. When it then leaves, it returns 1 with the beginning of that
  message, as much as the buffer it gave can take; or -EFAULT and fewer bytes, if the copy to
  that buffer fails; or 0 without a message, if an \<open>AWAKE_ALL\<close> of the tag is under way by then, or if a
  signal ended its wait. Nothing else is possible.
\<close>

theorem message_delivered:
  assumes "reachable k R" and "R t = Some c"
    and "lp_at k (nat tag) (nat level) = Some (rc_lp c)"
    and "tag_send tag level buffer sz euid k = Some (1, k1)"
    and "stays t c k1 R k2 R2"
  shows "wait_condition c k2 = Some True \<and> \<not> asleep k2 t c \<and>
    (let message = sent buffer sz;
         n = (if rc_buffer c then min (rc_size c) (length message) else 0);
         fail = min (fst (next_copy (k_copy k2))) n
     in \<exists>tg k3 k4. k_tag_heap k2 (rc_entry c) = Some tg \<and>
       tag_receive_leave t True c k2 =
         Some (if tg_ready tg \<noteq> 0 then 0 else if fail \<noteq> 0 then - EFAULT else 1,
           if tg_ready tg \<noteq> 0 then [] else take (n - fail) message, k3) \<and>
       tag_receive_leave t False c k2 = Some (0, [], k4))"
proof -
  have inv: "sys_inv k R" by (rule reachable_inv [OF assms(1)])
  have r1: "reachable k1 R" by (rule reachable.step [OF assms(1) sys_step.send [OF assms(4)]])
  have inv2: "sys_inv k2 R2" by (rule reachable_inv [OF stays_reachable [OF assms(5) r1]])
  have t2: "R2 t = Some c" using stays_registered [OF assms(5)] by simp
  let ?m = "sent buffer sz"
  let ?n = "if rc_buffer c then min (rc_size c) (length ?m) else 0"
  let ?fail = "min (fst (next_copy (k_copy k2))) ?n"
  obtain lv buf cs g where lv: "k1 = k\<lparr>k_signal := g, k_copy := cs, k_level_heap := (k_level_heap k)(rc_lp c \<mapsto>
      lv\<lparr>tl_buffer := buf, tl_size := length ?m, tl_ready := 1, tl_local_wq := []\<rparr>)\<rparr>"
    "take (length ?m) buf = ?m"
    by (rule send_delivered [OF inv assms(4,3)]) blast
  have "message_at k2 (rc_lp c) = Some (1, length ?m, buf, tl_epoch lv)"
    using stays_keeps_message [OF assms(5) r1] by (simp add: lv(1) message_def)
  then obtain lv2 where lv2: "k_level_heap k2 (rc_lp c) = Some lv2" "tl_ready lv2 = 1" "tl_size lv2 = length ?m"
      "tl_buffer lv2 = buf" by (auto simp: message_at_def message_def)
  obtain tg where tg: "k_tag_heap k2 (rc_entry c) = Some tg" using rc_okE [OF inv2 t2] by metis
  have ok: "lv_ok R2 (rc_lp c) lv2" using sys_invD(3) [OF inv2 t2] lv2(1) by (auto simp: rc_ok_def)
  have cut: "take j buf = take j ?m" if "j \<le> length ?m" for j
    using lv(2) that by (metis min.absorb1 take_take)
  have "\<exists>cs'. leave_message True c tg lv2 (k_copy k2) =
      (if tg_ready tg \<noteq> 0 then 0 else if ?fail \<noteq> 0 then - EFAULT else 1,
       if tg_ready tg \<noteq> 0 then [] else take (?n - ?fail) ?m, cs')"
    using lv2 by (cases "next_copy (k_copy k2)") (auto simp: leave_message_def Let_def cut)
  moreover have "leave_message False c tg lv2 (k_copy k2) = (0, [], k_copy k2)"
    by (simp add: leave_message_def Let_def)
  ultimately have "\<exists>k3. tag_receive_leave t True c k2 =
      Some (if tg_ready tg \<noteq> 0 then 0 else if ?fail \<noteq> 0 then - EFAULT else 1,
        if tg_ready tg \<noteq> 0 then [] else take (?n - ?fail) ?m, k3)"
    "\<exists>k4. tag_receive_leave t False c k2 = Some (0, [], k4)"
    using tag_receive_leave_result [OF inv2 t2 tg lv2(1), of True]
      tag_receive_leave_result [OF inv2 t2 tg lv2(1), of False] by (auto simp del: split_paired_Ex)
  moreover have "wait_condition c k2 = Some True"
    using tg lv2 by (simp add: wait_condition_def)
  moreover have "\<not> asleep k2 t c" using ok lv2 by (simp add: asleep_def lv_ok_def)
  ultimately show ?thesis unfolding Let_def using tg by blast
qed

theorem message_delivered_witness:
  "\<exists>k te lp. reachable k [7 \<mapsto> ex_receiver te lp] \<and>
    (\<exists>k1 k2. tag_send 0 3 (Some [1, 2, 3]) 3 0 k = Some (1, k1) \<and>
      tag_receive_leave 7 True (ex_receiver te lp) k1 = Some (1, [1, 2, 3], k2))"
proof -
  obtain k te lp tg lv where k: "reachable k [7 \<mapsto> ex_receiver te lp]" "k_tags k ! 0 = Some te"
    "k_tag_heap k te = Some tg" "tg_permission tg = TAG_PERM_ALL" "tg_ready tg = 0" "tg_waiting tg = 1"
    "tg_tag_level tg ! 3 = Some lp" "k_level_heap k lp = Some lv" "tl_ready lv = 0" "tl_waiting lv = 1"
    "tl_local_wq lv = [7]" "tl_epoch lv = 0" "k_alloc k = []" "k_signal k = []" "k_copy k = []"
    by (rule ex_sleeping [of "[]" "[]" "[]"]) blast
  have at: "entry_at k 0 = Some tg" "lp_at k 0 3 = Some lp" "level_at k 0 3 = Some lv"
    using k by (simp_all add: entry_at_def lp_at_def level_at_def)
  have code: "send_code k 0 3 3 0 = 1"
    using k at by (simp add: send_code_def bad_message_args_def MAX_TAGS_def LEVELS_def BUFFER_SIZE_def
        CHECKPERM_def tag_consts)
  obtain r k1 where r: "tag_send 0 3 (Some [1, 2, 3]) 3 0 k = Some (r, k1)"
      "send_result k 0 3 (Some [1, 2, 3]) 3 0 r k1" using tag_send_result [OF reachable_inv [OF k(1)]] by blast
  have k1: "r = 1" "k_copy k1 = []" "k_tag_heap k1 = k_tag_heap k"
    using r(2) at(2) k(8,14,15) code by (auto simp: send_result_def send_args_def send_copy_def)
  have c: "rc_buffer (ex_receiver te lp)" "rc_lp (ex_receiver te lp) = lp" "rc_size (ex_receiver te lp) = 10"
    "rc_entry (ex_receiver te lp) = te" by (simp_all add: ex_receiver_def)
  let ?c = "ex_receiver te lp"
  let ?n = "if rc_buffer ?c then min (rc_size ?c) (length (sent (Some [1, 2, 3]) 3)) else 0"
  let ?fail = "min (fst (next_copy (k_copy k1))) ?n"
  have st: "stays 7 ?c k1 [7 \<mapsto> ?c] k1 [7 \<mapsto> ?c]" by (rule stays_refl) simp
  have "\<exists>tg k2. k_tag_heap k1 (rc_entry ?c) = Some tg \<and> tag_receive_leave 7 True ?c k1 =
      Some (if tg_ready tg \<noteq> 0 then 0 else if ?fail \<noteq> 0 then - EFAULT else 1,
        if tg_ready tg \<noteq> 0 then [] else take (?n - ?fail) (sent (Some [1, 2, 3]) 3), k2)"
    using message_delivered [OF k(1) _ _ r(1) [unfolded k1(1)] st] at(2) c(2) unfolding Let_def by fastforce
  then obtain tg' k2 where l: "k_tag_heap k1 te = Some tg'" "tag_receive_leave 7 True ?c k1 =
      Some (if tg_ready tg' \<noteq> 0 then 0 else if ?fail \<noteq> 0 then - EFAULT else 1,
        if tg_ready tg' \<noteq> 0 then [] else take (?n - ?fail) (sent (Some [1, 2, 3]) 3), k2)"
    unfolding c(4) by blast
  have "tg_ready tg' = 0" "fst (next_copy (k_copy k1)) = 0" using l(1) k1(2,3) k(3,5) by simp_all
  with l(2) c(1,3) have "tag_receive_leave 7 True ?c k1 = Some (1, [1, 2, 3], k2)"
    by (simp add: sent_def)
  with k(1) r(1) k1(1) show ?thesis by blast
qed

text \<open>
  A level that holds a message keeps it, and its epoch, through every run in which one of the
  receivers registered on it stays: no sender overwrites it, no reader clears it, the deletion of
  the tag does not free it.
\<close>

theorem message_stable:
  assumes "reachable k R" and "stays t c k R k' R'" and "k_level_heap k (rc_lp c) = Some lv"
    and "tl_ready lv = 1"
  shows "\<exists>lv'. k_level_heap k' (rc_lp c) = Some lv' \<and> tl_ready lv' = 1 \<and>
    tl_buffer lv' = tl_buffer lv \<and> tl_size lv' = tl_size lv \<and> tl_epoch lv' = tl_epoch lv"
  using stays_keeps_message [OF assms(2,1,3,4)] assms(4) by (auto simp: message_at_def message_def)

text \<open>A sender finds the level busy while the receiver has not left.\<close>

theorem message_stable_witness:
  "\<exists>k te lp k' lv'. reachable k [7 \<mapsto> ex_receiver te lp] \<and> tag_send 0 3 (Some [9]) 1 0 k = Some (0, k') \<and>
     k_level_heap k' lp = Some lv' \<and> take 3 (tl_buffer lv') = [1, 2, 3]"
proof -
  obtain k te lp tg lv where k: "reachable k [7 \<mapsto> ex_receiver te lp]" "k_tags k ! 0 = Some te"
    "k_tag_heap k te = Some tg" "tg_permission tg = TAG_PERM_ALL" "tg_ready tg = 0" "tg_waiting tg = 1"
    "tg_tag_level tg ! 3 = Some lp" "k_level_heap k lp = Some lv" "tl_ready lv = 1" "tl_epoch lv = 0"
    "tl_size lv = 3" "take 3 (tl_buffer lv) = [1, 2, 3]" "k_signal k = []"
    by (rule ex_message [of "[]" "[]" "[]"]) blast
  have code: "send_code k 0 3 1 0 = 0"
    using k by (simp add: send_code_def bad_message_args_def MAX_TAGS_def LEVELS_def BUFFER_SIZE_def
        CHECKPERM_def tag_consts entry_at_def lp_at_def level_at_def)
  obtain r k1 where r: "tag_send 0 3 (Some [9]) 1 0 k = Some (r, k1)"
      "send_result k 0 3 (Some [9]) 1 0 r k1" using tag_send_result [OF reachable_inv [OF k(1)]] by blast
  have "r = 0" using r(2) code k(13) by (auto simp: send_result_def)
  moreover have "stays 7 (ex_receiver te lp) k [7 \<mapsto> ex_receiver te lp] k1 [7 \<mapsto> ex_receiver te lp]"
    by (rule stays_step [OF stays_refl sys_step.send [OF r(1)]]) simp_all
  moreover have "rc_lp (ex_receiver te lp) = lp" by (simp add: ex_receiver_def)
  ultimately show ?thesis
    using message_stable [OF k(1), of 7 "ex_receiver te lp" k1 _ lv] k r(1) by fastforce
qed

section \<open>Receiving\<close>

text \<open>
  C24. A receiver gets at most as many bytes as its buffer holds, which are a prefix of the buffer of
  its level and no more than the size of the message; \<open>tag_receive\<close> returns, with 0, 1 or -EFAULT,
  and it writes nothing if it returns 0.
\<close>

theorem receive_bounds:
  assumes "reachable k R" and "R t = Some c"
  shows "\<exists>r bytes k' lv. tag_receive_leave t woken c k = Some (r, bytes, k') \<and>
    k_level_heap k (rc_lp c) = Some lv \<and> r \<in> {0, 1, - EFAULT} \<and> (r = 0 \<longrightarrow> bytes = []) \<and>
    bytes = take (length bytes) (tl_buffer lv) \<and> length bytes \<le> tl_size lv \<and>
    length bytes \<le> rc_size c \<and> rc_size c \<le> BUFFER_SIZE"
proof -
  have inv: "sys_inv k R" by (rule reachable_inv [OF assms(1)])
  obtain tg lv where tg: "k_tag_heap k (rc_entry c) = Some tg" "k_level_heap k (rc_lp c) = Some lv"
    using rc_okE [OF inv assms(2)] by metis
  obtain r bytes cs where m: "leave_message woken c tg lv (k_copy k) = (r, bytes, cs)" by (metis prod_cases3)
  have r: "r \<in> {0, 1, - EFAULT}" "r = 0 \<longrightarrow> bytes = []"
    using m by (auto simp: leave_message_def Let_def errno_defs split: if_splits prod.splits)
  have "\<exists>n. bytes = take n (tl_buffer lv) \<and> n \<le> tl_size lv \<and> n \<le> rc_size c"
    using m by (auto simp: leave_message_def Let_def split: if_splits prod.splits intro: exI [of _ 0])
  then have "bytes = take (length bytes) (tl_buffer lv)" "length bytes \<le> tl_size lv" "length bytes \<le> rc_size c"
    by (auto simp: min_def)
  note r this
  moreover have "rc_size c \<le> BUFFER_SIZE" using sys_invD(3) [OF inv assms(2)] by (simp add: rc_ok_def)
  ultimately show ?thesis using tag_receive_leave_result [OF inv assms(2) tg, of woken] m tg(2) by auto
qed

theorem receive_bounds_witness:
  "\<exists>k te lp r bytes k'. reachable k [7 \<mapsto> ex_receiver te lp] \<and>
     tag_receive_leave 7 True (ex_receiver te lp) k = Some (r, bytes, k') \<and> length bytes \<le> 10"
proof -
  obtain k te lp where k: "reachable k [7 \<mapsto> ex_receiver te lp]"
    by (rule ex_message [of "[]" "[]" "[]"]) blast
  have "rc_size (ex_receiver te lp) = 10" by (simp add: ex_receiver_def)
  with receive_bounds [OF k, of 7 "ex_receiver te lp" True] obtain r bytes k' where
    "tag_receive_leave 7 True (ex_receiver te lp) k = Some (r, bytes, k')" "length bytes \<le> 10" by auto
  with k show ?thesis by blast
qed

text \<open>
  C19. The level a receiver leaves: as long as others wait on it only the count of its receivers and
  its queue change; the last one marks it empty, or frees it when a level of a later epoch is
  installed in its place. The bytes of the message stay in the buffer, since \<open>size\<close> is 0 already when
  \<open>memset\<close> is to clear them.
\<close>

theorem receive_leaves_level:
  assumes "reachable k R" and "R t = Some c" and "k_level_heap k (rc_lp c) = Some lv"
    and "tag_receive_leave t woken c k = Some (r, bytes, k')"
  shows "k_level_heap k' = (k_level_heap k)(rc_lp c :=
    (if lp_waiters R (rc_lp c) \<noteq> {t} then Some (lv\<lparr>tl_waiting := tl_waiting lv - 1,
        tl_rcu_lock := read_locked (nat (tl_waiting lv - 1)), tl_local_wq := removeAll t (tl_local_wq lv)\<rparr>)
     else if lp_at k (rc_tag c) (rc_level c) = Some (rc_lp c)
     then Some (lv\<lparr>tl_waiting := 0, tl_rcu_lock := read_locked 0, tl_local_wq := [],
        tl_ready := 0, tl_size := 0\<rparr>)
     else None))"
proof -
  have inv: "sys_inv k R" by (rule reachable_inv [OF assms(1)])
  obtain tg where tg: "k_tag_heap k (rc_entry c) = Some tg" using rc_okE [OF inv assms(2)] by metis
  have ok: "lv_ok R (rc_lp c) lv" using sys_invD(3) [OF inv assms(2)] assms(3) by (auto simp: rc_ok_def)
  have fin: "finite (lp_waiters R (rc_lp c))" by (rule waiters_finite [OF sys_invD(1) [OF inv]])
  let ?n = "card (lp_waiters (R(t := None)) (rc_lp c))"
  have mem: "t \<in> lp_waiters R (rc_lp c)" using assms(2) by (auto simp: lp_waiters_def)
  have n: "tl_waiting lv - 1 = int ?n" using ok waiters_leave_card(2) [OF sys_invD(1) [OF inv] assms(2)]
    by (simp add: lv_ok_def)
  have last: "?n = 0 \<longleftrightarrow> lp_waiters R (rc_lp c) = {t}"     using fin mem unfolding waiters_leave by (subst card_0_eq) auto
  have q: "removeAll t (tl_local_wq lv) = []" if "lp_waiters R (rc_lp c) = {t}"
    using ok that by (auto simp: lv_ok_def removeAll_filter_not_eq filter_empty_conv)
  have "k_level_heap k' = (k_level_heap k)(rc_lp c :=
      leave_rest t ?n (lp_at k (rc_tag c) (rc_level c) = Some (rc_lp c)) lv)"
    using tag_receive_leave_result [OF inv assms(2) tg assms(3), of woken] assms(4)
    by (auto split: prod.splits)
  then show ?thesis
    using n last q by (auto simp: leave_rest_def leave_level_def)
qed

theorem receive_leaves_level_witness:
  "\<exists>k te lp k' lv'. reachable k [7 \<mapsto> ex_receiver te lp] \<and>
     tag_receive_leave 7 True (ex_receiver te lp) k = Some (1, [1, 2, 3], k') \<and>
     k_level_heap k' lp = Some lv' \<and> tl_ready lv' = 0 \<and> tl_size lv' = 0 \<and> take 3 (tl_buffer lv') = [1, 2, 3]"
proof -
  obtain k te lp tg lv where k: "reachable k [7 \<mapsto> ex_receiver te lp]" "k_tags k ! 0 = Some te"
    "k_tag_heap k te = Some tg" "tg_permission tg = TAG_PERM_ALL" "tg_ready tg = 0" "tg_waiting tg = 1"
    "tg_tag_level tg ! 3 = Some lp" "k_level_heap k lp = Some lv" "tl_ready lv = 1" "tl_epoch lv = 0"
    "tl_size lv = 3" "take 3 (tl_buffer lv) = [1, 2, 3]" "k_alloc k = []" "k_signal k = []" "k_copy k = []"
    by (rule ex_message [of "[]" "[]" "[]"]) blast
  have c: "rc_buffer (ex_receiver te lp)" "rc_lp (ex_receiver te lp) = lp" "rc_size (ex_receiver te lp) = 10"
    "rc_entry (ex_receiver te lp) = te" "rc_tag (ex_receiver te lp) = 0" "rc_level (ex_receiver te lp) = 3"
    by (simp_all add: ex_receiver_def)
  have "leave_message True (ex_receiver te lp) tg lv (k_copy k) = (1, [1, 2, 3], [])"
    using k c by (simp add: leave_message_def Let_def)
  then obtain k' where k': "tag_receive_leave 7 True (ex_receiver te lp) k = Some (1, [1, 2, 3], k')"
    using tag_receive_leave_result [OF reachable_inv [OF k(1)], of 7 "ex_receiver te lp" tg lv True] k(3,8) c
    by simp
  have "lp_waiters [7 \<mapsto> ex_receiver te lp] lp = {7}" "lp_at k 0 3 = Some lp"
    using k c by (auto simp: lp_waiters_def lp_at_def entry_at_def split: if_splits)
  with receive_leaves_level [OF k(1), of 7 "ex_receiver te lp" lv True 1 "[1, 2, 3]" k'] k k' c
  show ?thesis by fastforce
qed

end
