(* ===== verification/Wake_Properties.thy ===== *)
theory Wake_Properties
  imports Message_Properties
begin

text \<open>
  The properties of \<open>AWAKE_ALL\<close> and of the permission check, and the registration of a receiver on a
  level that holds a message.
\<close>

section \<open>Permission\<close>

lemma send_denied:
  assumes inv: "sys_inv k R" and tg: "entry_at k i = Some tg" "CHECKPERM tg euid"
  obtains r k' where "tag_send (int i) level buffer sz euid k = Some (r, k')" "env_eq k k'"
    "r \<in> {- EINVAL, - EPERM, - EINTR}"
proof -
  obtain r k' where r: "tag_send (int i) level buffer sz euid k = Some (r, k')"
      "send_result k (int i) level buffer sz euid r k'" using tag_send_result [OF inv] by blast
  have "send_code k (int i) level sz euid \<in> {- EINVAL, - EPERM}" using tg by (simp add: send_code_def)
  with r(2) have "env_eq k k'" "r \<in> {- EINVAL, - EPERM, - EINTR}"
    by (auto simp: send_result_def errno_defs)
  with r(1) show thesis by (rule that)
qed

lemma receive_denied:
  assumes inv: "sys_inv k R" and i: "i < 256" and tg: "entry_at k i = Some tg" "CHECKPERM tg euid"
  obtains r k' where "tag_receive_enter (int i) level buffer sz euid k = Some (Inl r, k')" "env_eq k k'"
    "r \<in> {- EINVAL, - EPERM, - EINTR}"
proof (cases "bad_message_args (int i) level sz")
  case True
  then show thesis using that by (simp add: tag_receive_enter_def)
next
  case False
  obtain te where te: "k_tags k ! i = Some te" "k_tag_heap k te = Some tg"
    using tg(1) by (auto simp: entry_at_def bind_eq_Some_conv)
  obtain ok g where g: "next_outcome (k_signal k) = (ok, g)" by force
  note eqs = tag_receive_enter_def False interruptible_eq tag_lock_op_eq g sys_inv_locks [OF inv i] te tg(2)
  show thesis
    by (cases ok; rule that [where r = "if ok then - EPERM else - EINTR" and k' = "k\<lparr>k_signal := g\<rparr>"]; simp add: eqs Let_def)
qed

lemma ctl_denied:
  assumes inv: "sys_inv k R" and tg: "entry_at k i = Some tg" "CHECKPERM tg euid"
  obtains r k' where "tag_ctl (int i) command euid k = Some (r, k')" "env_eq k k'"
    "r \<in> {- EINVAL, - EPERM, - EINTR} \<or> r = 0 \<and> command = TAG_DELETE \<and> tag_waiters R i \<noteq> {}"
proof -
  obtain r k' where r: "tag_ctl (int i) command euid k = Some (r, k')"
      "ctl_result k R (int i) command euid r k'" by (rule tag_ctl_result [OF inv])
  have codes: "awake_code k i euid = - EPERM"
    "delete_code k R i euid = (if tag_waiters R i \<noteq> {} then 0 else - EPERM)"
    using tg by (simp_all add: awake_code_def delete_code_def)
  from r(2) show thesis
  proof cases
    case bad
    with r(1) that show thesis by simp
  next
    case awake
    from awake(4) show thesis by cases (use r(1) that codes in \<open>auto simp: errno_defs\<close>)
  next
    case delete
    from delete(4) show thesis
      by cases (use r(1) that codes delete(3) in \<open>auto simp: errno_defs split: if_splits\<close>)
  qed
qed

text \<open>
  C22. A caller whom the tag does not admit (it is restricted to its creator, and the caller is
  neither the creator nor the superuser) changes nothing: no call sends, registers, wakes or deletes
  for him, and with valid arguments the code is -EPERM, unless the call is interrupted or, for
  \<open>DELETE\<close>, receivers are inside.
\<close>

theorem denied_changes_nothing:
  assumes "reachable k R" and "entry_at k i = Some tg" and "i < 256" and "CHECKPERM tg euid"
  shows "(\<exists>r k'. tag_send (int i) level data sz euid k = Some (r, k') \<and> env_eq k k' \<and>
      r \<in> {- EINVAL, - EPERM, - EINTR}) \<and>
    (\<exists>r k'. tag_receive_enter (int i) level buffer sz euid k = Some (Inl r, k') \<and> env_eq k k' \<and>
      r \<in> {- EINVAL, - EPERM, - EINTR}) \<and>
    (\<exists>r k'. tag_ctl (int i) command euid k = Some (r, k') \<and> env_eq k k' \<and>
      (r \<in> {- EINVAL, - EPERM, - EINTR} \<or> r = 0 \<and> command = TAG_DELETE \<and> tag_waiters R i \<noteq> {}))"
proof -
  have inv: "sys_inv k R" by (rule reachable_inv [OF assms(1)])
  obtain r1 k1 where 1: "tag_send (int i) level data sz euid k = Some (r1, k1)" "env_eq k k1"
    "r1 \<in> {- EINVAL, - EPERM, - EINTR}" by (rule send_denied [OF inv assms(2,4)])
  obtain r2 k2 where 2: "tag_receive_enter (int i) level buffer sz euid k = Some (Inl r2, k2)" "env_eq k k2"
    "r2 \<in> {- EINVAL, - EPERM, - EINTR}" by (rule receive_denied [OF inv assms(3,2,4)])
  obtain r3 k3 where 3: "tag_ctl (int i) command euid k = Some (r3, k3)" "env_eq k k3"
    "r3 \<in> {- EINVAL, - EPERM, - EINTR} \<or> r3 = 0 \<and> command = TAG_DELETE \<and> tag_waiters R i \<noteq> {}"
    by (rule ctl_denied [OF inv assms(2,4)])
  from 1 2 3 show ?thesis by blast
qed

theorem denied_changes_nothing_witness:
  "\<exists>k tg. reachable k Map.empty \<and> entry_at k 0 = Some tg \<and> CHECKPERM tg 1001 \<and>
     (\<exists>r k'. tag_ctl 0 TAG_DELETE 1001 k = Some (r, k') \<and> env_eq k k' \<and> r \<in> {- EINVAL, - EPERM, - EINTR})"
proof -
  obtain k te a where k: "reachable k Map.empty" "k_tags k = (replicate 256 None)[0 := Some te]"
    "k_tag_heap k te = Some (new_tag 5 0 TAG_PERM_USR 1000 a)"
    by (rule ex_tag [of TAG_PERM_USR 1000 "[]" "[]" "[]"]) simp_all
  have e: "entry_at k 0 = Some (new_tag 5 0 TAG_PERM_USR 1000 a)"
    using k by (simp add: entry_at_def)
  have c: "CHECKPERM (new_tag 5 0 TAG_PERM_USR 1000 a) 1001" by (simp add: CHECKPERM_def new_tag_def tag_consts)
  have "tag_waiters Map.empty 0 = {}" by (simp add: tag_waiters_def)
  with denied_changes_nothing [OF k(1) e _ c, where command = TAG_DELETE] k(1) e c show ?thesis by fastforce
qed

section \<open>Waking a whole tag\<close>

text \<open>The receiver is awake and the flag of its tag is raised: it can leave.\<close>

definition released_by_flag :: "kernel \<Rightarrow> tid \<Rightarrow> receiver \<Rightarrow> bool" where
  "released_by_flag k t c \<longleftrightarrow>
     (\<exists>tg. k_tag_heap k (rc_entry c) = Some tg \<and> tg_ready tg = 1) \<and> \<not> asleep k t c"

lemma released_by_flag_mono:
  assumes "released_by_flag k t c"
    and "\<And>tg. k_tag_heap k (rc_entry c) = Some tg \<Longrightarrow> tg_ready tg = 1 \<Longrightarrow>
      \<exists>tg'. k_tag_heap k' (rc_entry c) = Some tg' \<and> tg_ready tg' = 1"
    and "\<And>lv'. k_level_heap k' (rc_lp c) = Some lv' \<Longrightarrow> t \<in> set (tl_local_wq lv') \<Longrightarrow> asleep k t c"
  shows "released_by_flag k' t c"
  using assms by (auto simp: released_by_flag_def asleep_def split: option.splits)

lemma released_by_flag_same:
  assumes "released_by_flag k t c" and "k_tag_heap k' (rc_entry c) = k_tag_heap k (rc_entry c)"
    and "k_level_heap k' (rc_lp c) = k_level_heap k (rc_lp c)"
  shows "released_by_flag k' t c"
  using assms by (simp add: released_by_flag_def asleep_def)

lemma live_entry_below:
  assumes "sys_inv k R" and "k_tag_heap k te = Some tg"
  shows "te < k_next k"
  using sys_invD(7) [OF assms(1)] assms(2) by (metis heap_ok_def linorder_not_less option.distinct(1))

lemma receiver_live:
  assumes inv: "sys_inv k R" and t: "R t = Some c"
  obtains tg lv where "k_tag_heap k (rc_entry c) = Some tg" "k_level_heap k (rc_lp c) = Some lv"
    "rc_entry c < k_next k" "rc_lp c < k_next k" "tg_ok R (rc_tag c) tg" "lv_ok R (rc_lp c) lv"
proof -
  obtain tg lv where "k_tag_heap k (rc_entry c) = Some tg" "k_level_heap k (rc_lp c) = Some lv"
    "tg_ok R (rc_tag c) tg" "lv_ok R (rc_lp c) lv" using rc_okE [OF inv t] by metis
  with that live_entry_below [OF inv] live_below [OF inv] show thesis by blast
qed

lemma get_keeps_flag:
  assumes inv: "sys_inv k R" and t: "R t = Some c" and free: "released_by_flag k t c"
    and res: "get_result k key command permission euid r k'"
  shows "released_by_flag k' t c"
proof -
  have live: "rc_entry c < k_next k" "rc_lp c < k_next k" using receiver_live [OF inv t] by metis+
  note same = released_by_flag_same [OF free]
  from res show ?thesis
  proof cases
    case create
    from create(3) show ?thesis
    proof cases
      case created
      then show ?thesis using live by (intro same) (simp_all add: with_tag_def with_levels_heap)
    next
      case failed
      from failed(5) show ?thesis by cases (rule same; simp add: failed(3))+
    qed (rule same; simp add: env_eqD)+
  qed (rule same; simp add: env_eqD)+
qed

lemma send_keeps_flag:
  assumes free: "released_by_flag k t c" and res: "send_result k tag level buffer sz euid r k'"
  shows "released_by_flag k' t c"
proof (cases "env_eq k k'")
  case True
  then show ?thesis by (intro released_by_flag_same [OF free]) (simp_all add: env_eqD)
next
  case False
  then obtain q qv r buf n where "k_level_heap k q = Some qv" "k_tag_heap k' = k_tag_heap k"
    "k_level_heap k' = (k_level_heap k)(q \<mapsto> send_delivery qv n r buf)"
    using res by (auto simp: send_result_def)
  then show ?thesis
    by (intro released_by_flag_mono [OF free])
      (auto simp: asleep_def send_delivery_def split: if_splits)
qed

lemma ctl_keeps_flag:
  assumes inv: "sys_inv k R" and t: "R t = Some c" and free: "released_by_flag k t c"
    and res: "ctl_result k R tag command euid r k'"
  shows "released_by_flag k' t c"
proof -
  note same = released_by_flag_same [OF free]
  from res show ?thesis
  proof cases
    case awake
    from awake(4) show ?thesis
    proof cases
      case woken
      show ?thesis
        by (rule released_by_flag_mono [OF free])
          (auto simp: woken(1) awaken_def wake_set_def wake_def asleep_def split: if_splits)
    qed (rule same; simp add: env_eqD)+
  next
    case delete
    from delete(4) show ?thesis
    proof cases
      case (deleted te tg bm t' g)
      have i: "nat tag < 256" using delete(2) by simp
      have "rc_tag c \<noteq> nat tag"
        using deleted(3) t by (auto simp: delete_code_def tag_waiters_def split: if_splits)
      moreover have "rc_tag c < 256" "k_tags k ! rc_tag c = Some (rc_entry c)"
        using sys_invD(3) [OF inv t] by (simp_all add: rc_ok_def)
      ultimately have "rc_entry c \<noteq> te"
        using tags_distinct [OF sys_invD(2) [OF inv] i, of "rc_tag c" te] deleted(4) by auto
      then show ?thesis
        by (intro released_by_flag_mono [OF free])
          (auto simp: deleted(2) without_tag_def asleep_def restrict_map_def split: if_splits)
    qed (rule same; simp add: env_eqD)+
  qed (rule same; simp)
qed

lemma enter_keeps_flag:
  assumes inv: "sys_inv k R" and t: "R t = Some c" and free: "released_by_flag k t c"
    and res: "enter_result k R tag level buffer sz euid r k'"
  shows "released_by_flag k' t c"
proof -
  have live: "rc_entry c < k_next k" "rc_lp c < k_next k" using receiver_live [OF inv t] by metis+
  show ?thesis
  proof (cases r)
    case (Inl code)
    with res live show ?thesis
      by (intro released_by_flag_same [OF free])
        (auto simp: enter_result_def env_eqD prepare_epoch_def)
  next
    case (Inr d)
    obtain te tg lp qv where q: "k_tag_heap k te = Some tg" "k_level_heap k lp = Some qv"
      "rc_lp d = (if tl_ready qv = 1 then k_next k else lp)"
      "env_eq (enter_effect k R (nat tag) (nat level) te tg lp qv (rc_lp d)) k'"
      using res Inr by (auto simp: enter_result_def)
    show ?thesis
    proof (rule released_by_flag_mono [OF free])
      fix x assume "k_tag_heap k (rc_entry c) = Some x" "tg_ready x = 1"
      then show "\<exists>tg'. k_tag_heap k' (rc_entry c) = Some tg' \<and> tg_ready tg' = 1"
        using q(1) by (auto simp: env_eqD [OF q(4)] enter_effect_def join_tag_def install_epoch_def prepare_epoch_def)
    next
      fix lv' assume "k_level_heap k' (rc_lp c) = Some lv'" "t \<in> set (tl_local_wq lv')"
      then show "asleep k t c"
        using q(2,3) live by (auto simp: env_eqD [OF q(4)] enter_effect_def join_level_def
          install_epoch_def prepare_epoch_def asleep_def split: if_splits)
    qed
  qed
qed

lemma sleep_keeps_flag:
  assumes t: "R t = Some c" and free: "released_by_flag k t c"
    and d: "R s = Some d" and w: "wait_condition d k = Some False" and sleep: "receive_sleep s d k = Some k'"
  shows "released_by_flag k' t c"
proof -
  have "s \<noteq> t"
  proof
    assume "s = t"
    with d t have "d = c" by simp
    with w free show False
      by (auto simp: released_by_flag_def wait_condition_def bind_eq_Some_conv)
  qed
  then show ?thesis
    using sleep by (intro released_by_flag_mono [OF free])
      (auto simp: receive_sleep_def update_level_def asleep_def bind_eq_Some_conv split: if_splits)
qed

lemma leave_keeps_flag:
  assumes inv: "sys_inv k R" and t: "R t = Some c" and free: "released_by_flag k t c"
    and d: "R s = Some d" and s: "s \<noteq> t" and leave: "tag_receive_leave s woken d k = Some (r, bytes, k')"
  shows "released_by_flag k' t c"
proof -
  obtain tg lv where tg: "k_tag_heap k (rc_entry d) = Some tg" "k_level_heap k (rc_lp d) = Some lv"
    "tg_ok R (rc_tag d) tg" using receiver_live [OF inv d] by metis
  obtain n b where k': "k_level_heap k' = (k_level_heap k)(rc_lp d := leave_rest s n b lv)"
    "k_tag_heap k' = (k_tag_heap k)(rc_entry d \<mapsto> dec_waiting tg)"
    using tag_receive_leave_result [OF inv d tg(1,2), of woken] leave by (auto split: prod.splits)
  show ?thesis
  proof (rule released_by_flag_mono [OF free])
    fix x assume x: "k_tag_heap k (rc_entry c) = Some x" "tg_ready x = 1"
    have "tg_waiting tg - 1 \<noteq> 0" if "rc_entry d = rc_entry c"
    proof -
      have same: "rc_tag c = rc_tag d"
        using tags_distinct [OF sys_invD(2) [OF inv]] sys_invD(3) [OF inv t] sys_invD(3) [OF inv d] that
        by (metis rc_ok_def)
      then have "{s, t} \<subseteq> tag_waiters R (rc_tag d)" using d t by (auto simp: tag_waiters_def)
      then have "card {s, t} \<le> card (tag_waiters R (rc_tag d))"
        by (rule card_mono [OF waiters_finite(1) [OF sys_invD(1) [OF inv]]])
      with s tg(3) show ?thesis by (simp add: tg_ok_def)
    qed
    with x tg(1) show "\<exists>tg'. k_tag_heap k' (rc_entry c) = Some tg' \<and> tg_ready tg' = 1"
      by (auto simp: k' dec_waiting_def)
  next
    fix lv' assume "k_level_heap k' (rc_lp c) = Some lv'" "t \<in> set (tl_local_wq lv')"
    then show "asleep k t c"
      using tg(2) by (auto simp: k' leave_rest_def leave_level_def asleep_def split: if_splits)
  qed
qed

lemma step_keeps_flag:
  assumes inv: "sys_inv k R" and t: "R t = Some c" and free: "released_by_flag k t c"
    and step: "sys_step k R k' R'" and t': "R' t = Some c"
  shows "released_by_flag k' t c"
  using step
proof cases
  case (get key command permission euid r)
  then show ?thesis using tag_get_result [OF inv, of key command permission euid]
    get_keeps_flag [OF inv t free] by (metis option.inject prod.inject)
next
  case (send tag level buffer sz euid r)
  then show ?thesis using tag_send_result [OF inv, of tag level buffer sz euid]
    send_keeps_flag [OF free] by (metis option.inject prod.inject)
next
  case (ctl tag command euid r)
  then show ?thesis using tag_ctl_result [OF inv, of tag command euid]
    ctl_keeps_flag [OF inv t free] by (metis option.inject prod.inject)
next
  case (enter s tag level buffer sz euid d)
  then show ?thesis using tag_receive_enter_result [OF inv, of tag level buffer sz euid]
    enter_keeps_flag [OF inv t free] by (metis option.inject prod.inject)
next
  case (refused s tag level buffer sz euid code)
  then show ?thesis using tag_receive_enter_result [OF inv, of tag level buffer sz euid]
    enter_keeps_flag [OF inv t free] by (metis option.inject prod.inject)
next
  case (sleep s d)
  then show ?thesis using sleep_keeps_flag [where t = t and c = c and k = k and R = R] t free by blast
next
  case (leave s d r bytes)
  moreover have "s \<noteq> t" using leave(1) t' by auto
  ultimately show ?thesis using leave_keeps_flag [OF inv t free] by blast
next
  case (signal s d r bytes)
  moreover have "s \<noteq> t" using signal(1) t' by auto
  ultimately show ?thesis using leave_keeps_flag [OF inv t free] by blast
next
  case environment
  then show ?thesis by (intro released_by_flag_same [OF free]) (simp_all add: env_eqD)
qed

lemma stays_keeps_flag:
  assumes "stays t c k R k' R'" and "reachable k R" and "released_by_flag k t c"
  shows "released_by_flag k' t c"
  using assms
proof (induction rule: stays.induct)
  case (stays_step k R k1 R1 k2 R2)
  then have "R1 t = Some c" "sys_inv k1 R1"
    using stays_registered reachable_inv [OF stays_reachable] by blast+
  with stays_step step_keeps_flag show ?case by blast
qed simp

lemma awake_all_flag:
  assumes inv: "sys_inv k R" and t: "R t = Some c" "rc_tag c = nat tag"
    and call: "tag_ctl tag TAG_AWAKE_ALL euid k = Some (1, k1)"
  shows "released_by_flag k1 t c"
proof -
  obtain r k' where "tag_ctl tag TAG_AWAKE_ALL euid k = Some (r, k')"
      "ctl_result k R tag TAG_AWAKE_ALL euid r k'" by (rule tag_ctl_result [OF inv])
  with call have "ctl_result k R tag TAG_AWAKE_ALL euid 1 k1" by simp
  then have "awake_result k (nat tag) euid 1 k1"
    by cases (simp_all add: tag_consts EINVAL_def)
  then obtain te tg g where k1: "k1 = (awaken (nat tag) te tg LEVELS k)\<lparr>k_signal := g\<rparr>"
      and te: "k_tags k ! nat tag = Some te" "k_tag_heap k te = Some tg"
    by cases (simp_all add: EINTR_def)
  have c: "k_tags k ! rc_tag c = Some (rc_entry c)" "rc_level c < LEVELS"
    using sys_invD(3) [OF inv t(1)] by (simp_all add: rc_ok_def)
  then have entry: "rc_entry c = te" using te(1) t(2) by simp
  obtain tg' lv new where lv: "k_tag_heap k (rc_entry c) = Some tg'" "k_level_heap k (rc_lp c) = Some lv"
    "lv_ok R (rc_lp c) lv" "tg_tag_level tg' ! rc_level c = Some new"
    "new = rc_lp c \<or> tl_ready lv = 1"
    using rc_okE [OF inv t(1)] by metis
  have "\<not> asleep k1 t c"
  proof (cases "tl_ready lv = 1")
    case True
    then have "tl_local_wq lv = []" using lv(3) by (simp add: lv_ok_def)
    with lv(2) show ?thesis by (simp add: asleep_def k1 awaken_def wake_set_def wake_def)
  next
    case False
    then have "tg_tag_level tg' ! rc_level c = Some (rc_lp c)" using lv(4,5) by simp
    moreover have "tg' = tg" using te(2) lv(1) entry by simp
    ultimately have "rc_lp c \<in> block_pointers tg 0 LEVELS"
      using c(2) by (auto simp: block_pointers_def)
    with lv(2) show ?thesis by (simp add: asleep_def k1 awaken_def wake_set_def wake_def)
  qed
  then show ?thesis by (simp add: released_by_flag_def k1 awaken_def entry)
qed

text \<open>
  C4. In the system of whole calls (\<open>sys_step\<close>), when \<open>AWAKE_ALL\<close> returns 1, every receiver of the tag is
  awake, on whatever level and epoch it waits; after any sequence of steps of this system in which it
  has not left, it finds the condition true, does not sleep again, and returns 0 without a message.
  The claim is limited to this system: when \<open>AWAKE_ALL\<close> comes between the decrement of a last receiver
  and its reset of the flag, the flag is lost and a new receiver sleeps on (\<open>awake_all_lost\<close>).
\<close>

theorem awake_all_wakes:
  assumes "reachable k R" and "tag_ctl tag TAG_AWAKE_ALL euid k = Some (1, k1)"
    and "R t = Some c" and "rc_tag c = nat tag" and "stays t c k1 R k2 R2"
  shows "wait_condition c k2 = Some True \<and> \<not> asleep k2 t c \<and>
    (\<exists>k3. tag_receive_leave t True c k2 = Some (0, [], k3))"
proof -
  have inv: "sys_inv k R" by (rule reachable_inv [OF assms(1)])
  have r1: "reachable k1 R" by (rule reachable.step [OF assms(1) sys_step.ctl [OF assms(2)]])
  have inv2: "sys_inv k2 R2" by (rule reachable_inv [OF stays_reachable [OF assms(5) r1]])
  have t2: "R2 t = Some c" using stays_registered [OF assms(5)] by simp
  have "released_by_flag k2 t c"
    by (rule stays_keeps_flag [OF assms(5) r1 awake_all_flag [OF inv assms(3,4,2)]])
  then obtain tg where tg: "k_tag_heap k2 (rc_entry c) = Some tg" "tg_ready tg = 1" "\<not> asleep k2 t c"
    by (auto simp: released_by_flag_def)
  obtain lv where lv: "k_level_heap k2 (rc_lp c) = Some lv" using receiver_live [OF inv2 t2] by metis
  have "leave_message True c tg lv (k_copy k2) = (0, [], k_copy k2)"
    using tg(2) by (simp add: leave_message_def Let_def)
  then have "\<exists>k3. tag_receive_leave t True c k2 = Some (0, [], k3)"
    using tag_receive_leave_result [OF inv2 t2 tg(1) lv, of True] by simp
  then show ?thesis using tg lv by (simp add: wait_condition_def)
qed

theorem awake_all_wakes_witness:
  "\<exists>k te lp k1 k2. reachable k [7 \<mapsto> ex_receiver te lp] \<and> asleep k 7 (ex_receiver te lp) \<and>
     tag_ctl 0 TAG_AWAKE_ALL 0 k = Some (1, k1) \<and>
     tag_receive_leave 7 True (ex_receiver te lp) k1 = Some (0, [], k2)"
proof -
  obtain k te lp tg lv where k: "reachable k [7 \<mapsto> ex_receiver te lp]" "k_tags k ! 0 = Some te"
    "k_tag_heap k te = Some tg" "tg_permission tg = TAG_PERM_ALL" "tg_ready tg = 0" "tg_waiting tg = 1"
    "k_level_heap k lp = Some lv" "tl_local_wq lv = [7]" "k_signal k = []"
    by (rule ex_sleeping [of "[]" "[]" "[]"]) blast
  have code: "awake_code k 0 0 = 1"
    using k by (simp add: awake_code_def entry_at_def CHECKPERM_def tag_consts)
  obtain r k1 where r: "tag_ctl 0 TAG_AWAKE_ALL 0 k = Some (r, k1)"
      "ctl_result k [7 \<mapsto> ex_receiver te lp] 0 TAG_AWAKE_ALL 0 r k1"
    by (rule tag_ctl_result [OF reachable_inv [OF k(1)]])
  from r(2) have "awake_result k 0 0 r k1" by cases (simp_all add: tag_consts)
  then have "r = 1" by cases (use code k(9) in simp_all)
  have c: "rc_tag (ex_receiver te lp) = nat 0" "rc_lp (ex_receiver te lp) = lp" by (simp_all add: ex_receiver_def)
  have "stays 7 (ex_receiver te lp) k1 [7 \<mapsto> ex_receiver te lp] k1 [7 \<mapsto> ex_receiver te lp]"
    by (rule stays_refl) simp
  from awake_all_wakes [OF k(1) r(1) [unfolded \<open>r = 1\<close>] _ c(1) this]
  obtain k2 where "tag_receive_leave 7 True (ex_receiver te lp) k1 = Some (0, [], k2)" by auto
  moreover have "asleep k 7 (ex_receiver te lp)" using k c by (simp add: asleep_def)
  ultimately show ?thesis using k(1) r(1) \<open>r = 1\<close> by blast
qed

lemma awake_interrupted_at_once:
  assumes "k_tags k ! i = Some te" and "k_tag_heap k te = Some tg" and "\<not> CHECKPERM tg euid"
    and "tg_ready tg = 0" and "tg_waiting tg \<noteq> 0" and "k_tag_lock k ! i = read_locked n" and "i < length (k_tag_lock k)"
    and "k_signal k = [True, False]"
  shows "\<exists>k'. tag_ctl_awake_all i euid k = Some (- EINTR, k') \<and>
    k_tag_heap k' = (k_tag_heap k)(te \<mapsto> tg\<lparr>tg_ready := 1\<rparr>) \<and> k_level_heap k' = k_level_heap k \<and>
    k_tags k' = k_tags k \<and> k_tag_lock k' ! i = read_locked n"
proof -
  have n: "LEVELS = Suc 31" by (simp add: LEVELS_def)
  have "awake_levels LEVELS 0 te s = Some (False, s\<lparr>k_signal := []\<rparr>)" if "k_signal s = [False]" for s
    using that unfolding n awake_levels.simps by (simp add: interruptible_eq)
  with assms show ?thesis
    by (simp add: tag_ctl_awake_all_def interruptible_eq tag_lock_op_eq update_tag_eq)
qed

text \<open>
  C29. \<open>AWAKE_ALL\<close> interrupted on its way: it has raised the flag of the tag, but a receiver on a
  level it has not come to sleeps on, and a second \<open>AWAKE_ALL\<close> takes the raised flag for a finished
  call: it returns 0 and wakes nobody.
\<close>

theorem awake_all_interrupted:
  "\<exists>k te lp k1 k2. reachable k [7 \<mapsto> ex_receiver te lp] \<and> asleep k 7 (ex_receiver te lp) \<and>
     tag_ctl 0 TAG_AWAKE_ALL 0 k = Some (- EINTR, k1) \<and>
     tag_ctl 0 TAG_AWAKE_ALL 0 (k1\<lparr>k_signal := []\<rparr>) = Some (0, k2) \<and>
     wait_condition (ex_receiver te lp) k2 = Some True \<and> asleep k2 7 (ex_receiver te lp)"
proof -
  obtain k te lp tg lv where k: "reachable k [7 \<mapsto> ex_receiver te lp]" "k_tags k ! 0 = Some te"
    "k_tag_heap k te = Some tg" "tg_permission tg = TAG_PERM_ALL" "tg_ready tg = 0" "tg_waiting tg = 1"
    "k_level_heap k lp = Some lv" "tl_local_wq lv = [7]" "k_signal k = [True, False]"
    by (rule ex_sleeping [of "[]" "[True, False]" "[]"]) blast
  note inv = reachable_inv [OF k(1)]
  have lock: "0 < length (k_tag_lock k)" using sys_invD(5) [OF inv] by (simp add: locks_ok_def)
  obtain k1 where k1: "tag_ctl_awake_all 0 0 k = Some (- EINTR, k1)"
    "k_tag_heap k1 = (k_tag_heap k)(te \<mapsto> tg\<lparr>tg_ready := 1\<rparr>)" "k_level_heap k1 = k_level_heap k"
    "k_tags k1 = k_tags k"
    using awake_interrupted_at_once [OF k(2,3) _ k(5) _ sys_inv_locks(1) [OF inv] lock k(9), of 0] k(4,6)
    by (auto simp: CHECKPERM_def tag_consts)
  let ?k1 = "k1\<lparr>k_signal := []\<rparr>"
  have c1: "tag_ctl 0 TAG_AWAKE_ALL 0 k = Some (- EINTR, k1)"
    using k1(1) by (simp add: tag_ctl_def MAX_TAGS_def)
  have r1: "reachable ?k1 [7 \<mapsto> ex_receiver te lp]"
    by (rule reachable.step [OF reachable.step [OF k(1) sys_step.ctl [OF c1]] sys_step.environment]) simp
  have code: "awake_code ?k1 0 0 = 0"
    using k(2,4) k1(2,4) by (simp add: awake_code_def entry_at_def CHECKPERM_def tag_consts)
  obtain r k2 where k2: "tag_ctl 0 TAG_AWAKE_ALL 0 ?k1 = Some (r, k2)"
      "ctl_result ?k1 [7 \<mapsto> ex_receiver te lp] 0 TAG_AWAKE_ALL 0 r k2"
    by (rule tag_ctl_result [OF reachable_inv [OF r1]])
  from k2(2) have "awake_result ?k1 0 0 r k2" by cases (simp_all add: tag_consts)
  then have "r = 0" "env_eq ?k1 k2" by (cases; use code in simp)+
  then have h: "k_tag_heap k2 = k_tag_heap k1" "k_level_heap k2 = k_level_heap k" "k_tags k2 = k_tags k"
    using k1 by (simp_all add: env_eqD)
  have "rc_lp (ex_receiver te lp) = lp" "rc_entry (ex_receiver te lp) = te" by (simp_all add: ex_receiver_def)
  then have "asleep k 7 (ex_receiver te lp)" "asleep k2 7 (ex_receiver te lp)"
    "wait_condition (ex_receiver te lp) k2 = Some True"
    using k h k1(2) by (simp_all add: asleep_def wait_condition_def)
  then show ?thesis using k(1) c1 k2(1) \<open>r = 0\<close> by blast
qed

section \<open>Registration and epochs\<close>

lemma level_at_lp: "level_at k i l = Some lv \<longleftrightarrow> (\<exists>p. lp_at k i l = Some p \<and> k_level_heap k p = Some lv)"
  by (auto simp: level_at_def bind_eq_Some_conv)

text \<open>
  C18. A receiver registers on the installed level if that holds no message; otherwise on a fresh
  level, which it installs with the next epoch, and the level with the message stays as it is for
  its own receivers. So nobody receives a message that was there before it came.
\<close>

theorem receive_opens_epoch:
  assumes "reachable k R" and "epochs_left k"
    and "tag_receive_enter tag level buffer sz euid k = Some (Inr c, k')"
    and "lp_at k (nat tag) (nat level) = Some p" and "k_level_heap k p = Some lv"
  shows "\<exists>lv'. lp_at k' (nat tag) (nat level) = Some (rc_lp c) \<and> k_level_heap k' (rc_lp c) = Some lv' \<and>
    tl_ready lv' = 0 \<and>
    (if tl_ready lv = 1
     then k_level_heap k (rc_lp c) = None \<and> tl_epoch lv' = tl_epoch lv + 1 \<and> tl_waiting lv' = 1 \<and>
       k_level_heap k' p = Some lv
     else rc_lp c = p \<and> tl_epoch lv' = tl_epoch lv \<and> tl_waiting lv' = tl_waiting lv + 1)"
proof -
  have inv: "sys_inv k R" by (rule reachable_inv [OF assms(1)])
  have "enter_result k R tag level buffer sz euid (Inr c) k'"
    using tag_receive_enter_result [OF inv, of tag level buffer sz euid] assms(3) by auto
  then obtain te tg q qv where e: "receive_code k tag level sz euid = None" "k_tags k ! nat tag = Some te"
    "k_tag_heap k te = Some tg" "tg_tag_level tg ! nat level = Some q" "k_level_heap k q = Some qv"
    "rc_lp c = (if tl_ready qv = 1 then k_next k else q)"
    "env_eq (enter_effect k R (nat tag) (nat level) te tg q qv (rc_lp c)) k'"
    by (auto simp: enter_result_def)
  have same: "q = p" "qv = lv" using e assms(4,5) by (auto simp: lp_at_def entry_at_def)
  have "\<not> bad_message_args tag level sz" using e(1) by (auto simp: receive_code_def split: if_splits)
  note args = bad_message_argsD [OF this]
  have len: "nat level < length (tg_tag_level tg)"
  proof -
    obtain x where "k_tag_heap k te = Some x" "tg_ok R (nat tag) x"
      using tags_okE [OF sys_invD(2) [OF inv] args(2) e(2)] by blast
    with e(3) args(4) show ?thesis by (simp add: tg_ok_def)
  qed
  have ok: "tl_ready lv \<in> {0, 1}"
    using tags_okE [OF sys_invD(2) [OF inv] args(2) e(2)] e(3,4) args(4) same assms(5)
    by (metis lv_ok_def option.inject)
  have new: "k_level_heap k (k_next k) = None" using fresh_unused(1) [OF inv] .
  have ep: "0 \<le> tl_epoch lv \<and> tl_epoch lv < INT_MAX" using assms(2,5) by (auto simp: epochs_left_def)
  have next_ep: "to_c_int (tl_epoch lv + 1) = tl_epoch lv + 1"
    using ep by (intro to_c_int_small) simp_all
  have below: "p < k_next k" by (rule live_below [OF inv assms(5)])
  show ?thesis
  proof (cases "tl_ready lv = 1")
    case True
    then show ?thesis using e(2,3,6) same len new below assms(5) next_ep
      by (auto simp: lp_at_def entry_at_def env_eqD [OF e(7)] enter_effect_def install_epoch_def
          prepare_epoch_def join_tag_def join_level_def fresh_level_def)
  next
    case False
    then have "tl_ready lv = 0" using ok by simp
    then show ?thesis using e(2-4,6) same
      by (auto simp: lp_at_def entry_at_def env_eqD [OF e(7)] enter_effect_def join_tag_def join_level_def)
  qed
qed

theorem receive_opens_epoch_witness:
  "\<exists>k te lp k' c lv'. reachable k [7 \<mapsto> ex_receiver te lp] \<and>
     tag_receive_enter 0 3 True 10 0 k = Some (Inr c, k') \<and> rc_lp c \<noteq> lp \<and>
     k_level_heap k' (rc_lp c) = Some lv' \<and> tl_ready lv' = 0 \<and> tl_epoch lv' = 1"
proof -
  obtain k te lp tg lv where k: "reachable k [7 \<mapsto> ex_receiver te lp]" "k_tags k ! 0 = Some te"
    "k_tag_heap k te = Some tg" "tg_permission tg = TAG_PERM_ALL" "tg_tag_level tg ! 3 = Some lp"
    "k_level_heap k lp = Some lv" "tl_ready lv = 1" "tl_epoch lv = 0" "k_alloc k = []" "k_signal k = []"
    "epochs_left k"
    by (rule ex_message [of "[]" "[]" "[]"]) blast
  have p: "lp_at k (nat 0) (nat 3) = Some lp" using k by (simp add: lp_at_def entry_at_def)
  have "receive_code k 0 3 10 0 = None"
    using k by (simp add: receive_code_def bad_message_args_def MAX_TAGS_def LEVELS_def BUFFER_SIZE_def
        entry_at_def CHECKPERM_def tag_consts)
  moreover obtain r k' where r: "tag_receive_enter 0 3 True 10 0 k = Some (r, k')"
      "enter_result k [7 \<mapsto> ex_receiver te lp] 0 3 True 10 0 r k'"
    using tag_receive_enter_result [OF reachable_inv [OF k(1)]] by blast
  ultimately obtain c where c: "tag_receive_enter 0 3 True 10 0 k = Some (Inr c, k')"
    using k(9,10) by (cases r) (auto simp: enter_result_def)
  from receive_opens_epoch [OF k(1,11) c p k(6)] k(6-8) have
    "\<exists>lv'. k_level_heap k' (rc_lp c) = Some lv' \<and> tl_ready lv' = 0 \<and> tl_epoch lv' = 1 \<and> rc_lp c \<noteq> lp"
    by auto
  with k(1) c show ?thesis by blast
qed

text \<open>
  A receiver interrupted between the installation of the next epoch and its read lock puts the
  old level back but does not free the new one: the object stays allocated and nothing refers to it.
\<close>

theorem interrupted_epoch_leaks:
  "\<exists>k te lp k'. reachable k [7 \<mapsto> ex_receiver te lp] \<and>
     tag_receive_enter 0 3 True 10 0 k = Some (Inl (- EINTR), k') \<and>
     k_level_heap k (k_next k) = None \<and> k_level_heap k' (k_next k) \<noteq> None \<and>
     (\<forall>i l. \<not> owns k' [7 \<mapsto> ex_receiver te lp] (k_next k) i l)"
proof -
  obtain k te lp tg lv where k: "reachable k [7 \<mapsto> ex_receiver te lp]" "k_tags k ! 0 = Some te"
    "k_tag_heap k te = Some tg" "tg_permission tg = TAG_PERM_ALL" "tg_tag_level tg ! 3 = Some lp"
    "k_level_heap k lp = Some lv" "tl_ready lv = 1" "k_alloc k = []" "k_signal k = [True, True, True, True, False]"
    by (rule ex_message [of "[]" "[True, True, True, True, False]" "[]"]) blast
  note inv = reachable_inv [OF k(1)]
  have args: "\<not> bad_message_args 0 3 10" by (simp add: bad_message_args_def MAX_TAGS_def LEVELS_def BUFFER_SIZE_def)
  have i: "k_tags k ! nat 0 = Some te" "tg_tag_level tg ! nat 3 = Some lp" "\<not> CHECKPERM tg 0"
    using k by (simp_all add: CHECKPERM_def)
  have g: "next_outcome (k_signal k) = (True, [True, True, True, False])"
    "next_outcome [True, True, True, False] = (True, [True, True, False])"
    "next_outcome [True, True, False] = (True, [True, False])" "next_outcome [True, False] = (True, [False])"
    "next_outcome [False] = (False, [])" "next_outcome (k_alloc k) = (True, [])" "next_outcome [] = (True, [])"
    using k(8,9) by simp_all
  obtain k' where k': "tag_receive_enter 0 3 True 10 0 k = Some (Inl (- EINTR), k')"
      "env_eq (prepare_epoch (nat 3) lv k) k'"
    using tag_receive_enter_epoch [OF inv args i(1) k(3) i(3,2) k(6,7) g] by auto
  have "owns k' R = owns k R" for R
    by (rule ext)+ (simp add: owns_def lp_at_def entry_at_def env_eqD [OF k'(2)] prepare_epoch_def)
  moreover have "\<not> owns k [7 \<mapsto> ex_receiver te lp] (k_next k) j m" for j m
    using fresh_unused [OF inv] by (auto simp: owns_def lp_waiters_def)
  moreover have "k_level_heap k' (k_next k) \<noteq> None"
    by (simp add: env_eqD [OF k'(2)] prepare_epoch_def)
  ultimately show ?thesis
    by (intro exI [of _ k] exI [of _ te] exI [of _ lp] exI [of _ k']) (simp add: k(1) k'(1) fresh_unused(1) [OF inv])
qed

end
