(* ===== verification/System_Properties.thy ===== *)
theory System_Properties
  imports Tag_Examples
begin

text \<open>
  The properties of the service as a whole: the invariant, the return of every call, the locks, the
  separation of the tags, the references to the module, and the refinement of the table of tags a
  user sees.
\<close>

section \<open>Invariant and progress\<close>

text \<open>
  C14. The invariant holds in every reachable state: the counters of tags and levels count the
  receivers inside, a level with a message has receivers and none of them sleeps, every receiver
  works on live objects, the table of keys, the bitmask and the array of tags agree, and no lock is
  held but the ones of the receivers.
\<close>

theorem service_invariant: "reachable k R \<Longrightarrow> sys_inv k R"
  by (rule reachable_inv)

theorem service_invariant_witness:
  "\<exists>k te lp. reachable k [7 \<mapsto> ex_receiver te lp] \<and> sys_inv k [7 \<mapsto> ex_receiver te lp]"
proof -
  obtain k te lp where "reachable k [7 \<mapsto> ex_receiver te lp]"
    by (rule ex_sleeping [of "[]" "[]" "[]"]) blast
  with service_invariant [OF this] show ?thesis by blast
qed

text \<open>
  C3. In the system of whole calls (\<open>sys_step\<close>: each call, and each of the parts of \<open>tag_receive\<close> before,
  during and after the wait, is one step, so that no call starts while another is in the middle of its
  body), every call made in a reachable state returns, whatever its arguments and the choices of the
  environment: it follows no null or stale pointer, frees nothing twice, releases no lock it does not
  hold and never waits for a lock another call has left behind. Each thread inside \<open>tag_receive\<close>
  can evaluate its condition, sleep when it is false, and leave. The claim is limited to this system:
  when the bodies of the calls overlap it fails, as \<open>level_freed_in_use\<close>, \<open>mutex_released_after_free\<close> and
  \<open>last_receiver_spins\<close> show for the system of single steps.
\<close>

theorem calls_return:
  assumes "reachable k R"
  shows "tag_get key command permission euid k \<noteq> None \<and> tag_send tag level data sz euid k \<noteq> None \<and>
    tag_receive_enter tag level buffer sz euid k \<noteq> None \<and> tag_ctl tag command euid k \<noteq> None \<and>
    (\<forall>t c. R t = Some c \<longrightarrow> wait_condition c k \<noteq> None \<and> receive_sleep t c k \<noteq> None \<and>
      (\<forall>woken. tag_receive_leave t woken c k \<noteq> None))"
proof -
  have inv: "sys_inv k R" by (rule reachable_inv [OF assms])
  have "wait_condition c k \<noteq> None \<and> receive_sleep t c k \<noteq> None \<and> tag_receive_leave t woken c k \<noteq> None"
    if rc: "R t = Some c" for t c woken
  proof -
    obtain tg lv where "k_tag_heap k (rc_entry c) = Some tg" "k_level_heap k (rc_lp c) = Some lv"
      "wait_condition c k = Some (tl_ready lv \<noteq> 0 \<or> tg_ready tg \<noteq> 0)"
      by (rule wait_condition_eq [OF inv rc])
    moreover obtain r bytes k' where "tag_receive_leave t woken c k = Some (r, bytes, k')"
      by (rule tag_receive_leave_inv [OF inv rc])
    ultimately show ?thesis by (simp add: receive_sleep_def update_level_eq)
  qed
  then show ?thesis
    using tag_get_result [OF inv, of key command permission euid]
      tag_send_result [OF inv, of tag level data sz euid]
      tag_receive_enter_result [OF inv, of tag level buffer sz euid]
      tag_ctl_result [OF inv, of tag command euid]
    by (metis option.distinct(1))
qed

theorem calls_return_witness:
  "\<exists>k te lp r bytes k'. reachable k [7 \<mapsto> ex_receiver te lp] \<and>
     tag_receive_leave 7 False (ex_receiver te lp) k = Some (r, bytes, k')"
proof -
  obtain k te lp where k: "reachable k [7 \<mapsto> ex_receiver te lp]"
    by (rule ex_sleeping [of "[]" "[]" "[]"]) blast
  from calls_return [OF k] have "tag_receive_leave 7 False (ex_receiver te lp) k \<noteq> None" by simp
  with k show ?thesis by fast
qed

section \<open>Locks\<close>

text \<open>
  When no thread is inside \<open>tag_receive\<close>, every lock of the service is free, every counter is 0
  and no message is left: nothing a call takes survives it.
\<close>

theorem quiescent_service_is_clean:
  assumes "reachable k Map.empty" and "i < 256" and "entry_at k i = Some tg" and "l < LEVELS"
  shows "k_common_lock k = init_rwsem \<and> k_tag_lock k ! i = init_rwsem \<and>
    tg_level_lock tg ! l = init_rwsem \<and> tg_waiting tg = 0 \<and> tg_ready tg = 0 \<and>
    (\<exists>lv. level_at k i l = Some lv \<and> tl_rcu_lock lv = init_rwsem \<and> \<not> tl_w_mutex lv \<and>
      tl_waiting lv = 0 \<and> tl_ready lv = 0 \<and> tl_local_wq lv = [])"
proof -
  have inv: "sys_inv k Map.empty" by (rule reachable_inv [OF assms(1)])
  have none: "tag_waiters Map.empty j = {}" "lp_waiters Map.empty p = {}" for j p
    by (simp_all add: tag_waiters_def lp_waiters_def)
  obtain te where te: "k_tags k ! i = Some te" "k_tag_heap k te = Some tg"
    using assms(3) by (auto simp: entry_at_def bind_eq_Some_conv)
  obtain tg' p lv where tg': "k_tag_heap k te = Some tg'" "tg_ok Map.empty i tg'" "lv_ok Map.empty p lv"
    "level_at k i l = Some lv"
    using tags_okE [OF sys_invD(2) [OF inv] assms(2) te(1)] assms(4) by metis
  have "tg_ok Map.empty i tg" using tg'(1,2) te(2) by simp
  then have "tg_level_lock tg ! l = init_rwsem" "tg_waiting tg = 0" "tg_ready tg = 0"
    using assms(4) none by (auto simp: tg_ok_def)
  moreover have "k_common_lock k = init_rwsem" "k_tag_lock k ! i = init_rwsem"
    using sys_invD(5) [OF inv] assms(2) none by (simp_all add: locks_ok_def init_rwsem_read_locked)
  moreover have "tl_rcu_lock lv = init_rwsem \<and> \<not> tl_w_mutex lv \<and> tl_waiting lv = 0 \<and> tl_ready lv = 0 \<and>
      tl_local_wq lv = []"
    using tg'(3) none by (auto simp: lv_ok_def init_rwsem_read_locked)
  ultimately show ?thesis using tg'(4) by blast
qed

theorem quiescent_service_is_clean_witness:
  "\<exists>k tg. reachable k Map.empty \<and> entry_at k 0 = Some tg \<and> k_tag_lock k ! 0 = init_rwsem"
proof -
  obtain k te a where k: "reachable k Map.empty" "k_tags k = (replicate 256 None)[0 := Some te]"
    "k_tag_heap k te = Some (new_tag 5 0 TAG_PERM_ALL 0 a)"
    by (rule ex_tag [of TAG_PERM_ALL 0 "[]" "[]" "[]"]) simp_all
  have e: "entry_at k 0 = Some (new_tag 5 0 TAG_PERM_ALL 0 a)" using k by (simp add: entry_at_def)
  have "0 < LEVELS" by (simp add: LEVELS_def)
  with quiescent_service_is_clean [OF k(1) _ e] k(1) e show ?thesis by fastforce
qed

section \<open>The table of tags\<close>

text \<open>
  The view of a user: for each descriptor in use the key, the permission and the owner. The
  specification of the service lets a tag appear for a free descriptor, with a key no other tag has,
  and lets a tag disappear when nobody waits on it.
\<close>

definition info :: "tag \<Rightarrow> int \<times> int \<times> int" where
  "info tg = (tg_key tg, tg_permission tg, tg_euid tg)"

definition directory :: "kernel \<Rightarrow> nat \<Rightarrow> (int \<times> int \<times> int) option" where
  "directory k i = (if i < 256 then map_option info (entry_at k i) else None)"

inductive directory_step ::
  "nat set \<Rightarrow> (nat \<Rightarrow> (int \<times> int \<times> int) option) \<Rightarrow> (nat \<Rightarrow> (int \<times> int \<times> int) option) \<Rightarrow> bool" for busy where
  same: "directory_step busy d d"
| create: "i < 256 \<Longrightarrow> d i = None \<Longrightarrow> 0 \<le> key \<Longrightarrow> permission \<in> {TAG_PERM_ALL, TAG_PERM_USR} \<Longrightarrow>
    (\<And>j p e. key \<noteq> 0 \<Longrightarrow> d j \<noteq> Some (key, p, e)) \<Longrightarrow>
    directory_step busy d (d(i \<mapsto> (key, permission, euid)))"
| delete: "i \<notin> busy \<Longrightarrow> d i \<noteq> None \<Longrightarrow> directory_step busy d (d(i := None))"

definition busy :: "receivers \<Rightarrow> nat set" where
  "busy R = {i. tag_waiters R i \<noteq> {}}"

lemma directory_cong:
  assumes "k_tags k' = k_tags k" and "k_tag_heap k' = k_tag_heap k"
  shows "directory k' = directory k"
  by (rule ext) (simp add: directory_def entry_at_def assms)

lemma directory_tag:
  assumes "k_tags k' = k_tags k" and "k_tag_heap k' = (k_tag_heap k)(te \<mapsto> tg')"
    and "k_tag_heap k te = Some tg" and "info tg' = info tg"
  shows "directory k' = directory k"
  using assms by (auto simp: directory_def entry_at_def fun_eq_iff split: bind_split)

lemma directory_with_tag:
  assumes inv: "sys_inv k R" and i: "i < 256"
    and s: "k_tags s = k_tags k" "k_tag_heap s = k_tag_heap k" "k_next s = k_next k"
  shows "directory (with_tag key i permission euid s) = (directory k)(i \<mapsto> (key, permission, euid))"
proof
  fix j
  have len: "length (k_tags k) = 256" using sys_invD(6) [OF inv] by (simp add: registry_inv_def)
  have "k_tags k ! j \<noteq> Some (k_next k + LEVELS)" if "j < 256"
    using fresh_block(3) [OF inv _ that] by simp
  then show "directory (with_tag key i permission euid s) j = ((directory k)(i \<mapsto> (key, permission, euid))) j"
    using i s len by (auto simp: directory_def entry_at_def with_tag_fields info_def new_tag_def nth_list_update
        split: bind_split)
qed

lemma key_unused:
  assumes inv: "sys_inv k R" and reg: "registered k key i bm t" and key: "key \<noteq> 0"
  shows "directory k j \<noteq> Some (key, p, e)"
proof
  assume "directory k j = Some (key, p, e)"
  then obtain tg where tg: "entry_at k j = Some tg" "tg_key tg = key" "j < 256"
    by (auto simp: directory_def info_def split: if_splits)
  have "linked k (tg_key tg) j"
    using sys_invD(6) [OF inv] tg(1,3) unfolding registry_inv_iff by blast
  with reg key tg(2) show False by (simp add: linked_def registered_def)
qed

lemma get_directory:
  assumes inv: "sys_inv k R" and res: "get_result k key command permission euid r k'"
  shows "directory_step (busy R) (directory k) (directory k')"
proof -
  have refl: "directory_step (busy R) (directory k) (directory k')"
    if "k_tags k' = k_tags k" "k_tag_heap k' = k_tag_heap k" using directory_cong [OF that] same by simp
  from res show ?thesis
  proof cases
    case create
    from create(3) show ?thesis
    proof cases
      case (created i bm t s al g)
      have i: "i < 256" "k_tags k ! i = None"
        using created(4) free_unused(1) [OF inv] by (simp_all add: registered_def)
      then have "directory k i = None" by (simp add: directory_def entry_at_def)
      moreover have "permission \<in> {TAG_PERM_ALL, TAG_PERM_USR}"
        using created(3) by (auto simp: create_code_def split: if_splits)
      moreover have "directory k' = (directory k)(i \<mapsto> (key, permission, euid))"
        unfolding created(2) by (rule directory_with_tag [OF inv i(1)]) (simp_all add: created(5))
      ultimately show ?thesis
        using i(1) create(1) key_unused [OF inv created(4)] by (auto intro: directory_step.create)
    next
      case failed
      from failed(5) show ?thesis by cases (rule refl; simp add: failed(3))+
    qed (rule refl; simp add: env_eqD)+
  qed (rule refl; simp add: env_eqD)+
qed

lemma ctl_directory:
  assumes inv: "sys_inv k R" and res: "ctl_result k R tag command euid r k'"
  shows "directory_step (busy R) (directory k) (directory k')"
proof -
  have refl: "directory_step (busy R) (directory k) (directory k')"
    if "k_tags k' = k_tags k" "k_tag_heap k' = k_tag_heap k" using directory_cong [OF that] same by simp
  from res show ?thesis
  proof cases
    case awake
    from awake(4) show ?thesis
    proof cases
      case (woken te tg m g)
      have "directory k' = directory k"
        by (rule directory_tag [where te = te and tg = tg and tg' = "tg\<lparr>tg_ready := 1\<rparr>"])
          (simp_all add: woken(1,4) awaken_def info_def)
      then show ?thesis using same by simp
    qed (rule refl; simp add: env_eqD)+
  next
    case delete
    let ?i = "nat tag"
    from delete(4) show ?thesis
    proof cases
      case (deleted te tg bm t g)
      have i: "?i < 256" using delete(2) by simp
      have len: "length (k_tags k) = 256" using sys_invD(6) [OF inv] by (simp add: registry_inv_def)
      have "directory k' = (directory k)(?i := None)"
      proof
        fix j
        have "k_tags k ! j \<noteq> Some te" if "j < 256" "j \<noteq> ?i"
          using tags_distinct [OF sys_invD(2) [OF inv] that(1) i _ deleted(4)] that(2) by blast
        then show "directory k' j = ((directory k)(?i := None)) j"
          using i len by (auto simp: directory_def entry_at_def deleted(2) without_tag_def nth_list_update
              split: bind_split)
      qed
      moreover have "?i \<notin> busy R" using deleted(3) by (auto simp: delete_code_def busy_def split: if_splits)
      moreover have "directory k ?i \<noteq> None" using i deleted(4,5) by (simp add: directory_def entry_at_def)
      ultimately show ?thesis by (simp add: directory_step.delete)
    qed (rule refl; simp add: env_eqD)+
  qed (rule refl; simp)
qed

lemma enter_directory:
  assumes "enter_result k R tag level buffer sz euid r k'"
  shows "directory k' = directory k"
proof (cases r)
  case (Inl code)
  with assms show ?thesis
    by (intro directory_cong) (auto simp: enter_result_def env_eqD prepare_epoch_def)
next
  case (Inr c)
  obtain te tg lp lv where q: "k_tag_heap k te = Some tg"
    "env_eq (enter_effect k R (nat tag) (nat level) te tg lp lv (rc_lp c)) k'"
    using assms Inr by (auto simp: enter_result_def)
  then show ?thesis
    by (cases "tl_ready lv = 1";
        intro directory_tag [where te = te and tg = tg and tg' = "the (k_tag_heap k' te)"];
        simp add: env_eqD [OF q(2)] enter_effect_def info_def join_tag_def install_epoch_def prepare_epoch_def)
qed

lemma leave_directory:
  assumes inv: "sys_inv k R" and t: "R t = Some c"
    and leave: "tag_receive_leave t woken c k = Some (r, bytes, k')"
  shows "directory k' = directory k"
proof -
  obtain tg lv where tg: "k_tag_heap k (rc_entry c) = Some tg" "k_level_heap k (rc_lp c) = Some lv"
    using rc_okE [OF inv t] by metis
  have "k_tags k' = k_tags k" "k_tag_heap k' = (k_tag_heap k)(rc_entry c \<mapsto> dec_waiting tg)"
    using tag_receive_leave_result [OF inv t tg, of woken] leave by (auto split: prod.splits)
  then show ?thesis using tg(1) by (rule directory_tag) (simp add: info_def dec_waiting_def)
qed

text \<open>
  C1. The service refines the table of tags: every step of every thread, seen through the keys,
  permissions and owners of the tags in use, is a step of the specification.
\<close>

theorem service_refines_directory:
  assumes "reachable k R" and "sys_step k R k' R'"
  shows "directory_step (busy R) (directory k) (directory k')"
  using assms(2)
proof cases
  case (get key command permission euid r)
  then show ?thesis using tag_get_result [OF reachable_inv [OF assms(1)], of key command permission euid]
    get_directory [OF reachable_inv [OF assms(1)]] by (metis option.inject prod.inject)
next
  case (send tag level buffer sz euid r)
  then have "send_result k tag level buffer sz euid r k'"
    using tag_send_result [OF reachable_inv [OF assms(1)], of tag level buffer sz euid] by auto
  then have "directory k' = directory k"
    by (intro directory_cong) (auto simp: send_result_def env_eqD)
  then show ?thesis using same by simp
next
  case (ctl tag command euid r)
  then show ?thesis using tag_ctl_result [OF reachable_inv [OF assms(1)], of tag command euid]
    ctl_directory [OF reachable_inv [OF assms(1)]] by (metis option.inject prod.inject)
next
  case (enter t tag level buffer sz euid c)
  then show ?thesis using tag_receive_enter_result [OF reachable_inv [OF assms(1)], of tag level buffer sz euid]
    enter_directory same by (metis option.inject prod.inject)
next
  case (refused t tag level buffer sz euid code)
  then show ?thesis using tag_receive_enter_result [OF reachable_inv [OF assms(1)], of tag level buffer sz euid]
    enter_directory same by (metis option.inject prod.inject)
next
  case (sleep t c)
  then have "directory k' = directory k"
    by (intro directory_cong) (auto simp: receive_sleep_def update_level_def bind_eq_Some_conv)
  then show ?thesis using same by simp
next
  case (leave t c r bytes)
  then show ?thesis using leave_directory [OF reachable_inv [OF assms(1)]] same by simp
next
  case (signal t c r bytes)
  then show ?thesis using leave_directory [OF reachable_inv [OF assms(1)]] same by simp
next
  case environment
  then have "directory k' = directory k" by (intro directory_cong) (simp_all add: env_eqD)
  then show ?thesis using same by simp
qed

theorem service_refines_directory_witness:
  "\<exists>k k'. tag_get 5 TAG_CREAT TAG_PERM_USR 1000 k = Some (0, k') \<and> directory k = Map.empty \<and>
     directory k' = [0 \<mapsto> (5, TAG_PERM_USR, 1000)] \<and> directory_step {} (directory k) (directory k')"
proof -
  obtain k where k: "reachable k Map.empty" "k_alloc k = []" "k_signal k = []"
    "bm_used (k_tag_bitmask k) = {}" "tag_table_map (k_tag_table k) = Map.empty"
    "k_tags k = replicate 256 None" by (rule ex_start)
  have key: "0 \<le> (5::int)" "5 \<le> INT_MAX" by (simp_all add: INT_MAX_def)
  obtain bm t s k' where k': "tag_get 5 TAG_CREAT TAG_PERM_USR 1000 k = Some (int 0, k')"
    "k' = with_tag 5 0 TAG_PERM_USR 1000 s" "k_tags s = k_tags k" "k_tag_heap s = k_tag_heap k" "k_next s = k_next k"
    by (rule create_first [OF k(1-3) first_code(2) [OF k(1,4,5)] key])
  have d: "directory k = Map.empty" using k(6) by (auto simp: directory_def entry_at_def)
  have "directory k' = (directory k)(0 \<mapsto> (5, TAG_PERM_USR, 1000))"
    unfolding k'(2) by (rule directory_with_tag [OF reachable_inv [OF k(1)] _ k'(3-5)]) simp
  moreover have "busy Map.empty = {}" by (simp add: busy_def tag_waiters_def)
  ultimately have "directory k' = [0 \<mapsto> (5, TAG_PERM_USR, 1000)]" "directory_step {} (directory k) (directory k')"
    using service_refines_directory [OF k(1) sys_step.get [OF key(2) k'(1)]] d by simp_all
  with k'(1) d show ?thesis by (intro exI [of _ k] exI [of _ k']) simp
qed

text \<open>
  C23. Two tags never share a level, and never a key but the private one; the table of keys leads
  from the key of a tag to its descriptor.
\<close>

theorem tags_are_separate:
  assumes "reachable k R" and "i < 256" and "entry_at k i = Some tg" and "l < LEVELS"
  shows "\<exists>p lv. tg_tag_level tg ! l = Some p \<and> k_level_heap k p = Some lv \<and> length (tl_buffer lv) = BUFFER_SIZE \<and>
    (\<forall>j<256. \<forall>m<LEVELS. \<forall>tg'. entry_at k j = Some tg' \<and> tg_tag_level tg' ! m = Some p \<longrightarrow> j = i \<and> m = l) \<and>
    (\<forall>j<256. \<forall>tg'. entry_at k j = Some tg' \<and> tg_key tg' = tg_key tg \<and> tg_key tg \<noteq> 0 \<longrightarrow> j = i) \<and>
    (tg_key tg \<noteq> 0 \<longrightarrow> open_code k (tg_key tg) = int i)"
proof -
  have inv: "sys_inv k R" by (rule reachable_inv [OF assms(1)])
  obtain te where te: "k_tags k ! i = Some te" using assms(3) by (auto simp: entry_at_def bind_eq_Some_conv)
  obtain p lv where p: "tg_tag_level tg ! l = Some p" "k_level_heap k p = Some lv" "lv_ok R p lv"
    using tags_okE [OF sys_invD(2) [OF inv] assms(2) te] assms(3,4) by (metis option.inject)
  have "owns k R p i l" using assms p(1) by (simp add: owns_def lp_at_def)
  then have levels: "j = i \<and> m = l"
    if "j < 256" "m < LEVELS" "entry_at k j = Some tg'" "tg_tag_level tg' ! m = Some p" for j m tg'
  proof -
    have "owns k R p j m" using that by (simp add: owns_def lp_at_def)
    with \<open>owns k R p i l\<close> show ?thesis using sys_invD(4) [OF inv] unfolding owners_ok_def by blast
  qed
  have key: "tag_table_map (k_tag_table k) (word_of_int (tg_key x)) =
      Some (Tag_Entry (word_of_int (tg_key x)) (int j))"
    if "j < 256" "entry_at k j = Some x" "tg_key x \<noteq> 0" for j x
    using sys_invD(6) [OF inv] that unfolding registry_inv_iff linked_def by blast
  have keys: "j = i" if "j < 256" "entry_at k j = Some x" "tg_key x = tg_key tg" "tg_key tg \<noteq> 0" for j x
    using key [OF that(1,2)] key [OF assms(2,3)] that(3,4) by simp
  have opened: "tg_key tg \<noteq> 0 \<longrightarrow> open_code k (tg_key tg) = int i"
    using key [OF assms(2,3)] assms(3) by (simp add: open_code_def)
  have "length (tl_buffer lv) = BUFFER_SIZE" using p(3) by (simp add: lv_ok_def)
  with p(1,2) levels keys opened show ?thesis by blast
qed

theorem tags_are_separate_witness:
  "\<exists>k tg. reachable k Map.empty \<and> entry_at k 0 = Some tg \<and> open_code k (tg_key tg) = 0"
proof -
  obtain k te a where k: "reachable k Map.empty" "k_tags k = (replicate 256 None)[0 := Some te]"
    "k_tag_heap k te = Some (new_tag 5 0 TAG_PERM_ALL 0 a)"
    by (rule ex_tag [of TAG_PERM_ALL 0 "[]" "[]" "[]"]) simp_all
  have e: "entry_at k 0 = Some (new_tag 5 0 TAG_PERM_ALL 0 a)" using k by (simp add: entry_at_def)
  have "0 < LEVELS" "tg_key (new_tag 5 0 TAG_PERM_ALL 0 a) \<noteq> 0" by (simp_all add: LEVELS_def new_tag_def)
  with tags_are_separate [OF k(1) _ e, of 0] k(1) e show ?thesis by fastforce
qed

section \<open>References to the module\<close>

text \<open>
  The wrappers of the system calls keep the reference count of the module equal to the number of
  threads inside \<open>tag_receive\<close>: a call that returns leaves it as it was, a receiver that waits holds
  one reference until it returns. At count 0, when the module can be unloaded, nobody is inside.
\<close>

theorem references_balanced:
  assumes "reachable k R" and "mr_live m" and "mr_count m = card (dom R)"
  shows "(\<exists>r k'. sys_tag_get key command permission euid m k = Some (r, m, k')) \<and>
    (\<exists>r k'. sys_tag_send tag level data sz euid m k = Some (r, m, k')) \<and>
    (\<exists>r k'. sys_tag_ctl tag ctl euid m k = Some (r, m, k')) \<and>
    (\<exists>r m' k'. sys_tag_receive_enter tag level buffer sz euid m k = Some (r, m', k') \<and>
      (case r of Inl _ \<Rightarrow> m' = m | Inr c \<Rightarrow> \<forall>t. R t = None \<longrightarrow> mr_count m' = card (dom (R(t \<mapsto> c))))) \<and>
    (\<forall>t c. R t = Some c \<longrightarrow> (\<exists>r bytes m' k'. sys_tag_receive_leave t woken c m k = Some (r, bytes, m', k') \<and>
      mr_count m' = card (dom (R(t := None))))) \<and>
    (mr_count m = 0 \<longrightarrow> R = Map.empty)"
proof -
  have inv: "sys_inv k R" by (rule reachable_inv [OF assms(1)])
  have fin: "finite (dom R)" by (rule sys_invD(1) [OF inv])
  note eqs = sys_tag_get_def sys_tag_send_def sys_tag_ctl_def sys_tag_receive_enter_def try_module_get_def
    module_put_def assms(2)
  obtain r1 k1 where 1: "tag_get key command permission euid k = Some (r1, k1)"
    by (rule tag_get_result [OF inv])
  obtain r2 k2 where 2: "tag_send tag level data sz euid k = Some (r2, k2)"
    using tag_send_result [OF inv] by blast
  obtain r3 k3 where 3: "tag_ctl tag ctl euid k = Some (r3, k3)" by (rule tag_ctl_result [OF inv])
  obtain r4 k4 where 4: "tag_receive_enter tag level buffer sz euid k = Some (r4, k4)"
    using tag_receive_enter_result [OF inv] by blast
  have calls: "\<exists>r k'. sys_tag_get key command permission euid m k = Some (r, m, k')"
    "\<exists>r k'. sys_tag_send tag level data sz euid m k = Some (r, m, k')"
    "\<exists>r k'. sys_tag_ctl tag ctl euid m k = Some (r, m, k')"
    by (simp_all add: eqs 1 2 3)
  have more: "card (dom (R(t \<mapsto> c))) = Suc (card (dom R))" if "R t = None" for t c
    using fin that by (simp add: domIff)
  have enter: "\<exists>r m' k'. sys_tag_receive_enter tag level buffer sz euid m k = Some (r, m', k') \<and>
      (case r of Inl _ \<Rightarrow> m' = m | Inr c \<Rightarrow> \<forall>t. R t = None \<longrightarrow> mr_count m' = card (dom (R(t \<mapsto> c))))"
    by (cases r4) (simp_all add: eqs 4 more assms(3) [symmetric] del: dom_fun_upd)
  have leave: "\<exists>r bytes m' k'. sys_tag_receive_leave t woken c m k = Some (r, bytes, m', k') \<and>
      mr_count m' = card (dom (R(t := None)))" if rc: "R t = Some c" for t c
  proof -
    obtain r bytes k' where "tag_receive_leave t woken c k = Some (r, bytes, k')"
      by (rule tag_receive_leave_inv [OF inv rc])
    moreover have "card (dom R) = Suc (card (dom R - {t}))"
      by (rule card.remove [OF fin]) (use rc in blast)
    ultimately show ?thesis using assms(3) by (simp add: sys_tag_receive_leave_def module_put_def)
  qed
  have "mr_count m = 0 \<longrightarrow> R = Map.empty" using assms(3) fin by simp
  with calls enter leave show ?thesis by blast
qed

theorem references_balanced_witness:
  "\<exists>k te lp r bytes m' k'. reachable k [7 \<mapsto> ex_receiver te lp] \<and>
     sys_tag_receive_leave 7 False (ex_receiver te lp) \<lparr>mr_live = True, mr_count = 1\<rparr> k = Some (r, bytes, m', k') \<and>
     mr_count m' = 0"
proof -
  obtain k te lp where k: "reachable k [7 \<mapsto> ex_receiver te lp]"
    by (rule ex_sleeping [of "[]" "[]" "[]"]) blast
  have n: "mr_count \<lparr>mr_live = True, mr_count = 1\<rparr> = card (dom [7 \<mapsto> ex_receiver te lp])" by simp
  have live: "mr_live \<lparr>mr_live = True, mr_count = 1\<rparr>" by simp
  note references_balanced [OF k live n, where woken = False, THEN conjunct2, THEN conjunct2, THEN conjunct2,
      THEN conjunct2, THEN conjunct1, rule_format, of 7 "ex_receiver te lp"]
  then obtain r bytes m' k' where
    "sys_tag_receive_leave 7 False (ex_receiver te lp) \<lparr>mr_live = True, mr_count = 1\<rparr> k = Some (r, bytes, m', k')"
    "mr_count m' = card (dom ([7 \<mapsto> ex_receiver te lp](7 := None)) :: tid set)" by fastforce
  moreover from this(2) have "mr_count m' = 0" by simp
  ultimately show ?thesis using k by blast
qed

end
