(* ===== verification/Service_Properties.thy ===== *)
theory Service_Properties
  imports Tag_Examples
begin

text \<open>
  The properties of \<open>tag_get\<close> and of \<open>DELETE\<close>: what a creation makes, that the key leads to the tag
  afterwards, how it fails, and that deletion undoes it.
\<close>

section \<open>Creation\<close>

text \<open>The parts of the state that a creation and a deletion change.\<close>

definition tables_eq :: "kernel \<Rightarrow> kernel \<Rightarrow> bool" where
  "tables_eq k k' \<longleftrightarrow> bm_used (k_tag_bitmask k') = bm_used (k_tag_bitmask k) \<and>
     tag_table_map (k_tag_table k') = tag_table_map (k_tag_table k) \<and> k_tags k' = k_tags k \<and>
     k_tag_heap k' = k_tag_heap k \<and> k_level_heap k' = k_level_heap k"

lemma tables_eq_env: "env_eq k k' \<Longrightarrow> tables_eq k k'"
  by (simp add: tables_eq_def env_eqD)

lemma tag_get_create_call:
  assumes inv: "sys_inv k R" and "tag_get key TAG_CREAT permission euid k = Some (r, k')" and "0 \<le> key"
  shows "create_result k key permission euid r k'"
proof -
  obtain q k'' where "tag_get key TAG_CREAT permission euid k = Some (q, k'')"
      "get_result k key TAG_CREAT permission euid q k''" by (rule tag_get_result [OF inv])
  with assms(2) have "get_result k key TAG_CREAT permission euid r k'" by simp
  then show ?thesis by cases (use assms(3) in \<open>simp_all add: tag_consts\<close>)
qed

lemma entry_at_with_tag:
  assumes inv: "sys_inv k R" and i: "i < 256" "j < 256"
    and s: "k_tags s = k_tags k" "k_tag_heap s = k_tag_heap k" "k_next s = k_next k"
  shows "entry_at (with_tag key i permission euid s) j =
    (if j = i then Some (new_tag key i permission euid (k_next k)) else entry_at k j)"
proof -
  have "length (k_tags k) = 256" using sys_invD(6) [OF inv] by (simp add: registry_inv_def)
  moreover have "k_tags k ! j \<noteq> Some (k_next k + LEVELS)"
    using fresh_block(3) [OF inv _ i(2)] by simp
  ultimately show ?thesis
    using i s by (auto simp: entry_at_def with_tag_fields nth_list_update split: bind_split)
qed

lemma create_code_least:
  assumes "create_code k key permission = Inr i"
  shows "i < 256 \<and> i \<notin> bm_used (k_tag_bitmask k) \<and> {..<i} \<subseteq> bm_used (k_tag_bitmask k)"
proof -
  have "List.find (\<lambda>i. i \<notin> bm_used (k_tag_bitmask k)) [0..<256] = Some i"
    using assms by (auto simp: create_code_def split: if_splits option.splits)
  then show ?thesis unfolding find_Some_iff by auto
qed

text \<open>
  C15. Everything \<open>tag_get\<close> with \<open>TAG_CREAT\<close> can do, in every reachable state and environment. A negative
  key gives -EINVAL and the state as it was. Otherwise, if the table \<open>create_code\<close> gives a code (-EINVAL,
  -EMAXTAG, -EPROTO or -EBUSY), that is the result, or -EINTR if a signal interrupts the call, and
  only the environment has moved on. If it gives the least free descriptor there are four outcomes:
  the descriptor is returned and has a tag with the key, permission and owner given, no receivers, and
  32 empty levels, the other descriptors keeping theirs; -EINTR with nothing changed, if a signal
  comes while the call waits for the lock; -ENOMEM, if an allocation fails, with numbers, keys, tags and
  heaps as before; -EINTR, if an allocation fails and a signal comes before the undo, with the
  descriptor and the key left in use.
\<close>

theorem creation:
  assumes "reachable k R" and "tag_get key TAG_CREAT permission euid k = Some (r, k')"
  shows "if key < 0 then r = - EINVAL \<and> k' = k
    else case create_code k key permission of
      Inl code \<Rightarrow> (r = code \<or> r = - EINTR \<and> False \<in> set (k_signal k)) \<and> env_eq k k'
    | Inr i \<Rightarrow> i < 256 \<and> i \<notin> bm_used (k_tag_bitmask k) \<and> {..<i} \<subseteq> bm_used (k_tag_bitmask k) \<and>
       (r = int i \<and>
        bm_used (k_tag_bitmask k') = insert i (bm_used (k_tag_bitmask k)) \<and>
        (\<forall>j<256. j \<noteq> i \<longrightarrow> entry_at k' j = entry_at k j) \<and>
        (\<exists>tg. entry_at k' i = Some tg \<and> tg_key tg = key \<and> tg_permission tg = permission \<and>
          tg_euid tg = euid \<and> tg_waiting tg = 0 \<and> tg_ready tg = 0) \<and>
        (\<forall>l<LEVELS. level_at k' i l = Some (fresh_level l 0)) \<or>
        r = - EINTR \<and> False \<in> set (k_signal k) \<and> env_eq k k' \<or>
        r = - ENOMEM \<and> False \<in> set (k_alloc k) \<and> tables_eq k k' \<or>
        r = - EINTR \<and> False \<in> set (k_alloc k) \<and> False \<in> set (k_signal k) \<and>
          bm_used (k_tag_bitmask k') = insert i (bm_used (k_tag_bitmask k)) \<and>
          tag_table_map (k_tag_table k') = (if key = 0 then tag_table_map (k_tag_table k)
            else (tag_table_map (k_tag_table k))(word_of_int key \<mapsto> Tag_Entry (word_of_int key) (int i))) \<and>
          k_tags k' = k_tags k \<and> k_tag_heap k' = k_tag_heap k \<and> k_level_heap k' = k_level_heap k)"
proof (cases "key < 0")
  case True
  then show ?thesis using assms(2) by (simp add: tag_get_def)
next
  case False
  then have key: "\<not> key < 0" "0 \<le> key" by simp_all
  have inv: "sys_inv k R" by (rule reachable_inv [OF assms(1)])
  note least = create_code_least [of k key permission]
  show ?thesis
    using tag_get_create_call [OF inv assms(2) key(2)]
  proof cases
    case (created i bm t s al g)
    have i: "i < 256" "i \<notin> bm_used (k_tag_bitmask k)" "bm_used bm = insert i (bm_used (k_tag_bitmask k))"
      using created(4) by (simp_all add: registered_def)
    have s: "k_tags s = k_tags k" "k_tag_heap s = k_tag_heap k" "k_next s = k_next k" "k_tag_bitmask s = bm"
      by (simp_all add: created(5))
    have at: "entry_at k' j = (if j = i then Some (new_tag key i permission euid (k_next k)) else entry_at k j)"
      if "j < 256" for j unfolding created(2) by (rule entry_at_with_tag [OF inv i(1) that s(1-3)])
    have "level_at k' i l = Some (fresh_level l 0)" if "l < LEVELS" for l
      using at [OF i(1)] with_tag_fields(3) [OF that, of key i permission euid s] that s(3)
      by (simp add: level_at_def lp_at_def new_tag_def created(2))
    then show ?thesis
      using i least [OF created(3)] at created(1,3) s(4) key by (simp add: created(2) with_tag_fields new_tag_def)
  next
    case refused
    then show ?thesis using key by simp
  next
    case interrupted
    then show ?thesis using key least by (cases "create_code k key permission") simp_all
  next
    case (failed i bm t s g)
    note reg = failed(2) [unfolded registered_def]
    from failed(5) show ?thesis
    proof cases
      case (leaked al n g')
      have "False \<in> set (k_signal k)" "False \<in> set (k_alloc k)" using leaked(3,4) failed(3,4) by auto
      then show ?thesis using failed(1,3) leaked(1,2) key least [OF failed(1)] reg by simp
    next
      case (restored bm' t' al n g')
      have "released s = released (k\<lparr>k_tag_table := t, k_tag_bitmask := bm\<rparr>)"
        by (rule reg_cong(3)) (simp_all add: failed(3))
      then have "released (k\<lparr>k_tag_table := t, k_tag_bitmask := bm\<rparr>) key i bm' t'"
        using restored(4) by simp
      from released_registered [OF failed(2) this] show ?thesis
        using restored(1-3) key failed(1,3) least [OF failed(1)] by (simp add: tables_eq_def)
    qed
  qed
qed

theorem creation_witness:
  "\<exists>k k' tg. reachable k Map.empty \<and> tag_get 5 TAG_CREAT TAG_PERM_USR 1000 k = Some (0, k') \<and>
     entry_at k' 0 = Some tg \<and> tg_key tg = 5 \<and> tg_euid tg = 1000"
proof -
  obtain k where k: "reachable k Map.empty" "k_alloc k = []" "k_signal k = []"
    "bm_used (k_tag_bitmask k) = {}" "tag_table_map (k_tag_table k) = Map.empty" by (rule ex_start)
  obtain r k' where r: "tag_get 5 TAG_CREAT TAG_PERM_USR 1000 k = Some (r, k')"
    by (rule tag_get_result [OF reachable_inv [OF k(1)]])
  from creation [OF k(1) r] first_code(2) [OF k(1,4,5)] k have
    "r = 0" "\<exists>tg. entry_at k' 0 = Some tg \<and> tg_key tg = 5 \<and> tg_euid tg = 1000" by auto
  with k(1) r show ?thesis by blast
qed

section \<open>Keys\<close>

lemma key_table:
  assumes inv: "sys_inv k R" and "entry_at k i = Some tg" "i < 256" "tg_key tg = key" "key \<noteq> 0"
  shows "tag_table_map (k_tag_table k) (word_of_int key) = Some (Tag_Entry (word_of_int key) (int i))"
  using sys_invD(6) [OF inv] assms(2-5) unfolding registry_inv_iff linked_def by blast

text \<open>
  C25. A key leads to its tag: as long as descriptor \<open>i\<close> has a tag with a public key, opening the key
  gives \<open>i\<close>, and no creation with this key succeeds, for calls that no signal interrupts.
\<close>

theorem key_leads_to_tag:
  assumes "reachable k R" and "i < 256" and "entry_at k i = Some tg" and "tg_key tg \<noteq> 0"
    and "False \<notin> set (k_signal k)"
  shows "(\<exists>k'. tag_get (tg_key tg) TAG_OPEN permission euid k = Some (int i, k') \<and> env_eq k k') \<and>
    (\<exists>r k'. tag_get (tg_key tg) TAG_CREAT permission euid k = Some (r, k') \<and> env_eq k k' \<and>
      r \<in> {- EINVAL, - EMAXTAG, - EPROTO, - EBUSY})"
proof -
  have inv: "sys_inv k R" by (rule reachable_inv [OF assms(1)])
  obtain te where "k_tags k ! i = Some te" using assms(3) by (auto simp: entry_at_def bind_eq_Some_conv)
  then obtain x where "entry_at k i = Some x" "tg_ok R i x"
    using tags_okE [OF sys_invD(2) [OF inv] assms(2)] by metis
  then have pos: "0 < tg_key tg" using assms(3,4) by (simp add: tg_ok_def)
  note table = key_table [OF inv assms(3,2) refl assms(4)]
  have opened: "open_code k (tg_key tg) = int i" using table assms(3,4) by (simp add: open_code_def)
  obtain r k' where r: "tag_get (tg_key tg) TAG_OPEN permission euid k = Some (r, k')"
      "get_result k (tg_key tg) TAG_OPEN permission euid r k'" by (rule tag_get_result [OF inv])
  from r(2) have "env_eq k k'" "r = int i"
    by (cases; use pos opened assms(5) in \<open>simp_all add: tag_consts\<close>)+
  moreover obtain q k'' where q: "tag_get (tg_key tg) TAG_CREAT permission euid k = Some (q, k'')"
    by (rule tag_get_result [OF inv])
  moreover have code: "\<exists>e \<in> {- EINVAL, - EMAXTAG, - EPROTO, - EBUSY}. create_code k (tg_key tg) permission = Inl e"
    using table assms(4) by (auto simp: create_code_def split: option.splits)
  moreover have "env_eq k k'' \<and> q \<in> {- EINVAL, - EMAXTAG, - EPROTO, - EBUSY}"
    using tag_get_create_call [OF inv q less_imp_le [OF pos]]
  proof cases
    case refused
    with code show ?thesis by auto
  qed (use code pos assms(5) in auto)
  ultimately show ?thesis using r(1) by blast
qed

theorem key_leads_to_tag_witness:
  "\<exists>k k'. reachable k Map.empty \<and> tag_get 5 TAG_OPEN 0 1000 k = Some (0, k')"
proof -
  obtain k te a where k: "reachable k Map.empty" "k_tags k = (replicate 256 None)[0 := Some te]"
    "k_tag_heap k te = Some (new_tag 5 0 TAG_PERM_ALL 0 a)" "k_signal k = []"
    by (rule ex_tag [of TAG_PERM_ALL 0 "[]" "[]" "[]"]) simp_all
  have e: "entry_at k 0 = Some (new_tag 5 0 TAG_PERM_ALL 0 a)" using k by (simp add: entry_at_def)
  have key: "tg_key (new_tag 5 0 TAG_PERM_ALL 0 a) = 5" by (simp add: new_tag_def)
  from key_leads_to_tag [OF k(1) _ e, of 0 1000] k(1,4) show ?thesis unfolding key by fastforce
qed

section \<open>Failures\<close>

text \<open>
  A creation that returns -ENOMEM has undone everything: the numbers and keys in use, the array
  of tags and the heaps are as before.
\<close>

theorem failed_creation_restores:
  assumes "reachable k R" and "0 \<le> key" and "tag_get key TAG_CREAT permission euid k = Some (- ENOMEM, k')"
  shows "tables_eq k k'"
proof -
  have inv: "sys_inv k R" by (rule reachable_inv [OF assms(1)])
  show ?thesis
    using tag_get_create_call [OF inv assms(3,2)]
  proof cases
    case (failed i bm t s g)
    from failed(5) show ?thesis
    proof cases
      case (restored bm' t' al n g')
      have "released s = released (k\<lparr>k_tag_table := t, k_tag_bitmask := bm\<rparr>)"
        by (rule reg_cong(3)) (simp_all add: failed(3))
      then have "released (k\<lparr>k_tag_table := t, k_tag_bitmask := bm\<rparr>) key i bm' t'"
        using restored(3) by simp
      from released_registered [OF failed(2) this] show ?thesis
        by (simp add: tables_eq_def restored(1) failed(3))
    qed (simp_all add: errno_defs)
  qed (simp_all add: tables_eq_env errno_defs)
qed

text \<open>Out of memory at the first object of the tag.\<close>

lemma no_memory:
  assumes inv: "sys_inv k R" and "create_code k key permission = Inr i" and al: "k_alloc k = [False]"
    and sig: "k_signal k = [True] @ g" and p: "permission = TAG_PERM_USR \<or> permission = TAG_PERM_ALL"
  shows "\<exists>bm t. registered k key i bm t \<and> tag_get_create key permission euid k =
    tag_get_undo key (int i) (k\<lparr>k_signal := g, k_tag_table := t, k_tag_bitmask := bm, k_alloc := []\<rparr>)"
proof -
  have reg: "reg_ok k" using sys_invD(6) [OF inv] by (simp add: registry_inv_iff)
  have lock: "k_common_lock k = read_locked 0"
    using sys_invD(5) [OF inv] by (simp add: locks_ok_def init_rwsem_read_locked)
  obtain bm t where "registered k key i bm t" "tag_get_create key permission euid k =
      tag_get_build key (int i) permission euid (k\<lparr>k_signal := g, k_tag_table := t, k_tag_bitmask := bm\<rparr>)"
    using create_locked [OF reg lock _ p, of g key euid] sig assms(2) by auto
  then show ?thesis using al by (auto simp: tag_get_build_def kzalloc_def)
qed

theorem failed_creation_restores_witness:
  "\<exists>k k'. reachable k Map.empty \<and> tag_get 5 TAG_CREAT TAG_PERM_USR 1000 k = Some (- ENOMEM, k') \<and> tables_eq k k'"
proof -
  obtain k0 where k0: "reachable k0 Map.empty" "k_alloc k0 = []" "k_signal k0 = []"
    "bm_used (k_tag_bitmask k0) = {}" "tag_table_map (k_tag_table k0) = Map.empty" by (rule ex_start)
  let ?k = "k0\<lparr>k_alloc := [False], k_signal := [True], k_copy := []\<rparr>"
  have k: "reachable ?k Map.empty" by (rule renew [OF k0(1)])
  note inv = reachable_inv [OF k]
  have code: "create_code ?k 5 TAG_PERM_USR = Inr 0"
    by (rule first_code(2) [OF k]) (simp_all add: k0(4,5))
  obtain bm t where t: "registered ?k 5 0 bm t" "tag_get_create 5 TAG_PERM_USR 1000 ?k =
      tag_get_undo 5 (int 0) (?k\<lparr>k_signal := [], k_tag_table := t, k_tag_bitmask := bm, k_alloc := []\<rparr>)"
    using no_memory [OF inv code, where g = "[]" and euid = 1000] by auto
  let ?s = "?k\<lparr>k_signal := [], k_tag_table := t, k_tag_bitmask := bm, k_alloc := []\<rparr>"
  have "reg_ok (?k\<lparr>k_tag_table := t, k_tag_bitmask := bm\<rparr>)" "linked (?k\<lparr>k_tag_table := t, k_tag_bitmask := bm\<rparr>) 5 0"
    using registered_reg_ok [OF t(1)] sys_invD(6) [OF inv] by (simp_all add: registry_inv_iff)
  then have s: "reg_ok ?s" "linked ?s 5 0" by (simp_all add: reg_ok_def linked_def)
  have "k_common_lock ?s = read_locked 0"
    using sys_invD(5) [OF inv] by (simp add: locks_ok_def init_rwsem_read_locked)
  then obtain k' where "tag_get_undo 5 (int 0) ?s = Some (- ENOMEM, k')"
    by (rule tag_get_undo_result [OF s]) simp_all
  then have c: "tag_get 5 TAG_CREAT TAG_PERM_USR 1000 ?k = Some (- ENOMEM, k')"
    using t(2) by (simp add: tag_get_def)
  from failed_creation_restores [OF k _ c] k c show ?thesis by auto
qed

lemma tag_ctl_delete_call:
  assumes inv: "sys_inv k R" and i: "i < 256" and call: "tag_ctl (int i) TAG_DELETE euid k = Some (r, k')"
  shows "delete_result k R i euid r k'"
proof -
  obtain q k'' where "tag_ctl (int i) TAG_DELETE euid k = Some (q, k'')"
      "ctl_result k R (int i) TAG_DELETE euid q k''" by (rule tag_ctl_result [OF inv])
  with call have "ctl_result k R (int i) TAG_DELETE euid r k'" by simp
  then show ?thesis by cases (use i in \<open>simp_all add: tag_consts\<close>)
qed

text \<open>A key entered for descriptor 0, which has no tag.\<close>

lemma stale_key:
  assumes inv1: "sys_inv k1 Map.empty" and f: "k_signal k1 = []" "k_tags k1 = replicate 256 None"
    "tag_table_map (k_tag_table k1) = [5 \<mapsto> Tag_Entry 5 0]" "bm_used (k_tag_bitmask k1) = {0}"
  shows "\<exists>k2. tag_get 5 TAG_OPEN TAG_PERM_ALL 0 k1 = Some (- ENODATA, k2)"
    "\<exists>k2. tag_get 5 TAG_CREAT TAG_PERM_ALL 0 k1 = Some (- EBUSY, k2)"
    "\<exists>k2. tag_ctl 0 TAG_DELETE 0 k1 = Some (- ENODATA, k2)"
proof -
  have none: "entry_at k1 i = None" if "i < 256" for i using f(2) that by (simp add: entry_at_def)
  have codes: "open_code k1 5 = - ENODATA" using f(3) none [of 0] by (simp add: open_code_def)
  have "reg_ok k1" using sys_invD(6) [OF inv1] by (simp add: registry_inv_iff)
  then have "unat (hashmap_count (k_tag_table k1)) = 1"
    using hm.count_abs [OF reg_okD(3)] f(3) by simp
  moreover have "List.find (\<lambda>i. i \<notin> bm_used (k_tag_bitmask k1)) [0..<256] = Some 1"
    unfolding f(4) by (simp add: upt_rec)
  ultimately have busy: "create_code k1 5 TAG_PERM_ALL = Inl (- EBUSY)"
    by (simp add: create_code_def f(3))
  obtain r k2 where 2: "tag_get 5 TAG_OPEN TAG_PERM_ALL 0 k1 = Some (r, k2)"
      "get_result k1 5 TAG_OPEN TAG_PERM_ALL 0 r k2" by (rule tag_get_result [OF inv1])
  from 2(2) have "r = - ENODATA" by cases (use codes f(1) in \<open>simp_all add: tag_consts\<close>)
  obtain q k3 where 3: "tag_get 5 TAG_CREAT TAG_PERM_ALL 0 k1 = Some (q, k3)"
    by (rule tag_get_result [OF inv1])
  from tag_get_create_call [OF inv1 3] have "q = - EBUSY"
    by cases (use busy f(1) in simp_all)
  show "\<exists>k2. tag_get 5 TAG_OPEN TAG_PERM_ALL 0 k1 = Some (- ENODATA, k2)" using 2(1) \<open>r = - ENODATA\<close> by blast
  show "\<exists>k2. tag_get 5 TAG_CREAT TAG_PERM_ALL 0 k1 = Some (- EBUSY, k2)" using 3 \<open>q = - EBUSY\<close> by blast
  obtain p k4 where 4: "tag_ctl (int 0) TAG_DELETE 0 k1 = Some (p, k4)"
      "ctl_result k1 Map.empty (int 0) TAG_DELETE 0 p k4" by (rule tag_ctl_result [OF inv1])
  have d: "delete_code k1 Map.empty 0 0 = - ENODATA"
    using none [of 0] by (simp add: delete_code_def tag_waiters_def)
  have "delete_result k1 Map.empty 0 0 p k4" by (rule tag_ctl_delete_call [OF inv1 _ 4(1)]) simp
  then have "p = - ENODATA" by cases (use d in \<open>simp_all add: errno_defs\<close>)
  with 4(1) show "\<exists>k2. tag_ctl 0 TAG_DELETE 0 k1 = Some (- ENODATA, k2)" by simp
qed

text \<open>
  C30. A creation that runs out of memory and is then interrupted before it can undo its
  registration: the key stays entered for a descriptor without a tag. Opening it reports -ENODATA,
  creating it again -EBUSY, and \<open>DELETE\<close> on the descriptor finds no tag to remove.
\<close>

theorem interrupted_undo_leaks_key:
  "\<exists>k k1. reachable k Map.empty \<and> tag_get 5 TAG_CREAT TAG_PERM_ALL 0 k = Some (- EINTR, k1) \<and>
     k_signal k1 = [] \<and> k_tags k1 = replicate 256 None \<and>
     (\<exists>k2. tag_get 5 TAG_OPEN TAG_PERM_ALL 0 k1 = Some (- ENODATA, k2)) \<and>
     (\<exists>k2. tag_get 5 TAG_CREAT TAG_PERM_ALL 0 k1 = Some (- EBUSY, k2)) \<and>
     (\<exists>k2. tag_ctl 0 TAG_DELETE 0 k1 = Some (- ENODATA, k2))"
proof -
  obtain k0 where k0: "reachable k0 Map.empty" "k_alloc k0 = []" "k_signal k0 = []"
    "bm_used (k_tag_bitmask k0) = {}" "tag_table_map (k_tag_table k0) = Map.empty"
    "k_tags k0 = replicate 256 None" by (rule ex_start)
  let ?k = "k0\<lparr>k_alloc := [False], k_signal := [True, False], k_copy := []\<rparr>"
  have k: "reachable ?k Map.empty" by (rule renew [OF k0(1)])
  note inv = reachable_inv [OF k]
  have code: "create_code ?k 5 TAG_PERM_ALL = Inr 0"
    by (rule first_code(1) [OF k]) (simp_all add: k0(4,5))
  obtain bm t where t: "registered ?k 5 0 bm t" "tag_get_create 5 TAG_PERM_ALL 0 ?k =
      tag_get_undo 5 (int 0) (?k\<lparr>k_signal := [False], k_tag_table := t, k_tag_bitmask := bm, k_alloc := []\<rparr>)"
    using no_memory [OF inv code, where g = "[False]" and euid = 0] by auto
  define k1 where "k1 = ?k\<lparr>k_signal := [], k_tag_table := t, k_tag_bitmask := bm, k_alloc := []\<rparr>"
  have c: "tag_get 5 TAG_CREAT TAG_PERM_ALL 0 ?k = Some (- EINTR, k1)"
    using t(2) by (simp add: tag_get_def tag_get_undo_def clear_tag_common_def interruptible_eq k1_def errno_defs)
  have r1: "reachable k1 Map.empty"
    by (rule reachable.step [OF k sys_step.get [OF _ c]]) (simp add: INT_MAX_def)
  note inv1 = reachable_inv [OF r1]
  have f: "k_signal k1 = []" "k_tags k1 = replicate 256 None"
    "tag_table_map (k_tag_table k1) = [5 \<mapsto> Tag_Entry 5 0]" "bm_used (k_tag_bitmask k1) = {0}"
    using t(1) k0 by (simp_all add: k1_def registered_def)
  from stale_key [OF inv1 f] k c f(1,2) show ?thesis by blast
qed

text \<open>Tags created one after the other, with the keys \<open>f\<close>, until the descriptors are used up.\<close>

lemma small_word_inj: "word_of_int x = (word_of_int y :: u32) \<Longrightarrow> 0 \<le> x \<Longrightarrow> x \<le> INT_MAX \<Longrightarrow> 0 \<le> y \<Longrightarrow> y \<le> INT_MAX \<Longrightarrow> x = y"
  by (simp add: word_of_int_eq_iff INT_MAX_def take_bit_int_eq_self)

lemma tags_made:
  assumes f: "\<And>i. 0 \<le> f i \<and> f i \<le> INT_MAX" "\<And>i j. i < j \<Longrightarrow> f i = f j \<Longrightarrow> f i = 0"
  shows "n \<le> 256 \<Longrightarrow> \<exists>k. reachable k Map.empty \<and> bm_used (k_tag_bitmask k) = {..<n} \<and>
     dom (tag_table_map (k_tag_table k)) \<subseteq> (\<lambda>i. word_of_int (f i)) ` {..<n} \<and>
     (\<forall>i<n. \<exists>tg. entry_at k i = Some tg \<and> tg_key tg = f i) \<and> k_alloc k = [] \<and> k_signal k = []"
proof (induction n)
  case 0
  obtain k where "reachable k Map.empty" "k_alloc k = []" "k_signal k = []"
    "bm_used (k_tag_bitmask k) = {}" "tag_table_map (k_tag_table k) = Map.empty" by (rule ex_start)
  then show ?case by (intro exI [of _ k]) simp
next
  case (Suc n)
  then obtain k where k: "reachable k Map.empty" "bm_used (k_tag_bitmask k) = {..<n}"
    "dom (tag_table_map (k_tag_table k)) \<subseteq> (\<lambda>i. word_of_int (f i)) ` {..<n}"
    "\<forall>i<n. \<exists>tg. entry_at k i = Some tg \<and> tg_key tg = f i" "k_alloc k = []" "k_signal k = []"
    by auto
  note inv = reachable_inv [OF k(1)]
  have n: "n < 256" using Suc(2) by simp
  have reg: "reg_ok k" using sys_invD(6) [OF inv] by (simp add: registry_inv_iff)
  then have "unat (hashmap_count (k_tag_table k)) \<le> n"
    using hm.count_abs [OF reg_okD(3)] registry_card [OF reg_okD(5)] k(2) by fastforce
  moreover have "List.find (\<lambda>i. i \<notin> bm_used (k_tag_bitmask k)) [0..<256] = Some n"
    by (rule find_least) (use Suc(2) k(2) in auto)
  moreover have "f n = 0 \<or> tag_table_map (k_tag_table k) (word_of_int (f n)) = None"
  proof (rule ccontr)
    assume "\<not> ?thesis"
    then obtain i where i: "i < n" "word_of_int (f n) = (word_of_int (f i) :: u32)" "f n \<noteq> 0" using k(3) by blast
    with small_word_inj f(1) have "f i = f n" by metis
    with f(2) [OF i(1)] i(3) show False by simp
  qed
  ultimately have code: "create_code k (f n) TAG_PERM_ALL = Inr n" using n by (auto simp: create_code_def)
  have key: "0 \<le> f n" "f n \<le> INT_MAX" using f(1) by simp_all
  obtain bm t s k' where k': "registered k (f n) n bm t" "k' = with_tag (f n) n TAG_PERM_ALL 0 s" "reachable k' Map.empty"
    and s: "k_tag_table s = t" "k_tag_bitmask s = bm" "k_tags s = k_tags k" "k_tag_heap s = k_tag_heap k"
      "k_next s = k_next k"
    by (rule create_first [OF k(1,5,6) code key, where euid = 0])
  have bm: "bm_used bm = insert n (bm_used (k_tag_bitmask k))"
    and t: "dom (tag_table_map t) \<subseteq> insert (word_of_int (f n)) (dom (tag_table_map (k_tag_table k)))"
    using k'(1) by (auto simp: registered_def split: if_splits)
  have "\<exists>tg. entry_at k' i = Some tg \<and> tg_key tg = f i" if "i < Suc n" for i
    using entry_at_with_tag [OF inv n _ s(3-5), of i "f n" TAG_PERM_ALL 0] that n k(4)
    by (auto simp: k'(2) less_Suc_eq new_tag_def)
  moreover have "bm_used (k_tag_bitmask k') = {..<Suc n}"
    "dom (tag_table_map (k_tag_table k')) \<subseteq> (\<lambda>i. word_of_int (f i)) ` {..<Suc n}"
    using t k(3) by (simp_all add: k'(2) with_tag_fields(4,5) s(1,2) bm k(2) lessThan_Suc) blast
  ultimately show ?case
    using renew [OF k'(3), of "[]" "[]" "[]"]
    by (intro exI [of _ "k'\<lparr>k_alloc := [], k_signal := [], k_copy := []\<rparr>"]) (simp add: entry_at_def)
qed

text \<open>The number of keys when every descriptor has a tag: all 256 only if all tags are public.\<close>

lemma full_count:
  assumes inv: "sys_inv k R" and full: "\<forall>i<256. entry_at k i \<noteq> None"
  shows "256 \<le> unat (hashmap_count (k_tag_table k)) \<longleftrightarrow> (\<forall>i<256. \<forall>tg. entry_at k i = Some tg \<longrightarrow> tg_key tg \<noteq> 0)"
proof -
  let ?M = "tag_table_map (k_tag_table k)"
  have reg: "reg_ok k" and linked: "\<And>i tg. i < 256 \<Longrightarrow> entry_at k i = Some tg \<Longrightarrow> linked k (tg_key tg) i"
    using sys_invD(6) [OF inv] by (auto simp: registry_inv_iff)
  have count: "finite (dom ?M)" "unat (hashmap_count (k_tag_table k)) = card (dom ?M)"
    using hm.count_abs [OF reg_okD(3) [OF reg]] by simp_all
  have used: "bm_used (k_tag_bitmask k) \<subseteq> {..<256}"
    using bm.used_cap [OF reg_okD(1) [OF reg]] reg_okD(2) [OF reg] by simp
  show ?thesis
  proof (cases "\<exists>i<256. \<exists>tg. entry_at k i = Some tg \<and> tg_key tg = 0")
    case True
    then obtain i tg where i: "i < 256" "entry_at k i = Some tg" "tg_key tg = 0" by blast
    have "te_tag_key x \<noteq> int i" if "?M w = Some x" for w x
      using linked [OF i(1,2)] i(3) that by (auto simp: linked_def)
    then have "registry_ok te_tag_key (bm_used (k_tag_bitmask k) - {i}) ?M"
      by (rule registry_ok_drop [OF reg_okD(5) [OF reg]])
    then have "registry_ok te_tag_key ({..<256} - {i}) ?M"
      by (rule registry_ok_mono) (use used in blast)
    from registry_card [OF this] have "card (dom ?M) \<le> 255" using i(1) by simp
    with True count(2) show ?thesis by auto
  next
    case False
    define key where "key i = (word_of_int (tg_key (the (entry_at k i))) :: u32)" for i
    have M: "?M (key i) = Some (Tag_Entry (key i) (int i))" if "i < 256" for i
      using that full False linked [OF that] by (fastforce simp: key_def linked_def)
    have "inj_on key {..<256}"
      by (rule inj_onI) (metis M lessThan_iff of_nat_eq_iff option.inject tag_table_entry.inject)
    moreover have "key ` {..<256} \<subseteq> dom ?M" using M by auto
    ultimately have "card {..<256::nat} \<le> card (dom ?M)" by (rule card_inj_on_le [OF _ _ count(1)])
    with False count(2) show ?thesis by simp
  qed
qed

text \<open>
  C31. When every descriptor has a tag, creating one more fails with the state as it was, and with
  -EMAXTAG only if all of the 256 tags are public: the limit counts the keys in the table, which
  private tags do not have. With a single private tag among them the call returns -EPROTO, the code
  of an internal error (for valid arguments, and if no signal interrupts it).
\<close>

theorem private_tags_exhaust_descriptors:
  assumes "reachable k R" and "\<forall>i<256. entry_at k i \<noteq> None" and "0 \<le> key"
    and "permission = TAG_PERM_USR \<or> permission = TAG_PERM_ALL" and "False \<notin> set (k_signal k)"
  shows "\<exists>k'. tag_get key TAG_CREAT permission euid k =
      Some (if \<exists>i<256. \<exists>tg. entry_at k i = Some tg \<and> tg_key tg = IPC_PRIVATE then - EPROTO else - EMAXTAG, k') \<and>
    env_eq k k'"
proof -
  note inv = reachable_inv [OF assms(1)]
  have "List.find (\<lambda>i. i \<notin> bm_used (k_tag_bitmask k)) [0..<256] = None"
    using free_unused(1) [OF inv] assms(2) unfolding find_None_iff by (force simp: entry_at_def)
  then have code: "create_code k key permission =
      Inl (if \<exists>i<256. \<exists>tg. entry_at k i = Some tg \<and> tg_key tg = IPC_PRIVATE then - EPROTO else - EMAXTAG)"
    using assms(4) full_count [OF inv assms(2)] by (auto simp: create_code_def IPC_PRIVATE_def)
  obtain r k' where r: "tag_get key TAG_CREAT permission euid k = Some (r, k')"
    by (rule tag_get_result [OF inv])
  from tag_get_create_call [OF inv r assms(3)] show ?thesis
    by cases (use code r assms(5) in simp_all)
qed

theorem private_tags_exhaust_descriptors_witness:
  "(\<exists>k k'. reachable k Map.empty \<and> (\<forall>i<256. \<exists>tg. entry_at k i = Some tg \<and> tg_key tg = IPC_PRIVATE) \<and>
      tag_get 5 TAG_CREAT TAG_PERM_ALL 0 k = Some (- EPROTO, k')) \<and>
   (\<exists>k k'. reachable k Map.empty \<and> (\<forall>i<256. \<exists>tg. entry_at k i = Some tg \<and> tg_key tg = int (Suc i)) \<and>
      tag_get IPC_PRIVATE TAG_CREAT TAG_PERM_ALL 0 k = Some (- EMAXTAG, k'))"
proof (intro conjI)
  obtain k where k: "reachable k Map.empty" "\<forall>i<256. \<exists>tg. entry_at k i = Some tg \<and> tg_key tg = 0" "k_signal k = []"
    using tags_made [of "\<lambda>i. 0" 256] by (auto simp: INT_MAX_def)
  have full: "\<forall>i<256. entry_at k i \<noteq> None" using k(2) by fastforce
  have "\<exists>i<256. \<exists>tg. entry_at k i = Some tg \<and> tg_key tg = IPC_PRIVATE"
    using k(2) by (intro exI [of _ 0]) (simp add: IPC_PRIVATE_def)
  with private_tags_exhaust_descriptors [OF k(1) full, of 5 TAG_PERM_ALL 0] k(3)
  obtain k' where "tag_get 5 TAG_CREAT TAG_PERM_ALL 0 k = Some (- EPROTO, k')" by auto
  with k(1,2) show "\<exists>k k'. reachable k Map.empty \<and>
      (\<forall>i<256. \<exists>tg. entry_at k i = Some tg \<and> tg_key tg = IPC_PRIVATE) \<and>
      tag_get 5 TAG_CREAT TAG_PERM_ALL 0 k = Some (- EPROTO, k')"
    unfolding IPC_PRIVATE_def by blast
next
  let ?f = "\<lambda>i. if i < 256 then int (Suc i) else 0"
  have "\<exists>k. reachable k Map.empty \<and> bm_used (k_tag_bitmask k) = {..<256} \<and>
     dom (tag_table_map (k_tag_table k)) \<subseteq> (\<lambda>i. word_of_int (?f i)) ` {..<256} \<and>
     (\<forall>i<256. \<exists>tg. entry_at k i = Some tg \<and> tg_key tg = ?f i) \<and> k_alloc k = [] \<and> k_signal k = []"
    by (rule tags_made) (auto simp: INT_MAX_def split: if_splits)
  then obtain k where k: "reachable k Map.empty" "\<forall>i<256. \<exists>tg. entry_at k i = Some tg \<and> tg_key tg = ?f i"
    "k_signal k = []" by blast
  have keys: "\<forall>i<256. \<exists>tg. entry_at k i = Some tg \<and> tg_key tg = int (Suc i)" using k(2) by simp
  then have full: "\<forall>i<256. entry_at k i \<noteq> None" by fastforce
  have public: "(\<exists>i<256. \<exists>tg. entry_at k i = Some tg \<and> tg_key tg = IPC_PRIVATE) = False"
    using keys by (fastforce simp: IPC_PRIVATE_def)
  have "0 \<le> IPC_PRIVATE" by (simp add: IPC_PRIVATE_def)
  from private_tags_exhaust_descriptors [OF k(1) full this, of TAG_PERM_ALL 0, unfolded public] k(3)
  obtain k' where "tag_get IPC_PRIVATE TAG_CREAT TAG_PERM_ALL 0 k = Some (- EMAXTAG, k')" by auto
  with k(1) keys show "\<exists>k k'. reachable k Map.empty \<and>
      (\<forall>i<256. \<exists>tg. entry_at k i = Some tg \<and> tg_key tg = int (Suc i)) \<and>
      tag_get IPC_PRIVATE TAG_CREAT TAG_PERM_ALL 0 k = Some (- EMAXTAG, k')" by blast
qed

section \<open>Deletion\<close>

text \<open>Deleting the tag that has just been entered at a free descriptor.\<close>

lemma delete_new_tag:
  assumes inv: "sys_inv k R" and reg: "registered k key i bm t"
    and k1: "k1 = with_tag key i permission euid
      (k\<lparr>k_signal := g, k_alloc := al, k_tag_table := t, k_tag_bitmask := bm\<rparr>)"
    and del: "delete_result k1 R i euid' 1 k2"
  shows "tables_eq k k2"
proof -
  have i: "i < 256" "i \<notin> bm_used (k_tag_bitmask k)" "bm_used bm = insert i (bm_used (k_tag_bitmask k))"
    "key \<noteq> 0 \<longrightarrow> tag_table_map (k_tag_table k) (word_of_int key) = None"
    "tag_table_map t = (if key = 0 then tag_table_map (k_tag_table k)
     else (tag_table_map (k_tag_table k))(word_of_int key \<mapsto> Tag_Entry (word_of_int key) (int i)))"
    using reg by (simp_all add: registered_def)
  have len: "length (k_tags k) = 256" using sys_invD(6) [OF inv] by (simp add: registry_inv_def)
  let ?te = "k_next k + LEVELS"
  have f: "k_tags k1 = (k_tags k)[i := Some ?te]"
    "k_tag_heap k1 = (k_tag_heap k)(?te \<mapsto> new_tag key i permission euid (k_next k))"
    "k_level_heap k1 = k_level_heap (with_levels 0 LEVELS k)" "k_tag_bitmask k1 = bm" "k_tag_table k1 = t"
    by (simp_all add: k1 with_tag_fields with_tag_def) (simp add: with_levels_def cong: if_cong)
  from del show ?thesis
  proof cases
    case (deleted te tg bm' t' g')
    have te: "te = ?te" "tg = new_tag key i permission euid (k_next k)"
      using deleted(3,4) f(1,2) i(1) len by auto
    have rel: "bm_used bm' = bm_used (k_tag_bitmask k1) - {i}"
      "tag_table_map t' = (if tg_key tg = 0 then tag_table_map (k_tag_table k1)
        else (tag_table_map (k_tag_table k1))(word_of_int (tg_key tg) := None))"
      using deleted(5) unfolding released_def by blast+
    have "k_tags k ! i = None" by (rule free_unused(1) [OF inv i(1,2)])
    then have tags: "k_tags k2 = k_tags k" using i(1) len
      by (simp add: deleted(1) without_tag_def f(1) list_update_same_conv)
    have heap: "k_tag_heap k2 = k_tag_heap k"
      using sys_invD(7) [OF inv] by (auto simp: deleted(1) without_tag_def f(2) te heap_ok_def)
    have "pointers (tg_tag_level tg) = {p. k_next k \<le> p \<and> p < k_next k + LEVELS}"
      by (auto simp: pointers_def te(2) new_tag_def image_iff) (metis atLeastLessThan_iff le_add_diff_inverse
          less_diff_conv2 nat_add_left_cancel_less zero_le)
    then have "k_level_heap k2 = k_level_heap k"
      using sys_invD(7) [OF inv]
      by (auto simp: deleted(1) without_tag_def f(3) with_levels_heap restrict_map_def heap_ok_def fun_eq_iff)
    moreover have "bm_used bm' = bm_used (k_tag_bitmask k)" "tag_table_map t' = tag_table_map (k_tag_table k)"
      using rel i(2-5) by (auto simp: f(4,5) te(2) new_tag_def)
    ultimately show ?thesis using tags heap by (simp add: tables_eq_def deleted(1) without_tag_def)
  qed (simp_all add: errno_defs)
qed

text \<open>
  C16. Everything \<open>DELETE\<close> can do, in every reachable state and environment: -EINVAL for a number that is
  no descriptor, 0 while a thread is inside \<open>tag_receive\<close> on the tag, -ENODATA without a tag, -EPERM
  for a caller it does not admit, each with the state as it was; -EINTR, if a signal comes while the
  call waits for the lock of the table, with only the environment moved on (the entry is back in the
  array); or 1: the descriptor and the key are free again, the entry and its 32 levels are gone from
  the heaps, and every other tag is as before.
\<close>

theorem deletion:
  assumes "reachable k R" and "tag_ctl tag TAG_DELETE euid k = Some (r, k')"
  shows "if \<not> (0 \<le> tag \<and> tag < 256) then r = - EINVAL \<and> k' = k
    else let i = nat tag in
      if delete_code k R i euid \<noteq> 1 then r = delete_code k R i euid \<and> k' = k
      else r = - EINTR \<and> False \<in> set (k_signal k) \<and> env_eq k k' \<or>
        r = 1 \<and> (\<exists>te tg. k_tags k ! i = Some te \<and> k_tag_heap k te = Some tg \<and> tag_waiters R i = {} \<and>
          k_tags k' = (k_tags k)[i := None] \<and> k_tag_heap k' = (k_tag_heap k)(te := None) \<and>
          (\<forall>p. k_level_heap k' p = (if \<exists>l<LEVELS. lp_at k i l = Some p then None else k_level_heap k p)) \<and>
          bm_used (k_tag_bitmask k') = bm_used (k_tag_bitmask k) - {i} \<and>
          tag_table_map (k_tag_table k') = (if tg_key tg = 0 then tag_table_map (k_tag_table k)
            else (tag_table_map (k_tag_table k))(word_of_int (tg_key tg) := None)) \<and>
          (\<forall>j<256. j \<noteq> i \<longrightarrow> entry_at k' j = entry_at k j))"
proof (cases "0 \<le> tag \<and> tag < 256")
  case False
  then show ?thesis using assms(2) by (auto simp: tag_ctl_def MAX_TAGS_def)
next
  case True
  let ?i = "nat tag"
  have i: "?i < 256" "tag_ctl (int ?i) TAG_DELETE euid k = Some (r, k')" using True assms(2) by auto
  have inv: "sys_inv k R" by (rule reachable_inv [OF assms(1)])
  show ?thesis
    using tag_ctl_delete_call [OF inv i]
  proof cases
    case (deleted te tg bm t g)
    have "entry_at k' j = entry_at k j" if "j < 256" "j \<noteq> ?i" for j
    proof -
      have "k_tags k ! j \<noteq> Some te"
        using tags_distinct [OF sys_invD(2) [OF inv] that(1) i(1) _ deleted(4)] that(2) by blast
      then show ?thesis
        using that(2) by (auto simp: deleted(2) entry_at_def without_tag_def split: bind_split)
    qed
    moreover have "k_level_heap k' p = (if \<exists>l<LEVELS. lp_at k ?i l = Some p then None else k_level_heap k p)" for p
      using tag_level_pointers(2) [OF inv i(1) deleted(4,5), of p]
      by (auto simp: deleted(2) without_tag_def restrict_map_def)
    moreover have "tag_waiters R ?i = {}" using deleted(3) by (auto simp: delete_code_def split: if_splits)
    ultimately show ?thesis using deleted True
      by (simp add: without_tag_def released_def)
  qed (use True in simp_all)
qed

lemma first_tag_deleted:
  assumes k: "reachable k Map.empty" "k_tags k = (replicate 256 None)[0 := Some te]"
    "k_tag_heap k te = Some (new_tag 5 0 TAG_PERM_ALL 0 a)"
  shows "delete_code k Map.empty 0 0 = 1"
  using k by (simp add: delete_code_def tag_waiters_def entry_at_def CHECKPERM_def new_tag_def tag_consts)

theorem deletion_witness:
  "\<exists>k k'. reachable k Map.empty \<and> entry_at k 0 \<noteq> None \<and> tag_ctl 0 TAG_DELETE 0 k = Some (1, k') \<and>
     bm_used (k_tag_bitmask k') = {} \<and> k_tags k' ! 0 = None"
proof -
  obtain k te a where k: "reachable k Map.empty" "k_tags k = (replicate 256 None)[0 := Some te]"
    "k_tag_heap k te = Some (new_tag 5 0 TAG_PERM_ALL 0 a)" "k_signal k = []" "bm_used (k_tag_bitmask k) = {0}"
    by (rule ex_tag [of TAG_PERM_ALL 0 "[]" "[]" "[]"]) simp_all
  obtain r k' where r: "tag_ctl (int 0) TAG_DELETE 0 k = Some (r, k')"
    by (rule tag_ctl_result [OF reachable_inv [OF k(1)]])
  from deletion [OF k(1) r] first_tag_deleted [OF k(1-3)] k(4) have d: "r = 1"
    "bm_used (k_tag_bitmask k') = bm_used (k_tag_bitmask k) - {0}" "k_tags k' = (k_tags k)[0 := None]" by auto
  moreover have "entry_at k 0 \<noteq> None" using k(2,3) by (simp add: entry_at_def)
  ultimately show ?thesis using k r by (intro exI [of _ k] exI [of _ k']) simp
qed

text \<open>
  C17. Deleting a tag that has just been created gives back everything the creation took: numbers,
  keys, the array of tags and both heaps are as before the creation.
\<close>

theorem create_delete_roundtrip:
  assumes "reachable k R" and "0 \<le> key" and "key \<le> INT_MAX"
    and "tag_get key TAG_CREAT permission euid k = Some (r, k1)" and "0 \<le> r"
    and "tag_ctl r TAG_DELETE euid' k1 = Some (1, k2)"
  shows "tables_eq k k2"
proof -
  have inv: "sys_inv k R" by (rule reachable_inv [OF assms(1)])
  have inv1: "sys_inv k1 R"
    by (rule reachable_inv [OF reachable.step [OF assms(1) sys_step.get [OF assms(3,4)]]])
  show ?thesis
    using tag_get_create_call [OF inv assms(4,2)]
  proof cases
    case (created i bm t s al g)
    have "i < 256" using created(4) by (simp add: registered_def)
    from tag_ctl_delete_call [OF inv1 this assms(6) [unfolded created(1)]]
    show ?thesis using delete_new_tag [OF inv created(4)] created(2,5) by blast
  next
    case refused
    then show ?thesis using assms(5) by (auto simp: create_code_def errno_defs split: if_splits option.splits)
  next
    case failed
    from failed(5) show ?thesis by cases (use assms(5) in \<open>simp_all add: errno_defs\<close>)
  qed (use assms(5) in \<open>simp add: errno_defs\<close>)
qed

theorem create_delete_roundtrip_witness:
  "\<exists>k k1 k2. reachable k Map.empty \<and> tag_get 5 TAG_CREAT TAG_PERM_ALL 0 k = Some (0, k1) \<and>
     tag_ctl 0 TAG_DELETE 0 k1 = Some (1, k2) \<and> tables_eq k k2"
proof -
  obtain k where k: "reachable k Map.empty" "k_alloc k = []" "k_signal k = []"
    "bm_used (k_tag_bitmask k) = {}" "tag_table_map (k_tag_table k) = Map.empty"
    "k_tags k = replicate 256 None" by (rule ex_start)
  have key: "0 \<le> (5::int)" "5 \<le> INT_MAX" by (simp_all add: INT_MAX_def)
  obtain bm t s k1 where 1: "tag_get 5 TAG_CREAT TAG_PERM_ALL 0 k = Some (int 0, k1)"
    "k1 = with_tag 5 0 TAG_PERM_ALL 0 s" "reachable k1 Map.empty" "k_tags s = k_tags k" "k_next s = k_next k"
    "k_signal k1 = []"
    by (rule create_first [OF k(1-3) first_code(1) [OF k(1,4,5)] key])
  have tag: "k_tags k1 = (replicate 256 None)[0 := Some (k_next k + LEVELS)]"
    "k_tag_heap k1 (k_next k + LEVELS) = Some (new_tag 5 0 TAG_PERM_ALL 0 (k_next k))"
    using 1 k(6) by (simp_all add: with_tag_fields)
  note code = first_tag_deleted [OF 1(3) tag]
  obtain r k2 where 2: "tag_ctl (int 0) TAG_DELETE 0 k1 = Some (r, k2)"
    by (rule tag_ctl_result [OF reachable_inv [OF 1(3)]])
  have "delete_result k1 Map.empty 0 0 r k2"
    by (rule tag_ctl_delete_call [OF reachable_inv [OF 1(3)] _ 2]) simp
  then have "r = 1" by cases (use code 1(6) in simp_all)
  with create_delete_roundtrip [OF k(1) key 1(1), of 0 k2] k(1) 1(1) 2 show ?thesis by auto
qed

end
