(* ===== verification/Module_Properties.thy ===== *)
theory Module_Properties
  imports Tag_Examples
begin

text \<open>
  The properties of the life cycle: the search for the system call table, the installation of the
  calls and their removal, loading and unloading of the module.
\<close>

section \<open>Memories that hold a table\<close>

text \<open>A memory, for the instances: the words \<open>v 0, v 1, ...\<close> from \<open>a\<close> on.\<close>

definition table_memory :: "u64 \<Rightarrow> (u64 \<Rightarrow> u64) \<Rightarrow> u64 \<Rightarrow> u8 option" where
  "table_memory a v x = Some (ucast (drop_bit (8 * unat ((x - a) mod 8)) (v ((x - a) div 8))))"

lemma load64_table_memory:
  assumes "n < 256"
  shows "load64 (table_memory a v) (a + 8 * n) = Some (v n)"
proof -
  have "table_memory a v (a + 8 * n + word_of_nat i) = Some (ucast (drop_bit (8 * i) (v n)))" if "i < 8" for i
  proof -
    let ?x = "8 * n + word_of_nat i"
    have "unat n < 256" using assms by (simp add: word_less_nat_alt)
    then have x: "unat ?x = 8 * unat n + i"
      using that by (simp add: unat_word_ariths unat_of_nat)
    have "unat (?x div 8) = unat n" "unat (?x mod 8) = i"
      unfolding unat_div unat_mod x using that by simp_all
    then have "?x div 8 = n" "unat (?x mod 8) = i" by (simp_all add: word_unat_eq_iff)
    moreover have "a + 8 * n + word_of_nat i - a = ?x" by simp
    ultimately show ?thesis by (simp only: table_memory_def)
  qed
  then have "those (map (\<lambda>i. table_memory a v (a + 8 * n + word_of_nat i)) [0..<8]) =
      Some (map (\<lambda>i. ucast (drop_bit (8 * i) (v n))) [0..<8])"
    by (intro those_map_Some) simp
  then show ?thesis by (simp only: load64_def option.map bytes_of_word)
qed

definition table_machine :: "(u64 \<Rightarrow> u64) \<Rightarrow> machine" where
  "table_machine v = \<lparr>mc_mem = table_memory START_ADDR v, mc_phys = \<lambda>_. 1, mc_cr0 = X86_CR0_WP, mc_cr3 = 0,
     mc_irq = True, mc_preempt = 0, mc_syscall_table_addr = 0, mc_sys_ni_address = 0\<rparr>"

lemma table_machine_entry: "n < 256 \<Longrightarrow> entry (table_machine v) START_ADDR n = Some (v n)"
  by (simp add: entry_def table_machine_def load64_table_memory)

text \<open>The table of the kernel: \<open>sys_ni_syscall\<close> at the seven free entries.\<close>

definition ex_ni :: u64 where "ex_ni = 0xffffffff81000000"

definition ex_table :: "u64 \<Rightarrow> u64" where
  "ex_table n = (if n \<in> set ni_syscall then ex_ni else 0)"

lemma ex_pattern: "table_pattern (table_machine ex_table) START_ADDR ex_ni"
proof -
  have "\<exists>e. entry (table_machine ex_table) START_ADDR (word_of_nat j) = Some e \<and> e \<noteq> ex_ni" if "j \<in> {1..<134}" for j
  proof -
    have j: "unat (word_of_nat j :: u64) = j" using that by (simp add: unat_of_nat)
    then have "(word_of_nat j :: u64) < 256" "\<forall>n\<in>set ni_syscall. (word_of_nat j :: u64) \<noteq> n"
      using that by (auto simp: word_less_nat_alt ni_syscall_def)
    then show ?thesis by (auto simp: table_machine_entry ex_table_def ex_ni_def)
  qed
  moreover have "entry (table_machine ex_table) START_ADDR n = Some ex_ni" if "n \<in> set ni_syscall" for n
    using that ni_syscall_small by (simp add: table_machine_entry ex_table_def)
  ultimately show ?thesis by (simp add: table_pattern_def ex_ni_def START_ADDR_def)
qed

lemma ex_found:
  "find_syscall_table (table_machine ex_table) =
     Some (table_machine ex_table\<lparr>mc_syscall_table_addr := START_ADDR, mc_sys_ni_address := ex_ni\<rparr>)"
proof -
  have frame: "get_phys_frame (table_machine ex_table) START_ADDR \<noteq> - 1"
    by (simp add: get_phys_frame_def table_machine_def PRESENT_BIT_def H_PAGES_def frame_number_def PT_ADDRESS_MASK_def
        Let_def)
  have less: "START_ADDR < START_ADDR + PAGE_SIZE_DEF" "START_ADDR < END_ADDR"
    by (simp_all add: START_ADDR_def PAGE_SIZE_DEF_def END_ADDR_def)
  have "\<not> leaves_mapped (table_machine ex_table) START_ADDR"
    by (simp add: leaves_mapped_def Let_def START_ADDR_def PAGE_SIZE_DEF_def PAGE_BITMASK_def ni_syscall_def
        FREE_ENTRIES_def)
  moreover have "pattern_at (table_machine ex_table) START_ADDR = Some (Some ex_ni)"
    unfolding pattern_at_iff by (rule ex_pattern)
  ultimately have "syscall_table_pattern START_ADDR (table_machine ex_table) =
      Some (True, table_machine ex_table\<lparr>mc_syscall_table_addr := START_ADDR, mc_sys_ni_address := ex_ni\<rparr>)"
    using less by (simp add: syscall_table_pattern_def pattern_loop.simps [of START_ADDR START_ADDR])
  then show ?thesis
    using frame less by (simp add: find_syscall_table_def find_loop.simps [of START_ADDR])
qed

section \<open>Discovery, installation, removal\<close>

lemma entry_fields [simp]:
  "entry (mc\<lparr>mc_syscall_table_addr := a, mc_sys_ni_address := n\<rparr>) = entry mc"
  by (simp add: entry_def fun_eq_iff)

lemma found_table:
  assumes "table_pattern mc a ni" and "a \<noteq> 0"
  defines "mc' \<equiv> mc\<lparr>mc_syscall_table_addr := a, mc_sys_ni_address := ni\<rparr>"
  shows "table_ok mc'" "free_slots mc' = ni_syscall"
proof -
  have slot: "slot mc' n = Some ni" if "n \<in> set ni_syscall" for n
    using assms(1) that by (simp add: table_pattern_def slot_def mc'_def)
  then show "table_ok mc'" using assms(1,2) by (simp add: table_ok_def table_pattern_def mc'_def)
  show "free_slots mc' = ni_syscall"
    unfolding free_slots_def by (rule filter_True) (use slot in \<open>simp add: mc'_def\<close>)
qed

text \<open>Four calls entered into a fresh table, and the table cleaned.\<close>

lemma install_clean:
  assumes ok: "table_ok mc1" "free_slots mc1 = ni_syscall"
    and h: "mc_sys_ni_address mc1 \<notin> {h_tag_get h, h_tag_send h, h_tag_receive h, h_tag_ctl h}"
  obtains r m m3 where "install_syscalls h mc1 = Some (r, \<lparr>tag_get_nr = 134, tag_send_nr = 174, tag_receive_nr = 182,
      tag_ctl_nr = 183\<rparr>, mc1\<lparr>mc_mem := m\<rparr>)" "r \<noteq> 0"
    "slot (mc1\<lparr>mc_mem := m\<rparr>) 134 = Some (h_tag_get h)" "slot (mc1\<lparr>mc_mem := m\<rparr>) 174 = Some (h_tag_send h)"
    "slot (mc1\<lparr>mc_mem := m\<rparr>) 182 = Some (h_tag_receive h)" "slot (mc1\<lparr>mc_mem := m\<rparr>) 183 = Some (h_tag_ctl h)"
    "syscall_clean (mc1\<lparr>mc_mem := m\<rparr>) = Some (mc1\<lparr>mc_mem := m3\<rparr>)"
    "\<And>n. n < 256 \<Longrightarrow> slot (mc1\<lparr>mc_mem := m3\<rparr>) n = slot mc1 n"
proof -
  have four: "free_slots mc1 = 134 # 174 # 182 # 183 # [214, 215, 236]"
    using ok(2) by (simp add: ni_syscall_def)
  obtain r m where 2: "install_syscalls h mc1 = Some (r, \<lparr>tag_get_nr = uint (134::u64), tag_send_nr = uint (174::u64),
      tag_receive_nr = uint (182::u64), tag_ctl_nr = uint (183::u64)\<rparr>, mc1\<lparr>mc_mem := m\<rparr>)" "r \<noteq> 0"
    "table_ok (mc1\<lparr>mc_mem := m\<rparr>)"
    "\<And>k. k < 256 \<Longrightarrow> slot (mc1\<lparr>mc_mem := m\<rparr>) k =
      (if k = 183 then Some (h_tag_ctl h) else if k = 182 then Some (h_tag_receive h)
       else if k = 174 then Some (h_tag_send h) else if k = 134 then Some (h_tag_get h) else slot mc1 k)"
    by (rule install_syscalls_four [OF ok(1) four h]) blast
  obtain m3 where 3: "syscall_clean (mc1\<lparr>mc_mem := m\<rparr>) = Some (mc1\<lparr>mc_mem := m3\<rparr>)"
    "\<And>k. k < 256 \<Longrightarrow> slot (mc1\<lparr>mc_mem := m3\<rparr>) k =
      (if k \<in> set ni_syscall then Some (mc_sys_ni_address mc1) else slot (mc1\<lparr>mc_mem := m\<rparr>) k)"
    by (rule syscall_clean_result [OF 2(3)]) simp
  have ni: "slot mc1 k = Some (mc_sys_ni_address mc1)" if "k \<in> set ni_syscall" for k
  proof -
    have "k \<in> set (free_slots mc1)" using that ok(2) by simp
    then show ?thesis by (simp add: free_slots_def)
  qed
  have same: "slot (mc1\<lparr>mc_mem := m3\<rparr>) n = slot mc1 n" if "n < 256" for n
  proof (cases "n \<in> set ni_syscall")
    case True
    then show ?thesis unfolding 3(2) [OF that] using ni by simp
  next
    case False
    then have "n \<noteq> 183" "n \<noteq> 182" "n \<noteq> 174" "n \<noteq> 134" by (simp_all add: ni_syscall_def)
    then show ?thesis unfolding 3(2) [OF that] 2(4) [OF that] using False by simp
  qed
  show thesis
  proof (rule that)
    show "install_syscalls h mc1 = Some (r, \<lparr>tag_get_nr = 134, tag_send_nr = 174, tag_receive_nr = 182,
      tag_ctl_nr = 183\<rparr>, mc1\<lparr>mc_mem := m\<rparr>)" using 2(1) by simp
    show "slot (mc1\<lparr>mc_mem := m3\<rparr>) n = slot mc1 n" if "n < 256" for n by (rule same [OF that])
  qed (use 2(2) 3(1) in \<open>simp_all add: 2(4)\<close>)
qed

text \<open>
  C26. What the search of the discovery module finds fits the pattern (seven entries hold one aligned kernel address that none
  of the entries 1 to 133 holds), starting in a mapped page; the four calls of the module get the
  numbers 134, 174, 182 and 183; and unloading the discovery module gives every entry its former value. The
  write protection of the machine is on again afterwards.
\<close>

theorem syscalls_installed_and_cleaned:
  assumes "mc_syscall_table_addr mc = 0" and "scth_init_module None mc = Some (0, mc1)" and "mc_syscall_table_addr mc1 \<noteq> 0"
    and "mc_sys_ni_address mc1 \<notin> {h_tag_get h, h_tag_send h, h_tag_receive h, h_tag_ctl h}"
  shows "table_pattern mc (mc_syscall_table_addr mc1) (mc_sys_ni_address mc1) \<and>
    (\<exists>page. get_phys_frame mc page \<noteq> - 1 \<and> page \<le> mc_syscall_table_addr mc1 \<and>
      mc_syscall_table_addr mc1 < page + PAGE_SIZE_DEF) \<and>
    (\<exists>r mc2 mc3. install_syscalls h mc1 =
        Some (r, \<lparr>tag_get_nr = 134, tag_send_nr = 174, tag_receive_nr = 182, tag_ctl_nr = 183\<rparr>, mc2) \<and> r \<noteq> 0 \<and>
      slot mc2 134 = Some (h_tag_get h) \<and> slot mc2 174 = Some (h_tag_send h) \<and>
      slot mc2 182 = Some (h_tag_receive h) \<and> slot mc2 183 = Some (h_tag_ctl h) \<and>
      scth_cleanup_module mc2 = Some mc3 \<and> mc_cr0 mc3 = mc_cr0 mc \<and> mc_irq mc3 = mc_irq mc \<and>
      (\<forall>n<256. slot mc3 n = slot mc1 n))"
proof -
  have find: "find_syscall_table mc = Some mc1"
    using assms(2) by (cases "find_syscall_table mc") (simp_all add: scth_init_module_def)
  have "mc1 \<noteq> mc" using assms(1,3) by auto
  then obtain pg a ni where f: "mc1 = mc\<lparr>mc_syscall_table_addr := a, mc_sys_ni_address := ni\<rparr>"
    "START_ADDR \<le> pg" "pg < END_ADDR" "get_phys_frame mc pg \<noteq> - 1" "pg \<le> a" "a < pg + PAGE_SIZE_DEF"
    "table_pattern mc a ni"
    using find_loop_sound [OF find [unfolded find_syscall_table_def]] by blast
  have a: "a \<noteq> 0" using assms(3) f(1) by simp
  note ok = found_table [OF f(7) a, folded f(1)]
  obtain r m m3 where "install_syscalls h mc1 = Some (r, \<lparr>tag_get_nr = 134, tag_send_nr = 174, tag_receive_nr = 182,
      tag_ctl_nr = 183\<rparr>, mc1\<lparr>mc_mem := m\<rparr>)" "r \<noteq> 0"
    "slot (mc1\<lparr>mc_mem := m\<rparr>) 134 = Some (h_tag_get h)" "slot (mc1\<lparr>mc_mem := m\<rparr>) 174 = Some (h_tag_send h)"
    "slot (mc1\<lparr>mc_mem := m\<rparr>) 182 = Some (h_tag_receive h)" "slot (mc1\<lparr>mc_mem := m\<rparr>) 183 = Some (h_tag_ctl h)"
    "scth_cleanup_module (mc1\<lparr>mc_mem := m\<rparr>) = Some (mc1\<lparr>mc_mem := m3\<rparr>)"
    "\<forall>n<256. slot (mc1\<lparr>mc_mem := m3\<rparr>) n = slot mc1 n"
    using install_clean [OF ok assms(4)] unfolding scth_cleanup_module_def by metis
  moreover have "table_pattern mc (mc_syscall_table_addr mc1) (mc_sys_ni_address mc1)" using f(1,7) by simp
  moreover have "\<exists>page. get_phys_frame mc page \<noteq> - 1 \<and> page \<le> mc_syscall_table_addr mc1 \<and>
      mc_syscall_table_addr mc1 < page + PAGE_SIZE_DEF" using f by auto
  moreover have "mc_cr0 (mc1\<lparr>mc_mem := m3\<rparr>) = mc_cr0 mc" "mc_irq (mc1\<lparr>mc_mem := m3\<rparr>) = mc_irq mc"
    by (simp_all add: f(1))
  ultimately show ?thesis by blast
qed

definition ex_handlers :: handlers where
  "ex_handlers = \<lparr>h_tag_get = 0xffffffffa0000000, h_tag_send = 0xffffffffa0000100,
     h_tag_receive = 0xffffffffa0000200, h_tag_ctl = 0xffffffffa0000300\<rparr>"

theorem syscalls_installed_and_cleaned_witness:
  "\<exists>mc1 r mc2 mc3. scth_init_module None (table_machine ex_table) = Some (0, mc1) \<and>
     install_syscalls ex_handlers mc1 =
       Some (r, \<lparr>tag_get_nr = 134, tag_send_nr = 174, tag_receive_nr = 182, tag_ctl_nr = 183\<rparr>, mc2) \<and>
     slot mc2 134 = Some 0xffffffffa0000000 \<and> scth_cleanup_module mc2 = Some mc3 \<and> slot mc3 134 = Some ex_ni"
proof -
  let ?mc1 = "table_machine ex_table\<lparr>mc_syscall_table_addr := START_ADDR, mc_sys_ni_address := ex_ni\<rparr>"
  have 1: "mc_syscall_table_addr (table_machine ex_table) = 0" "mc_syscall_table_addr ?mc1 \<noteq> 0"
    "mc_sys_ni_address ?mc1 \<notin> {h_tag_get ex_handlers, h_tag_send ex_handlers, h_tag_receive ex_handlers, h_tag_ctl ex_handlers}"
    by (simp_all add: table_machine_def START_ADDR_def ex_ni_def ex_handlers_def)
  have init: "scth_init_module None (table_machine ex_table) = Some (0, ?mc1)"
    by (simp add: scth_init_module_def ex_found)
  have "slot ?mc1 134 = Some ex_ni" by (simp add: slot_def table_machine_entry ex_table_def ni_syscall_def)
  with syscalls_installed_and_cleaned [OF 1(1) init 1(2,3)] obtain r mc2 mc3 where
    "install_syscalls ex_handlers ?mc1 =
       Some (r, \<lparr>tag_get_nr = 134, tag_send_nr = 174, tag_receive_nr = 182, tag_ctl_nr = 183\<rparr>, mc2)"
    "slot mc2 134 = Some (h_tag_get ex_handlers)" "scth_cleanup_module mc2 = Some mc3" "slot mc3 134 = Some ex_ni"
    by auto
  moreover have "h_tag_get ex_handlers = 0xffffffffa0000000" by (simp add: ex_handlers_def)
  ultimately show ?thesis using init by auto
qed

section \<open>Loading\<close>

lemma initialize_kinds:
  obtains (ready) g al' where "initialize no_globals al = Some (0, g, al')" "globals_ready g"
  | (failed) g al' where "initialize no_globals al = Some (- 1, g, al')" "g_tag_table g = None"
      "g_tag_bitmask g = None" "g_tags g = None" "al \<noteq> []"
proof -
  obtain r g al' where g: "initialize no_globals al = Some (r, g, al')"
    "r = 0 \<and> globals_ready g \<or> r = - 1 \<and> g_tag_table g = None \<and> g_tag_bitmask g = None \<and> g_tags g = None"
    "al = [] \<longrightarrow> r = 0" by (rule initialize_result)
  then show thesis using ready failed by auto
qed

text \<open>One insertion takes the first free entry, or does nothing if there is none.\<close>

lemma insert_step:
  assumes "table_ok mc" and "f \<noteq> mc_sys_ni_address mc"
  obtains m where "syscall_insert f mc = Some (case free_slots mc of [] \<Rightarrow> 0 | n # _ \<Rightarrow> uint n, mc\<lparr>mc_mem := m\<rparr>)"
    "table_ok (mc\<lparr>mc_mem := m\<rparr>)" "free_slots (mc\<lparr>mc_mem := m\<rparr>) = drop 1 (free_slots mc)"
    "\<And>k. k < 256 \<Longrightarrow> slot (mc\<lparr>mc_mem := m\<rparr>) k = (if k \<in> set (take 1 (free_slots mc)) then Some f else slot mc k)"
proof (cases "free_slots mc")
  case Nil
  have "mc\<lparr>mc_mem := mc_mem mc\<rparr> = mc" by simp
  with Nil insert_none [OF assms(1) Nil, of f] assms(1) show thesis by (intro that [of "mc_mem mc"]) simp_all
next
  case (Cons n ns)
  from insert_first [OF assms(1) Cons assms(2)] Cons that show thesis by auto
qed

text \<open>The entries the four calls get: the first four that are free, or as many as there are.\<close>

definition new_entries :: "handlers \<Rightarrow> u64 list \<Rightarrow> u64 \<rightharpoonup> u64" where
  "new_entries h free = map_of (zip free [h_tag_get h, h_tag_send h, h_tag_receive h, h_tag_ctl h])"

lemma free_slots_distinct: "distinct (free_slots mc)"
  unfolding free_slots_def by (rule distinct_filter) (simp add: ni_syscall_def)

lemma four_cases:
  obtains "xs = []" | a where "xs = [a]" | a b where "xs = [a, b]" | a b c where "xs = [a, b, c]"
    | a b c d ys where "xs = a # b # c # d # ys"
  by (metis list.exhaust)

lemma install_syscalls_any:
  assumes ok: "table_ok mc"
    and h: "mc_sys_ni_address mc \<notin> {h_tag_get h, h_tag_send h, h_tag_receive h, h_tag_ctl h}"
  obtains r ns m where "install_syscalls h mc = Some (r, ns, mc\<lparr>mc_mem := m\<rparr>)"
    "r \<noteq> 0 \<longleftrightarrow> 4 \<le> length (free_slots mc)"
    "4 \<le> length (free_slots mc) \<Longrightarrow> ns = \<lparr>tag_get_nr = uint (free_slots mc ! 0), tag_send_nr = uint (free_slots mc ! 1),
       tag_receive_nr = uint (free_slots mc ! 2), tag_ctl_nr = uint (free_slots mc ! 3)\<rparr>"
    "free_slots (mc\<lparr>mc_mem := m\<rparr>) = drop 4 (free_slots mc)"
    "\<And>k. k < 256 \<Longrightarrow> slot (mc\<lparr>mc_mem := m\<rparr>) k =
      (case new_entries h (free_slots mc) k of Some f \<Rightarrow> Some f | None \<Rightarrow> slot mc k)"
proof -
  have ni: "h_tag_get h \<noteq> mc_sys_ni_address mc" "h_tag_send h \<noteq> mc_sys_ni_address mc"
    "h_tag_receive h \<noteq> mc_sys_ni_address mc" "h_tag_ctl h \<noteq> mc_sys_ni_address mc" using h by auto
  obtain m1 where 1: "syscall_insert (h_tag_get h) mc =
      Some (case free_slots mc of [] \<Rightarrow> 0 | n # _ \<Rightarrow> uint n, mc\<lparr>mc_mem := m1\<rparr>)"
    "table_ok (mc\<lparr>mc_mem := m1\<rparr>)" "free_slots (mc\<lparr>mc_mem := m1\<rparr>) = drop 1 (free_slots mc)"
    "\<And>k. k < 256 \<Longrightarrow> slot (mc\<lparr>mc_mem := m1\<rparr>) k =
      (if k \<in> set (take 1 (free_slots mc)) then Some (h_tag_get h) else slot mc k)"
    by (rule insert_step [OF ok ni(1)]) blast
  obtain m2 where 2: "syscall_insert (h_tag_send h) (mc\<lparr>mc_mem := m1\<rparr>) =
      Some (case drop 1 (free_slots mc) of [] \<Rightarrow> 0 | n # _ \<Rightarrow> uint n, mc\<lparr>mc_mem := m2\<rparr>)"
    "table_ok (mc\<lparr>mc_mem := m2\<rparr>)" "free_slots (mc\<lparr>mc_mem := m2\<rparr>) = drop 2 (free_slots mc)"
    "\<And>k. k < 256 \<Longrightarrow> slot (mc\<lparr>mc_mem := m2\<rparr>) k =
      (if k \<in> set (take 1 (drop 1 (free_slots mc))) then Some (h_tag_send h) else slot (mc\<lparr>mc_mem := m1\<rparr>) k)"
    by (rule insert_step [OF 1(2), of "h_tag_send h"]) (use ni(2) 1(3) in \<open>auto simp: numeral_2_eq_2\<close>)
  obtain m3 where 3: "syscall_insert (h_tag_receive h) (mc\<lparr>mc_mem := m2\<rparr>) =
      Some (case drop 2 (free_slots mc) of [] \<Rightarrow> 0 | n # _ \<Rightarrow> uint n, mc\<lparr>mc_mem := m3\<rparr>)"
    "table_ok (mc\<lparr>mc_mem := m3\<rparr>)" "free_slots (mc\<lparr>mc_mem := m3\<rparr>) = drop 3 (free_slots mc)"
    "\<And>k. k < 256 \<Longrightarrow> slot (mc\<lparr>mc_mem := m3\<rparr>) k =
      (if k \<in> set (take 1 (drop 2 (free_slots mc))) then Some (h_tag_receive h) else slot (mc\<lparr>mc_mem := m2\<rparr>) k)"
    by (rule insert_step [OF 2(2), of "h_tag_receive h"]) (use ni(3) 2(3) in \<open>auto simp: eval_nat_numeral\<close>)
  obtain m4 where 4: "syscall_insert (h_tag_ctl h) (mc\<lparr>mc_mem := m3\<rparr>) =
      Some (case drop 3 (free_slots mc) of [] \<Rightarrow> 0 | n # _ \<Rightarrow> uint n, mc\<lparr>mc_mem := m4\<rparr>)"
    "free_slots (mc\<lparr>mc_mem := m4\<rparr>) = drop 4 (free_slots mc)"
    "\<And>k. k < 256 \<Longrightarrow> slot (mc\<lparr>mc_mem := m4\<rparr>) k =
      (if k \<in> set (take 1 (drop 3 (free_slots mc))) then Some (h_tag_ctl h) else slot (mc\<lparr>mc_mem := m3\<rparr>) k)"
    by (rule insert_step [OF 3(2), of "h_tag_ctl h"]) (use ni(4) 3(3) in \<open>auto simp: eval_nat_numeral\<close>)
  let ?f = "free_slots mc"
  have mem: "set ?f \<subseteq> set ni_syscall" by (auto simp: free_slots_def)
  have install: "install_syscalls h mc = Some (to_c_int (to_c_int (to_c_int
      ((case drop 0 ?f of [] \<Rightarrow> 0 | n # _ \<Rightarrow> uint n) * (case drop 1 ?f of [] \<Rightarrow> 0 | n # _ \<Rightarrow> uint n)) *
       (case drop 2 ?f of [] \<Rightarrow> 0 | n # _ \<Rightarrow> uint n)) * (case drop 3 ?f of [] \<Rightarrow> 0 | n # _ \<Rightarrow> uint n)),
      \<lparr>tag_get_nr = (case drop 0 ?f of [] \<Rightarrow> 0 | n # _ \<Rightarrow> uint n),
       tag_send_nr = (case drop 1 ?f of [] \<Rightarrow> 0 | n # _ \<Rightarrow> uint n),
       tag_receive_nr = (case drop 2 ?f of [] \<Rightarrow> 0 | n # _ \<Rightarrow> uint n),
       tag_ctl_nr = (case drop 3 ?f of [] \<Rightarrow> 0 | n # _ \<Rightarrow> uint n)\<rparr>, mc\<lparr>mc_mem := m4\<rparr>)"
    using 1(1) 2(1) 3(1) 4(1) by (simp add: install_syscalls_def)
  have slots: "slot (mc\<lparr>mc_mem := m4\<rparr>) k = (case new_entries h ?f k of Some f \<Rightarrow> Some f | None \<Rightarrow> slot mc k)"
    if "k < 256" for k
    unfolding 4(3) [OF that] 3(4) [OF that] 2(4) [OF that] 1(4) [OF that]
    by (cases rule: four_cases [of ?f]) (use free_slots_distinct [of mc] in \<open>auto simp: new_entries_def\<close>)
  show thesis
  proof (cases rule: four_cases [of ?f])
    case (5 a b c d xs)
    have "to_c_int (to_c_int (to_c_int (uint a * uint b) * uint c) * uint d) \<noteq> 0"
      by (rule number_product) (use mem 5 uint_slot in auto)
    with 5 show thesis by (intro that [OF install _ _ 4(2) slots]) (simp_all add: numeral_eq_Suc)
  qed (intro that [OF install _ _ 4(2) slots], simp_all add: to_c_int_def)+
qed

text \<open>
  C27. Loading the module, with null globals, a table that has been found, and handlers that are not
  the address of the unused calls. When memory runs out during the initialisation it returns -1, the
  table is untouched and the globals are null. When the table has four free entries or more it returns
  0: the state is set up (an empty table of keys, no number in use, no tag, all locks free), the first
  four free entries hold the addresses of \<open>tag_get\<close>, \<open>tag_send\<close>, \<open>tag_receive\<close> and \<open>tag_ctl\<close> in this
  order, the others are as before. With fewer free entries it returns -1 with null globals, but the
  entries there were hold the first of these addresses.
\<close>

theorem module_loads:
  assumes "ms_globals ms = no_globals" and "table_ok (ms_machine ms)"
    and "mc_sys_ni_address (ms_machine ms) \<notin> {h_tag_get h, h_tag_send h, h_tag_receive h, h_tag_ctl h}"
  shows "let free = free_slots (ms_machine ms) in \<exists>r ms' m. init_module h ms = Some (r, ms') \<and> ms_machine ms' = (ms_machine ms)\<lparr>mc_mem := m\<rparr> \<and>
    (r = - 1 \<and> ms_alloc ms \<noteq> [] \<and> ms_machine ms' = ms_machine ms \<or>
     r = (if 4 \<le> length free then 0 else - 1) \<and> free_slots (ms_machine ms') = drop 4 free \<and>
       (\<forall>k<256. slot (ms_machine ms') k =
         (case new_entries h free k of Some f \<Rightarrow> Some f | None \<Rightarrow> slot (ms_machine ms) k))) \<and>
    (if r = 0
     then globals_ready (ms_globals ms') \<and>
       ms_numbers ms' = \<lparr>tag_get_nr = uint (free ! 0), tag_send_nr = uint (free ! 1),
         tag_receive_nr = uint (free ! 2), tag_ctl_nr = uint (free ! 3)\<rparr>
     else g_tag_table (ms_globals ms') = None \<and> g_tag_bitmask (ms_globals ms') = None \<and>
       g_tags (ms_globals ms') = None)"
proof (cases rule: initialize_kinds [of "ms_alloc ms"])
  case (ready g al')
  let ?free = "free_slots (ms_machine ms)"
  obtain r ns m where i: "install_syscalls h (ms_machine ms) = Some (r, ns, (ms_machine ms)\<lparr>mc_mem := m\<rparr>)"
    "r \<noteq> 0 \<longleftrightarrow> 4 \<le> length ?free"
    "4 \<le> length ?free \<Longrightarrow> ns = \<lparr>tag_get_nr = uint (?free ! 0), tag_send_nr = uint (?free ! 1),
       tag_receive_nr = uint (?free ! 2), tag_ctl_nr = uint (?free ! 3)\<rparr>"
    "free_slots ((ms_machine ms)\<lparr>mc_mem := m\<rparr>) = drop 4 ?free"
    "\<And>k. k < 256 \<Longrightarrow> slot ((ms_machine ms)\<lparr>mc_mem := m\<rparr>) k =
      (case new_entries h ?free k of Some f \<Rightarrow> Some f | None \<Rightarrow> slot (ms_machine ms) k)"
    by (rule install_syscalls_any [OF assms(2,3)]) blast
  obtain cd os where d: "register_chardev (ms_dev ms) (ms_chardev ms) = (cd, os)" by fastforce
  show ?thesis
  proof (cases "r = 0")
    case True
    let ?ms = "ms\<lparr>ms_globals := g\<lparr>g_tags := None, g_tag_table := None, g_tag_bitmask := None\<rparr>,
      ms_alloc := al', ms_numbers := ns, ms_machine := (ms_machine ms)\<lparr>mc_mem := m\<rparr>\<rparr>"
    have "init_module h ms = Some (- 1, ?ms)"
      using True ready(1) i(1) assms(1) by (simp add: init_module_def Let_def)
    with True i show ?thesis unfolding Let_def by (intro exI [of _ "- 1"] exI [of _ ?ms] exI [of _ m]) simp
  next
    case False
    let ?ms = "ms\<lparr>ms_globals := g, ms_alloc := al', ms_numbers := ns,
      ms_machine := (ms_machine ms)\<lparr>mc_mem := m\<rparr>, ms_chardev := cd, ms_dev := os\<rparr>"
    have "init_module h ms = Some (0, ?ms)"
      using False ready(1) i(1) assms(1) d by (simp add: init_module_def Let_def)
    with False i ready(2) show ?thesis unfolding Let_def by (intro exI [of _ 0] exI [of _ ?ms] exI [of _ m]) simp
  qed
next
  case (failed g al')
  let ?ms = "ms\<lparr>ms_globals := g, ms_alloc := al'\<rparr>"
  have "init_module h ms = Some (- 1, ?ms)" using failed(1) assms(1) by (simp add: init_module_def Let_def)
  with failed show ?thesis unfolding Let_def
    by (intro exI [of _ "- 1"] exI [of _ ?ms] exI [of _ "mc_mem (ms_machine ms)"]) simp
qed

definition ex_module :: "(u64 \<Rightarrow> u64) \<Rightarrow> outcomes \<Rightarrow> module_state" where
  "ex_module v al = \<lparr>ms_globals = no_globals,
     ms_machine = table_machine v\<lparr>mc_syscall_table_addr := START_ADDR, mc_sys_ni_address := ex_ni\<rparr>,
     ms_numbers = \<lparr>tag_get_nr = 0, tag_send_nr = 0, tag_receive_nr = 0, tag_ctl_nr = 0\<rparr>,
     ms_chardev = no_chardev, ms_alloc = al, ms_dev = []\<rparr>"

lemma ex_slots: "n < 256 \<Longrightarrow> slot (ms_machine (ex_module v al)) n = Some (v n)"
  by (simp add: slot_def ex_module_def table_machine_entry)

lemma ex_module_ok:
  "table_ok (ms_machine (ex_module v al))" "free_slots (ms_machine (ex_module v al)) = filter (\<lambda>n. v n = ex_ni) ni_syscall"
  "mc_sys_ni_address (ms_machine (ex_module v al)) \<notin>
     {h_tag_get ex_handlers, h_tag_send ex_handlers, h_tag_receive ex_handlers, h_tag_ctl ex_handlers}"
proof -
  have ni: "mc_sys_ni_address (ms_machine (ex_module v al)) = ex_ni"
    "mc_syscall_table_addr (ms_machine (ex_module v al)) = START_ADDR" by (simp_all add: ex_module_def)
  have slots: "slot (ms_machine (ex_module v al)) n = Some (v n)" if "n \<in> set ni_syscall" for n
    by (rule ex_slots [OF ni_syscall_small [OF that]])
  then show "table_ok (ms_machine (ex_module v al))"
    by (simp add: table_ok_def ni START_ADDR_def ex_ni_def)
  show "free_slots (ms_machine (ex_module v al)) = filter (\<lambda>n. v n = ex_ni) ni_syscall"
    unfolding free_slots_def ni by (rule filter_cong) (simp_all add: slots)
  show "mc_sys_ni_address (ms_machine (ex_module v al)) \<notin>
     {h_tag_get ex_handlers, h_tag_send ex_handlers, h_tag_receive ex_handlers, h_tag_ctl ex_handlers}"
    by (simp add: ni ex_ni_def ex_handlers_def)
qed

theorem module_loads_witness:
  "\<exists>ms'. init_module ex_handlers (ex_module ex_table []) = Some (0, ms') \<and> globals_ready (ms_globals ms') \<and>
     tag_get_nr (ms_numbers ms') = 134 \<and> slot (ms_machine ms') 174 = Some (h_tag_send ex_handlers)"
proof -
  have free: "free_slots (ms_machine (ex_module ex_table [])) = ni_syscall"
    unfolding ex_module_ok(2) by (simp add: ex_table_def ni_syscall_def)
  have g: "ms_globals (ex_module ex_table []) = no_globals" "ms_alloc (ex_module ex_table []) = []"
    by (simp_all add: ex_module_def)
  from module_loads [OF g(1) ex_module_ok(1,3), unfolded Let_def] obtain r ms' where r:
    "init_module ex_handlers (ex_module ex_table []) = Some (r, ms')" "r = 0"
    "globals_ready (ms_globals ms') \<and> ms_numbers ms' = \<lparr>tag_get_nr = uint (ni_syscall ! 0),
       tag_send_nr = uint (ni_syscall ! 1), tag_receive_nr = uint (ni_syscall ! 2), tag_ctl_nr = uint (ni_syscall ! 3)\<rparr>"
    "slot (ms_machine ms') 174 = Some (h_tag_send ex_handlers)"
    unfolding free by (auto simp: g(2) ni_syscall_def new_entries_def split: if_splits)
  then show ?thesis by (simp add: ni_syscall_def)
qed

text \<open>
  C32. A table with a single free entry: loading enters \<open>tag_get\<close> there, finds no room for the other
  calls, frees the state and returns -1, but does not take the entry back. The kernel unloads the
  code, and the entry of the table still points to it.
\<close>

theorem failed_load_leaves_entry:
  "\<exists>v ms'. free_slots (ms_machine (ex_module v [])) = [134] \<and>
     init_module ex_handlers (ex_module v []) = Some (- 1, ms') \<and> g_tags (ms_globals ms') = None \<and>
     g_tag_table (ms_globals ms') = None \<and> slot (ms_machine ms') 134 = Some (h_tag_get ex_handlers)"
proof -
  define v :: "u64 \<Rightarrow> u64" where "v n = (if n = 134 then ex_ni else 1)" for n
  have free: "free_slots (ms_machine (ex_module v [])) = [134]"
    unfolding ex_module_ok(2) by (simp add: v_def ni_syscall_def ex_ni_def)
  obtain ns m where i: "install_syscalls ex_handlers (ms_machine (ex_module v [])) =
      Some (0, ns, ms_machine (ex_module v [])\<lparr>mc_mem := m\<rparr>)"
    "slot (ms_machine (ex_module v [])\<lparr>mc_mem := m\<rparr>) 134 = Some (h_tag_get ex_handlers)"
    by (rule install_syscalls_few [OF ex_module_ok(1) free ex_module_ok(3)])
  have g: "ms_globals (ex_module v []) = no_globals" "ms_alloc (ex_module v []) = []"
    by (simp_all add: ex_module_def)
  obtain g al' where init: "initialize no_globals [] = Some (0, g, al')" "globals_ready g"
  proof (cases rule: initialize_kinds [of "[]"])
    case (ready g al')
    with that show thesis by simp
  qed simp
  have "init_module ex_handlers (ex_module v []) = Some (- 1, (ex_module v [])\<lparr>ms_globals := g, ms_alloc := al',
      ms_numbers := ns, ms_machine := ms_machine (ex_module v [])\<lparr>mc_mem := m\<rparr>,
      ms_globals := g\<lparr>g_tags := None, g_tag_table := None, g_tag_bitmask := None\<rparr>\<rparr>)"
    using init(1) i(1) by (simp add: init_module_def g)
  with free i(2) show ?thesis by fastforce
qed

section \<open>Unloading\<close>

text \<open>
  C28. Unloading, which the reference count allows when no thread is inside \<open>tag_receive\<close>: every
  entry and every level of every tag that is left is freed, each once, and no other object is
  touched; the device is gone.
\<close>

theorem unload_frees_tags:
  assumes "reachable k Map.empty"
  shows "\<exists>k'. cleanup_module c k = Some (no_chardev, k') \<and>
    (\<forall>i<256. \<forall>te tg. k_tags k ! i = Some te \<and> k_tag_heap k te = Some tg \<longrightarrow>
      k_tag_heap k' te = None \<and> (\<forall>l<LEVELS. \<forall>p. lp_at k i l = Some p \<longrightarrow> k_level_heap k' p = None)) \<and>
    (\<forall>a. (\<forall>i<256. k_tags k ! i \<noteq> Some a) \<longrightarrow> k_tag_heap k' a = k_tag_heap k a) \<and>
    (\<forall>p. (\<forall>i<256. \<forall>l<LEVELS. lp_at k i l \<noteq> Some p) \<longrightarrow> k_level_heap k' p = k_level_heap k p)"
proof -
  have inv: "sys_inv k Map.empty" by (rule reachable_inv [OF assms])
  have len: "length (k_tags k) = 256" using sys_invD(6) [OF inv] by (simp add: registry_inv_def)
  have entries: "a \<in> entries_of (k_tags k) \<longleftrightarrow> (\<exists>i<256. k_tags k ! i = Some a)" for a
    by (auto simp: entries_of_def in_set_conv_nth len)
  have levels: "p \<in> levels_of k (k_tags k) \<longleftrightarrow> (\<exists>i<256. \<exists>l<LEVELS. lp_at k i l = Some p)" for p
  proof
    assume "p \<in> levels_of k (k_tags k)"
    then obtain i te tg where i: "i < 256" "k_tags k ! i = Some te" "k_tag_heap k te = Some tg"
        "p \<in> pointers (tg_tag_level tg)" by (auto simp: levels_of_def in_set_conv_nth len)
    then show "\<exists>i<256. \<exists>l<LEVELS. lp_at k i l = Some p" using tag_level_pointers(2) [OF inv i(1-3)] by blast
  next
    assume "\<exists>i<256. \<exists>l<LEVELS. lp_at k i l = Some p"
    then obtain i l where i: "i < 256" "l < LEVELS" "lp_at k i l = Some p" by blast
    then obtain te tg where t: "k_tags k ! i = Some te" "k_tag_heap k te = Some tg"
      by (auto simp: lp_at_def entry_at_def bind_eq_Some_conv)
    then have "p \<in> pointers (tg_tag_level tg)" using tag_level_pointers(2) [OF inv i(1) t] i by blast
    with i(1) t show "p \<in> levels_of k (k_tags k)"
      unfolding levels_of_def by (metis (mono_tags, lifting) len mem_Collect_eq nth_mem)
  qed
  show ?thesis
    using cleanup_module_result [OF inv, of c]
    by (auto simp: restrict_map_def entries levels unregister_chardev_def no_chardev_def)
qed

theorem unload_frees_tags_witness:
  "\<exists>k te k'. reachable k Map.empty \<and> k_tag_heap k te \<noteq> None \<and> cleanup_module no_chardev k = Some (no_chardev, k') \<and>
     k_tag_heap k' te = None"
proof -
  obtain k te a where k: "reachable k Map.empty" "k_tags k = (replicate 256 None)[0 := Some te]"
    "k_tag_heap k te = Some (new_tag 5 0 TAG_PERM_ALL 0 a)"
    by (rule ex_tag [of TAG_PERM_ALL 0 "[]" "[]" "[]"]) simp_all
  have te: "k_tags k ! 0 = Some te" "(0::nat) < 256" using k(2) by simp_all
  from unload_frees_tags [OF k(1), of no_chardev] obtain k' where
    "cleanup_module no_chardev k = Some (no_chardev, k')" "k_tag_heap k' te = None" using te k(3) by blast
  with k(1,3) show ?thesis by blast
qed

end
