(* ===== verification/C_Text.thy ===== *)
theory C_Text
  imports Tag_Prelude
begin

text \<open>
  Text as the code has it: a C string is the list of its bytes up to the terminating 0. The
  functions are the conversions of \<open>sprintf\<close> that the code uses.
\<close>

type_synonym chars = "u8 list"

fun digits :: "nat \<Rightarrow> chars" where
  "digits n = (if n < 10 then [48 + word_of_nat n] else digits (n div 10) @ [48 + word_of_nat (n mod 10)])"

declare digits.simps [simp del]

text \<open>The conversion \<open>%d\<close>.\<close>

definition decimal :: "int \<Rightarrow> chars" where
  "decimal n = (if n < 0 then 45 # digits (nat (- n)) else digits (nat n))"

end
