(* ===== verification/Tag_Device.thy ===== *)
theory Tag_Device
  imports Tag_Ctl C_Text
begin

text \<open>
  The file operations of the character device (\<open>tag-module/tag-dev-driver.c\<close>): a read renders the
  tags, one line per level, into a buffer of the kernel and copies the part asked for to the caller.
  The text of a buffer is the list of its bytes up to the terminating 0. Its temporary objects have
  no address in the model; they succeed or fail to be allocated as the environment decides.
\<close>

section \<open>Text\<close>

definition CHAR_BLOCK :: nat where "CHAR_BLOCK = 4096"
definition LINE_SIZE :: nat where "LINE_SIZE = 53"
definition TAG_SIZE :: nat where "TAG_SIZE = (LINE_SIZE + 1) * (LEVELS + 1)"

text \<open>The field width of the conversions \<open>%10d\<close> and \<open>%10s\<close>.\<close>

definition pad10 :: "chars \<Rightarrow> chars" where
  "pad10 s = replicate (10 - length s) 32 @ s"

definition line :: "chars \<Rightarrow> chars \<Rightarrow> chars \<Rightarrow> chars \<Rightarrow> chars" where
  "line a b c d = [124, 32] @ pad10 a @ [32, 124, 32] @ pad10 b @ [32, 124, 32] @ pad10 c @
     [32, 124, 32] @ pad10 d @ [32, 124, 10]"

text \<open>\<open>KEY\<close>, \<open>EUID\<close>, \<open>LEVEL\<close>, \<open>WAIT\<close>.\<close>

definition header :: chars where
  "header = line [75, 69, 89] [69, 85, 73, 68] [76, 69, 86, 69, 76] [87, 65, 73, 84]"

definition divider :: chars where
  "divider = ((replicate LINE_SIZE 45)[0 := 43, LINE_SIZE - 1 := 43]) @ [10]"

definition level_line :: "int \<Rightarrow> int \<Rightarrow> nat \<Rightarrow> int \<Rightarrow> chars" where
  "level_line tag_key euid j waiting = line (decimal tag_key) (decimal euid) (decimal (int j)) (decimal waiting)"

section \<open>Reading\<close>

text \<open>The buffer, the number of bytes appended to it, its size in blocks.\<close>

record reading =
  rd_buffer :: chars
  rd_nbytes :: nat
  rd_block :: nat

text \<open>\<open>None\<close>: no memory for a larger buffer; the old one has been freed.\<close>

definition append_buffer :: "reading \<Rightarrow> chars \<Rightarrow> kernel \<Rightarrow> reading option \<times> kernel" where
  "append_buffer rd source s =
     (let nbytes = rd_nbytes rd + length source
      in if nbytes > CHAR_BLOCK * rd_block rd then
           let (ok, s) = kzalloc s
           in if \<not> ok then (None, s)
              else (Some \<lparr>rd_buffer = rd_buffer rd @ source, rd_nbytes = nbytes, rd_block = rd_block rd + 1\<rparr>, s)
         else (Some \<lparr>rd_buffer = rd_buffer rd @ source, rd_nbytes = nbytes, rd_block = rd_block rd\<rparr>, s))"

datatype progress = Failed | Full reading | More reading

text \<open>The loop over the levels of tag \<open>i\<close>, from \<open>j\<close> with \<open>n\<close> to go; \<open>Full\<close> when \<open>limit\<close> is passed.\<close>

fun read_levels ::
  "nat \<Rightarrow> nat \<Rightarrow> nat \<Rightarrow> addr \<Rightarrow> int \<Rightarrow> int \<Rightarrow> nat \<Rightarrow> reading \<Rightarrow> kernel \<Rightarrow> (progress \<times> kernel) option" where
  "read_levels 0 j i te tag_key euid limit rd s = Some (More rd, s)"
| "read_levels (Suc n) j i te tag_key euid limit rd s = do {
     (ok, s) \<leftarrow> interruptible (level_lock_op down_read te j) s;
     if \<not> ok then read_levels n (Suc j) i te tag_key euid limit rd s
     else do {
       tag_entry \<leftarrow> k_tag_heap s te;
       case tg_tag_level tag_entry ! j of
         None \<Rightarrow> do {
           s \<leftarrow> level_lock_op up_read te j s;
           read_levels n (Suc j) i te tag_key euid limit rd s
         }
       | Some lp \<Rightarrow> do {
           (ok, s) \<leftarrow> interruptible (rcu_lock_op down_read lp) s;
           s \<leftarrow> level_lock_op up_read te j s;
           if \<not> ok then read_levels n (Suc j) i te tag_key euid limit rd s
           else
             let (ok, s) = kzalloc s
             in if \<not> ok then do {
                  s \<leftarrow> rcu_lock_op up_read lp s;
                  read_levels n (Suc j) i te tag_key euid limit rd s
                } else do {
                  tag_level \<leftarrow> k_level_heap s lp;
                  let (r, s) = append_buffer rd (level_line tag_key euid j (tl_waiting tag_level)) s;
                  s \<leftarrow> rcu_lock_op up_read lp s;
                  case r of
                    None \<Rightarrow> do { s \<leftarrow> tag_lock_op up_read i s; Some (Failed, s) }
                  | Some rd \<Rightarrow>
                      if rd_nbytes rd > limit
                      then do { s \<leftarrow> tag_lock_op up_read i s; Some (Full rd, s) }
                      else read_levels n (Suc j) i te tag_key euid limit rd s
                }
         }
     }
   }"

text \<open>The loop over the tags, from \<open>i\<close> with \<open>n\<close> to go. The last component is \<open>relative_off\<close>.\<close>

fun read_tags ::
  "nat \<Rightarrow> nat \<Rightarrow> nat \<Rightarrow> nat \<Rightarrow> reading \<Rightarrow> kernel \<Rightarrow> (reading option \<times> nat \<times> kernel) option" where
  "read_tags 0 i sz off rd s = Some (Some rd, off, s)"
| "read_tags (Suc n) i sz off rd s = do {
     (ok, s) \<leftarrow> interruptible (tag_lock_op down_read i) s;
     if \<not> ok then read_tags n (Suc i) sz off rd s
     else case k_tags s ! i of
       None \<Rightarrow> do { s \<leftarrow> tag_lock_op up_read i s; read_tags n (Suc i) sz off rd s }
     | Some te \<Rightarrow>
         if off > TAG_SIZE then do {
           s \<leftarrow> tag_lock_op up_read i s;
           read_tags n (Suc i) sz (off - TAG_SIZE) rd s
         } else do {
           tag_entry \<leftarrow> k_tag_heap s te;
           (p, s) \<leftarrow> read_levels LEVELS 0 i te (tg_key tag_entry) (to_c_int (tg_euid tag_entry))
             (sz + off) rd s;
           case p of
             Failed \<Rightarrow> Some (None, off, s)
           | Full rd \<Rightarrow> Some (Some rd, off, s)
           | More rd \<Rightarrow> do {
               let (r, s) = append_buffer rd divider s;
               s \<leftarrow> tag_lock_op up_read i s;
               case r of
                 None \<Rightarrow> Some (None, off, s)
               | Some rd \<Rightarrow> read_tags n (Suc i) sz off rd s
             }
         }
   }"

text \<open>The result: the return value, the bytes copied to the caller, the position of the file.\<close>

definition dev_read :: "bool \<Rightarrow> nat \<Rightarrow> int \<Rightarrow> kernel \<Rightarrow> (int \<times> chars \<times> int \<times> kernel) option" where
  "dev_read buf sz off s =
     (if sz = 0 then Some (0, [], off, s)
      else if \<not> buf \<or> off < 0 then Some (- 1, [], off, s)
      else
        let (ok, s) = kzalloc s
        in if \<not> ok then Some (- 1, [], off, s)
           else
             let (ok, s) = kzalloc s
             in if \<not> ok then Some (- 1, [], off, s)
                else
                  let (ok, s) = kzalloc s
                  in if \<not> ok then Some (- 1, [], off, s)
                     else do {
                       (r, relative_off, s) \<leftarrow> read_tags (nat MAX_TAGS) 0 sz (nat off)
                         \<lparr>rd_buffer = header @ divider, rd_nbytes = 0, rd_block = 1\<rparr> s;
                       case r of
                         None \<Rightarrow> Some (- 1, [], off, s)
                       | Some rd \<Rightarrow>
                           let tot_size = length (rd_buffer rd)
                           in if tot_size \<le> relative_off then Some (0, [], off, s)
                              else
                                let sz = min sz (tot_size - relative_off);
                                    (fail, bytes, s) = copy_to_user (drop relative_off (rd_buffer rd)) sz s
                                in if fail \<noteq> 0 then Some (- 1, bytes, off, s)
                                   else Some (int sz, bytes, off + int sz, s)
                     })"

section \<open>The other operations\<close>

definition dev_open :: int where "dev_open = 0"
definition dev_release :: int where "dev_release = 0"
definition dev_write :: int where "dev_write = - 1"
definition dev_ioctl :: int where "dev_ioctl = - 1"

text \<open>\<open>newpos\<close> is the content of the variable before it is assigned. The result is the return value
  and the position of the file.\<close>

definition dev_llseek :: "int \<Rightarrow> int \<Rightarrow> int \<Rightarrow> int \<Rightarrow> int \<times> int" where
  "dev_llseek newpos f_pos off whence =
     (if whence = 2 then (off, f_pos)
      else if whence \<noteq> 0 \<and> whence \<noteq> 1 then (- EINVAL, f_pos)
      else
        let newpos = (if whence = 0 then off else newpos)
        in if newpos < 0 then (- EINVAL, f_pos) else (newpos, newpos))"

section \<open>What the loops render\<close>

lemma environment_idle:
  "k_alloc s = [] \<Longrightarrow> s\<lparr>k_alloc := []\<rparr> = s" "k_signal s = [] \<Longrightarrow> s\<lparr>k_signal := []\<rparr> = s"
  by (cases s, simp)+

lemma kzalloc_idle: "k_alloc s = [] \<Longrightarrow> kzalloc s = (True, s)"
  by (simp add: kzalloc_def environment_idle)

lemma interruptible_idle: "k_signal s = [] \<Longrightarrow> interruptible acq s = map_option (Pair True) (acq s)"
  by (simp add: interruptible_eq environment_idle)

definition put :: "reading \<Rightarrow> chars \<Rightarrow> reading" where
  "put rd source = \<lparr>rd_buffer = rd_buffer rd @ source, rd_nbytes = rd_nbytes rd + length source,
     rd_block = (if rd_nbytes rd + length source > CHAR_BLOCK * rd_block rd then rd_block rd + 1 else rd_block rd)\<rparr>"

lemma append_buffer_idle: "k_alloc s = [] \<Longrightarrow> append_buffer rd source s = (Some (put rd source), s)"
  by (simp add: append_buffer_def put_def kzalloc_idle Let_def)

text \<open>The lines of one tag, with the stop at the limit.\<close>

fun emit :: "nat \<Rightarrow> chars list \<Rightarrow> reading \<Rightarrow> progress" where
  "emit limit [] rd = More rd"
| "emit limit (x # xs) rd =
     (let rd = put rd x in if rd_nbytes rd > limit then Full rd else emit limit xs rd)"

definition tag_lines :: "kernel \<Rightarrow> nat \<Rightarrow> chars list" where
  "tag_lines k i = (case entry_at k i of None \<Rightarrow> [] | Some tg \<Rightarrow>
     map (\<lambda>l. level_line (tg_key tg) (to_c_int (tg_euid tg)) l (tl_waiting (the (level_at k i l)))) [0..<LEVELS])"

lemma read_levels_result:
  assumes idle: "k_alloc s = []" "k_signal s = []" and tg: "k_tag_heap s te = Some tg"
    and lvl: "\<And>l. l < LEVELS \<Longrightarrow> tg_level_lock tg ! l = read_locked 0 \<and>
      (tg_level_lock tg)[l := read_locked 0] = tg_level_lock tg \<and>
      (\<exists>p lv m. tg_tag_level tg ! l = Some p \<and> k_level_heap s p = Some lv \<and> tl_rcu_lock lv = read_locked m \<and>
        tl_waiting lv = w l)"
    and len: "length (tg_level_lock tg) = LEVELS"
  shows "j + n \<le> LEVELS \<Longrightarrow> read_levels n j i te key euid limit rd s =
    (case emit limit (map (\<lambda>l. level_line key euid l (w l)) [j..<j + n]) rd of
       Full rd' \<Rightarrow> do { s' \<leftarrow> tag_lock_op up_read i s; Some (Full rd', s') }
     | p \<Rightarrow> Some (p, s))"
proof (induction n arbitrary: j rd)
  case (Suc n)
  then have j: "j < LEVELS" by simp
  obtain p lv m where lv: "tg_tag_level tg ! j = Some p" "k_level_heap s p = Some lv" "tl_rcu_lock lv = read_locked m"
      "tl_waiting lv = w j" using lvl [OF j] by blast
  have same: "s\<lparr>k_tag_heap := (k_tag_heap s)(te \<mapsto> tg)\<rparr> = s" "s\<lparr>k_level_heap := (k_level_heap s)(p \<mapsto> lv)\<rparr> = s"
    "lv\<lparr>tl_rcu_lock := read_locked m\<rparr> = lv" "tg\<lparr>tg_level_lock := tg_level_lock tg\<rparr> = tg"
    using tg lv(2,3) by (simp_all add: map_upd_same rcu_same)
  let ?rd = "put rd (level_line key euid j (w j))"
  have step: "read_levels (Suc n) j i te key euid limit rd s =
    (if rd_nbytes ?rd > limit then do { s' \<leftarrow> tag_lock_op up_read i s; Some (Full ?rd, s') }
     else read_levels n (Suc j) i te key euid limit ?rd s)"
    using tg lv lvl [OF j] j len
    by (simp add: interruptible_idle idle kzalloc_idle append_buffer_idle level_lock_op_eq rcu_lock_op_eq same
        rcu_same map_upd_same Let_def)
  have range: "[j..<j + Suc n] = j # [Suc j..<Suc j + n]" using upt_conv_Cons [of j "j + Suc n"] by simp
  have IH: "read_levels n (Suc j) i te key euid limit ?rd s =
    (case emit limit (map (\<lambda>l. level_line key euid l (w l)) [Suc j..<Suc j + n]) ?rd of
       Full rd' \<Rightarrow> do { s' \<leftarrow> tag_lock_op up_read i s; Some (Full rd', s') }
     | p \<Rightarrow> Some (p, s))" by (rule Suc.IH) (use Suc.prems in simp)
  show ?case unfolding step range list.map emit.simps Let_def IH by simp
qed simp

text \<open>The whole file: the tags in use, one after the other, from the given position.\<close>

fun render :: "nat \<Rightarrow> nat \<Rightarrow> chars list list \<Rightarrow> reading \<Rightarrow> reading \<times> nat" where
  "render sz off [] rd = (rd, off)"
| "render sz off (ls # bs) rd =
     (if off > TAG_SIZE then render sz (off - TAG_SIZE) bs rd
      else case emit (sz + off) ls rd of
        More rd \<Rightarrow> render sz off bs (put rd divider)
      | Full rd \<Rightarrow> (rd, off)
      | Failed \<Rightarrow> (rd, off))"

lemma emit_not_failed: "emit limit xs rd \<noteq> Failed"
  by (induction xs arbitrary: rd) (simp_all add: Let_def)

lemma tag_lock_pair:
  assumes inv: "sys_inv k R" and i: "i < 256"
  shows "tag_lock_op down_read i k = Some (k\<lparr>k_tag_lock := (k_tag_lock k)[i := read_locked (Suc (card (tag_waiters R i)))]\<rparr>)"
    "tag_lock_op up_read i (k\<lparr>k_tag_lock := (k_tag_lock k)[i := read_locked (Suc (card (tag_waiters R i)))]\<rparr>) = Some k"
  using sys_inv_locks [OF inv i] by (simp_all add: tag_lock_op_eq)

lemma read_tags_result:
  assumes inv: "sys_inv k R" and idle: "k_alloc k = []" "k_signal k = []"
  shows "i + n \<le> 256 \<Longrightarrow> read_tags n i sz off rd k =
    (case render sz off (map (tag_lines k) (filter (\<lambda>i. entry_at k i \<noteq> None) [i..<i + n])) rd of
       (rd', off') \<Rightarrow> Some (Some rd', off', k))"
proof (induction n arbitrary: i off rd)
  case (Suc n)
  then have i: "i < 256" by simp
  note lock = tag_lock_pair [OF inv i]
  let ?s = "k\<lparr>k_tag_lock := (k_tag_lock k)[i := read_locked (Suc (card (tag_waiters R i)))]\<rparr>"
  have range: "[i..<i + Suc n] = i # [Suc i..<Suc i + n]" using upt_conv_Cons [of i "i + Suc n"] by simp
  have IH: "read_tags n (Suc i) sz off rd k =
    (case render sz off (map (tag_lines k) (filter (\<lambda>i. entry_at k i \<noteq> None) [Suc i..<Suc i + n])) rd of
       (rd', off') \<Rightarrow> Some (Some rd', off', k))" for off rd
    by (rule Suc.IH) (use Suc.prems in simp)
  show ?case
  proof (cases "k_tags k ! i")
    case None
    then have "entry_at k i = None" by (simp add: entry_at_def)
    then show ?thesis unfolding range
      using None by (simp add: interruptible_idle idle lock IH)
  next
    case (Some te)
    obtain tg where tg: "k_tag_heap k te = Some tg" "tg_ok R i tg" "entry_at k i = Some tg"
      "\<And>l. l < LEVELS \<Longrightarrow> \<exists>p lv. tg_tag_level tg ! l = Some p \<and> k_level_heap k p = Some lv \<and>
         lv_ok R p lv \<and> lp_at k i l = Some p \<and> level_at k i l = Some lv"
      using tags_okE [OF sys_invD(2) [OF inv] i Some] by blast
    have lvl: "tg_level_lock tg ! l = read_locked 0 \<and> (tg_level_lock tg)[l := read_locked 0] = tg_level_lock tg \<and>
        (\<exists>p lv m. tg_tag_level tg ! l = Some p \<and> k_level_heap ?s p = Some lv \<and> tl_rcu_lock lv = read_locked m \<and>
          tl_waiting lv = tl_waiting (the (level_at k i l)))" if "l < LEVELS" for l
      using tg(4) [OF that] tg_okD [OF tg(2) that] lv_okD(1) by fastforce
    have "length (tg_level_lock tg) = LEVELS" using tg(2) by (simp add: tg_ok_def)
    note levels = read_levels_result [OF _ _ _ lvl this, of te 0 LEVELS i "tg_key tg" "to_c_int (tg_euid tg)"
        "sz + off" rd]
    have lines: "tag_lines k i = map (\<lambda>l. level_line (tg_key tg) (to_c_int (tg_euid tg)) l
        (tl_waiting (the (level_at k i l)))) [0..<0 + LEVELS]" using tg(3) by (simp add: tag_lines_def)
    have "read_levels LEVELS 0 i te (tg_key tg) (to_c_int (tg_euid tg)) (sz + off) rd ?s =
      (case emit (sz + off) (tag_lines k i) rd of
         Full rd' \<Rightarrow> do { s' \<leftarrow> tag_lock_op up_read i ?s; Some (Full rd', s') }
       | p \<Rightarrow> Some (p, ?s))"
      unfolding lines by (rule levels) (simp_all add: idle tg(1))
    then show ?thesis unfolding range
      using Some tg(1,3) emit_not_failed [of "sz + off" "tag_lines k i" rd]
      by (auto simp: interruptible_idle idle lock IH append_buffer_idle split: progress.splits)
  qed
qed simp

end
