(* ===== verification/Device_Properties.thy ===== *)
theory Device_Properties
  imports Tag_Device Tag_Examples "HOL-Library.Sublist"
begin

text \<open>
  The property of the character device. Without failures a read returns a slice of the rendering of the
  tags that are not skipped; in any environment it changes nothing and makes no line up. \<open>render\<close> and
  \<open>skip_tags\<close> describe the first, \<open>appended\<close> and \<open>selection\<close> the second.
\<close>

section \<open>The text\<close>

definition in_use :: "kernel \<Rightarrow> nat list" where
  "in_use k = filter (\<lambda>i. entry_at k i \<noteq> None) [0..<256]"

definition tag_text :: "chars list \<Rightarrow> chars" where
  "tag_text ls = concat ls @ divider"

text \<open>The lines of some tags, each tag followed by a divider, and the whole text.\<close>

definition device_lines :: "kernel \<Rightarrow> nat list \<Rightarrow> chars list" where
  "device_lines k is = concat (map (\<lambda>i. tag_lines k i @ [divider]) is)"

definition device_text :: "kernel \<Rightarrow> chars" where
  "device_text k = concat (header # divider # device_lines k (in_use k))"

lemma device_lines_text: "concat (device_lines k is) = concat (map (\<lambda>i. tag_text (tag_lines k i)) is)"
  by (induction \<open>is\<close>) (simp_all add: device_lines_def tag_text_def)

text \<open>The tags a read skips, and the position relative to what is left.\<close>

fun skip_tags :: "nat \<Rightarrow> 'a list \<Rightarrow> nat \<times> 'a list" where
  "skip_tags off [] = (off, [])"
| "skip_tags off (b # bs) = (if off > TAG_SIZE then skip_tags (off - TAG_SIZE) bs else (off, b # bs))"

lemma skip_tags_small: "off \<le> TAG_SIZE \<Longrightarrow> skip_tags off bs = (off, bs)"
  by (cases bs) simp_all

lemma skip_tags_split:
  "skip_tags off bs = (rel, rest) \<Longrightarrow> \<exists>pre. bs = pre @ rest \<and> off = rel + TAG_SIZE * length pre"
proof (induction off bs rule: skip_tags.induct)
  case (2 off b bs)
  show ?case
  proof (cases "off > TAG_SIZE")
    case True
    then obtain pre where "bs = pre @ rest" "off - TAG_SIZE = rel + TAG_SIZE * length pre" using 2 by auto
    with True show ?thesis by (intro exI [of _ "b # pre"]) simp
  qed (use 2 in simp)
qed simp

section \<open>The loops\<close>

text \<open>What a loop leaves: the text rendered is complete, or it is longer than the limit.\<close>

definition rendered :: "reading \<Rightarrow> nat \<Rightarrow> chars \<Rightarrow> reading \<Rightarrow> bool" where
  "rendered rd limit t rd' \<longleftrightarrow> (\<exists>p q. t = p @ q \<and> rd_buffer rd' = rd_buffer rd @ p \<and>
     rd_nbytes rd' = rd_nbytes rd + length p \<and> (q = [] \<or> rd_nbytes rd' > limit))"

lemma rendered_put:
  "rendered (put rd x) limit t rd' \<Longrightarrow> rendered rd limit (x @ t) rd'"
  by (auto simp: rendered_def put_def)

lemma rendered_stop: "rd_nbytes (put rd x) > limit \<Longrightarrow> rendered rd limit (x @ t) (put rd x)"
  unfolding rendered_def by (intro exI [of _ x] exI [of _ t]) (simp add: put_def)

lemma emit_full: "emit limit xs rd = Full rd' \<Longrightarrow> rendered rd limit (concat xs) rd' \<and> rd_nbytes rd' > limit"
proof (induction xs arbitrary: rd)
  case (Cons x xs)
  then show ?case using rendered_stop [of limit rd x "concat xs"] rendered_put [of rd x limit "concat xs" rd']
    by (simp add: Let_def split: if_splits)
qed simp

lemma emit_more: "emit limit xs rd = More rd' \<Longrightarrow>
   rd_buffer rd' = rd_buffer rd @ concat xs \<and> rd_nbytes rd' = rd_nbytes rd + length (concat xs)"
proof (induction xs arbitrary: rd)
  case (Cons x xs)
  then have "emit limit xs (put rd x) = More rd'" by (simp add: Let_def split: if_splits)
  from Cons.IH [OF this] show ?case by (simp add: put_def)
qed simp

lemma render_rendered:
  "render sz off bs rd = (rd', off') \<Longrightarrow> skip_tags off bs = (rel, rest) \<Longrightarrow>
     off' = rel \<and> rendered rd (sz + rel) (concat (map tag_text rest)) rd'"
proof (induction sz off bs rd arbitrary: rel rest rule: render.induct)
  case (1 sz off rd)
  then show ?case by (simp add: rendered_def)
next
  case (2 sz off ls bs rd)
  show ?case
  proof (cases "off > TAG_SIZE")
    case True
    with 2 show ?thesis by simp
  next
    case False
    then have rel: "rel = off" "rest = ls # bs" "skip_tags off bs = (off, bs)"
      using 2(4) by (auto simp: skip_tags_small)
    show ?thesis
    proof (cases "emit (sz + off) ls rd")
      case Failed
      with emit_not_failed show ?thesis by blast
    next
      case (Full rd1)
      then have "rd' = rd1" "off' = off" using 2(3) False by simp_all
      with emit_full [OF Full] show ?thesis by (auto simp: rel rendered_def tag_text_def)
    next
      case (More rd1)
      then have "render sz off bs (put rd1 divider) = (rd', off')" using 2(3) False by simp
      then have off: "off' = off" and r: "rendered (put rd1 divider) (sz + off) (concat (map tag_text bs)) rd'"
        using 2(2) [where rel = off and rest = bs] False More rel(3) by blast+
      have "rendered rd (sz + off) (concat ls @ divider @ concat (map tag_text bs)) rd'"
        using rendered_put [OF r] emit_more [OF More] by (auto simp: rendered_def)
      then show ?thesis using off by (simp add: rel tag_text_def [of ls])
    qed
  qed
qed

lemma slice_of_prefix:
  assumes "t = p @ q" and "q = [] \<or> length p > sz + rel"
  shows "take sz (drop rel t) = take sz (drop rel p)"
  using assms by auto

text \<open>A read at any position, in terms of the tags that are left.\<close>

lemma dev_read_result:
  assumes inv: "sys_inv k R" and idle: "k_alloc k = []" "k_signal k = []" "k_copy k = []"
    and sz: "0 < sz" "0 \<le> off" and skip: "skip_tags (nat off) (map (tag_lines k) (in_use k)) = (rel, rest)"
  defines "bytes \<equiv> take sz (drop rel ((header @ divider) @ concat (map tag_text rest)))"
  shows "dev_read True sz off k = Some (int (length bytes), bytes, off + int (length bytes), k)"
proof -
  let ?rd = "\<lparr>rd_buffer = header @ divider, rd_nbytes = 0, rd_block = Suc 0\<rparr>"
  obtain rd' off' where r: "render sz (nat off) (map (tag_lines k) (in_use k)) ?rd = (rd', off')" by fastforce
  have off': "off' = rel" and "rendered ?rd (sz + rel) (concat (map tag_text rest)) rd'"
    using render_rendered [OF r skip] by simp_all
  then obtain p q where p: "concat (map tag_text rest) = p @ q" "rd_buffer rd' = (header @ divider) @ p"
      "q = [] \<or> length p > sz + rel" by (auto simp: rendered_def)
  have tags: "read_tags (nat MAX_TAGS) 0 sz (nat off) ?rd k = Some (Some rd', rel, k)"
    using read_tags_result [OF inv idle(1,2), of 0 256 sz "nat off" ?rd] r off'
    by (simp add: MAX_TAGS_def in_use_def)
  have bytes: "bytes = take sz (drop rel (rd_buffer rd'))"
    unfolding bytes_def p(1,2) by (rule slice_of_prefix [where q = q]) (use p(3) in auto)
  have copy: "copy_to_user src n k = (0, take n src, k)" for src n
  proof -
    have "k\<lparr>k_copy := []\<rparr> = k" using idle(3) by (cases k) simp
    then show ?thesis by (simp add: copy_to_user_def idle(3))
  qed
  have len: "length bytes = min sz (length (rd_buffer rd') - rel)" unfolding bytes by simp
  have cut: "take (min sz (length (rd_buffer rd') - rel)) (drop rel (rd_buffer rd')) = bytes"
    unfolding bytes by (simp add: min_def)
  show ?thesis
    using sz by (simp add: dev_read_def kzalloc_idle [OF idle(1)] tags copy Let_def cut len)
      (simp add: bytes)
qed

text \<open>Skipping by number is skipping the texts; what is left of the whole text after a skip.\<close>

lemma skip_lines:
  "skip_tags n xs = (rel, rest) \<Longrightarrow> skip_tags n (map f xs) = (rel, map f rest)" for xs :: "nat list"
  by (induction n xs rule: skip_tags.induct) (auto split: if_splits)

lemma drop_past: "length h \<le> m \<Longrightarrow> drop (m + length p) (h @ p @ q) = drop m (h @ q)"
  by simp

lemma slice_of_text:
  assumes s: "skip_tags n (in_use k) = (rel, rest)"
    and nominal: "n \<le> TAG_SIZE \<or>
      (\<forall>i\<in>set (in_use k). length (tag_text (tag_lines k i)) = TAG_SIZE) \<and> length (header @ divider) \<le> rel"
  shows "drop n (device_text k) = drop rel (concat (header # divider # device_lines k rest))"
  using nominal
proof
  assume "n \<le> TAG_SIZE"
  then show ?thesis using s by (simp add: skip_tags_small device_text_def)
next
  let ?b = "\<lambda>i. tag_text (tag_lines k i)"
  assume a: "(\<forall>i\<in>set (in_use k). length (?b i) = TAG_SIZE) \<and> length (header @ divider) \<le> rel"
  obtain pre where pre: "in_use k = pre @ rest" "n = rel + TAG_SIZE * length pre"
    using skip_tags_split [OF s] by blast
  have "\<forall>i\<in>set pre. length (?b i) = TAG_SIZE" using a pre(1) by simp
  then have "length (concat (map ?b pre)) = TAG_SIZE * length pre" by (induction pre) simp_all
  then have n: "n = rel + length (concat (map ?b pre))" using pre(2) by simp
  have whole: "concat (header # divider # xs) = (header @ divider) @ concat xs" for xs by simp
  show ?thesis
    unfolding device_text_def whole device_lines_text pre(1) map_append concat_append n
    by (rule drop_past) (use a in simp)
qed

section \<open>Reading in any environment\<close>

text \<open>
  Signals and failed allocations make the loops leave out lines or give up. What has been appended is
  a selection of the lines, in their order; the locks are as before, and nothing else changes.
\<close>

definition appended :: "reading \<Rightarrow> chars list \<Rightarrow> reading \<Rightarrow> bool" where
  "appended rd xs rd' \<longleftrightarrow> (\<exists>ys. subseq ys xs \<and> rd_buffer rd' = rd_buffer rd @ concat ys)"

lemma appended_skip: "appended rd xs rd' \<Longrightarrow> appended rd (x @ xs) rd'"
  unfolding appended_def by (metis subseq_append_iff subseq_order.trans suffixI suffix_imp_subseq)

lemma appended_line: "appended rd1 xs rd' \<Longrightarrow> rd_buffer rd1 = rd_buffer rd @ x \<Longrightarrow> appended rd (x # xs) rd'"
  unfolding appended_def by (metis append.assoc concat.simps(2) subseq_Cons2)

lemma appended_refl [simp]: "appended rd xs rd"
  unfolding appended_def by (intro exI [of _ "[]"]) simp

lemma appended_trans: "appended rd xs rd1 \<Longrightarrow> appended rd1 ys rd2 \<Longrightarrow> appended rd (xs @ ys) rd2"
  unfolding appended_def by (metis append.assoc concat_append list_emb_append_mono)

lemma env_eq_iff:
  "env_eq k k' \<longleftrightarrow> k_tag_table k' = k_tag_table k \<and> k_tag_bitmask k' = k_tag_bitmask k \<and> k_tags k' = k_tags k \<and>
     k_common_lock k' = k_common_lock k \<and> k_tag_lock k' = k_tag_lock k \<and>
     k_tag_heap k' = k_tag_heap k \<and> k_level_heap k' = k_level_heap k \<and> k_next k' = k_next k"
  by (cases k; cases k') (auto simp: env_eq_def)

lemma env_eq_trans: "env_eq a b \<Longrightarrow> env_eq b c \<Longrightarrow> env_eq a c"
  by (simp add: env_eq_iff)

text \<open>One turn of the loop over the levels: the line is left out, or appended, or there is no memory.\<close>

lemma read_levels_step:
  assumes env: "env_eq K s" and tg: "k_tag_heap K te = Some tg"
    and lvl: "tg_level_lock tg ! j = read_locked 0" "(tg_level_lock tg)[j := read_locked 0] = tg_level_lock tg"
    and lv: "tg_tag_level tg ! j = Some p" "k_level_heap K p = Some lv" "tl_rcu_lock lv = read_locked m"
    and j: "j < length (tg_level_lock tg)"
  obtains s' where "env_eq K s'"
      "read_levels (Suc n) j i te key euid limit rd s = read_levels n (Suc j) i te key euid limit rd s'"
  | s' where "env_eq K s'"
      "read_levels (Suc n) j i te key euid limit rd s = do { s \<leftarrow> tag_lock_op up_read i s'; Some (Failed, s) }"
  | rd' s' where "env_eq K s'" "rd_buffer rd' = rd_buffer rd @ level_line key euid j (tl_waiting lv)"
      "read_levels (Suc n) j i te key euid limit rd s =
        (if rd_nbytes rd' > limit then do { s \<leftarrow> tag_lock_op up_read i s'; Some (Full rd', s) }
         else read_levels n (Suc j) i te key euid limit rd' s')"
proof -
  have s: "k_tag_heap s te = Some tg" "k_level_heap s p = Some lv" using env tg lv(2) by (simp_all add: env_eqD)
  have same: "(k_tag_heap s)(te \<mapsto> tg) = k_tag_heap s" "(k_level_heap s)(p \<mapsto> lv) = k_level_heap s"
    "lv\<lparr>tl_rcu_lock := read_locked m\<rparr> = lv" "tg\<lparr>tg_level_lock := tg_level_lock tg\<rparr> = tg"
    using s lv(3) by (simp_all add: map_upd_same rcu_same)
  note facts = interruptible_eq level_lock_op_eq rcu_lock_op_eq s lvl lv(1,3) j same
  obtain ok1 g1 where o1: "next_outcome (k_signal s) = (ok1, g1)" by fastforce
  obtain ok2 g2 where o2: "next_outcome g1 = (ok2, g2)" by fastforce
  obtain ok3 a where o3: "next_outcome (k_alloc s) = (ok3, a)" by fastforce
  note o = o1 o2 o3
  consider "\<not> ok1" | "ok1" "\<not> ok2" | "ok1" "ok2" "\<not> ok3" | "ok1" "ok2" "ok3" by blast
  then show thesis
  proof cases
    case 1
    then show thesis
      by (intro that(1) [of "s\<lparr>k_signal := g1\<rparr>"]) (use env in \<open>simp_all add: facts o env_eq_iff\<close>)
  next
    case 2
    show thesis
      by (rule that(1) [rotated], simp add: facts 2 o) (use env in \<open>simp add: env_eq_iff\<close>)
  next
    case 3
    show thesis
      by (rule that(1) [rotated], simp add: facts 3 o kzalloc_def) (use env in \<open>simp add: env_eq_iff\<close>)
  next
    case 4
    let ?x = "level_line key euid j (tl_waiting lv)"
    let ?big = "rd_nbytes rd + length ?x > CHAR_BLOCK * rd_block rd"
    obtain ok4 b where o4: "next_outcome a = (ok4, b)" by fastforce
    consider "?big" "\<not> ok4" | "?big" "ok4" | "\<not> ?big" by blast
    then show thesis
    proof cases
      case 1
      show thesis
        by (rule that(2) [rotated], simp add: facts 4 o o4 1 kzalloc_def append_buffer_def)
          (use env in \<open>simp add: env_eq_iff\<close>)
    next
      case 2
      let ?rd = "\<lparr>rd_buffer = rd_buffer rd @ ?x, rd_nbytes = rd_nbytes rd + length ?x, rd_block = rd_block rd + 1\<rparr>"
      show thesis
        by (rule that(3) [of "s\<lparr>k_signal := g2, k_alloc := b\<rparr>" ?rd], use env in \<open>simp add: env_eq_iff\<close>)
          (simp_all add: facts 4 o o4 2 kzalloc_def append_buffer_def)
    next
      case 3
      let ?rd = "\<lparr>rd_buffer = rd_buffer rd @ ?x, rd_nbytes = rd_nbytes rd + length ?x, rd_block = rd_block rd\<rparr>"
      show thesis
        by (rule that(3) [of "s\<lparr>k_signal := g2, k_alloc := a\<rparr>" ?rd], use env in \<open>simp add: env_eq_iff\<close>)
          (simp_all add: facts 4 o o4 3 kzalloc_def append_buffer_def)
    qed
  qed
qed

text \<open>The loop over the levels of a tag, from a state \<open>K\<close> in which its lock is held to read.\<close>

lemma read_levels_any:
  assumes tg: "k_tag_heap K te = Some tg" and len: "length (tg_level_lock tg) = LEVELS"
    and lvl: "\<And>l. l < LEVELS \<Longrightarrow> tg_level_lock tg ! l = read_locked 0 \<and>
      (tg_level_lock tg)[l := read_locked 0] = tg_level_lock tg \<and>
      (\<exists>p lv m. tg_tag_level tg ! l = Some p \<and> k_level_heap K p = Some lv \<and> tl_rcu_lock lv = read_locked m \<and>
        tl_waiting lv = w l)"
    and up: "\<And>s. env_eq K s \<Longrightarrow> \<exists>s'. tag_lock_op up_read i s = Some s' \<and> env_eq k s'"
  shows "env_eq K s \<Longrightarrow> j + n \<le> LEVELS \<Longrightarrow>
    \<exists>p s'. read_levels n j i te key euid limit rd s = Some (p, s') \<and>
      (case p of Failed \<Rightarrow> env_eq k s'
       | Full rd' \<Rightarrow> env_eq k s' \<and> appended rd (map (\<lambda>l. level_line key euid l (w l)) [j..<j + n]) rd'
       | More rd' \<Rightarrow> env_eq K s' \<and> appended rd (map (\<lambda>l. level_line key euid l (w l)) [j..<j + n]) rd')"
proof (induction n arbitrary: j rd s)
  case (Suc n)
  then have j: "j < LEVELS" "Suc j + n \<le> LEVELS" by simp_all
  obtain p lv m where lv: "tg_tag_level tg ! j = Some p" "k_level_heap K p = Some lv" "tl_rcu_lock lv = read_locked m"
      "tl_waiting lv = w j" using lvl [OF j(1)] by blast
  have lock: "tg_level_lock tg ! j = read_locked 0" "(tg_level_lock tg)[j := read_locked 0] = tg_level_lock tg"
    using lvl [OF j(1)] by simp_all
  let ?line = "\<lambda>l. level_line key euid l (w l)"
  have lines: "map ?line [j..<j + Suc n] = ?line j # map ?line [Suc j..<Suc j + n]"
    using upt_conv_Cons [of j "j + Suc n"] by simp
  show ?case
  proof (rule read_levels_step [OF Suc.prems(1) tg lock lv(1-3), of n i key euid limit rd])
    show "j < length (tg_level_lock tg)" using j(1) len by simp
  next
    fix s'
    assume s': "env_eq K s'" "read_levels (Suc n) j i te key euid limit rd s = read_levels n (Suc j) i te key euid limit rd s'"
    show ?thesis
      using Suc.IH [OF s'(1) j(2), of rd] appended_skip [of rd _ _ "[?line j]"]
      unfolding s'(2) lines by (fastforce split: progress.splits)
  next
    fix s'
    assume s': "env_eq K s'"
      "read_levels (Suc n) j i te key euid limit rd s = do { s \<leftarrow> tag_lock_op up_read i s'; Some (Failed, s) }"
    show ?thesis using up [OF s'(1)] unfolding s'(2) by auto
  next
    fix rd' s'
    assume s': "env_eq K s'" "rd_buffer rd' = rd_buffer rd @ level_line key euid j (tl_waiting lv)"
      "read_levels (Suc n) j i te key euid limit rd s =
        (if rd_nbytes rd' > limit then do { s \<leftarrow> tag_lock_op up_read i s'; Some (Full rd', s) }
         else read_levels n (Suc j) i te key euid limit rd' s')"
    have app: "appended rd' xs rd2 \<Longrightarrow> appended rd (?line j # xs) rd2" for xs rd2
      by (rule appended_line) (use s'(2) lv(4) in simp_all)
    show ?thesis
    proof (cases "rd_nbytes rd' > limit")
      case True
      then show ?thesis using up [OF s'(1)] app [OF appended_refl] unfolding s'(3) lines by auto
    next
      case False
      then show ?thesis
        using Suc.IH [OF s'(1) j(2), of rd'] app
        unfolding s'(3) lines by (fastforce split: progress.splits)
    qed
  qed
qed simp

lemma append_buffer_any:
  obtains r al where "append_buffer rd x s = (r, s\<lparr>k_alloc := al\<rparr>)"
    "\<And>rd'. r = Some rd' \<Longrightarrow> rd_buffer rd' = rd_buffer rd @ x"
proof (cases "rd_nbytes rd + length x > CHAR_BLOCK * rd_block rd")
  case True
  obtain ok al where "next_outcome (k_alloc s) = (ok, al)" by fastforce
  with True show thesis
    by (intro that [of "if ok then Some \<lparr>rd_buffer = rd_buffer rd @ x, rd_nbytes = rd_nbytes rd + length x,
      rd_block = rd_block rd + 1\<rparr> else None" al]) (auto simp: append_buffer_def kzalloc_def split: if_splits)
next
  case False
  then show thesis
    by (intro that [of "Some \<lparr>rd_buffer = rd_buffer rd @ x, rd_nbytes = rd_nbytes rd + length x,
      rd_block = rd_block rd\<rparr>" "k_alloc s"]) (auto simp: append_buffer_def)
qed

text \<open>The state with the lock of tag \<open>i\<close> held to read once more.\<close>

definition reading_tag :: "kernel \<Rightarrow> receivers \<Rightarrow> nat \<Rightarrow> kernel" where
  "reading_tag k R i = k\<lparr>k_tag_lock := (k_tag_lock k)[i := read_locked (Suc (card (tag_waiters R i)))]\<rparr>"

lemma lock_tag:
  assumes inv: "sys_inv k R" and i: "i < 256" and env: "env_eq k s"
  obtains g where "interruptible (tag_lock_op down_read i) s = Some (False, s\<lparr>k_signal := g\<rparr>)"
  | s' where "interruptible (tag_lock_op down_read i) s = Some (True, s')" "env_eq (reading_tag k R i) s'"
proof -
  obtain ok g where o: "next_outcome (k_signal s) = (ok, g)" by fastforce
  let ?s = "s\<lparr>k_signal := g\<rparr>"
  have "sys_inv ?s R" using inv env env_eq_sys_inv [of k ?s R] by (simp add: env_eq_iff)
  from tag_lock_pair(1) [OF this i] have "tag_lock_op down_read i ?s =
    Some (?s\<lparr>k_tag_lock := (k_tag_lock s)[i := read_locked (Suc (card (tag_waiters R i)))]\<rparr>)" by simp
  then show thesis using that o env
    by (cases ok) (simp_all add: interruptible_eq reading_tag_def env_eq_iff)
qed

lemma unlock_tag:
  assumes inv: "sys_inv k R" and i: "i < 256" and env: "env_eq (reading_tag k R i) s"
  shows "\<exists>s'. tag_lock_op up_read i s = Some s' \<and> env_eq k s'"
proof -
  have "k_tag_lock s ! i = read_locked (Suc (card (tag_waiters R i)))"
    "(k_tag_lock s)[i := read_locked (card (tag_waiters R i))] = k_tag_lock k"
    using sys_inv_locks [OF inv i] env by (auto simp: env_eq_iff reading_tag_def)
  then show ?thesis using env
    by (simp add: tag_lock_op_eq env_eq_iff reading_tag_def)
qed

text \<open>The lines of one tag, read with its lock held.\<close>

lemma read_tag_any:
  assumes inv: "sys_inv k R" and i: "i < 256" and te: "k_tags k ! i = Some te"
    and env: "env_eq (reading_tag k R i) s1"
  obtains tg p s3 where "k_tag_heap k te = Some tg" "entry_at k i = Some tg"
    "read_levels LEVELS 0 i te (tg_key tg) (to_c_int (tg_euid tg)) limit rd s1 = Some (p, s3)"
    "case p of Failed \<Rightarrow> env_eq k s3 | Full rd' \<Rightarrow> env_eq k s3 \<and> appended rd (tag_lines k i) rd'
     | More rd' \<Rightarrow> env_eq (reading_tag k R i) s3 \<and> appended rd (tag_lines k i) rd'"
proof -
  obtain tg where tg: "k_tag_heap k te = Some tg" "tg_ok R i tg" "entry_at k i = Some tg"
    "\<And>l. l < LEVELS \<Longrightarrow> \<exists>p lv. tg_tag_level tg ! l = Some p \<and> k_level_heap k p = Some lv \<and>
       lv_ok R p lv \<and> lp_at k i l = Some p \<and> level_at k i l = Some lv"
    using tags_okE [OF sys_invD(2) [OF inv] i te] by blast
  have lvl: "tg_level_lock tg ! l = read_locked 0 \<and> (tg_level_lock tg)[l := read_locked 0] = tg_level_lock tg \<and>
      (\<exists>p lv m. tg_tag_level tg ! l = Some p \<and> k_level_heap (reading_tag k R i) p = Some lv \<and>
        tl_rcu_lock lv = read_locked m \<and> tl_waiting lv = tl_waiting (the (level_at k i l)))" if "l < LEVELS" for l
    using tg(4) [OF that] tg_okD [OF tg(2) that] lv_okD(1) by (fastforce simp: reading_tag_def)
  have len: "length (tg_level_lock tg) = LEVELS" using tg(2) by (simp add: tg_ok_def)
  have heap: "k_tag_heap (reading_tag k R i) te = Some tg" using tg(1) by (simp add: reading_tag_def)
  have names: "tag_lines k i = map (\<lambda>l. level_line (tg_key tg) (to_c_int (tg_euid tg)) l
      (tl_waiting (the (level_at k i l)))) [0..<0 + LEVELS]" using tg(3) by (simp add: tag_lines_def)
  obtain p s3 where p: "read_levels LEVELS 0 i te (tg_key tg) (to_c_int (tg_euid tg)) limit rd s1 = Some (p, s3)"
    "case p of Failed \<Rightarrow> env_eq k s3 | Full rd' \<Rightarrow> env_eq k s3 \<and> appended rd (tag_lines k i) rd'
     | More rd' \<Rightarrow> env_eq (reading_tag k R i) s3 \<and> appended rd (tag_lines k i) rd'"
    using read_levels_any [OF heap len lvl unlock_tag [OF inv i] env, of 0 LEVELS] unfolding names by fastforce
  show thesis by (rule that [OF tg(1,3) p])
qed

lemma read_tags_any:
  assumes inv: "sys_inv k R"
  shows "env_eq k s \<Longrightarrow> i + n \<le> 256 \<Longrightarrow> \<exists>r off' s'. read_tags n i sz off rd s = Some (r, off', s') \<and> env_eq k s' \<and>
    (\<forall>rd'. r = Some rd' \<longrightarrow> appended rd (device_lines k (filter (\<lambda>i. entry_at k i \<noteq> None) [i..<i + n])) rd')"
proof (induction n arbitrary: i off rd s)
  case (Suc n)
  then have i: "i < 256" "Suc i + n \<le> 256" by simp_all
  note unlock = unlock_tag [OF inv i(1)]
  define xs where "xs = device_lines k (filter (\<lambda>i. entry_at k i \<noteq> None) [Suc i..<Suc i + n])"
  have lines: "device_lines k (filter (\<lambda>i. entry_at k i \<noteq> None) [i..<i + Suc n]) =
      (if entry_at k i \<noteq> None then tag_lines k i @ [divider] else []) @ xs"
    using upt_conv_Cons [of i "i + Suc n"] by (simp add: device_lines_def xs_def)
  note IH = Suc.IH [OF _ i(2), folded xs_def]
  have skip: "\<exists>r off' s''. read_tags n (Suc i) sz off1 rd s' = Some (r, off', s'') \<and> env_eq k s'' \<and>
      (\<forall>rd'. r = Some rd' \<longrightarrow> appended rd (ys @ xs) rd')" if "env_eq k s'" for off1 ys s'
    using IH [OF that, of off1 rd] appended_skip by blast
  show ?case
  proof (cases rule: lock_tag [OF inv i(1) Suc.prems(1)])
    case (1 g)
    then show ?thesis using skip [of "s\<lparr>k_signal := g\<rparr>" off] Suc.prems(1)
      unfolding lines by (simp add: env_eq_iff)
  next
    case (2 s1)
    have s1: "k_tags s1 = k_tags k" "k_tag_heap s1 = k_tag_heap k" using 2(2) by (simp_all add: env_eq_iff reading_tag_def)
    obtain s2 where s2: "tag_lock_op up_read i s1 = Some s2" "env_eq k s2" using unlock [OF 2(2)] by blast
    show ?thesis
    proof (cases "k_tags k ! i")
      case None
      then show ?thesis using 2(1) s1(1) s2 skip [OF s2(2), of off] unfolding lines by simp
    next
      case (Some te)
      show ?thesis
      proof (cases "off > TAG_SIZE")
        case True
        then show ?thesis using 2(1) Some s1(1) s2 skip [OF s2(2), of "off - TAG_SIZE"] unfolding lines by simp
      next
        case False
        obtain tg p s3 where tg: "k_tag_heap k te = Some tg" "entry_at k i = Some tg"
          and p: "read_levels LEVELS 0 i te (tg_key tg) (to_c_int (tg_euid tg)) (sz + off) rd s1 = Some (p, s3)"
          "case p of Failed \<Rightarrow> env_eq k s3 | Full rd' \<Rightarrow> env_eq k s3 \<and> appended rd (tag_lines k i) rd'
           | More rd' \<Rightarrow> env_eq (reading_tag k R i) s3 \<and> appended rd (tag_lines k i) rd'"
          by (rule read_tag_any [OF inv i(1) Some 2(2)])
        have start: "read_tags (Suc n) i sz off rd s = (case p of Failed \<Rightarrow> Some (None, off, s3)
            | Full rd \<Rightarrow> Some (Some rd, off, s3)
            | More rd \<Rightarrow> do {
                let (r, s) = append_buffer rd divider s3;
                s \<leftarrow> tag_lock_op up_read i s;
                case r of None \<Rightarrow> Some (None, off, s) | Some rd \<Rightarrow> read_tags n (Suc i) sz off rd s })"
          using 2(1) Some s1 tg(1) False p(1) by simp
        show ?thesis
        proof (cases p)
          case Failed
          then show ?thesis using p(2) start by simp
        next
          case (Full rd')
          then have "appended rd (tag_lines k i @ [divider] @ xs) rd'"
            using p(2) appended_trans [OF _ appended_refl] by fastforce
          then show ?thesis using p(2) start Full tg(2) unfolding lines by simp
        next
          case (More rd1)
          obtain r al where b: "append_buffer rd1 divider s3 = (r, s3\<lparr>k_alloc := al\<rparr>)"
            "\<And>rd2. r = Some rd2 \<Longrightarrow> rd_buffer rd2 = rd_buffer rd1 @ divider" by (rule append_buffer_any [of rd1 divider s3]) blast
          have "env_eq (reading_tag k R i) (s3\<lparr>k_alloc := al\<rparr>)" using p(2) More by (simp add: env_eq_iff)
          then obtain s4 where s4: "tag_lock_op up_read i (s3\<lparr>k_alloc := al\<rparr>) = Some s4" "env_eq k s4"
            using unlock by blast
          show ?thesis
          proof (cases r)
            case None
            then show ?thesis using start More b(1) s4 by simp
          next
            case (Some rd2)
            obtain q off' s' where q: "read_tags n (Suc i) sz off rd2 s4 = Some (q, off', s')" "env_eq k s'"
              "\<forall>rd'. q = Some rd' \<longrightarrow> appended rd2 xs rd'" using IH [OF s4(2), of off rd2] by blast
            have "appended rd (tag_lines k i @ divider # xs) rd'" if "q = Some rd'" for rd'
              using appended_trans [OF _ appended_line [OF q(3) [rule_format, OF that] b(2) [OF Some]]] p(2) More by simp
            then show ?thesis using start More b(1) s4(1) Some q(1,2) tg(2) unfolding lines by simp
          qed
        qed
      qed
    qed
  qed
qed (simp add: device_lines_def)

definition selection :: "chars \<Rightarrow> chars list \<Rightarrow> bool" where
  "selection bytes xs \<longleftrightarrow> (\<exists>ys m n. subseq ys xs \<and> bytes = take n (drop m (concat (header # divider # ys))))"

lemma selection_Nil [simp]: "selection [] xs"
  unfolding selection_def by (intro exI [of _ "[]"] exI [of _ 0]) simp

lemma dev_read_any:
  assumes inv: "sys_inv k R" and sz: "0 < sz" "0 \<le> off"
  shows "\<exists>r bytes off' k'. dev_read True sz off k = Some (r, bytes, off', k') \<and> env_eq k k' \<and>
    (r = - 1 \<and> off' = off \<or> r = int (length bytes) \<and> off' = off + r) \<and> length bytes \<le> sz \<and>
    selection bytes (device_lines k (in_use k))"
proof -
  let ?rd = "\<lparr>rd_buffer = header @ divider, rd_nbytes = 0, rd_block = 1\<rparr>"
  obtain ok1 a1 where o1: "next_outcome (k_alloc k) = (ok1, a1)" by fastforce
  obtain ok2 a2 where o2: "next_outcome a1 = (ok2, a2)" by fastforce
  obtain ok3 a3 where o3: "next_outcome a2 = (ok3, a3)" by fastforce
  show ?thesis
  proof (cases "ok1 \<and> ok2 \<and> ok3")
    case False
    then show ?thesis using o1 o2 o3 sz by (auto simp: dev_read_def kzalloc_def)
  next
    case True
    let ?s = "k\<lparr>k_alloc := a3\<rparr>"
    have "env_eq k ?s" by simp
    then obtain q off1 s1 where q: "read_tags 256 0 sz (nat off) ?rd ?s = Some (q, off1, s1)" "env_eq k s1"
      "\<And>rd'. q = Some rd' \<Longrightarrow> appended ?rd (device_lines k (in_use k)) rd'"
      using read_tags_any [OF inv, of ?s 0 256 sz "nat off" ?rd] unfolding in_use_def by fastforce
    have call: "dev_read True sz off k = (case q of None \<Rightarrow> Some (- 1, [], off, s1) | Some rd \<Rightarrow>
        let tot_size = length (rd_buffer rd)
        in if tot_size \<le> off1 then Some (0, [], off, s1)
           else let sz = min sz (tot_size - off1); (fail, bytes, s) = copy_to_user (drop off1 (rd_buffer rd)) sz s1
             in if fail \<noteq> 0 then Some (- 1, bytes, off, s) else Some (int sz, bytes, off + int sz, s))"
      using True o1 o2 o3 sz q(1) by (simp add: dev_read_def kzalloc_def MAX_TAGS_def)
    show ?thesis
    proof (cases q)
      case None
      then show ?thesis using call q(2) by simp
    next
      case (Some rd)
      obtain ys where ys: "subseq ys (device_lines k (in_use k))" "rd_buffer rd = concat (header # divider # ys)"
        using q(3) [OF Some] by (auto simp: appended_def)
      have sel: "selection (take n (drop off1 (rd_buffer rd))) (device_lines k (in_use k))" for n
        unfolding selection_def ys(2) using ys(1) by blast
      obtain fail cs where c: "next_copy (k_copy s1) = (fail, cs)" by fastforce
      have "env_eq k (s1\<lparr>k_copy := cs\<rparr>)" using q(2) by (simp add: env_eq_iff)
      then show ?thesis
        using call Some q(2) c sel by (auto simp: copy_to_user_def Let_def)
    qed
  qed
qed

text \<open>
  C21. What a read of the device returns, in every reachable state, for all arguments, in every
  environment; it changes nothing (no lock is left held). Asked for no bytes it returns 0; without a
  buffer or at a negative position, -1. When nothing fails and no signal comes, the text it takes the
  bytes from is the header, a divider, and the 32 lines and the divider of each tag in use that is not
  skipped, where one tag is skipped for every full \<open>TAG_SIZE\<close> bytes of the position; it
  delivers that text from the rest of the position on, at most as many bytes as asked for, and moves the
  position by their number. This is the slice of the whole text at the position as long as no tag
  is skipped, and beyond if the lines have their nominal length and the position is not in the first
  108 bytes after a skipped tag, where the header is delivered again. When an allocation or the copy fails
  or a signal comes, it returns -1 and leaves the position, or it delivers bytes of a text in which
  lines may be missing, none is made up, and the order is the same.
\<close>

theorem device_read_slice:
  assumes "reachable k R"
  shows "\<exists>r bytes off' k'. dev_read buf sz off k = Some (r, bytes, off', k') \<and> env_eq k k' \<and>
    (if sz = 0 then r = 0 \<and> bytes = [] \<and> off' = off
     else if \<not> buf \<or> off < 0 then r = - 1 \<and> bytes = [] \<and> off' = off
     else if k_alloc k = [] \<and> k_signal k = [] \<and> k_copy k = []
     then let (rel, tags) = skip_tags (nat off) (in_use k)
       in bytes = take sz (drop rel (concat (header # divider # device_lines k tags))) \<and>
          r = int (length bytes) \<and> off' = off + r \<and>
          (nat off \<le> TAG_SIZE \<or>
           (\<forall>i\<in>set (in_use k). length (tag_text (tag_lines k i)) = TAG_SIZE) \<and> length (header @ divider) \<le> rel
           \<longrightarrow> bytes = take sz (drop (nat off) (device_text k)))
     else (r = - 1 \<and> off' = off \<or> r = int (length bytes) \<and> off' = off + r) \<and> length bytes \<le> sz \<and>
       selection bytes (device_lines k (in_use k)))"
proof -
  have inv: "sys_inv k R" by (rule reachable_inv [OF assms])
  consider "sz = 0" | "0 < sz" "\<not> buf \<or> off < 0"
    | "0 < sz" "buf" "0 \<le> off" "k_alloc k = [] \<and> k_signal k = [] \<and> k_copy k = []"
    | "0 < sz" "buf" "0 \<le> off" "\<not> (k_alloc k = [] \<and> k_signal k = [] \<and> k_copy k = [])" by linarith
  then show ?thesis
  proof cases
    case 3
    obtain rel rest where s: "skip_tags (nat off) (in_use k) = (rel, rest)" by fastforce
    define bytes where "bytes = take sz (drop rel (concat (header # divider # device_lines k rest)))"
    have read: "dev_read True sz off k = Some (int (length bytes), bytes, off + int (length bytes), k)"
      using dev_read_result [OF inv _ _ _ 3(1,3) skip_lines [OF s]] 3(4)
      by (simp add: bytes_def device_lines_text comp_def)
    have "drop (nat off) (device_text k) = drop rel (concat (header # divider # device_lines k rest))"
      if "nat off \<le> TAG_SIZE \<or>
        (\<forall>i\<in>set (in_use k). length (tag_text (tag_lines k i)) = TAG_SIZE) \<and> length (header @ divider) \<le> rel"
      by (rule slice_of_text [OF s that])
    with 3 s read show ?thesis by (auto simp: bytes_def)
  next
    case 4
    then have c: "(sz = 0) = False" "buf = True" "(\<not> True \<or> off < 0) = False"
      "(k_alloc k = [] \<and> k_signal k = [] \<and> k_copy k = []) = False" by auto
    show ?thesis unfolding c if_False by (rule dev_read_any [OF inv 4(1,3)])
  qed (simp_all add: dev_read_def)
qed

theorem device_read_slice_witness:
  "\<exists>k bytes k'. reachable k Map.empty \<and> dev_read True 108 0 k = Some (108, bytes, 108, k') \<and>
     bytes = header @ divider \<and> entry_at k 0 \<noteq> None"
proof -
  obtain k te a where k: "reachable k Map.empty" "k_tags k = (replicate 256 None)[0 := Some te]"
    "k_tag_heap k te = Some (new_tag 5 0 TAG_PERM_ALL 0 a)" "k_alloc k = []" "k_signal k = []" "k_copy k = []"
    by (rule ex_tag [of TAG_PERM_ALL 0 "[]" "[]" "[]"]) simp_all
  have e: "entry_at k 0 \<noteq> None" using k by (simp add: entry_at_def)
  have len: "length (header @ divider) = 108" by (simp add: header_def divider_def line_def pad10_def LINE_SIZE_def)
  have whole: "device_text k = (header @ divider) @ concat (device_lines k (in_use k))" by (simp add: device_text_def)
  have bytes: "take 108 (drop (nat 0) (device_text k)) = header @ divider" unfolding whole using len by simp
  have "\<exists>r bytes off' k'. dev_read True 108 0 k = Some (r, bytes, off', k') \<and> env_eq k k' \<and>
      r = int (length bytes) \<and> off' = 0 + r \<and> bytes = take 108 (drop (nat 0) (device_text k))"
    using device_read_slice [OF k(1), of True 108 0] k(4-6) by (fastforce simp: Let_def)
  then obtain k' where "dev_read True 108 0 k = Some (108, header @ divider, 108, k')"
    unfolding bytes using len by auto
  with k(1) e show ?thesis by blast
qed

end
