(* ===== verification/Tag_Print.thy ===== *)
theory Tag_Print
  imports Tag_Examples
begin

text \<open>
  The debug output of the system calls (\<open>print_tag\<close> in \<open>tag-module/tag-syscall.c\<close>), compiled in with
  \<open>AUDIT\<close>, as \<open>start.sh\<close> does. What is printed is left out; the reads and the locks are not.
\<close>

section \<open>The debug output\<close>

text \<open>The first loop, over the tags, from \<open>i\<close> with \<open>n\<close> to go.\<close>

fun print_tags :: "nat \<Rightarrow> nat \<Rightarrow> kernel \<Rightarrow> kernel option" where
  "print_tags 0 i s = Some s"
| "print_tags (Suc n) i s = do {
     (ok, s) \<leftarrow> interruptible (tag_lock_op down_read i) s;
     if \<not> ok then print_tags n (Suc i) s
     else do {
       _ \<leftarrow> (case k_tags s ! i of None \<Rightarrow> Some () | Some tag_ptr \<Rightarrow> map_option (\<lambda>_. ()) (k_tag_heap s tag_ptr));
       s \<leftarrow> tag_lock_op up_read i s;
       print_tags n (Suc i) s
     }
   }"

text \<open>The second loop, over the entries of the hash map, under \<open>common_lock\<close>.\<close>

fun print_entries :: "nat \<Rightarrow> nat \<Rightarrow> kernel \<Rightarrow> kernel option" where
  "print_entries 0 i s = Some s"
| "print_entries (Suc n) i s = do {
     (ok, s) \<leftarrow> interruptible (tag_lock_op down_read i) s;
     if \<not> ok then do {
       s \<leftarrow> common_lock_op up_read s;
       print_entries n (Suc i) s
     } else do {
       _ \<leftarrow> (case k_tags s ! i of
               None \<Rightarrow> Some ()
             | Some tag_ptr \<Rightarrow> do {
                 tag \<leftarrow> k_tag_heap s tag_ptr;
                 _ \<leftarrow> hashmap_get (k_tag_table s) (Tag_Entry (word_of_int (tg_key tag)) 0);
                 Some ()
               });
       s \<leftarrow> tag_lock_op up_read i s;
       print_entries n (Suc i) s
     }
   }"

definition print_tag :: "kernel \<Rightarrow> kernel option" where
  "print_tag s = do {
     s \<leftarrow> print_tags (nat MAX_TAGS) 0 s;
     (ok, s) \<leftarrow> interruptible (common_lock_op down_read) s;
     if \<not> ok then Some s
     else do {
       s \<leftarrow> print_entries (nat MAX_TAGS) 0 s;
       common_lock_op up_read s
     }
   }"

text \<open>
  The calls that print, as they are with \<open>AUDIT\<close>: a tag created or opened (the result is its
  descriptor), a tag deleted.
\<close>

definition tag_get_audit :: "int \<Rightarrow> int \<Rightarrow> int \<Rightarrow> int \<Rightarrow> kernel \<Rightarrow> (int \<times> kernel) option" where
  "tag_get_audit key command permission euid s = do {
     (r, s) \<leftarrow> tag_get key command permission euid s;
     if r < 0 then Some (r, s)
     else do { s \<leftarrow> print_tag s; Some (r, s) }
   }"

definition tag_ctl_audit :: "int \<Rightarrow> int \<Rightarrow> int \<Rightarrow> kernel \<Rightarrow> (int \<times> kernel) option" where
  "tag_ctl_audit tag command euid s = do {
     (r, s) \<leftarrow> tag_ctl tag command euid s;
     if command = TAG_DELETE \<and> r = 1 then do { s \<leftarrow> print_tag s; Some (r, s) }
     else Some (r, s)
   }"

section \<open>Its effect\<close>

lemma interruptible_next:
  "interruptible acq s = (if fst (next_outcome (k_signal s))
     then map_option (Pair True) (acq (s\<lparr>k_signal := drop 1 (k_signal s)\<rparr>))
     else Some (False, s\<lparr>k_signal := drop 1 (k_signal s)\<rparr>))"
  unfolding interruptible_def by (subst next_outcome_drop) (simp add: Let_def)

text \<open>Reading a tag under its lock, whatever the signals and the readers of \<open>common_lock\<close>.\<close>

abbreviation printing :: "kernel \<Rightarrow> rwsem \<Rightarrow> outcomes \<Rightarrow> kernel" where
  "printing k l sg \<equiv> k\<lparr>k_common_lock := l, k_signal := sg\<rparr>"

lemma print_lock:
  assumes "sys_inv k R" and "i < 256"
  shows "\<exists>k'. tag_lock_op down_read i (printing k l sg) = Some k' \<and> tag_lock_op up_read i k' = Some (printing k l sg) \<and>
    k_tags k' = k_tags k \<and> k_tag_heap k' = k_tag_heap k \<and> k_tag_table k' = k_tag_table k"
  using sys_inv_locks [OF assms] by (simp add: tag_lock_op_eq)

lemma print_read:
  assumes inv: "sys_inv k R" and i: "i < 256" and te: "k_tags k ! i = Some te"
  shows "\<exists>tg. k_tag_heap k te = Some tg" "\<exists>r. hashmap_get (k_tag_table k) x = Some r"
proof -
  show "\<exists>tg. k_tag_heap k te = Some tg" by (rule tags_okE [OF sys_invD(2) [OF inv] i te]) blast
  have "hm_fixed te_key (k_tag_table k)"
    using sys_invD(6) [OF inv] by (simp add: registry_inv_iff reg_okD(3))
  then show "\<exists>r. hashmap_get (k_tag_table k) x = Some r"
    using hashmap_get_correct [of te_key "k_tag_table k" x] by (simp add: hm_fixed_def)
qed

lemma print_tags_result:
  assumes inv: "sys_inv k R"
  shows "i + n \<le> 256 \<Longrightarrow> print_tags n i (printing k l sg) = Some (printing k l (drop n sg))"
proof (induction n arbitrary: i sg)
  case (Suc n)
  then have i: "i < 256" by simp
  let ?s = "printing k l (drop 1 sg)"
  have IH: "print_tags n (Suc i) ?s = Some (printing k l (drop n (drop 1 sg)))"
    by (rule Suc.IH) (use Suc.prems in simp)
  obtain k' where k': "tag_lock_op down_read i ?s = Some k'" "tag_lock_op up_read i k' = Some ?s"
      "k_tags k' = k_tags k" "k_tag_heap k' = k_tag_heap k" using print_lock [OF inv i, where l = l and sg = "drop 1 sg"] by blast
  show ?case
    using IH k' print_read(1) [OF inv i]
    by (cases "k_tags k ! i") (auto simp: interruptible_next)
qed simp

lemma print_entries_result:
  assumes inv: "sys_inv k R"
  shows "i + n \<le> 256 \<Longrightarrow> print_entries n i (printing k (read_locked m) sg) =
    (if refusals n sg \<le> m then Some (printing k (read_locked (m - refusals n sg)) (drop n sg)) else None)"
proof (induction n arbitrary: i sg m)
  case (Suc n)
  then have i: "i < 256" by simp
  let ?s = "\<lambda>m. printing k (read_locked m) (drop 1 sg)"
  have IH: "print_entries n (Suc i) (?s m) = (if refusals n (drop 1 sg) \<le> m
      then Some (printing k (read_locked (m - refusals n (drop 1 sg))) (drop n (drop 1 sg))) else None)" for m
    by (rule Suc.IH) (use Suc.prems in simp)
  show ?case
  proof (cases "fst (next_outcome sg)")
    case True
    obtain k' where k': "tag_lock_op down_read i (?s m) = Some k'" "tag_lock_op up_read i k' = Some (?s m)"
        "k_tags k' = k_tags k" "k_tag_heap k' = k_tag_heap k" "k_tag_table k' = k_tag_table k"
      using print_lock [OF inv i, where l = "read_locked m" and sg = "drop 1 sg"] by blast
    have "print_entries (Suc n) i (printing k (read_locked m) sg) = print_entries n (Suc i) (?s m)"
    proof (cases "k_tags k ! i")
      case None
      with k' True show ?thesis by (simp add: interruptible_next)
    next
      case (Some te)
      then obtain tg r where "k_tag_heap k te = Some tg"
          "hashmap_get (k_tag_table k) (Tag_Entry (word_of_int (tg_key tg)) 0) = Some r"
        using print_read [OF inv i Some] by blast
      with k' True Some show ?thesis by (simp add: interruptible_next)
    qed
    with IH True show ?thesis by (simp add: refusals_Suc)
  next
    case False
    have "common_lock_op up_read (?s m) = (case m of 0 \<Rightarrow> None | Suc m \<Rightarrow> Some (?s m))"
      by (simp add: common_lock_op_def up_read_def read_locked_def split: nat.split)
    with IH False show ?thesis
      by (cases m) (simp_all add: interruptible_next refusals_Suc)
  qed
qed simp

text \<open>
  C20. The debug output changes nothing, unless the caller is interrupted while it waits for a lock
  of the second loop: then \<open>common_lock\<close> is released once too often, which the last release
  finds out.
\<close>

theorem debug_output_result:
  assumes "reachable k R"
  shows "print_tag k =
    (let common = drop 256 (k_signal k); entries = drop 1 common
     in if \<not> fst (next_outcome common) then Some (k\<lparr>k_signal := entries\<rparr>)
        else if refusals 256 entries = 0 then Some (k\<lparr>k_signal := drop 256 entries\<rparr>)
        else None)"
proof -
  have inv: "sys_inv k R" by (rule reachable_inv [OF assms])
  then have free: "k_common_lock k = read_locked 0"
    using sys_invD(5) by (simp add: locks_ok_def init_rwsem_read_locked)
  then have k: "k\<lparr>k_signal := sg\<rparr> = printing k (read_locked 0) sg" for sg by (cases k) simp
  then have "k = printing k (read_locked 0) (k_signal k)" by (metis kernel.surjective kernel.update_convs(10))
  then have tags: "print_tags 256 0 k = Some (printing k (read_locked 0) (drop 256 (k_signal k)))"
    using print_tags_result [OF inv, where i = 0 and n = 256 and l = "read_locked 0" and sg = "k_signal k"] by simp
  have lock: "common_lock_op down_read (printing k (read_locked 0) sg) = Some (printing k (read_locked 1) sg)"
    "common_lock_op up_read (printing k (read_locked m) sg) =
      (case m of 0 \<Rightarrow> None | Suc m \<Rightarrow> Some (printing k (read_locked m) sg))" for sg m
    by (simp_all add: common_lock_op_def down_read_def up_read_def read_locked_def split: nat.split)
  show ?thesis
    using print_entries_result [OF inv, where i = 0 and n = 256 and m = 1 and sg = "drop 1 (drop 256 (k_signal k))"]
    by (simp add: print_tag_def MAX_TAGS_def tags interruptible_next lock Let_def k del: drop_drop)
qed

theorem debug_output_result_witness:
  "\<exists>k. reachable k Map.empty \<and> print_tag k = Some k \<and>
     print_tag (k\<lparr>k_signal := replicate 257 True @ [False]\<rparr>) = None"
proof -
  obtain k where k: "reachable k Map.empty" "k_signal k = []" by (rule ex_start)
  have k': "reachable (k\<lparr>k_signal := sg\<rparr>) Map.empty" for sg
    by (rule reachable.step [OF k(1)]) (rule environment, simp)
  have same: "k\<lparr>k_signal := []\<rparr> = k" using k(2) by (cases k) simp
  have "print_tag k = Some k" using debug_output_result [OF k(1)] k(2) same by simp
  moreover have "drop 256 (replicate 257 True @ [False]) = [True, False]" by (simp add: numeral_eq_Suc)
  then have "print_tag (k\<lparr>k_signal := replicate 257 True @ [False]\<rparr>) = None"
    using debug_output_result [OF k'] by (simp add: refusals_def)
  ultimately show ?thesis using k(1) by blast
qed

end
