(* ===== verification/Self_Test.thy ===== *)
theory Self_Test
  imports Bitmask Hashmap_Ops Sip_Hash C_Text
begin

text \<open>
  The self test of the discovery module (\<open>syscall-table-disc/scth_module.c\<close>, compiled with
  \<open>TEST_SYSCALL\<close>), a program over the bitmask and the hash map. Each test is a list of steps; a step
  returns early with -1 when what it checks does not hold (\<open>Inl\<close>), and \<open>None\<close> is a fault of
  the kernel. What the test prints, and the time it measures, is left out.
\<close>

section \<open>Steps\<close>

fun run_steps :: "('a \<Rightarrow> 's \<Rightarrow> ('e + 's) option) \<Rightarrow> 'a list \<Rightarrow> 's \<Rightarrow> ('e + 's) option" where
  "run_steps step [] s = Some (Inr s)"
| "run_steps step (a # as) s =
     (case step a s of
        None \<Rightarrow> None
      | Some (Inl e) \<Rightarrow> Some (Inl e)
      | Some (Inr s) \<Rightarrow> run_steps step as s)"

lemma run_steps_append:
  "run_steps step (as @ bs) s =
     (case run_steps step as s of
        None \<Rightarrow> None
      | Some (Inl e) \<Rightarrow> Some (Inl e)
      | Some (Inr s) \<Rightarrow> run_steps step bs s)"
  by (induction as arbitrary: s) (simp_all split: option.split sum.split)

lemma run_steps_stop:
  "run_steps step as s = Some (Inr s1) \<Longrightarrow> step a s1 = Some (Inl e) \<Longrightarrow>
     run_steps step (as @ a # bs) s = Some (Inl e)"
  by (simp add: run_steps_append)

section \<open>The test of the bitmask\<close>

text \<open>
  \<open>Refused n\<close> and \<open>New n\<close>: \<open>initialize_bitmask\<close> of \<open>n\<close> bits, whose result has to be a null pointer or
  not; \<open>Sized k n\<close>: the numbers of slots and bits; \<open>Number v\<close>: \<open>get_avail_number\<close> has to return \<open>v\<close>;
  \<open>Numbers n\<close>: the loop that takes \<open>n\<close> numbers; \<open>Clear v r\<close>: \<open>clear_number\<close> of \<open>v\<close> has to return \<open>r\<close>;
  \<open>Release\<close>: \<open>free_bitmask\<close>.
\<close>

datatype mask_step =
    Refused int
  | New int
  | Sized int int
  | Number int
  | Numbers nat
  | Clear int int
  | Release

record mask_test =
  mt_mask :: "bitmask option"
  mt_alloc :: outcomes

text \<open>The loop from \<open>i\<close> with \<open>n\<close> iterations to go; \<open>None\<close> when a number is not the index.\<close>

fun numbers_loop :: "nat \<Rightarrow> int \<Rightarrow> bitmask \<Rightarrow> bitmask option" where
  "numbers_loop 0 i msk = Some msk"
| "numbers_loop (Suc n) i msk =
     (let (number, msk) = get_avail_number msk
      in if number \<noteq> i then None else numbers_loop n (i + 1) msk)"

definition with_mask :: "(bitmask \<Rightarrow> (int + bitmask option) option) \<Rightarrow> mask_test \<Rightarrow> (int \<times> outcomes + mask_test) option" where
  "with_mask f s = (case mt_mask s of
     None \<Rightarrow> None
   | Some msk \<Rightarrow> map_option (map_sum (\<lambda>e. (e, mt_alloc s)) (\<lambda>m. s\<lparr>mt_mask := m\<rparr>)) (f msk))"

fun mask_check :: "mask_step \<Rightarrow> mask_test \<Rightarrow> (int \<times> outcomes + mask_test) option" where
  "mask_check (Refused n) s =
     (let (msk, al) = initialize_bitmask n (mt_alloc s)
      in if msk = None then Some (Inr (s\<lparr>mt_mask := None, mt_alloc := al\<rparr>)) else Some (Inl (- 1, al)))"
| "mask_check (New n) s =
     (let (msk, al) = initialize_bitmask n (mt_alloc s)
      in if msk = None then Some (Inl (- 1, al)) else Some (Inr (s\<lparr>mt_mask := msk, mt_alloc := al\<rparr>)))"
| "mask_check (Sized slots n_bits) s = with_mask (\<lambda>msk.
     if bm_slots msk = slots \<and> bm_n_bits msk = n_bits then Some (Inr (Some msk)) else Some (Inl (- 1))) s"
| "mask_check (Number v) s = with_mask (\<lambda>msk.
     let (number, msk) = get_avail_number msk
     in if number \<noteq> v then Some (Inl (- 1)) else Some (Inr (Some msk))) s"
| "mask_check (Numbers n) s = with_mask (\<lambda>msk.
     case numbers_loop n 0 msk of None \<Rightarrow> Some (Inl (- 1)) | Some msk \<Rightarrow> Some (Inr (Some msk))) s"
| "mask_check (Clear v r) s = with_mask (\<lambda>msk.
     case clear_number msk v of
       None \<Rightarrow> None
     | Some (x, msk) \<Rightarrow> if x \<noteq> r then Some (Inl (- 1)) else Some (Inr (Some msk))) s"
| "mask_check Release s = with_mask (\<lambda>msk. Some (Inr None)) s"

text \<open>The parts of \<open>test_bitmask\<close>, in order.\<close>

definition mask_sizes :: "mask_step list" where
  "mask_sizes = [Refused 0, Refused (- 1),
     New 1, Sized 1 1, Release,
     New 63, Sized 1 63, Release,
     New 64, Sized 1 64, Release,
     New 65, Sized 2 65, Release]"

definition mask_order :: "mask_step list" where
  "mask_order = [New 65,
     Number 0, Number 1, Number 2,
     Clear 1 1, Number 1, Number 3, Number 4,
     Clear 2 1, Clear 3 1, Number 2, Number 3,
     Clear 4 1, Number 4, Number 5,
     Clear 4 1, Number 4, Number 6]"

definition mask_unused :: "mask_step list" where
  "mask_unused = [Clear 12 0, Clear 63 0, Clear 64 0, Clear 65 (- 1), Clear 66 (- 1), Release]"

definition mask_full :: "mask_step list" where
  "mask_full = [New 65, Sized 2 65, Numbers 65, Number (- 1), Clear 54 1, Number 54, Release]"

definition mask_slots :: "mask_step list" where
  "mask_slots = [New 134, Sized 3 134, Numbers 134, Number (- 1),
     Clear 54 1, Number 54, Clear 63 1, Number 63, Clear 64 1, Number 64, Clear 65 1, Number 65,
     Clear 67 1, Number 67, Clear 127 1, Number 127]"

definition mask_last_slot :: "mask_step list" where
  "mask_last_slot = [Clear 128 1, Number 128, Clear 130 1, Number 130, Clear 133 1, Number 133,
     Clear 134 (- 1), Clear 135 (- 1), Clear 344 (- 1), Release]"

text \<open>The result: the value returned and what is left of the outcomes of the allocator.\<close>

definition test_bitmask :: "outcomes \<Rightarrow> (int \<times> outcomes) option" where
  "test_bitmask al =
     (case run_steps mask_check
         (mask_sizes @ mask_order @ mask_unused @ mask_full @ mask_slots @ mask_last_slot)
         \<lparr>mt_mask = None, mt_alloc = al\<rparr> of
        None \<Rightarrow> None
      | Some (Inl r) \<Rightarrow> Some r
      | Some (Inr s) \<Rightarrow> Some (0, mt_alloc s))"

section \<open>What the steps promise\<close>

text \<open>
  The specification of the bitmask steps: of a capacity the numbers below a mark are in use, but for
  some holes. A number given is the least hole, or the mark; a number released becomes a hole.
\<close>

fun spec_step :: "mask_step \<Rightarrow> nat \<times> nat \<times> nat list \<Rightarrow> (nat \<times> nat \<times> nat list) option" where
  "spec_step (Sized slots n_bits) (cap, n, holes) =
     (if n_bits = int cap \<and> slots = (n_bits + 63) div 64 then Some (cap, n, holes) else None)"
| "spec_step (Number v) (cap, n, holes) =
     (if holes \<noteq> [] then if v = int (Min (set holes)) then Some (cap, n, remove1 (nat v) holes) else None
      else if n < cap then if v = int n then Some (cap, Suc n, []) else None
      else if v = - 1 then Some (cap, n, []) else None)"
| "spec_step (Numbers k) (cap, n, holes) =
     (if holes = [] \<and> n = 0 \<and> k \<le> cap then Some (cap, k, []) else None)"
| "spec_step (Clear v r) (cap, n, holes) =
     (if v < 0 then None
      else if v \<ge> int cap then if r = - 1 then Some (cap, n, holes) else None
      else if v < int n \<and> nat v \<notin> set holes then if r = 1 then Some (cap, n, nat v # holes) else None
      else if r = 0 then Some (cap, n, holes) else None)"
| "spec_step _ (cap, n, holes) = None"

fun spec_steps :: "mask_step list \<Rightarrow> nat \<times> nat \<times> nat list \<Rightarrow> bool" where
  "spec_steps [] q = True"
| "spec_steps (a # as) q = (case spec_step a q of None \<Rightarrow> False | Some q \<Rightarrow> spec_steps as q)"

definition holds :: "bitmask \<Rightarrow> nat \<times> nat \<times> nat list \<Rightarrow> bool" where
  "holds msk q = (case q of (cap, n, holes) \<Rightarrow>
     bm_wf msk \<and> bm_n_bits msk = int cap \<and> n \<le> cap \<and> distinct holes \<and> set holes \<subseteq> {..<n} \<and>
     bm_used msk = {..<n} - set holes)"

lemma holds_cap: "holds msk (cap, n, holes) \<Longrightarrow> bm_cap msk = cap"
  by (simp add: holds_def bm_cap_def)

text \<open>The set in use has no gap below the least hole.\<close>

lemma holds_least:
  assumes "holds msk (cap, n, holes)" and "holes \<noteq> [] \<or> n < cap"
  shows "(LEAST k. k \<notin> bm_used msk) = (if holes = [] then n else Min (set holes))"
proof (rule Least_equality)
  show "(if holes = [] then n else Min (set holes)) \<notin> bm_used msk"
    using assms(1) Min_in [of "set holes"] by (auto simp: holds_def)
next
  fix k
  assume k: "k \<notin> bm_used msk"
  show "(if holes = [] then n else Min (set holes)) \<le> k"
  proof (cases "k < n")
    case True
    with k assms(1) have "k \<in> set holes" by (auto simp: holds_def)
    then show ?thesis by (auto simp: Min_le_iff)
  next
    case False
    then show ?thesis using assms(1) Min_in [of "set holes"] by (fastforce simp: holds_def)
  qed
qed

lemma holds_number:
  assumes "holds msk (cap, n, holes)" and "spec_step (Number v) (cap, n, holes) = Some q"
  shows "\<exists>msk'. get_avail_number msk = (v, msk') \<and> holds msk' q"
proof -
  have wf: "bm_wf msk" and bits: "bm_n_bits msk = int cap" and used: "bm_used msk = {..<n} - set holes"
    and n: "n \<le> cap" "distinct holes" "set holes \<subseteq> {..<n}" using assms(1) by (simp_all add: holds_def)
  show ?thesis
  proof (cases "holes = [] \<and> n = cap")
    case True
    with used holds_cap [OF assms(1)] have "bm_used msk = {..<bm_cap msk}" by simp
    from bm.take_full [OF wf this] assms True show ?thesis by (auto split: if_splits)
  next
    case False
    have "n < cap \<or> hd holes \<in> set holes" using False n(1) by auto
    then have "\<exists>k. k < cap \<and> k \<notin> {..<n} - set holes"
    proof
      assume "n < cap"
      then show ?thesis by (intro exI [of _ n]) simp
    next
      assume "hd holes \<in> set holes"
      then show ?thesis using n(1,3) by (intro exI [of _ "hd holes"]) auto
    qed
    then have free: "bm_used msk \<noteq> {..<bm_cap msk}" using used holds_cap [OF assms(1)] by blast
    obtain k msk' where k: "get_avail_number msk = (int k, msk')" "bm_wf msk'"
        "bm_used msk' = insert k (bm_used msk)" "bm_cap msk' = bm_cap msk"
        "k = (LEAST k. k \<notin> bm_used msk)"
      using bm.take_free [OF wf free] bm.take_least [OF wf free] by fastforce
    have least: "k = (if holes = [] then n else Min (set holes))"
      using k(5) holds_least [OF assms(1)] False n(1) by auto
    have bits': "bm_n_bits msk' = int cap"
      using k(2,4) holds_cap [OF assms(1)] bm_wf_slots(6) [OF k(2)] by simp
    show ?thesis
    proof (cases "holes = []")
      case True
      then show ?thesis using assms(2) least k bits' used False n(1)
        by (auto simp: holds_def lessThan_Suc split: if_splits)
    next
      case holes: False
      then have "k \<in> set holes" using least Min_in [of "set holes"] by simp
      moreover have "q = (cap, n, remove1 k holes)" "v = int k"
        using assms(2) holes least by (auto split: if_splits)
      ultimately show ?thesis using k bits' used n
        by (auto simp: holds_def)
    qed
  qed
qed

lemma holds_clear:
  assumes "holds msk (cap, n, holes)" and "spec_step (Clear v r) (cap, n, holes) = Some q"
  shows "\<exists>msk'. clear_number msk v = Some (r, msk') \<and> holds msk' q"
proof -
  have wf: "bm_wf msk" and bits: "bm_n_bits msk = int cap" and used: "bm_used msk = {..<n} - set holes"
    and n: "n \<le> cap" "distinct holes" "set holes \<subseteq> {..<n}" using assms(1) by (simp_all add: holds_def)
  have v: "0 \<le> v" using assms(2) by (auto split: if_splits)
  show ?thesis
  proof (cases "v \<ge> int cap")
    case True
    with assms clear_number_too_big [of msk v] bits v show ?thesis by (auto split: if_splits)
  next
    case False
    show ?thesis
    proof (cases "nat v \<in> bm_used msk")
      case True
      obtain msk' where m: "clear_number msk (int (nat v)) = Some (1, msk')" "bm_wf msk'"
          "bm_used msk' = bm_used msk - {nat v}" "bm_cap msk' = bm_cap msk"
        using bm.give_used [OF wf True] by blast
      have "bm_n_bits msk' = int cap"
        using m(2,4) holds_cap [OF assms(1)] bm_wf_slots(6) [OF m(2)] by simp
      moreover have "q = (cap, n, nat v # holes)" "r = 1"
        using assms(2) False v True used by (auto split: if_splits)
      ultimately show ?thesis using m v n used True by (auto simp: holds_def)
    next
      case free: False
      then have "q = (cap, n, holes)" "r = 0" using assms(2) False v used by (auto split: if_splits)
      with clear_number_free [OF wf _ free] holds_cap [OF assms(1)] False v assms(1) show ?thesis by auto
    qed
  qed
qed

lemma holds_numbers:
  "holds msk (cap, i, []) \<Longrightarrow> i + k \<le> cap \<Longrightarrow>
     \<exists>msk'. numbers_loop k (int i) msk = Some msk' \<and> holds msk' (cap, i + k, [])"
proof (induction k arbitrary: i msk)
  case (Suc k)
  then obtain msk1 where m: "get_avail_number msk = (int i, msk1)" "holds msk1 (cap, Suc i, [])"
    using holds_number [OF Suc.prems(1), of "int i" "(cap, Suc i, [])"] by auto
  from Suc.IH [OF m(2)] Suc.prems(2) m(1) show ?case by (simp add: add.commute)
qed simp

lemma mask_check_spec:
  assumes "mt_mask s = Some msk" and "holds msk q" and "spec_step a q = Some q'"
  shows "\<exists>msk'. mask_check a s = Some (Inr (s\<lparr>mt_mask := Some msk'\<rparr>)) \<and> holds msk' q'"
proof -
  obtain cap n holes where q: "q = (cap, n, holes)" by (cases q)
  note h = assms(2,3) [unfolded q]
  show ?thesis
  proof (cases a)
    case (Sized slots n_bits)
    then show ?thesis using h assms(1) bm_wf_slots(2) [of msk]
      by (intro exI [of _ msk]) (auto simp: with_mask_def holds_def bm_wf_def split: if_splits)
  next
    case (Number v)
    with holds_number [OF h(1), of v q'] h assms(1) show ?thesis by (auto simp: with_mask_def)
  next
    case (Numbers k)
    with h holds_numbers [of msk cap 0 k] assms(1) show ?thesis
      by (auto simp: with_mask_def split: if_splits)
  next
    case (Clear v r)
    with holds_clear [OF h(1), of v r q'] h assms(1) show ?thesis by (auto simp: with_mask_def)
  qed (use h in simp_all)
qed

lemma run_spec:
  "mt_mask s = Some msk \<Longrightarrow> holds msk q \<Longrightarrow> spec_steps as q \<Longrightarrow>
     \<exists>msk'. run_steps mask_check as s = Some (Inr (s\<lparr>mt_mask := Some msk'\<rparr>))"
proof (induction as arbitrary: s msk q)
  case Nil
  then show ?case by (intro exI [of _ msk]) (cases s, simp)
next
  case (Cons a as)
  then obtain q' where q': "spec_step a q = Some q'" "spec_steps as q'" by (auto split: option.splits)
  obtain msk' where m: "mask_check a s = Some (Inr (s\<lparr>mt_mask := Some msk'\<rparr>))" "holds msk' q'"
    using mask_check_spec [OF Cons.prems(1,2) q'(1)] by blast
  from Cons.IH [of "s\<lparr>mt_mask := Some msk'\<rparr>", OF _ m(2) q'(2)] m(1) show ?case by simp
qed

lemma initialize_bitmask_granted:
  assumes "1 \<le> n" "n \<le> INT_MAX"
  shows "if granted 2 al
    then \<exists>msk. initialize_bitmask n al = (Some msk, drop 2 al) \<and> holds msk (nat n, 0, [])
    else \<exists>al'. initialize_bitmask n al = (None, al')"
proof -
  have al: "next_outcome xs = (fst (next_outcome xs), drop 1 xs)" for xs
    by (cases xs) simp_all
  have two: "granted 2 al \<longleftrightarrow> fst (next_outcome al) \<and> fst (next_outcome (drop 1 al))"
    using granted_Suc [of 1 al] granted_Suc [of 0 "drop 1 al"] by (simp add: numeral_2_eq_2)
  show ?thesis
  proof (cases "granted 2 al")
    case True
    then obtain msk where m: "initialize_bitmask n al = (Some msk, drop 2 al)"
      using assms al [of al] al [of "drop 1 al"] two
      by (auto simp: initialize_bitmask_def Let_def numeral_2_eq_2 split: prod.splits)
    with initialize_bitmask_wf [OF m assms(2)] True assms(1) show ?thesis by (simp add: holds_def)
  next
    case False
    then show ?thesis
      using al [of al] al [of "drop 1 al"] two by (auto simp: initialize_bitmask_def Let_def split: prod.splits)
  qed
qed

definition session :: "int \<times> mask_step list \<Rightarrow> mask_step list" where
  "session q = New (fst q) # snd q @ [Release]"

lemma run_session:
  assumes "1 \<le> n" "n \<le> INT_MAX" and "spec_steps as (nat n, 0, [])"
  shows "if granted 2 (mt_alloc s)
    then run_steps mask_check (session (n, as)) s = Some (Inr \<lparr>mt_mask = None, mt_alloc = drop 2 (mt_alloc s)\<rparr>)
    else \<exists>al'. run_steps mask_check (session (n, as)) s = Some (Inl (- 1, al'))"
proof (cases "granted 2 (mt_alloc s)")
  case True
  with initialize_bitmask_granted [OF assms(1,2), of "mt_alloc s"] obtain msk where
    m: "initialize_bitmask n (mt_alloc s) = (Some msk, drop 2 (mt_alloc s))" "holds msk (nat n, 0, [])" by auto
  let ?s = "\<lparr>mt_mask = Some msk, mt_alloc = drop 2 (mt_alloc s)\<rparr>"
  have new: "mask_check (New n) s = Some (Inr ?s)" using m(1) by (cases s) simp
  obtain msk' where "run_steps mask_check as ?s = Some (Inr (?s\<lparr>mt_mask := Some msk'\<rparr>))"
    using run_spec [OF _ m(2) assms(3), of ?s] by auto
  with True new show ?thesis by (simp add: session_def run_steps_append with_mask_def del: mask_check.simps(2))
next
  case False
  with initialize_bitmask_granted [OF assms(1,2), of "mt_alloc s"] show ?thesis by (auto simp: session_def)
qed

lemma run_sessions:
  "list_all (\<lambda>(n, as). 1 \<le> n \<and> n \<le> INT_MAX \<and> spec_steps as (nat n, 0, [])) qs \<Longrightarrow> mt_mask s = None \<Longrightarrow>
   if granted (2 * length qs) (mt_alloc s)
   then run_steps mask_check (concat (map session qs)) s =
     Some (Inr \<lparr>mt_mask = None, mt_alloc = drop (2 * length qs) (mt_alloc s)\<rparr>)
   else \<exists>al'. run_steps mask_check (concat (map session qs)) s = Some (Inl (- 1, al'))"
proof (induction qs arbitrary: s)
  case (Cons q qs)
  obtain n as where q: "q = (n, as)" by (cases q)
  let ?s = "\<lparr>mt_mask = None, mt_alloc = drop 2 (mt_alloc s)\<rparr>"
  have first: "if granted 2 (mt_alloc s) then run_steps mask_check (session q) s = Some (Inr ?s)
      else \<exists>al'. run_steps mask_check (session q) s = Some (Inl (- 1, al'))"
    using run_session [of n as s] Cons.prems(1) q by simp
  have split: "granted (2 * length (q # qs)) (mt_alloc s) \<longleftrightarrow>
      granted 2 (mt_alloc s) \<and> granted (2 * length qs) (mt_alloc ?s)"
    using granted_add [of 2 "2 * length qs" "mt_alloc s"] by simp
  show ?case
  proof (cases "granted 2 (mt_alloc s)")
    case True
    with first Cons.IH [of ?s] Cons.prems(1) split show ?thesis
      by (auto simp: run_steps_append add.commute split: if_splits)
  next
    case False
    with first split show ?thesis by (auto simp: run_steps_append)
  qed
qed (use mask_test.surjective in auto)

lemma test_bitmask_result:
  "if granted 14 al then test_bitmask al = Some (0, drop 14 al)
   else \<exists>al'. test_bitmask al = Some (- 1, al')"
proof -
  let ?qs = "[(1, [Sized 1 1]), (63, [Sized 1 63]), (64, [Sized 1 64]), (65, [Sized 2 65]),
    (65, tl mask_order @ butlast mask_unused), (65, butlast (tl mask_full)),
    (134, tl mask_slots @ butlast mask_last_slot)]"
  have all: "mask_sizes @ mask_order @ mask_unused @ mask_full @ mask_slots @ mask_last_slot =
      [Refused 0, Refused (- 1)] @ concat (map session ?qs)"
    by (simp add: mask_sizes_def mask_order_def mask_unused_def mask_full_def mask_slots_def
        mask_last_slot_def session_def)
  have small: "(134::int) \<le> INT_MAX" by (simp add: INT_MAX_def)
  have spec: "list_all (\<lambda>(n, as). 1 \<le> n \<and> n \<le> INT_MAX \<and> spec_steps as (nat n, 0, [])) ?qs"
    using small by (simp add: mask_order_def mask_unused_def mask_full_def mask_slots_def mask_last_slot_def)
  have refused: "run_steps mask_check [Refused 0, Refused (- 1)] \<lparr>mt_mask = None, mt_alloc = al\<rparr> =
      Some (Inr \<lparr>mt_mask = None, mt_alloc = al\<rparr>)"
    by (simp add: initialize_bitmask_def)
  show ?thesis
    using run_sessions [OF spec, of "\<lparr>mt_mask = None, mt_alloc = al\<rparr>"]
    unfolding test_bitmask_def all run_steps_append refused
    by (auto split: if_splits)
qed
end
