(* ===== verification/Self_Test_Hash.thy ===== *)
theory Self_Test_Hash
  imports Self_Test
begin

text \<open>
  The second half of the self test: \<open>test_hashmap\<close>, a program over the hash map with the items,
  the hash and the comparison it defines for itself, and \<open>test_syscall\<close>, which runs both halves.
\<close>

section \<open>The items\<close>

text \<open>
  A buffer is a null pointer, a string literal or an allocated object, with its address. The text of
  an allocated buffer is written once, right after its allocation, and is kept with the pointer.
\<close>

datatype text_buffer = Null | Literal chars | Allocated nat chars

fun buffer_text :: "text_buffer \<Rightarrow> chars option" where
  "buffer_text Null = None"
| "buffer_text (Literal t) = Some t"
| "buffer_text (Allocated a t) = Some t"

datatype test_data = Data (d_key: u32) (d_buffer: text_buffer)

instantiation test_data :: zero
begin
definition zero_test_data :: test_data where "zero_test_data = Data 0 Null"
instance ..
end

definition compare_hash :: "test_data \<Rightarrow> test_data \<Rightarrow> int" where
  "compare_hash a b = sint (d_key a - d_key b)"

definition custom_hash :: "test_data \<Rightarrow> u64 \<Rightarrow> u64 \<Rightarrow> u64" where
  "custom_hash entry seed0 seed1 = hashmap_sip (U32TO8_LE (d_key entry)) seed0 seed1"

definition TEST_SEED0 :: u64 where "TEST_SEED0 = 401861"
definition TEST_SEED1 :: u64 where "TEST_SEED1 = 879023"
definition TEST_HASHMAP_CAP :: u64 where "TEST_HASHMAP_CAP = 2560"
definition tries :: int where "tries = 1556"

text \<open>A pointer to a key is passed where the functions expect an item: only the key is read.\<close>

definition key_item :: "int \<Rightarrow> test_data" where
  "key_item k = Data (word_of_int k) Null"

text \<open>\<open>chiave\<close> and the number, \<open>nuovachiave\<close>.\<close>

definition chiave :: "int \<Rightarrow> chars" where
  "chiave i = [99, 104, 105, 97, 118, 101] @ decimal i"

definition nuovachiave :: chars where
  "nuovachiave = [110, 117, 111, 118, 97, 99, 104, 105, 97, 118, 101]"

section \<open>Steps\<close>

text \<open>The map, the objects allocated by the test, the depth of \<open>preempt_disable\<close>.\<close>

record hash_test =
  ht_map :: "test_data hashmap option"
  ht_objects :: "nat set"
  ht_next :: nat
  ht_alloc :: outcomes
  ht_preempt :: int

definition alloc_object :: "hash_test \<Rightarrow> nat option \<times> hash_test" where
  "alloc_object s =
     (let (ok, al) = next_outcome (ht_alloc s)
      in if ok then (Some (ht_next s), s\<lparr>ht_objects := insert (ht_next s) (ht_objects s),
                                         ht_next := ht_next s + 1, ht_alloc := al\<rparr>)
         else (None, s\<lparr>ht_alloc := al\<rparr>))"

fun dealloc_buffer :: "text_buffer \<Rightarrow> hash_test \<Rightarrow> hash_test option" where
  "dealloc_buffer Null s = Some s"
| "dealloc_buffer (Literal t) s = None"
| "dealloc_buffer (Allocated a t) s =
     (if a \<in> ht_objects s then Some (s\<lparr>ht_objects := ht_objects s - {a}\<rparr>) else None)"

text \<open>
  \<open>New_Map\<close> creates the map; \<open>Alloc_Data\<close> copies a new object (a null pointer is a fault);
  \<open>Set_Item\<close> is a \<open>hashmap_set\<close> whose result is ignored; the others check what a call returns:
  \<open>Count\<close>, \<open>Present\<close> and \<open>Absent\<close> and \<open>Finds\<close> (\<open>hashmap_get\<close>), \<open>Replaces\<close> (\<open>hashmap_set\<close>),
  \<open>Not_Deleted\<close> and \<open>Deletes\<close> (\<open>hashmap_delete\<close>). \<open>Fill\<close> and \<open>Empty\<close> are one iteration of the
  two loops.
\<close>

datatype hash_step =
    New_Map
  | Alloc_Data
  | Set_Item int chars
  | Count nat
  | Present int
  | Absent int
  | Finds int chars
  | Replaces int chars chars
  | Not_Deleted int
  | Deletes int chars
  | Preempt_Disable
  | Fill int
  | Preempt_Enable
  | Empty int
  | Free_Map

type_synonym hash_result = "(int \<times> hash_test + hash_test) option"

text \<open>The item at the pointer \<open>r\<close> has to have the key and the text; a null pointer is an error.\<close>

definition check_item :: "test_data option \<Rightarrow> int \<Rightarrow> chars \<Rightarrow> hash_test \<Rightarrow> hash_result" where
  "check_item r k t s = (case r of
     None \<Rightarrow> Some (Inl (- 1, s))
   | Some d \<Rightarrow>
       if d_key d \<noteq> word_of_int k then Some (Inl (- 1, s))
       else case buffer_text (d_buffer d) of
         None \<Rightarrow> None
       | Some u \<Rightarrow> if u \<noteq> t then Some (Inl (- 1, s)) else Some (Inr s))"

definition with_map ::
  "hash_test \<Rightarrow> (test_data hashmap \<Rightarrow> (test_data option \<times> test_data hashmap \<times> outcomes) option) \<Rightarrow>
   (test_data option \<Rightarrow> hash_test \<Rightarrow> hash_result) \<Rightarrow> hash_result" where
  "with_map s f g = (case ht_map s of
     None \<Rightarrow> None
   | Some m \<Rightarrow>
       (case f m of
          None \<Rightarrow> None
        | Some (r, m, al) \<Rightarrow> g r (s\<lparr>ht_map := Some m, ht_alloc := al\<rparr>)))"

definition set_item :: "int \<Rightarrow> text_buffer \<Rightarrow> hash_test \<Rightarrow> (test_data option \<Rightarrow> hash_test \<Rightarrow> hash_result) \<Rightarrow> hash_result" where
  "set_item k b s g = with_map s (\<lambda>m. hashmap_set m (Data (word_of_int k) b) (ht_alloc s)) g"

definition get_item :: "int \<Rightarrow> hash_test \<Rightarrow> (test_data option \<Rightarrow> hash_test \<Rightarrow> hash_result) \<Rightarrow> hash_result" where
  "get_item k s g = with_map s (\<lambda>m. map_option (\<lambda>r. (r, m, ht_alloc s)) (hashmap_get m (key_item k))) g"

definition delete_item :: "int \<Rightarrow> hash_test \<Rightarrow> (test_data option \<Rightarrow> hash_test \<Rightarrow> hash_result) \<Rightarrow> hash_result" where
  "delete_item k s g = with_map s (\<lambda>m. hashmap_delete m (key_item k) (ht_alloc s)) g"

fun hash_check :: "hash_step \<Rightarrow> hash_test \<Rightarrow> hash_result" where
  "hash_check New_Map s =
     (case hashmap_new_with_allocator 16 TEST_HASHMAP_CAP TEST_SEED0 TEST_SEED1 custom_hash compare_hash (ht_alloc s) of
        None \<Rightarrow> None
      | Some (None, al) \<Rightarrow> Some (Inl (- 1, s\<lparr>ht_alloc := al\<rparr>))
      | Some (Some m, al) \<Rightarrow> Some (Inr (s\<lparr>ht_map := Some m, ht_alloc := al\<rparr>)))"
| "hash_check Alloc_Data s =
     (case alloc_object s of (None, s) \<Rightarrow> None | (Some a, s) \<Rightarrow> Some (Inr s))"
| "hash_check (Set_Item k t) s = set_item k (Literal t) s (\<lambda>r s. Some (Inr s))"
| "hash_check (Count n) s = (case ht_map s of
     None \<Rightarrow> None
   | Some m \<Rightarrow> if hashmap_count m \<noteq> of_nat n then Some (Inl (- 1, s)) else Some (Inr s))"
| "hash_check (Present k) s = get_item k s (\<lambda>r s. if r = None then Some (Inl (- 1, s)) else Some (Inr s))"
| "hash_check (Absent k) s = get_item k s (\<lambda>r s. if r \<noteq> None then Some (Inl (- 1, s)) else Some (Inr s))"
| "hash_check (Finds k t) s = get_item k s (\<lambda>r s. check_item r k t s)"
| "hash_check (Replaces k new old) s = set_item k (Literal new) s (\<lambda>r s. check_item r k old s)"
| "hash_check (Not_Deleted k) s = delete_item k s (\<lambda>r s. if r \<noteq> None then Some (Inl (- 1, s)) else Some (Inr s))"
| "hash_check (Deletes k t) s = delete_item k s (\<lambda>r s. check_item r k t s)"
| "hash_check Preempt_Disable s = Some (Inr (s\<lparr>ht_preempt := ht_preempt s + 1\<rparr>))"
| "hash_check (Fill i) s =
     (case alloc_object s of
        (None, s) \<Rightarrow> Some (Inl (- 1, s))
      | (Some number, s) \<Rightarrow>
          set_item i (Allocated number (chiave i)) s (\<lambda>r s. get_item i s (\<lambda>r s. check_item r i (chiave i) s)))"
| "hash_check Preempt_Enable s = Some (Inr (s\<lparr>ht_preempt := ht_preempt s - 1\<rparr>))"
| "hash_check (Empty i) s = delete_item i s (\<lambda>r s. case r of
     None \<Rightarrow> Some (Inl (- 1, s))
   | Some d \<Rightarrow> map_option Inr (dealloc_buffer (d_buffer d) s))"
| "hash_check Free_Map s = (case ht_map s of None \<Rightarrow> None | Some m \<Rightarrow> Some (Inr (s\<lparr>ht_map := None\<rparr>)))"

text \<open>The parts of \<open>test_hashmap\<close>, in order.\<close>

definition hash_basic :: "hash_step list" where
  "hash_basic = [New_Map, Alloc_Data, Set_Item 1 (chiave 1), Set_Item 2 (chiave 2), Set_Item 3 (chiave 3),
     Count 3, Present 1, Present 2, Present 3, Absent 4]"

definition hash_replace :: "hash_step list" where
  "hash_replace = [Replaces 1 nuovachiave (chiave 1), Finds 1 nuovachiave, Not_Deleted 4,
     Deletes 2 (chiave 2), Set_Item 2 (chiave 2)]"

definition hash_fill :: "hash_step list" where
  "hash_fill = [Preempt_Disable] @ map Fill [1..tries - 1] @ [Preempt_Enable]"

definition hash_empty :: "hash_step list" where
  "hash_empty = map Empty [1..tries - 1] @ [Free_Map]"

definition test_hashmap :: "hash_test \<Rightarrow> (int \<times> hash_test) option" where
  "test_hashmap s =
     (case run_steps hash_check (hash_basic @ hash_replace @ hash_fill @ hash_empty) s of
        None \<Rightarrow> None
      | Some (Inl r) \<Rightarrow> Some r
      | Some (Inr s) \<Rightarrow> Some (0, s))"

text \<open>The results of the two tests, which are printed, and the state at the end.\<close>

definition test_syscall :: "outcomes \<Rightarrow> (int \<times> int \<times> hash_test) option" where
  "test_syscall al =
     (case test_bitmask al of
        None \<Rightarrow> None
      | Some (r1, al) \<Rightarrow>
          (case test_hashmap \<lparr>ht_map = None, ht_objects = {}, ht_next = 0, ht_alloc = al, ht_preempt = 0\<rparr> of
             None \<Rightarrow> None
           | Some (r2, s) \<Rightarrow> Some (r1, r2, s)))"

section \<open>The map of the test\<close>

text \<open>The map holds \<open>M\<close>, its keys are those of the test, and it has room for all of them.\<close>

definition test_keys :: "u32 set" where
  "test_keys = {w. 1 \<le> unat w \<and> unat w < 1556}"

definition has_map :: "hash_test \<Rightarrow> (u32 \<Rightarrow> test_data option) \<Rightarrow> bool" where
  "has_map s M \<longleftrightarrow> (\<exists>m. ht_map s = Some m \<and> hm_fixed d_key m \<and> hm_map d_key m = M \<and>
     1556 \<le> unat (hm_growat m) \<and> dom M \<subseteq> test_keys)"

lemma test_keys_card: "finite test_keys" "card test_keys = 1555"
proof -
  have "unat ` test_keys = {1..<1556}"
  proof
    show "{1..<1556} \<subseteq> unat ` test_keys"
    proof
      fix n :: nat assume "n \<in> {1..<1556}"
      then have "unat (word_of_nat n :: u32) = n" by (simp add: unat_of_nat)
      with \<open>n \<in> {1..<1556}\<close> show "n \<in> unat ` test_keys"
        by (intro image_eqI [of _ _ "word_of_nat n"]) (simp_all add: test_keys_def)
    qed
  qed (auto simp: test_keys_def)
  moreover have "inj_on unat test_keys" by (rule inj_onI) (simp add: unsigned_word_eqI)
  ultimately have "bij_betw unat test_keys {1..<1556}" by (simp add: bij_betw_def)
  then show "finite test_keys" "card test_keys = 1555"
    by (auto simp: bij_betw_finite dest: bij_betw_same_card)
qed

lemma has_map_room:
  assumes "hm_fixed d_key m" and "1556 \<le> unat (hm_growat m)" and "dom (hm_map d_key m) \<subseteq> test_keys"
  shows "unat (hashmap_count m) < unat (hm_growat m)"
proof -
  have "unat (hashmap_count m) = card (dom (hm_map d_key m))"
    using assms(1) by (simp add: hm_fixed_def hashmap_count_card)
  also have "\<dots> \<le> 1555" using card_mono [OF test_keys_card(1) assms(3)] test_keys_card(2) by simp
  finally show ?thesis using assms(2) by simp
qed

lemma set_item_result:
  assumes "has_map s M" and "word_of_int k \<in> test_keys"
  shows "\<exists>s'. (\<forall>g. set_item k b s g = g (M (word_of_int k)) s') \<and>
    has_map s' (M(word_of_int k \<mapsto> Data (word_of_int k) b)) \<and> ht_objects s' = ht_objects s \<and>
    ht_next s' = ht_next s \<and> ht_alloc s' = ht_alloc s \<and> ht_preempt s' = ht_preempt s"
proof -
  obtain m where m: "ht_map s = Some m" "hm_fixed d_key m" "hm_map d_key m = M" "1556 \<le> unat (hm_growat m)"
      "dom M \<subseteq> test_keys" using assms(1) by (auto simp: has_map_def)
  let ?d = "Data (word_of_int k) b"
  obtain m' where m': "hashmap_set m ?d (ht_alloc s) = Some (M (word_of_int k), m', ht_alloc s)"
      "hm_fixed d_key m'" "hm_map d_key m' = M(word_of_int k \<mapsto> ?d)" "hm_growat m' = hm_growat m"
    using hashmap_set_fixed [OF m(2), of ?d "ht_alloc s"] has_map_room [OF m(2,4)] m(3,5)
    by (auto simp: hashmap_count_def word_less_nat_alt)
  let ?s = "s\<lparr>ht_map := Some m', ht_alloc := ht_alloc s\<rparr>"
  have "has_map ?s (M(word_of_int k \<mapsto> ?d))"
    using m m' assms(2) by (auto simp: has_map_def)
  then show ?thesis using m(1) m'(1)
    by (intro exI [of _ ?s]) (simp add: set_item_def with_map_def)
qed

lemma get_item_result:
  assumes "has_map s M"
  shows "get_item k s g = g (M (word_of_int k)) s"
proof -
  obtain m where m: "ht_map s = Some m" "hm_fixed d_key m" "hm_map d_key m = M"
    using assms by (auto simp: has_map_def)
  have same: "s\<lparr>ht_map := Some m\<rparr> = s" using m(1) by (cases s) simp
  have "hashmap_get m (key_item k) = Some (M (word_of_int k))"
    using hashmap_get_correct [of d_key m "key_item k"] m(2,3) by (simp add: hm_fixed_def key_item_def)
  then have "get_item k s g = g (M (word_of_int k)) (s\<lparr>ht_map := Some m\<rparr>)"
    using m(1) by (simp add: get_item_def with_map_def)
  then show ?thesis unfolding same .
qed

lemma delete_item_result:
  assumes "has_map s M"
  shows "\<exists>s'. (\<forall>g. delete_item k s g = g (M (word_of_int k)) s') \<and>
    has_map s' (M(word_of_int k := None)) \<and> ht_objects s' = ht_objects s \<and>
    ht_next s' = ht_next s \<and> ht_alloc s' = ht_alloc s \<and> ht_preempt s' = ht_preempt s"
proof -
  obtain m where m: "ht_map s = Some m" "hm_fixed d_key m" "hm_map d_key m = M" "1556 \<le> unat (hm_growat m)"
      "dom M \<subseteq> test_keys" using assms(1) by (auto simp: has_map_def)
  obtain m' where m': "hashmap_delete m (key_item k) (ht_alloc s) = Some (M (word_of_int k), m', ht_alloc s)"
      "hm_fixed d_key m'" "hm_map d_key m' = M(word_of_int k := None)" "hm_growat m' = hm_growat m"
    using hashmap_delete_fixed [OF m(2), of "key_item k" "ht_alloc s"] m(3) by (auto simp: key_item_def)
  let ?s = "s\<lparr>ht_map := Some m', ht_alloc := ht_alloc s\<rparr>"
  have "has_map ?s (M(word_of_int k := None))" using m m' by (auto simp: has_map_def)
  then show ?thesis using m(1) m'(1)
    by (intro exI [of _ ?s]) (simp add: delete_item_def with_map_def)
qed

section \<open>What the steps promise\<close>

text \<open>The specification of the steps of the first part, on the map from keys to items.\<close>

definition item_is :: "test_data option \<Rightarrow> int \<Rightarrow> chars \<Rightarrow> bool" where
  "item_is r k t \<longleftrightarrow> (case r of None \<Rightarrow> False | Some d \<Rightarrow> d_key d = word_of_int k \<and> buffer_text (d_buffer d) = Some t)"

definition put_literal :: "int \<Rightarrow> chars \<Rightarrow> (u32 \<Rightarrow> test_data option) \<Rightarrow> u32 \<Rightarrow> test_data option" where
  "put_literal k t M = M(word_of_int k \<mapsto> Data (word_of_int k) (Literal t))"

fun hash_spec :: "hash_step \<Rightarrow> (u32 \<Rightarrow> test_data option) \<Rightarrow> (u32 \<Rightarrow> test_data option) option" where
  "hash_spec (Set_Item k t) M = (if word_of_int k \<in> test_keys then Some (put_literal k t M) else None)"
| "hash_spec (Count n) M = (if card (dom M) = n then Some M else None)"
| "hash_spec (Present k) M = (if M (word_of_int k) \<noteq> None then Some M else None)"
| "hash_spec (Absent k) M = (if M (word_of_int k) = None then Some M else None)"
| "hash_spec (Finds k t) M = (if item_is (M (word_of_int k)) k t then Some M else None)"
| "hash_spec (Replaces k new old) M =
     (if word_of_int k \<in> test_keys \<and> item_is (M (word_of_int k)) k old then Some (put_literal k new M) else None)"
| "hash_spec (Not_Deleted k) M = (if M (word_of_int k) = None then Some M else None)"
| "hash_spec (Deletes k t) M =
     (if item_is (M (word_of_int k)) k t then Some (M(word_of_int k := None)) else None)"
| "hash_spec _ M = None"

fun hash_specs :: "hash_step list \<Rightarrow> (u32 \<Rightarrow> test_data option) \<Rightarrow> (u32 \<Rightarrow> test_data option) option" where
  "hash_specs [] M = Some M"
| "hash_specs (a # as) M = Option.bind (hash_spec a M) (hash_specs as)"

text \<open>The rest of the state.\<close>

definition same_rest :: "hash_test \<Rightarrow> hash_test \<Rightarrow> bool" where
  "same_rest s s' \<longleftrightarrow> ht_objects s' = ht_objects s \<and> ht_next s' = ht_next s \<and> ht_alloc s' = ht_alloc s \<and>
     ht_preempt s' = ht_preempt s"

lemma check_item_is: "item_is r k t \<Longrightarrow> check_item r k t s = Some (Inr s)"
  by (auto simp: item_is_def check_item_def split: option.splits)

lemma hash_check_spec:
  assumes "has_map s M" and "hash_spec a M = Some M'"
  shows "\<exists>s'. hash_check a s = Some (Inr s') \<and> has_map s' M' \<and> same_rest s s'"
proof -
  have set: "\<exists>s'. (\<forall>g. set_item k (Literal t) s g = g (M (word_of_int k)) s') \<and>
      has_map s' (put_literal k t M) \<and> same_rest s s'" if "word_of_int k \<in> test_keys" for k t
    unfolding put_literal_def same_rest_def using set_item_result [OF assms(1) that, of "Literal t"] by blast
  have delete: "\<exists>s'. (\<forall>g. delete_item k s g = g (M (word_of_int k)) s') \<and>
      has_map s' (M(word_of_int k := None)) \<and> same_rest s s'" for k
    unfolding same_rest_def using delete_item_result [OF assms(1), of k] by blast
  have same: "same_rest s s" by (simp add: same_rest_def)
  note get = get_item_result [OF assms(1)]
  show ?thesis
  proof (cases a)
    case (Set_Item k t)
    then show ?thesis using set [of k t] assms(2) by (auto split: if_splits)
  next
    case (Count n)
    obtain m where m: "ht_map s = Some m" "hm_fixed d_key m" "hm_map d_key m = M"
      using assms(1) by (auto simp: has_map_def)
    then have c: "unat (hashmap_count m) = n" using Count assms(2)
      by (auto simp: hm_fixed_def hashmap_count_card split: if_splits)
    have "of_nat (unat (hashmap_count m)) = hashmap_count m" by simp
    with c have "hashmap_count m = of_nat n" by simp
    then show ?thesis using Count m(1) assms same by (auto split: if_splits)
  next
    case (Replaces k new old)
    then show ?thesis using set [of k new] assms(2) by (auto simp: check_item_is split: if_splits)
  next
    case (Not_Deleted k)
    then have "M(word_of_int k := None) = M" using assms(2) by (auto split: if_splits)
    then show ?thesis using delete [of k] assms(2) Not_Deleted by (auto split: if_splits)
  next
    case (Deletes k t)
    then show ?thesis using delete [of k] assms(2) by (auto simp: check_item_is split: if_splits)
  qed (use assms same in \<open>auto simp: get check_item_is split: if_splits\<close>)
qed

lemma hash_run_spec:
  "has_map s M \<Longrightarrow> hash_specs as M = Some M' \<Longrightarrow>
     \<exists>s'. run_steps hash_check as s = Some (Inr s') \<and> has_map s' M' \<and> same_rest s s'"
proof (induction as arbitrary: s M)
  case Nil
  then show ?case by (simp add: same_rest_def)
next
  case (Cons a as)
  then obtain M1 where M1: "hash_spec a M = Some M1" "hash_specs as M1 = Some M'"
    by (auto simp: bind_eq_Some_conv)
  obtain s1 where s1: "hash_check a s = Some (Inr s1)" "has_map s1 M1" "same_rest s s1"
    using hash_check_spec [OF Cons.prems(1) M1(1)] by blast
  obtain s2 where "run_steps hash_check as s1 = Some (Inr s2)" "has_map s2 M'" "same_rest s1 s2"
    using Cons.IH [OF s1(2) M1(2)] by blast
  with s1 show ?case by (intro exI [of _ s2]) (simp add: same_rest_def)
qed

text \<open>The map before the loops.\<close>

definition basic_map :: "u32 \<Rightarrow> test_data option" where
  "basic_map = [1 \<mapsto> Data 1 (Literal nuovachiave), 2 \<mapsto> Data 2 (Literal (chiave 2)), 3 \<mapsto> Data 3 (Literal (chiave 3))]"

lemma basic_specs: "hash_specs (drop 2 hash_basic @ hash_replace) Map.empty = Some basic_map"
proof -
  have keys: "(1::u32) \<in> test_keys" "(2::u32) \<in> test_keys" "(3::u32) \<in> test_keys" by (simp_all add: test_keys_def)
  show ?thesis
    by (simp add: hash_basic_def hash_replace_def keys put_literal_def item_is_def basic_map_def fun_eq_iff)
qed

section \<open>The loops\<close>

text \<open>After the iterations below \<open>n\<close> the items up to \<open>n\<close> hold the objects of the same number.\<close>

definition filled_map :: "nat \<Rightarrow> u32 \<Rightarrow> test_data option" where
  "filled_map n w =
     (if 1 \<le> unat w \<and> unat w < n then Some (Data w (Allocated (unat w) (chiave (int (unat w))))) else basic_map w)"

definition emptied_map :: "nat \<Rightarrow> u32 \<Rightarrow> test_data option" where
  "emptied_map n w = (if n \<le> unat w then filled_map 1556 w else None)"

lemma small_word: "n < 1556 \<Longrightarrow> unat (word_of_int (int n) :: u32) = n"
  by (simp add: unat_of_nat)

lemma small_word_eq: "n < 1556 \<Longrightarrow> w = (word_of_int (int n) :: u32) \<longleftrightarrow> unat w = n"
  by (metis small_word unsigned_word_eqI)

lemma fill_step:
  assumes "has_map s (filled_map n)" and "1 \<le> n" "n < 1556"
    and "ht_next s = n" "ht_objects s = {..<n}" "fst (next_outcome (ht_alloc s))"
  shows "\<exists>s'. hash_check (Fill (int n)) s = Some (Inr s') \<and> has_map s' (filled_map (Suc n)) \<and>
    ht_next s' = Suc n \<and> ht_objects s' = {..<Suc n} \<and> ht_alloc s' = drop 1 (ht_alloc s) \<and>
    ht_preempt s' = ht_preempt s"
proof -
  let ?w = "word_of_int (int n) :: u32" and ?b = "Allocated n (chiave (int n))"
  let ?s = "s\<lparr>ht_objects := {..<Suc n}, ht_next := Suc n, ht_alloc := drop (Suc 0) (ht_alloc s)\<rparr>"
  have alloc: "alloc_object s = (Some n, ?s)"
    using assms(4-6) by (cases "ht_alloc s") (auto simp: alloc_object_def Let_def lessThan_Suc)
  have "has_map ?s (filled_map n)" using assms(1) by (simp add: has_map_def)
  moreover have "?w \<in> test_keys" using assms(2,3) by (simp add: test_keys_def small_word del: of_int_of_nat_eq)
  ultimately obtain s' where s': "\<And>g. set_item (int n) ?b ?s g = g (filled_map n ?w) s'"
      "has_map s' ((filled_map n)(?w \<mapsto> Data ?w ?b))" "ht_objects s' = {..<Suc n}" "ht_next s' = Suc n"
      "ht_alloc s' = drop 1 (ht_alloc s)" "ht_preempt s' = ht_preempt s"
    using set_item_result [of ?s "filled_map n" "int n" ?b] by auto
  have "(filled_map n)(?w \<mapsto> Data ?w ?b) = filled_map (Suc n)"
    using assms(2,3) by (auto simp: fun_eq_iff filled_map_def small_word_eq small_word less_Suc_eq simp del: of_int_of_nat_eq)
  moreover have "hash_check (Fill (int n)) s = Some (Inr s')"
    using alloc by (simp add: s'(1) get_item_result [OF s'(2)] check_item_def)
  ultimately show ?thesis using s' by auto
qed

lemma fill_loop:
  "has_map s (filled_map n) \<Longrightarrow> 1 \<le> n \<Longrightarrow> n + k \<le> 1556 \<Longrightarrow> ht_next s = n \<Longrightarrow> ht_objects s = {..<n} \<Longrightarrow>
   granted k (ht_alloc s) \<Longrightarrow>
   \<exists>s'. run_steps hash_check (map Fill (map int [n..<n + k])) s = Some (Inr s') \<and> has_map s' (filled_map (n + k)) \<and>
     ht_next s' = n + k \<and> ht_objects s' = {..<n + k} \<and> ht_alloc s' = drop k (ht_alloc s) \<and>
     ht_preempt s' = ht_preempt s"
proof (induction k arbitrary: n s)
  case (Suc k)
  then have n: "n < 1556" and g: "fst (next_outcome (ht_alloc s))" "granted k (drop 1 (ht_alloc s))"
    by (simp_all add: granted_Suc)
  obtain s1 where s1: "hash_check (Fill (int n)) s = Some (Inr s1)" "has_map s1 (filled_map (Suc n))"
      "ht_next s1 = Suc n" "ht_objects s1 = {..<Suc n}" "ht_alloc s1 = drop 1 (ht_alloc s)"
      "ht_preempt s1 = ht_preempt s"
    using fill_step [OF Suc.prems(1,2) n Suc.prems(4,5) g(1)] by blast
  obtain s2 where s2: "run_steps hash_check (map Fill (map int [Suc n..<Suc n + k])) s1 = Some (Inr s2)"
      "has_map s2 (filled_map (Suc n + k))" "ht_next s2 = Suc n + k" "ht_objects s2 = {..<Suc n + k}"
      "ht_alloc s2 = drop k (ht_alloc s1)" "ht_preempt s2 = ht_preempt s1"
    using Suc.IH [OF s1(2) _ _ s1(3,4)] Suc.prems(3) g(2) s1(5) by auto
  have "[n..<n + Suc k] = n # [Suc n..<Suc n + k]" using upt_conv_Cons [of n "n + Suc k"] by simp
  with s1(1,5,6) s2 show ?case by (intro exI [of _ s2]) (simp del: hash_check.simps)
qed simp

lemma empty_step:
  assumes "has_map s (emptied_map n)" and "1 \<le> n" "n < 1556" and "ht_objects s = insert 0 {n..<1556}"
  shows "\<exists>s'. hash_check (Empty (int n)) s = Some (Inr s') \<and> has_map s' (emptied_map (Suc n)) \<and>
    ht_objects s' = insert 0 {Suc n..<1556} \<and> ht_next s' = ht_next s \<and> ht_alloc s' = ht_alloc s \<and>
    ht_preempt s' = ht_preempt s"
proof -
  let ?w = "word_of_int (int n) :: u32"
  obtain s' where s': "\<And>g. delete_item (int n) s g = g (emptied_map n ?w) s'"
      "has_map s' ((emptied_map n)(?w := None))" "ht_objects s' = ht_objects s" "ht_next s' = ht_next s"
      "ht_alloc s' = ht_alloc s" "ht_preempt s' = ht_preempt s"
    using delete_item_result [OF assms(1), of "int n"] by auto
  let ?s = "s'\<lparr>ht_objects := insert 0 {Suc n..<1556}\<rparr>"
  have "emptied_map n ?w = Some (Data ?w (Allocated n (chiave (int n))))"
    using assms(2,3) by (simp add: emptied_map_def filled_map_def small_word del: of_int_of_nat_eq)
  moreover have "ht_objects s' - {n} = insert 0 {Suc n..<1556}"
    unfolding s'(3) assms(4) using assms(2,3) by auto
  ultimately have "hash_check (Empty (int n)) s = Some (Inr ?s)"
    using assms(3,4) s'(3) by (simp add: s'(1))
  moreover have "(emptied_map n)(?w := None) = emptied_map (Suc n)"
    using assms(3) by (auto simp: fun_eq_iff emptied_map_def small_word_eq simp del: of_int_of_nat_eq)
  ultimately show ?thesis using s' by (intro exI [of _ ?s]) (simp add: has_map_def)
qed

lemma empty_loop:
  "has_map s (emptied_map n) \<Longrightarrow> 1 \<le> n \<Longrightarrow> n + k = 1556 \<Longrightarrow> ht_objects s = insert 0 {n..<1556} \<Longrightarrow>
   \<exists>s'. run_steps hash_check (map Empty (map int [n..<n + k])) s = Some (Inr s') \<and> has_map s' (emptied_map 1556) \<and>
     ht_objects s' = {0} \<and> ht_next s' = ht_next s \<and> ht_alloc s' = ht_alloc s \<and> ht_preempt s' = ht_preempt s"
proof (induction k arbitrary: n s)
  case (Suc k)
  then have n: "n < 1556" by simp
  obtain s1 where s1: "hash_check (Empty (int n)) s = Some (Inr s1)" "has_map s1 (emptied_map (Suc n))"
      "ht_objects s1 = insert 0 {Suc n..<1556}" "ht_next s1 = ht_next s" "ht_alloc s1 = ht_alloc s"
      "ht_preempt s1 = ht_preempt s"
    using empty_step [OF Suc.prems(1,2) n Suc.prems(4)] by blast
  obtain s2 where s2: "run_steps hash_check (map Empty (map int [Suc n..<Suc n + k])) s1 = Some (Inr s2)"
      "has_map s2 (emptied_map 1556)" "ht_objects s2 = {0}" "ht_next s2 = ht_next s1"
      "ht_alloc s2 = ht_alloc s1" "ht_preempt s2 = ht_preempt s1"
    using Suc.IH [OF s1(2) _ _ s1(3)] Suc.prems(3) by auto
  have "[n..<n + Suc k] = n # [Suc n..<Suc n + k]" using upt_conv_Cons [of n "n + Suc k"] by simp
  with s1(1,4-6) s2 show ?case by (intro exI [of _ s2]) (simp del: hash_check.simps)
qed simp

section \<open>The whole test\<close>

lemma compare_hash_0_iff: "compare_hash a b = 0 \<longleftrightarrow> d_key a = d_key b"
  unfolding compare_hash_def by (metis right_minus_eq signed_eq_0_iff)

lemma new_map_result:
  "if granted 2 (ht_alloc s)
   then \<exists>s'. hash_check New_Map s = Some (Inr s') \<and> has_map s' Map.empty \<and> ht_objects s' = ht_objects s \<and>
     ht_next s' = ht_next s \<and> ht_alloc s' = drop 2 (ht_alloc s) \<and> ht_preempt s' = ht_preempt s
   else \<exists>s'. hash_check New_Map s = Some (Inl (- 1, s')) \<and> ht_objects s' = ht_objects s \<and> ht_preempt s' = ht_preempt s"
proof -
  let ?new = "\<lambda>w. hashmap_new_with_allocator 16 w TEST_SEED0 TEST_SEED1 custom_hash compare_hash (ht_alloc s)"
  have "round_ncap 16 TEST_HASHMAP_CAP = Some (2 ^ 12)"
    by (simp add: TEST_HASHMAP_CAP_def round_ncap.simps INT_MAX_def)
  then have cap: "?new TEST_HASHMAP_CAP = ?new (2 ^ 12)"
    unfolding hashmap_new_with_allocator_def using round_ncap_pow2 [of 12] by (simp add: TEST_HASHMAP_CAP_def)
  obtain r al' bsz where new: "?new (2 ^ 12) = Some (r, al')"
    and r: "r = None \<or> r = Some \<lparr>hm_oom = False, hm_elsize = 16, hm_cap = 2 ^ 12, hm_seed0 = TEST_SEED0,
       hm_seed1 = TEST_SEED1, hm_hash = custom_hash, hm_compare = compare_hash, hm_bucketsz = bsz,
       hm_nbuckets = 2 ^ 12, hm_count = 0, hm_mask = 2 ^ 12 - 1, hm_growat = 2 ^ 12 * 3 div 4,
       hm_shrinkat = 2 ^ 12 div 10, hm_buckets = replicate (2 ^ 12) zero_bucket\<rparr>"
    using hashmap_new_fields [of 12 16 TEST_SEED0 TEST_SEED1 custom_hash compare_hash "ht_alloc s"] by auto
  have al: "if granted 2 (ht_alloc s) then r \<noteq> None \<and> al' = drop 2 (ht_alloc s) else r = None"
    using new by (cases "ht_alloc s"; cases "tl (ht_alloc s)")
      (auto simp: hashmap_new_with_allocator_def Let_def bind_eq_Some_conv granted_def numeral_2_eq_2 split: if_splits)
  have wf: "hm_wf d_key m \<and> hm_map d_key m = Map.empty" if "r = Some m" for m
  proof -
    have "unat (2 ^ 12 :: u64) \<le> 2 ^ 15" by simp
    then obtain q al'' where q: "hashmap_new 16 (2 ^ 12) TEST_SEED0 TEST_SEED1 custom_hash compare_hash (ht_alloc s) = Some (q, al'')"
        "\<forall>m. q = Some m \<longrightarrow> hm_wf d_key m \<and> hm_map d_key m = Map.empty \<and> hm_count m = 0 \<and>
          2 ^ 12 \<le> hm_cap m \<and> hm_hash m = custom_hash \<and> hm_compare m = compare_hash \<and>
          hm_seed0 m = TEST_SEED0 \<and> hm_seed1 m = TEST_SEED1" "ht_alloc s = [] \<longrightarrow> q \<noteq> None"
      by (rule hashmap_new_wf [of _ compare_hash d_key custom_hash])
        (simp_all add: compare_hash_0_iff custom_hash_def)
    with new that show ?thesis by (simp add: hashmap_new_def)
  qed
  show ?thesis
  proof (cases r)
    case None
    with al cap new show ?thesis by (simp split: if_splits)
  next
    case (Some m)
    then have "hm_nbuckets m = hm_cap m" "1556 \<le> unat (hm_growat m)" using r by auto
    with wf [OF Some] have "has_map (s\<lparr>ht_map := Some m, ht_alloc := al'\<rparr>) Map.empty"
      by (simp add: has_map_def hm_fixed_def)
    with Some al cap new show ?thesis by (auto split: if_splits)
  qed
qed

lemma upto_tries: "[1..tries - 1] = map int [1..<1 + 1555]"
  by (rule nth_equalityI) (simp_all add: tries_def)

text \<open>The test up to the loop that fills the map, which needs three allocations.\<close>

lemma run_basic:
  assumes "ht_next s = 0" "ht_objects s = {}" and "granted 3 (ht_alloc s)"
  obtains s' where "run_steps hash_check (hash_basic @ hash_replace @ [Preempt_Disable]) s = Some (Inr s')"
    "has_map s' (filled_map 1)" "ht_next s' = 1" "ht_objects s' = {..<1}" "ht_alloc s' = drop 3 (ht_alloc s)"
    "ht_preempt s' = ht_preempt s + 1"
proof -
  have g: "granted 2 (ht_alloc s)" "fst (next_outcome (drop 2 (ht_alloc s)))"
    using assms(3) granted_add [of 2 1 "ht_alloc s"] granted_Suc [of 0 "drop 2 (ht_alloc s)"]
    by (simp_all add: numeral_3_eq_3 numeral_2_eq_2)
  obtain s1 where s1: "hash_check New_Map s = Some (Inr s1)" "has_map s1 Map.empty" "ht_objects s1 = {}"
      "ht_next s1 = 0" "ht_alloc s1 = drop 2 (ht_alloc s)" "ht_preempt s1 = ht_preempt s"
    using new_map_result [of s] g(1) assms(1,2) by auto
  let ?s2 = "s1\<lparr>ht_objects := {0}, ht_next := 1, ht_alloc := drop 3 (ht_alloc s)\<rparr>"
  have s2: "hash_check Alloc_Data s1 = Some (Inr ?s2)" "has_map ?s2 Map.empty"
    using s1(2-5) g(2)
    by (cases "drop 2 (ht_alloc s)"; simp add: alloc_object_def has_map_def Let_def drop_Suc numeral_3_eq_3 numeral_2_eq_2 tl_drop)+
  have basic: "hash_basic @ hash_replace = New_Map # Alloc_Data # (drop 2 hash_basic @ hash_replace)"
    by (simp add: hash_basic_def)
  obtain s3 where s3: "run_steps hash_check (hash_basic @ hash_replace) s = Some (Inr s3)" "has_map s3 basic_map"
      "same_rest ?s2 s3"
    using hash_run_spec [OF s2(2) basic_specs] s1(1) s2(1) unfolding basic by auto
  let ?s3 = "s3\<lparr>ht_preempt := ht_preempt s3 + 1\<rparr>"
  have "filled_map 1 = basic_map" by (rule ext) (auto simp: filled_map_def)
  then have "has_map ?s3 (filled_map 1)" using s3(2) by (simp add: has_map_def)
  moreover have "run_steps hash_check (hash_basic @ hash_replace @ [Preempt_Disable]) s = Some (Inr ?s3)"
    using s3(1) run_steps_append [of hash_check "hash_basic @ hash_replace" "[Preempt_Disable]" s] by simp
  ultimately show thesis using s3(3) s1(6) by (intro that [of ?s3]) (auto simp: same_rest_def)
qed

lemma test_hashmap_split:
  assumes "run_steps hash_check (hash_basic @ hash_replace @ [Preempt_Disable]) s = Some (Inr s')"
  shows "test_hashmap s =
    (case run_steps hash_check (map Fill [1..tries - 1] @ [Preempt_Enable] @ hash_empty) s' of
       None \<Rightarrow> None | Some (Inl r) \<Rightarrow> Some r | Some (Inr s) \<Rightarrow> Some (0, s))"
proof -
  have "hash_basic @ hash_replace @ hash_fill @ hash_empty =
      (hash_basic @ hash_replace @ [Preempt_Disable]) @ (map Fill [1..tries - 1] @ [Preempt_Enable] @ hash_empty)"
    by (simp add: hash_fill_def)
  then show ?thesis unfolding test_hashmap_def using assms by (simp only: run_steps_append) simp
qed

lemma test_hashmap_stop:
  assumes "run_steps hash_check (hash_basic @ hash_replace @ [Preempt_Disable]) s = Some (Inr s')"
    and "run_steps hash_check (map Fill [1..tries - 1] @ [Preempt_Enable] @ hash_empty) s' = Some (Inl r)"
  shows "test_hashmap s = Some r"
  unfolding test_hashmap_split [OF assms(1)] assms(2) by simp

lemma test_hashmap_passes:
  assumes "ht_next s = 0" "ht_objects s = {}" and "granted 1558 (ht_alloc s)"
  shows "test_hashmap s = Some (0, \<lparr>ht_map = None, ht_objects = {0}, ht_next = 1556,
    ht_alloc = drop 1558 (ht_alloc s), ht_preempt = ht_preempt s\<rparr>)"
proof -
  have g: "granted 3 (ht_alloc s)" "granted 1555 (drop 3 (ht_alloc s))"
    using assms(3) granted_add [of 3 1555 "ht_alloc s"] by simp_all
  obtain s3 where s3: "run_steps hash_check (hash_basic @ hash_replace @ [Preempt_Disable]) s = Some (Inr s3)"
      "has_map s3 (filled_map 1)" "ht_next s3 = 1" "ht_objects s3 = {..<1}" "ht_alloc s3 = drop 3 (ht_alloc s)"
      "ht_preempt s3 = ht_preempt s + 1" using run_basic [OF assms(1,2) g(1)] .
  obtain s4 where s4: "run_steps hash_check (map Fill [1..tries - 1]) s3 = Some (Inr s4)"
      "has_map s4 (filled_map 1556)" "ht_next s4 = 1556" "ht_objects s4 = {..<1556}"
      "ht_alloc s4 = drop 1555 (drop 3 (ht_alloc s))" "ht_preempt s4 = ht_preempt s + 1"
    using fill_loop [OF s3(2) _ _ s3(3,4), of 1555] s3(5,6) g(2) unfolding upto_tries by auto
  let ?s4 = "s4\<lparr>ht_preempt := ht_preempt s\<rparr>"
  have "emptied_map 1 = filled_map 1556"
    by (rule ext) (auto simp: emptied_map_def filled_map_def basic_map_def)
  then have "has_map ?s4 (emptied_map 1)" using s4(2) by (simp add: has_map_def)
  moreover have "{..<1556} = insert 0 {1..<1556::nat}" by auto
  ultimately obtain s5 where s5: "run_steps hash_check (map Empty [1..tries - 1]) ?s4 = Some (Inr s5)"
      "has_map s5 (emptied_map 1556)" "ht_objects s5 = {0}" "ht_next s5 = 1556"
      "ht_alloc s5 = drop 1558 (ht_alloc s)" "ht_preempt s5 = ht_preempt s"
    using empty_loop [of ?s4 1 1555] s4(3-5) unfolding upto_tries by auto
  have "test_hashmap s = Some (0, s5\<lparr>ht_map := None\<rparr>)"
    unfolding test_hashmap_split [OF s3(1)] hash_empty_def
    using s4(1,6) s5(1,2) by (auto simp: has_map_def run_steps_append)
  with s5 show ?thesis by (cases s5) simp
qed

lemma granted_replicate: "granted n (replicate n True @ al)" "granted n (replicate (n + m) True @ al)"
  by (simp_all add: granted_def list_all_iff)

lemma test_hashmap_stops:
  assumes "ht_next s = 0" "ht_objects s = {}" and "ht_alloc s = replicate (3 + k) True @ False # al" and "k < 1555"
  shows "\<exists>s'. test_hashmap s = Some (- 1, s') \<and> ht_objects s' = {..k} \<and> ht_preempt s' = ht_preempt s + 1"
proof -
  have rest: "drop 3 (ht_alloc s) = replicate k True @ False # al" "granted 3 (ht_alloc s)"
    unfolding assms(3) granted_def by (simp_all add: numeral_3_eq_3)
  obtain s3 where s3: "run_steps hash_check (hash_basic @ hash_replace @ [Preempt_Disable]) s = Some (Inr s3)"
      "has_map s3 (filled_map 1)" "ht_next s3 = 1" "ht_objects s3 = {..<1}" "ht_alloc s3 = replicate k True @ False # al"
      "ht_preempt s3 = ht_preempt s + 1" using run_basic [OF assms(1,2) rest(2)] rest(1) by metis
  have gr: "granted k (ht_alloc s3)" unfolding s3(5) by (rule granted_replicate)
  obtain s4 where s4: "run_steps hash_check (map Fill (map int [1..<1 + k])) s3 = Some (Inr s4)"
      "ht_objects s4 = {..<1 + k}" "ht_alloc s4 = False # al" "ht_preempt s4 = ht_preempt s + 1"
    using fill_loop [OF s3(2) _ _ s3(3,4) gr] assms(4) s3(5,6) by auto
  let ?s = "s4\<lparr>ht_alloc := al\<rparr>"
  have "1 + k + (1555 - k) = 1 + 1555" using assms(4) by simp
  then have "[1..<1 + 1555] = [1..<1 + k] @ [1 + k..<1 + 1555]"
    using upt_add_eq_append [of 1 "1 + k" "1555 - k"] by (simp only: le_add1)
  moreover have "[1 + k..<1 + 1555] = (1 + k) # [Suc (1 + k)..<1 + 1555]"
    by (rule upt_conv_Cons) (use assms(4) in simp)
  ultimately obtain ys where loop: "map Fill [1..tries - 1] = map Fill (map int [1..<1 + k]) @ Fill (int (1 + k)) # ys"
    unfolding upto_tries by (simp only: map_append list.map)
  have "hash_check (Fill (int (1 + k))) s4 = Some (Inl (- 1, ?s))"
    using s4(3) by (simp add: alloc_object_def)
  then have "run_steps hash_check (map Fill [1..tries - 1] @ [Preempt_Enable] @ hash_empty) s3 = Some (Inl (- 1, ?s))"
    unfolding loop append_assoc append_Cons by (rule run_steps_stop [OF s4(1)])
  then have "test_hashmap s = Some (- 1, ?s)" by (rule test_hashmap_stop [OF s3(1)])
  then show ?thesis using s4(2,4) by (intro exI [of _ ?s]) (simp add: lessThan_Suc_atMost)
qed

lemma test_bitmask_replicate: "test_bitmask (replicate 14 True @ xs) = Some (0, xs)"
  using test_bitmask_result [of "replicate 14 True @ xs"] granted_replicate(1) [of 14 xs] by simp

lemma replicate_14: "replicate (17 + k) x = replicate 14 x @ replicate (3 + k) x"
  "replicate 16 x = replicate 14 x @ [x, x]"
  by (simp_all add: replicate_add [symmetric] numeral_eq_Suc)

abbreviation fresh_test :: "outcomes \<Rightarrow> hash_test" where
  "fresh_test al \<equiv> \<lparr>ht_map = None, ht_objects = {}, ht_next = 0, ht_alloc = al, ht_preempt = 0\<rparr>"

section \<open>The properties\<close>

text \<open>
  C39. The self test passes: when memory does not run out both tests return 0, without a fault of the
  kernel. The bitmask gives out and takes back the numbers expected, the hash map keeps 1555
  items apart, every buffer is freed once, and preemption is enabled again. The object behind
  \<open>data_ins\<close> is not freed.
\<close>

theorem self_test_passes:
  assumes "granted 1572 al"
  shows "test_syscall al = Some (0, 0,
    \<lparr>ht_map = None, ht_objects = {0}, ht_next = 1556, ht_alloc = drop 1572 al, ht_preempt = 0\<rparr>)"
proof -
  have "granted 14 al" "granted 1558 (drop 14 al)" using assms granted_add [of 14 1558 al] by simp_all
  then show ?thesis
    using test_bitmask_result [of al]
      test_hashmap_passes [of "fresh_test (drop 14 al)"]
    by (simp add: test_syscall_def)
qed

theorem self_test_passes_witness:
  "test_syscall [] = Some (0, 0, \<lparr>ht_map = None, ht_objects = {0}, ht_next = 1556, ht_alloc = [], ht_preempt = 0\<rparr>)"
  using self_test_passes [of "[]"] by simp

text \<open>
  When memory runs out at one of the buffers of the loop the test returns -1 at once, with
  preemption left disabled and all buffers allocated so far lost; when it runs out at the single
  object allocated before, the kernel faults.
\<close>

theorem self_test_out_of_memory:
  assumes "k < 1555"
  shows "(\<exists>s'. test_syscall (replicate (17 + k) True @ False # al) = Some (0, - 1, s') \<and>
      ht_objects s' = {..k} \<and> ht_preempt s' = 1) \<and>
    test_syscall (replicate 16 True @ False # al) = None"
proof
  show "\<exists>s'. test_syscall (replicate (17 + k) True @ False # al) = Some (0, - 1, s') \<and>
      ht_objects s' = {..k} \<and> ht_preempt s' = 1"
    unfolding replicate_14 append_assoc
    using test_hashmap_stops [OF _ _ _ assms, of "fresh_test (replicate (3 + k) True @ False # al)" al]
    by (auto simp: test_syscall_def test_bitmask_replicate)
next
  have g: "granted 2 (True # True # False # al)" by (simp add: granted_def numeral_2_eq_2)
  obtain s1 where "hash_check New_Map (fresh_test (True # True # False # al)) = Some (Inr s1)" "ht_alloc s1 = False # al"
    using new_map_result [of "fresh_test (True # True # False # al)"] g by auto
  then have "test_hashmap (fresh_test (True # True # False # al)) = None"
    by (simp add: test_hashmap_def hash_basic_def alloc_object_def)
  then show "test_syscall (replicate 16 True @ False # al) = None"
    unfolding replicate_14 append_assoc by (simp add: test_syscall_def test_bitmask_replicate)
qed

theorem self_test_out_of_memory_witness:
  "\<exists>s'. test_syscall (replicate 17 True @ [False]) = Some (0, - 1, s') \<and> ht_preempt s' = 1"
  using self_test_out_of_memory [of 0 "[]"] by auto

end
