(* ===== verification/Receive_Steps.thy ===== *)
theory Receive_Steps
  imports Tag_System
begin

text \<open>
  \<open>tag_receive\<close> and \<open>tag_send\<close> in small steps: one step for each call on a lock or an atomic counter, and one for what
  the code does with shared memory between two of them, in the order of the code. Between two steps of
  a thread any other thread may run. The steps of a thread that runs alone amount to the handlers of \<open>Tag_Handlers\<close>.
\<close>

section \<open>Points of the code\<close>

record request =
  rq_tag :: nat
  rq_level :: nat
  rq_buffer :: bool
  rq_size :: nat
  rq_euid :: int

record dispatch =
  dp_tag :: nat
  dp_level :: nat
  dp_data :: "u8 list"
  dp_size :: nat
  dp_euid :: int

text \<open>What remains to be undone or released on the way to a \<open>return\<close>.\<close>

datatype release =
    Dec_Tag addr
  | Reset_Tag addr
  | Up_Tag nat
  | Up_Level addr nat
  | Up_Write_Level addr nat
  | Restore_Level addr nat addr
  | Up_Rcu addr
  | Up_Write_Rcu addr
  | Clear_Ready addr
  | Clear_Size addr
  | Clear_Buffer addr
  | Free_Level addr
  | Up_Mutex addr
  | Wake_Level addr

text \<open>
  A point is named after the step that comes next; its arguments are the local variables: the
  entry of the tag, the level, the one found installed, the new one.
\<close>

datatype send_point =
    Send_Lock dispatch
  | Send_Look dispatch
  | Send_Check dispatch addr
  | Send_Count_Tag dispatch addr
  | Send_Lock_Level dispatch addr
  | Send_Look_Level dispatch addr
  | Send_Lock_Rcu dispatch addr addr
  | Send_Unlock_Level dispatch addr addr
  | Send_Mutex dispatch addr
  | Send_Test_Ready dispatch addr
  | Send_Count dispatch addr
  | Send_Copy dispatch addr
  | Send_Size dispatch addr
  | Send_Ready dispatch addr

datatype point =
    Lock_Tag request
  | Look_Tag request
  | Check_Perm request addr
  | Lock_Level request addr
  | Look_Level request addr
  | Count_Tag request addr addr
  | Lock_Rcu request addr addr
  | Unlock_Level request addr addr
  | Test_Ready request addr addr
  | Epoch_Lock request addr addr
  | Epoch_Look request addr addr
  | Epoch_Install request addr addr addr addr
  | Epoch_Unlock_Old request addr addr addr addr
  | Epoch_Lock_New request addr addr addr
  | Epoch_Unlock request addr addr
  | Count_Level request addr addr
  | Waiting receiver
  | Leave_Queue bool receiver
  | Get_Code bool receiver
  | Copy int receiver
  | Unlock_Rcu int "u8 list" receiver
  | Dec_Level int "u8 list" receiver
  | Try_Lock int "u8 list" receiver
  | Look_New int "u8 list" receiver
  | Finish "release list" int "u8 list"
  | Sending send_point

fun resting :: "point \<Rightarrow> bool" where
  "resting (Waiting c) = True"
| "resting (Finish [] code bytes) = True"
| "resting p = False"

section \<open>Steps\<close>

definition dec_tag :: "addr \<Rightarrow> kernel \<Rightarrow> (bool \<times> kernel) option" where
  "dec_tag te s = do {
     s \<leftarrow> update_tag te (\<lambda>tg. tg\<lparr>tg_waiting := tg_waiting tg - 1\<rparr>) s;
     tg \<leftarrow> k_tag_heap s te;
     Some (tg_waiting tg = 0, s)
   }"

text \<open>One release; the list is what it adds to be done next.\<close>

fun release_step :: "release \<Rightarrow> kernel \<Rightarrow> (release list \<times> kernel) option" where
  "release_step (Dec_Tag te) s = do {
     (zero, s) \<leftarrow> dec_tag te s;
     Some (if zero then [Reset_Tag te] else [], s)
   }"
| "release_step (Reset_Tag te) s = map_option (Pair []) (update_tag te (\<lambda>tg. tg\<lparr>tg_ready := 0\<rparr>) s)"
| "release_step (Up_Tag i) s = map_option (Pair []) (tag_lock_op up_read i s)"
| "release_step (Up_Level te l) s = map_option (Pair []) (level_lock_op up_read te l s)"
| "release_step (Up_Write_Level te l) s = map_option (Pair []) (level_lock_op up_write te l s)"
| "release_step (Restore_Level te l old) s = map_option (Pair [])
     (update_tag te (\<lambda>tg. tg\<lparr>tg_tag_level := (tg_tag_level tg)[l := Some old]\<rparr>) s)"
| "release_step (Up_Rcu lp) s = map_option (Pair []) (rcu_lock_op up_read lp s)"
| "release_step (Up_Write_Rcu lp) s = map_option (Pair []) (rcu_lock_op up_write lp s)"
| "release_step (Clear_Ready lp) s = map_option (Pair []) (update_level lp (\<lambda>lv. lv\<lparr>tl_ready := 0\<rparr>) s)"
| "release_step (Clear_Size lp) s = map_option (Pair []) (update_level lp (\<lambda>lv. lv\<lparr>tl_size := 0\<rparr>) s)"
| "release_step (Clear_Buffer lp) s = map_option (Pair []) (update_level lp (\<lambda>lv. lv\<lparr>tl_buffer :=
     replicate (tl_size lv) 0 @ drop (tl_size lv) (tl_buffer lv)\<rparr>) s)"
| "release_step (Free_Level lp) s = map_option (Pair []) (free_level lp s)"
| "release_step (Up_Mutex lp) s = map_option (Pair []) (set_w_mutex False lp s)"
| "release_step (Wake_Level lp) s = map_option (Pair []) (wake_up_all lp s)"

definition registered_receiver :: "request \<Rightarrow> addr \<Rightarrow> addr \<Rightarrow> receiver" where
  "registered_receiver rq te lp = \<lparr>rc_tag = rq_tag rq, rc_level = rq_level rq, rc_entry = te, rc_lp = lp,
     rc_size = rq_size rq, rc_buffer = rq_buffer rq\<rparr>"

text \<open>A sender ends in the releases of its last \<open>return\<close>.\<close>

fun send_micro :: "send_point \<Rightarrow> kernel \<Rightarrow> (point \<times> kernel) option" where
  "send_micro (Send_Lock dp) s = do {
     (ok, s) \<leftarrow> interruptible (tag_lock_op down_read (dp_tag dp)) s;
     Some (if ok then Sending (Send_Look dp) else Finish [] (- EINTR) [], s)
   }"
| "send_micro (Send_Look dp) s = Some (case k_tags s ! dp_tag dp of
       None \<Rightarrow> Finish [Up_Tag (dp_tag dp)] (- ENODATA) []
     | Some te \<Rightarrow> Sending (Send_Check dp te), s)"
| "send_micro (Send_Check dp te) s = do {
     tag_entry \<leftarrow> k_tag_heap s te;
     Some (if CHECKPERM tag_entry (dp_euid dp) then Finish [Up_Tag (dp_tag dp)] (- EPERM) []
           else Sending (Send_Count_Tag dp te), s)
   }"
| "send_micro (Send_Count_Tag dp te) s = do {
     tag_entry \<leftarrow> k_tag_heap s te;
     Some (if tg_waiting tag_entry = 0 then Finish [Up_Tag (dp_tag dp)] 0 []
           else Sending (Send_Lock_Level dp te), s)
   }"
| "send_micro (Send_Lock_Level dp te) s = do {
     (ok, s) \<leftarrow> interruptible (level_lock_op down_read te (dp_level dp)) s;
     Some (if ok then Sending (Send_Look_Level dp te) else Finish [Up_Tag (dp_tag dp)] (- EINTR) [], s)
   }"
| "send_micro (Send_Look_Level dp te) s = do {
     tag_entry \<leftarrow> k_tag_heap s te;
     Some (case tg_tag_level tag_entry ! dp_level dp of
         None \<Rightarrow> Finish [Up_Level te (dp_level dp), Up_Tag (dp_tag dp)] (- EINTR) []
       | Some lp \<Rightarrow> Sending (Send_Lock_Rcu dp te lp), s)
   }"
| "send_micro (Send_Lock_Rcu dp te lp) s = do {
     (ok, s) \<leftarrow> interruptible (rcu_lock_op down_read lp) s;
     Some (if ok then Sending (Send_Unlock_Level dp te lp)
           else Finish [Up_Level te (dp_level dp), Up_Tag (dp_tag dp)] (- EINTR) [], s)
   }"
| "send_micro (Send_Unlock_Level dp te lp) s = do {
     s \<leftarrow> level_lock_op up_read te (dp_level dp) s;
     Some (Sending (Send_Mutex dp lp), s)
   }"
| "send_micro (Send_Mutex dp lp) s = do {
     lv \<leftarrow> k_level_heap s lp;
     if tl_w_mutex lv then Some (Finish [Up_Rcu lp, Up_Tag (dp_tag dp)] 0 [], s)
     else do {
       s \<leftarrow> set_w_mutex True lp s;
       Some (Sending (Send_Test_Ready dp lp), s)
     }
   }"
| "send_micro (Send_Test_Ready dp lp) s = do {
     lv \<leftarrow> k_level_heap s lp;
     Some (if tl_ready lv = 1 then Finish [Up_Mutex lp, Up_Rcu lp, Up_Tag (dp_tag dp)] 0 []
           else Sending (Send_Count dp lp), s)
   }"
| "send_micro (Send_Count dp lp) s = do {
     lv \<leftarrow> k_level_heap s lp;
     Some (if tl_waiting lv = 0 then Finish [Up_Mutex lp, Up_Rcu lp, Up_Tag (dp_tag dp)] 0 []
           else if dp_size dp > 0 then Sending (Send_Copy dp lp) else Sending (Send_Size dp lp), s)
   }"
| "send_micro (Send_Copy dp lp) s = do {
     lv \<leftarrow> k_level_heap s lp;
     let (fail, buffer, s) = copy_from_user (tl_buffer lv) (dp_data dp) (dp_size dp) s
     in do {
       s \<leftarrow> update_level lp (\<lambda>lv. lv\<lparr>tl_buffer := buffer\<rparr>) s;
       Some (if fail \<noteq> 0 then Finish [Up_Rcu lp, Up_Tag (dp_tag dp), Up_Mutex lp] (- EFAULT) []
             else Sending (Send_Size dp lp), s)
     }
   }"
| "send_micro (Send_Size dp lp) s = do {
     s \<leftarrow> update_level lp (\<lambda>lv. lv\<lparr>tl_size := dp_size dp\<rparr>) s;
     Some (Sending (Send_Ready dp lp), s)
   }"
| "send_micro (Send_Ready dp lp) s = do {
     s \<leftarrow> update_level lp (\<lambda>lv. lv\<lparr>tl_ready := 1\<rparr>) s;
     Some (Finish [Up_Mutex lp, Wake_Level lp, Up_Rcu lp, Up_Tag (dp_tag dp)] 1 [], s)
   }"

fun micro :: "tid \<Rightarrow> point \<Rightarrow> kernel \<Rightarrow> (point \<times> kernel) option" where
  "micro t (Lock_Tag rq) s = do {
     (ok, s) \<leftarrow> interruptible (tag_lock_op down_read (rq_tag rq)) s;
     Some (if ok then Look_Tag rq else Finish [] (- EINTR) [], s)
   }"
| "micro t (Look_Tag rq) s = Some (case k_tags s ! rq_tag rq of
       None \<Rightarrow> Finish [Up_Tag (rq_tag rq)] (- ENODATA) []
     | Some te \<Rightarrow> Check_Perm rq te, s)"
| "micro t (Check_Perm rq te) s = do {
     tag_entry \<leftarrow> k_tag_heap s te;
     Some (if CHECKPERM tag_entry (rq_euid rq) then Finish [Up_Tag (rq_tag rq)] (- EPERM) []
           else Lock_Level rq te, s)
   }"
| "micro t (Lock_Level rq te) s = do {
     (ok, s) \<leftarrow> interruptible (level_lock_op down_read te (rq_level rq)) s;
     Some (if ok then Look_Level rq te else Finish [Up_Tag (rq_tag rq)] (- EINTR) [], s)
   }"
| "micro t (Look_Level rq te) s = do {
     tag_entry \<leftarrow> k_tag_heap s te;
     Some (case tg_tag_level tag_entry ! rq_level rq of
         None \<Rightarrow> Finish [Up_Level te (rq_level rq), Up_Tag (rq_tag rq)] (- EINVAL) []
       | Some lp \<Rightarrow> Count_Tag rq te lp, s)
   }"
| "micro t (Count_Tag rq te lp) s = do {
     s \<leftarrow> update_tag te (\<lambda>tg. tg\<lparr>tg_waiting := tg_waiting tg + 1\<rparr>) s;
     Some (Lock_Rcu rq te lp, s)
   }"
| "micro t (Lock_Rcu rq te lp) s = do {
     (ok, s) \<leftarrow> interruptible (rcu_lock_op down_read lp) s;
     Some (if ok then Unlock_Level rq te lp
           else Finish [Dec_Tag te, Up_Level te (rq_level rq), Up_Tag (rq_tag rq)] (- EINTR) [], s)
   }"
| "micro t (Unlock_Level rq te lp) s = do {
     s \<leftarrow> level_lock_op up_read te (rq_level rq) s;
     Some (Test_Ready rq te lp, s)
   }"
| "micro t (Test_Ready rq te lp) s = do {
     lv \<leftarrow> k_level_heap s lp;
     Some (if tl_ready lv = 1 then Epoch_Lock rq te lp else Count_Level rq te lp, s)
   }"
| "micro t (Epoch_Lock rq te lp) s = do {
     (ok, s) \<leftarrow> interruptible (level_lock_op down_write te (rq_level rq)) s;
     Some (if ok then Epoch_Look rq te lp
           else Finish [Dec_Tag te, Up_Rcu lp, Up_Tag (rq_tag rq)] (- EINTR) [], s)
   }"
| "micro t (Epoch_Look rq te lp) s = do {
     tag_entry \<leftarrow> k_tag_heap s te;
     case tg_tag_level tag_entry ! rq_level rq of
       None \<Rightarrow> Some (Finish [Up_Write_Level te (rq_level rq), Dec_Tag te, Up_Rcu lp, Up_Tag (rq_tag rq)] (- EINVAL) [], s)
     | Some old_level \<Rightarrow> do {
         old \<leftarrow> k_level_heap s old_level;
         if tl_ready old = 1 then
           let (new_level, s) = create_level (rq_level rq) (to_c_int (tl_epoch old + 1)) s
           in Some (case new_level of
               None \<Rightarrow> Finish [Up_Write_Level te (rq_level rq), Dec_Tag te, Up_Rcu lp, Up_Tag (rq_tag rq)] (- ENOMEM) []
             | Some new \<Rightarrow> Epoch_Install rq te lp old_level new, s)
         else Some (Epoch_Unlock_Old rq te lp old_level old_level, s)
       }
   }"
| "micro t (Epoch_Install rq te lp old new) s = do {
     s \<leftarrow> update_tag te (\<lambda>tg. tg\<lparr>tg_tag_level := (tg_tag_level tg)[rq_level rq := Some new]\<rparr>) s;
     Some (Epoch_Unlock_Old rq te lp old new, s)
   }"
| "micro t (Epoch_Unlock_Old rq te lp old new) s = do {
     s \<leftarrow> rcu_lock_op up_read lp s;
     Some (Epoch_Lock_New rq te old new, s)
   }"
| "micro t (Epoch_Lock_New rq te old new) s = do {
     (ok, s) \<leftarrow> interruptible (rcu_lock_op down_read new) s;
     Some (if ok then Epoch_Unlock rq te new
           else Finish [Restore_Level te (rq_level rq) old, Up_Write_Level te (rq_level rq), Dec_Tag te,
             Up_Tag (rq_tag rq)] (- EINTR) [], s)
   }"
| "micro t (Epoch_Unlock rq te new) s = do {
     s \<leftarrow> level_lock_op up_write te (rq_level rq) s;
     Some (Count_Level rq te new, s)
   }"
| "micro t (Count_Level rq te lp) s = do {
     s \<leftarrow> update_level lp (\<lambda>lv. lv\<lparr>tl_waiting := tl_waiting lv + 1\<rparr>) s;
     Some (Waiting (registered_receiver rq te lp), s)
   }"
| "micro t (Waiting c) s = None"
| "micro t (Leave_Queue woken c) s = do {
     s \<leftarrow> update_level (rc_lp c) (\<lambda>lv. lv\<lparr>tl_local_wq := removeAll t (tl_local_wq lv)\<rparr>) s;
     Some (Get_Code woken c, s)
   }"
| "micro t (Get_Code woken c) s = do {
     lv \<leftarrow> k_level_heap s (rc_lp c);
     tag_entry \<leftarrow> k_tag_heap s (rc_entry c);
     Some (Copy (if woken then (if tg_ready tag_entry \<noteq> 0 then 0 else if tl_ready lv \<noteq> 0 then 1 else 0) else 0) c, s)
   }"
| "micro t (Copy code c) s = do {
     lv \<leftarrow> k_level_heap s (rc_lp c);
     let current_size = min (rc_size c) (tl_size lv);
     if code = 1 \<and> tl_ready lv \<noteq> 0 \<and> current_size > 0 \<and> rc_buffer c then
       let (fail, bytes, s) = copy_to_user (tl_buffer lv) current_size s
       in Some (Unlock_Rcu (if fail \<noteq> 0 then - EFAULT else code) bytes c, s)
     else Some (Unlock_Rcu code [] c, s)
   }"
| "micro t (Unlock_Rcu code bytes c) s = do {
     s \<leftarrow> rcu_lock_op up_read (rc_lp c) s;
     Some (Dec_Level code bytes c, s)
   }"
| "micro t (Dec_Level code bytes c) s = do {
     s \<leftarrow> update_level (rc_lp c) (\<lambda>lv. lv\<lparr>tl_waiting := tl_waiting lv - 1\<rparr>) s;
     lv \<leftarrow> k_level_heap s (rc_lp c);
     Some (if tl_waiting lv = 0 then Try_Lock code bytes c
           else Finish [Dec_Tag (rc_entry c), Up_Tag (rc_tag c)] code bytes, s)
   }"
| "micro t (Try_Lock code bytes c) s = do {
     s \<leftarrow> rcu_lock_op down_write (rc_lp c) s;
     Some (Look_New code bytes c, s)
   }"
| "micro t (Look_New code bytes c) s = do {
     tag_entry \<leftarrow> k_tag_heap s (rc_entry c);
     case tg_tag_level tag_entry ! rc_level c of
       None \<Rightarrow> Some (Finish [Dec_Tag (rc_entry c), Up_Write_Rcu (rc_lp c), Up_Tag (rc_tag c)] (- EPROTO) bytes, s)
     | Some new \<Rightarrow> do {
         new_lv \<leftarrow> k_level_heap s new;
         lv \<leftarrow> k_level_heap s (rc_lp c);
         Some (Finish ((if tl_epoch new_lv > tl_epoch lv then [Up_Write_Rcu (rc_lp c), Free_Level (rc_lp c)]
           else [Clear_Ready (rc_lp c), Clear_Size (rc_lp c), Clear_Buffer (rc_lp c), Up_Write_Rcu (rc_lp c)]) @
           [Dec_Tag (rc_entry c), Up_Tag (rc_tag c)]) code bytes, s)
       }
   }"
| "micro t (Finish [] code bytes) s = None"
| "micro t (Finish (r # rs) code bytes) s = do {
     (more, s) \<leftarrow> release_step r s;
     Some (Finish (more @ rs) code bytes, s)
   }"
| "micro t (Sending sp) s = send_micro sp s"

text \<open>A thread that runs alone, up to the wait or to its return.\<close>

partial_function (option) solo :: "tid \<Rightarrow> point \<Rightarrow> kernel \<Rightarrow> (point \<times> kernel) option" where
  "solo t p s = (if resting p then Some (p, s) else do { (p, s) \<leftarrow> micro t p s; solo t p s })"

lemma solo_rest: "resting p \<Longrightarrow> solo t p s = Some (p, s)"
  by (simp add: solo.simps)

lemma solo_step: "\<not> resting p \<Longrightarrow> solo t p s = do { (p, s) \<leftarrow> micro t p s; solo t p s }"
  by (subst solo.simps) simp

section \<open>The steps of a thread that runs alone\<close>

text \<open>All the releases, one after the other.\<close>

fun releases :: "release list \<Rightarrow> kernel \<Rightarrow> kernel option" where
  "releases [] s = Some s"
| "releases (Dec_Tag te # rs) s = do { s \<leftarrow> tag_waiting_dec te s; releases rs s }"
| "releases (r # rs) s = do { (_, s) \<leftarrow> release_step r s; releases rs s }"

lemma releases_append: "releases (as @ bs) s = do { s \<leftarrow> releases as s; releases bs s }"
proof (induction as arbitrary: s)
  case (Cons r as)
  have "releases (as @ bs) = (\<lambda>s. Option.bind (releases as s) (releases bs))"
    by (rule ext) (rule Cons.IH)
  then show ?case by (cases r) (simp_all add: split_def)
qed simp

lemma read_again:
  "Option.bind m (\<lambda>x. Option.bind n (\<lambda>y. Option.bind m (h x y))) =
     Option.bind m (\<lambda>x. Option.bind n (\<lambda>y. h x y x))"
  by (cases m; cases n) simp_all

lemma read_again_branch:
  "Option.bind m (\<lambda>x. if b x then f x else Option.bind m (g x)) = Option.bind m (\<lambda>x. if b x then f x else g x x)"
  by (cases m) simp_all

lemma same_first: "(if b then Option.bind m f else Option.bind m g) = Option.bind m (\<lambda>x. if b then f x else g x)"
  by simp

lemma releases_branch: "releases (if b then as else bs) s = (if b then releases as s else releases bs s)"
  by simp

lemma update_level_twice:
  "Option.bind (update_level lp f s) (\<lambda>s. Option.bind (update_level lp g s) h) =
     Option.bind (update_level lp (g \<circ> f) s) h"
  by (cases "k_level_heap s lp") (simp_all add: update_level_def)

lemma dec_tag_eq:
  "do { (zero, s) \<leftarrow> dec_tag te s; if zero then update_tag te (\<lambda>tg. tg\<lparr>tg_ready := 0\<rparr>) s else Some s } =
     tag_waiting_dec te s"
  by (cases "k_tag_heap s te") (auto simp: dec_tag_def tag_waiting_dec_def update_tag_def)

lemma solo_finish:
  "solo t (Finish rs code bytes) s = map_option (Pair (Finish [] code bytes)) (releases rs s)"
proof (induction rs arbitrary: s)
  case (Cons r rs)
  show ?case
  proof (cases "\<exists>te. r = Dec_Tag te")
    case True
    then obtain te where r: "r = Dec_Tag te" by blast
    have "releases (r # rs) s = do { s \<leftarrow> tag_waiting_dec te s; releases rs s }" by (simp add: r)
    also have "\<dots> = do { (zero, s) \<leftarrow> dec_tag te s;
        s \<leftarrow> (if zero then update_tag te (\<lambda>tg. tg\<lparr>tg_ready := 0\<rparr>) s else Some s); releases rs s }"
      unfolding dec_tag_eq [symmetric] by (cases "dec_tag te s") auto
    finally show ?thesis
      by (cases "dec_tag te s")
        (auto simp: r solo_step Cons.IH update_tag_def split: option.splits bind_splits)
  next
    case False
    then show ?thesis
      by (cases r) (auto simp: solo_step Cons.IH split: bind_splits option.splits)
  qed
qed (simp add: solo_rest)

text \<open>The result of an entry as a point.\<close>

definition arrival :: "(int + receiver) \<times> kernel \<Rightarrow> point \<times> kernel" where
  "arrival x = (case x of (r, s) \<Rightarrow> (case r of Inl code \<Rightarrow> Finish [] code [] | Inr c \<Rightarrow> Waiting c, s))"

lemma same_level:
  assumes "k_tag_heap s te = Some tg" and "tg_tag_level tg ! l = Some p"
  shows "update_tag te (\<lambda>tg. tg\<lparr>tg_tag_level := (tg_tag_level tg)[l := Some p]\<rparr>) s = Some s"
proof -
  have "tg\<lparr>tg_tag_level := (tg_tag_level tg)[l := Some p]\<rparr> = tg"
    using assms(2) by (metis list_update_id tag.surjective tag.update_convs(6))
  then have "(k_tag_heap s)(te \<mapsto> tg\<lparr>tg_tag_level := (tg_tag_level tg)[l := Some p]\<rparr>) = k_tag_heap s"
    using assms(1) by (simp add: map_upd_same)
  then show ?thesis using assms(1) by (simp add: update_tag_def)
qed

text \<open>Distribution over the branches of the code, to compare two programs as terms.\<close>

lemma solo_branch:
  "solo t (if b then p else q) s = (if b then solo t p s else solo t q s)"
  "solo t (case m of None \<Rightarrow> p | Some x \<Rightarrow> f x) s = (case m of None \<Rightarrow> solo t p s | Some x \<Rightarrow> solo t (f x) s)"
  by (simp_all split: option.split)

lemma bind_branch:
  "Option.bind (if b then m else m') g = (if b then Option.bind m g else Option.bind m' g)"
  "Option.bind (case x of None \<Rightarrow> m | Some y \<Rightarrow> f y) g = (case x of None \<Rightarrow> Option.bind m g | Some y \<Rightarrow> Option.bind (f y) g)"
  "Option.bind (case z of (u, v) \<Rightarrow> h u v) g = (case z of (u, v) \<Rightarrow> Option.bind (h u v) g)"
  by (simp_all split: option.split prod.split)

lemma map_as_bind: "map_option F m = Option.bind m (\<lambda>x. Some (F x))"
  by (cases m) simp_all

lemma case_branch:
  "fst (if b then x else y) = (if b then fst x else fst y)" "snd (if b then x else y) = (if b then snd x else snd y)"
  "case_option u f (if b then m else m') = (if b then case_option u f m else case_option u f m')"
  "Option.bind (case_sum h h' z) g = case_sum (\<lambda>x. Option.bind (h x) g) (\<lambda>x. Option.bind (h' x) g) z"
  by (simp_all split: sum.split)

lemma if_neg: "(if \<not> b then x else y) = (if b then y else x)"
  by simp

lemmas branches = solo_branch bind_branch case_branch map_as_bind if_neg split_def

lemma solo_unlock_old:
  "solo t (Epoch_Unlock_Old rq te lp old new) s = do {
     s \<leftarrow> rcu_lock_op up_read lp s;
     (ok, s) \<leftarrow> interruptible (rcu_lock_op down_read new) s;
     if \<not> ok then do {
       s \<leftarrow> update_tag te (\<lambda>tg. tg\<lparr>tg_tag_level := (tg_tag_level tg)[rq_level rq := Some old]\<rparr>) s;
       s \<leftarrow> level_lock_op up_write te (rq_level rq) s;
       s \<leftarrow> tag_waiting_dec te s;
       s \<leftarrow> tag_lock_op up_read (rq_tag rq) s;
       Some (Finish [] (- EINTR) [], s)
     } else do {
       s \<leftarrow> level_lock_op up_write te (rq_level rq) s;
       solo t (Count_Level rq te new) s
     } }"
  by (simp add: solo_step solo_finish branches cong: if_cong option.case_cong)

lemma solo_epoch:
  "solo t (Epoch_Lock rq te lp) s = do {
     (r, s) \<leftarrow> tag_receive_epoch (rq_tag rq) (rq_level rq) te lp s;
     case r of Inl code \<Rightarrow> Some (Finish [] code [], s) | Inr lp \<Rightarrow> solo t (Count_Level rq te lp) s }"
  by (simp add: solo_step [of "Epoch_Lock rq te lp"] solo_step [of "Epoch_Look rq te lp"]
      solo_step [of "Epoch_Install rq te lp old new" for old new] solo_unlock_old solo_finish
      tag_receive_epoch_def Let_def branches cong: if_cong option.case_cong)

lemma enter_steps:
  assumes "\<not> bad_message_args tag level sz"
    and "rq = \<lparr>rq_tag = nat tag, rq_level = nat level, rq_buffer = buffer,
      rq_size = (if buffer then sz else 0), rq_euid = euid\<rparr>"
  shows "solo t (Lock_Tag rq) s = map_option arrival (tag_receive_enter tag level buffer sz euid s)"
proof -
  have rq: "rq_tag rq = nat tag" "rq_level rq = nat level" "rq_buffer rq = buffer"
    "rq_size rq = (if buffer then sz else 0)" "rq_euid rq = euid" using assms(2) by simp_all
  have count: "solo t (Count_Level rq te lp) s = do {
      s \<leftarrow> update_level lp (\<lambda>lv. lv\<lparr>tl_waiting := tl_waiting lv + 1\<rparr>) s;
      Some (Waiting (registered_receiver rq te lp), s) }" for te lp s
    by (simp add: solo_step branches) (simp add: solo_rest)
  show ?thesis
    using assms(1)
    by (simp add: tag_receive_enter_def Let_def solo_epoch arrival_def registered_receiver_def rq count
        solo_step [of "Lock_Tag rq"] solo_step [of "Look_Tag rq"]
        solo_step [of "Check_Perm rq te" for te] solo_step [of "Lock_Level rq te" for te]
        solo_step [of "Look_Level rq te" for te] solo_step [of "Count_Tag rq te lp" for te lp]
        solo_step [of "Lock_Rcu rq te lp" for te lp] solo_step [of "Unlock_Level rq te lp" for te lp]
        solo_step [of "Test_Ready rq te lp" for te lp] solo_finish
        branches cong: if_cong option.case_cong sum.case_cong)
qed

lemma leave_steps:
  "solo t (Leave_Queue woken c) s =
     map_option (\<lambda>(code, bytes, s). (Finish [] code bytes, s)) (tag_receive_leave t woken c s)"
  by (simp add: tag_receive_leave_def receive_message_def receive_last_def Let_def
      solo_step [of "Leave_Queue woken c"] solo_step [of "Get_Code woken c"] solo_step [of "Copy code c" for code]
      solo_step [of "Unlock_Rcu code bytes c" for code bytes] solo_step [of "Dec_Level code bytes c" for code bytes]
      solo_step [of "Try_Lock code bytes c" for code bytes] solo_step [of "Look_New code bytes c" for code bytes]
      solo_finish releases_append releases_branch update_level_twice read_again comp_def branches
      cong: if_cong option.case_cong)

section \<open>The steps of a sender\<close>

lemma solo_send: "solo t (Sending sp) s = do { (p, s) \<leftarrow> send_micro sp s; solo t p s }"
  by (simp add: solo_step)

lemma send_level_steps:
  "solo t (Sending (Send_Mutex dp lp)) s =
     map_option (\<lambda>(code, s). (Finish [] code [], s)) (tag_send_level (dp_tag dp) lp (dp_data dp) (dp_size dp) s)"
proof (cases "k_level_heap s lp")
  case None
  then show ?thesis by (simp add: solo_send tag_send_level_def)
next
  case (Some lv)
  then show ?thesis
    by (simp add: solo_send tag_send_level_def solo_finish update_level_def set_w_mutex_def Let_def branches
        cong: if_cong option.case_cong)
qed

lemma send_steps:
  assumes "\<not> bad_message_args tag level sz"
    and "dp = \<lparr>dp_tag = nat tag, dp_level = nat level, dp_data = (case buffer of Some d \<Rightarrow> d | None \<Rightarrow> []),
      dp_size = (if buffer = None then 0 else sz), dp_euid = euid\<rparr>"
  shows "solo t (Sending (Send_Lock dp)) s =
    map_option (\<lambda>(code, s). (Finish [] code [], s)) (tag_send tag level buffer sz euid s)"
proof -
  have dp: "dp_tag dp = nat tag" "dp_level dp = nat level" "dp_data dp = (case buffer of Some d \<Rightarrow> d | None \<Rightarrow> [])"
    "dp_size dp = (if buffer = None then 0 else sz)" "dp_euid dp = euid" using assms(2) by simp_all
  show ?thesis
    using assms(1)
    by (simp add: tag_send_def Let_def send_level_steps [unfolded split_def] solo_finish dp read_again read_again_branch same_first
        solo_send [of t "Send_Lock dp"] solo_send [of t "Send_Look dp"] solo_send [of t "Send_Check dp te" for te]
        solo_send [of t "Send_Count_Tag dp te" for te] solo_send [of t "Send_Lock_Level dp te" for te]
        solo_send [of t "Send_Look_Level dp te" for te] solo_send [of t "Send_Lock_Rcu dp te lp" for te lp]
        solo_send [of t "Send_Unlock_Level dp te lp" for te lp] branches cong: if_cong option.case_cong)
qed

end
