(* ===== verification/Receive_Interleaving.thy ===== *)
theory Receive_Interleaving
  imports Receive_Steps Tag_Examples
begin

text \<open>
  Threads inside \<open>tag_receive\<close> and \<open>tag_send\<close> interleaved step by step. Every run of \<open>Tag_System\<close> is
  one of these runs; there are more, and some of them show what the coarse steps hide.
\<close>

section \<open>Steps\<close>

text \<open>
  The point of each thread inside \<open>tag_receive\<close> or \<open>tag_send\<close>. The other calls are single steps. A thread
  starts a call once the checks of the arguments have passed.
\<close>

type_synonym threads = "tid \<Rightarrow> point option"

definition request_of :: "int \<Rightarrow> int \<Rightarrow> bool \<Rightarrow> nat \<Rightarrow> int \<Rightarrow> request" where
  "request_of tag level buffer sz euid = \<lparr>rq_tag = nat tag, rq_level = nat level, rq_buffer = buffer,
     rq_size = (if buffer then sz else 0), rq_euid = euid\<rparr>"

definition dispatch_of :: "int \<Rightarrow> int \<Rightarrow> u8 list option \<Rightarrow> nat \<Rightarrow> int \<Rightarrow> dispatch" where
  "dispatch_of tag level buffer sz euid = \<lparr>dp_tag = nat tag, dp_level = nat level,
     dp_data = (case buffer of Some d \<Rightarrow> d | None \<Rightarrow> []), dp_size = (if buffer = None then 0 else sz), dp_euid = euid\<rparr>"

inductive fine_step :: "kernel \<Rightarrow> threads \<Rightarrow> kernel \<Rightarrow> threads \<Rightarrow> bool" where
  get: "key \<le> INT_MAX \<Longrightarrow> tag_get key command permission euid k = Some (r, k') \<Longrightarrow> fine_step k P k' P"
| ctl: "tag_ctl tag command euid k = Some (r, k') \<Longrightarrow> fine_step k P k' P"
| start: "P t = None \<Longrightarrow> \<not> bad_message_args tag level sz \<Longrightarrow>
    fine_step k P k (P(t \<mapsto> Lock_Tag (request_of tag level buffer sz euid)))"
| start_send: "P t = None \<Longrightarrow> \<not> bad_message_args tag level sz \<Longrightarrow>
    fine_step k P k (P(t \<mapsto> Sending (Send_Lock (dispatch_of tag level buffer sz euid))))"
| micro: "P t = Some p \<Longrightarrow> micro t p k = Some (p', k') \<Longrightarrow> fine_step k P k' (P(t \<mapsto> p'))"
| sleep: "P t = Some (Waiting c) \<Longrightarrow> wait_condition c k = Some False \<Longrightarrow> receive_sleep t c k = Some k' \<Longrightarrow>
    fine_step k P k' P"
| wake: "P t = Some (Waiting c) \<Longrightarrow> wait_condition c k = Some True \<Longrightarrow> \<not> asleep k t c \<Longrightarrow>
    fine_step k P k (P(t \<mapsto> Leave_Queue True c))"
| signal: "P t = Some (Waiting c) \<Longrightarrow> fine_step k P k (P(t \<mapsto> Leave_Queue False c))"
| return: "P t = Some (Finish [] code bytes) \<Longrightarrow> fine_step k P k (P(t := None))"
| environment: "env_eq k k' \<Longrightarrow> fine_step k P k' P"

inductive fine_reachable :: "kernel \<Rightarrow> threads \<Rightarrow> bool" where
  start: "initialize no_globals al = Some (0, g, al') \<Longrightarrow> service g al' sig cp = Some k \<Longrightarrow>
    fine_reachable k Map.empty"
| step: "fine_reachable k P \<Longrightarrow> fine_step k P k' P' \<Longrightarrow> fine_reachable k' P'"

section \<open>The coarse runs are among the fine ones\<close>

lemma solo_reachable:
  assumes "solo t p k = Some (p', k')" and "fine_reachable k P" and "P t = Some p"
  shows "fine_reachable k' (P(t \<mapsto> p'))"
proof -
  have "\<forall>P. fine_reachable k P \<longrightarrow> P t = Some p \<longrightarrow> fine_reachable (snd (p', k')) (P(t \<mapsto> fst (p', k')))"
  proof (rule solo.raw_induct [where P = "\<lambda>t p k r. \<forall>P. fine_reachable k P \<longrightarrow> P t = Some p \<longrightarrow>
        fine_reachable (snd r) (P(t \<mapsto> fst r))", OF _ assms(1)])
    fix solo t p k r
    assume IH: "\<And>t p k r. solo t p k = Some r \<Longrightarrow>
        \<forall>P. fine_reachable k P \<longrightarrow> P t = Some p \<longrightarrow> fine_reachable (snd r) (P(t \<mapsto> fst r))"
      and step: "(if resting p then Some (p, k) else do { (p, k) \<leftarrow> micro t p k; solo t p k }) = Some r"
    show "\<forall>P. fine_reachable k P \<longrightarrow> P t = Some p \<longrightarrow> fine_reachable (snd r) (P(t \<mapsto> fst r))"
    proof (intro allI impI)
      fix P assume P: "fine_reachable k P" "P t = Some p"
      show "fine_reachable (snd r) (P(t \<mapsto> fst r))"
      proof (cases "resting p")
        case True
        then have "r = (p, k)" using step by simp
        then show ?thesis using P by (simp add: fun_upd_idem)
      next
        case False
        then obtain q s where q: "micro t p k = Some (q, s)" "solo t q s = Some r"
          using step by (auto split: bind_splits)
        have "fine_reachable s (P(t \<mapsto> q))" using P q(1) by (blast intro: fine_reachable.step fine_step.micro)
        then have "fine_reachable (snd r) ((P(t \<mapsto> q))(t \<mapsto> fst r))"
          using IH [OF q(2), rule_format, of "P(t \<mapsto> q)"] by simp
        then show ?thesis by (simp only: fun_upd_upd)
      qed
    qed
  qed
  with assms(2,3) show ?thesis by simp
qed

text \<open>A call of \<open>tag_send\<close> without interruption, by a thread that is in no other call.\<close>

lemma fine_send:
  assumes r: "fine_reachable k P" and t: "P t = None" and e: "tag_send tag level buffer sz euid k = Some (code, k')"
  shows "fine_reachable k' P"
proof (cases "bad_message_args tag level sz")
  case True
  then show ?thesis using r e by (simp add: tag_send_def)
next
  case False
  let ?p = "Sending (Send_Lock (dispatch_of tag level buffer sz euid))"
  have start: "fine_reachable k (P(t \<mapsto> ?p))" by (rule fine_reachable.step [OF r fine_step.start_send]) (rule t, rule False)
  have "solo t ?p k = Some (Finish [] code [], k')" by (simp add: send_steps [OF False dispatch_of_def] e)
  from solo_reachable [OF this start]
  have "fine_reachable k' (P(t \<mapsto> Finish [] code []))" by simp
  from fine_reachable.step [OF this fine_step.return [where t = t]]
  show ?thesis using t by (simp add: fun_upd_idem)
qed

definition waiting_threads :: "receivers \<Rightarrow> threads" where
  "waiting_threads R = (\<lambda>t. map_option Waiting (R t))"

lemma waiting_threads_simps:
  "waiting_threads Map.empty = Map.empty"
  "waiting_threads (R(t := None)) = (waiting_threads R)(t := None)"
  "waiting_threads (R(t \<mapsto> c)) = (waiting_threads R)(t \<mapsto> Waiting c)"
  "R t = None \<Longrightarrow> waiting_threads R t = None"
  "R t = Some c \<Longrightarrow> waiting_threads R t = Some (Waiting c)"
  "R t = None \<Longrightarrow> (waiting_threads R)(t := None) = waiting_threads R"
  by (auto simp: waiting_threads_def fun_eq_iff)

lemma enter_reachable:
  assumes r: "fine_reachable k (waiting_threads R)" and t: "R t = None"
    and e: "tag_receive_enter tag level buffer sz euid k = Some (res, k')"
  shows "fine_reachable k' (waiting_threads (case res of Inl _ \<Rightarrow> R | Inr c \<Rightarrow> R(t \<mapsto> c)))"
proof (cases "bad_message_args tag level sz")
  case True
  then have "res = Inl (- EINVAL)" "k' = k" using e by (auto simp: tag_receive_enter_def)
  then show ?thesis using r by simp
next
  case False
  let ?P = "(waiting_threads R)(t \<mapsto> Lock_Tag (request_of tag level buffer sz euid))"
  have start: "fine_reachable k ?P"
    by (rule fine_reachable.step [OF r fine_step.start [OF _ False]]) (simp add: waiting_threads_simps t)
  have "solo t (Lock_Tag (request_of tag level buffer sz euid)) k = Some (arrival (res, k'))"
    by (simp add: enter_steps [OF False request_of_def] e)
  then have solo: "fine_reachable k' (?P(t \<mapsto> (case res of Inl code \<Rightarrow> Finish [] code [] | Inr c \<Rightarrow> Waiting c)))"
    by (intro solo_reachable [OF _ start]) (simp_all add: arrival_def split: sum.splits)
  show ?thesis
  proof (cases res)
    case (Inl code)
    have "fine_reachable k' ((?P(t \<mapsto> Finish [] code []))(t := None))"
      using solo Inl by (intro fine_reachable.step [OF _ fine_step.return]) auto
    then show ?thesis using Inl by (simp add: waiting_threads_simps t)
  next
    case (Inr c)
    then show ?thesis using solo by (simp add: waiting_threads_simps)
  qed
qed

lemma leave_reachable:
  assumes r: "fine_reachable k ((waiting_threads R)(t \<mapsto> Leave_Queue woken c))"
    and l: "tag_receive_leave t woken c k = Some (code, bytes, k')"
  shows "fine_reachable k' (waiting_threads (R(t := None)))"
proof -
  have "solo t (Leave_Queue woken c) k = Some (Finish [] code bytes, k')" by (simp add: leave_steps l)
  from solo_reachable [OF this r]
  have "fine_reachable k' ((waiting_threads R)(t \<mapsto> Finish [] code bytes))" by simp
  from fine_reachable.step [OF this fine_step.return [where t = t]]
  show ?thesis by (simp add: waiting_threads_simps)
qed

lemma idle_thread:
  assumes "reachable k R"
  obtains t where "R t = None"
  using ex_new_if_finite [OF infinite_UNIV_nat sys_invD(1) [OF reachable_inv [OF assms]]] that by (auto simp: dom_def)

lemma reachable_fine: "reachable k R \<Longrightarrow> fine_reachable k (waiting_threads R)"
proof (induction rule: reachable.induct)
  case (start al g al' sig cp k)
  then show ?case by (auto simp: waiting_threads_simps intro: fine_reachable.start)
next
  case (step k R k' R')
  note r = step.IH
  from step(2) show ?case
  proof cases
    case get
    then show ?thesis using fine_reachable.step [OF r fine_step.get] by blast
  next
    case send
    obtain t where "R t = None" by (rule idle_thread [OF step.hyps(1)])
    from fine_send [OF r waiting_threads_simps(4) [of R, OF this] send(2)] show ?thesis by (simp add: send(1))
  next
    case ctl
    then show ?thesis using fine_reachable.step [OF r fine_step.ctl] by blast
  next
    case enter
    then show ?thesis using enter_reachable [OF r enter(2,4)] unfolding enter(1) by (simp only: sum.case)
  next
    case refused
    then show ?thesis using enter_reachable [OF r refused(2,4)] unfolding refused(1) by (simp only: sum.case)
  next
    case (sleep t c)
    from fine_reachable.step [OF r fine_step.sleep [OF _ sleep(3,4)]] sleep(1,2) show ?thesis
      by (simp add: waiting_threads_simps)
  next
    case (leave t c code bytes)
    from fine_reachable.step [OF r fine_step.wake [OF _ leave(3,4)]] leave(2)
    have "fine_reachable k ((waiting_threads R)(t \<mapsto> Leave_Queue True c))" by (simp add: waiting_threads_simps)
    from leave_reachable [OF this leave(5)] show ?thesis unfolding leave(1) .
  next
    case (signal t c code bytes)
    from fine_reachable.step [OF r fine_step.signal] signal(2)
    have "fine_reachable k ((waiting_threads R)(t \<mapsto> Leave_Queue False c))" by (simp add: waiting_threads_simps)
    from leave_reachable [OF this signal(3)] show ?thesis unfolding signal(1) .
  next
    case environment
    then show ?thesis using fine_reachable.step [OF r fine_step.environment] by blast
  qed
qed

text \<open>
  C10. The single steps of \<open>tag_receive\<close> and \<open>tag_send\<close> amount to their handlers: in every state a receiver
  that runs alone gets from its first step to the wait, or to its return, exactly as \<open>tag_receive_enter\<close>
  says, and from the end of the wait to its return exactly as \<open>tag_receive_leave\<close> says; a sender that runs
  alone gets from its first step to its return exactly as \<open>tag_send\<close> says; one is stuck where the other is.
\<close>

theorem parts_alone:
  assumes "\<not> bad_message_args tag level sz"
  shows "solo t (Lock_Tag (request_of tag level dst sz euid)) s =
      map_option arrival (tag_receive_enter tag level dst sz euid s) \<and>
    solo t (Leave_Queue woken c) s =
      map_option (\<lambda>(code, bytes, s). (Finish [] code bytes, s)) (tag_receive_leave t woken c s) \<and>
    solo t (Sending (Send_Lock (dispatch_of tag level src sz euid))) s =
      map_option (\<lambda>(code, s). (Finish [] code [], s)) (tag_send tag level src sz euid s)"
  by (simp only: enter_steps [OF assms request_of_def] leave_steps send_steps [OF assms dispatch_of_def])

theorem parts_alone_witness:
  "\<forall>s. solo 7 (Lock_Tag (request_of 0 3 True 10 0)) s = map_option arrival (tag_receive_enter 0 3 True 10 0 s)"
proof -
  have "\<not> bad_message_args 0 3 10" by (simp add: bad_message_args_def MAX_TAGS_def LEVELS_def BUFFER_SIZE_def)
  from parts_alone [OF this] show ?thesis by simp
qed

end
