(* ===== verification/Receive_Safety.thy ===== *)
theory Receive_Safety
  imports Receive_Interleaving
begin

text \<open>
  What holds in every interleaving of single steps: the lock of a tag counts the threads inside
  \<open>tag_receive\<close> and \<open>tag_send\<close> between its acquisition and its release, and the tag of such a thread stays
  in place.
\<close>

section \<open>Published tags\<close>

text \<open>
  The part of a state that says which tags exist: pointers, numbers in use, and the descriptor stored in
  each entry.
\<close>

type_synonym skeleton = "addr option list \<times> bitmask \<times> (addr \<Rightarrow> int option)"

definition skel :: "kernel \<Rightarrow> skeleton" where
  "skel k = (k_tags k, k_tag_bitmask k, \<lambda>a. map_option tg_tag_key (k_tag_heap k a))"

definition skel_ok :: "skeleton \<Rightarrow> addr \<Rightarrow> bool" where
  "skel_ok x n \<longleftrightarrow> (case x of (ptrs, bm, keys) \<Rightarrow>
     bm_wf bm \<and> bm_cap bm = 256 \<and> length ptrs = 256 \<and>
     (\<forall>i<256. \<forall>te. ptrs ! i = Some te \<longrightarrow> keys te = Some (int i) \<and> i \<in> bm_used bm) \<and>
     (\<forall>a\<ge>n. keys a = None))"

lemma skel_okD:
  assumes "skel_ok (skel k) n"
  shows "bm_wf (k_tag_bitmask k)" "bm_cap (k_tag_bitmask k) = 256" "length (k_tags k) = 256"
    "\<And>i te. i < 256 \<Longrightarrow> k_tags k ! i = Some te \<Longrightarrow>
      i \<in> bm_used (k_tag_bitmask k) \<and> (\<exists>tg. k_tag_heap k te = Some tg \<and> tg_tag_key tg = int i)"
    "\<And>a. n \<le> a \<Longrightarrow> k_tag_heap k a = None"
  using assms by (auto simp: skel_ok_def skel_def)

lemma skel_ok_mono: "skel_ok x n \<Longrightarrow> n \<le> m \<Longrightarrow> skel_ok x m"
  by (auto simp: skel_ok_def)

text \<open>Operations on locks, levels and counters leave it alone.\<close>

lemma skel_update [simp]:
  "skel (k\<lparr>k_tag_table := t\<rparr>) = skel k" "skel (k\<lparr>k_common_lock := l\<rparr>) = skel k"
  "skel (k\<lparr>k_tag_lock := ls\<rparr>) = skel k" "skel (k\<lparr>k_level_heap := h\<rparr>) = skel k"
  "skel (k\<lparr>k_next := a\<rparr>) = skel k" "skel (k\<lparr>k_alloc := al\<rparr>) = skel k"
  "skel (k\<lparr>k_signal := sg\<rparr>) = skel k" "skel (k\<lparr>k_copy := cp\<rparr>) = skel k"
  by (simp_all add: skel_def)

definition quiet :: "kernel \<Rightarrow> kernel \<Rightarrow> bool" where
  "quiet k k' \<longleftrightarrow> skel k' = skel k \<and> k_tag_lock k' = k_tag_lock k \<and> k_next k \<le> k_next k'"

lemma quiet_refl [simp, intro]: "quiet k k"
  by (simp add: quiet_def)

lemma quiet_trans [trans]: "quiet a b \<Longrightarrow> quiet b c \<Longrightarrow> quiet a c"
  by (auto simp: quiet_def)

lemma quiet_tag: "k_tag_heap k te = Some tg \<Longrightarrow> tg_tag_key tg' = tg_tag_key tg \<Longrightarrow>
    quiet k (k\<lparr>k_tag_heap := (k_tag_heap k)(te \<mapsto> tg')\<rparr>)"
  by (auto simp: quiet_def skel_def fun_eq_iff)

lemma quiet_ops:
  "common_lock_op f k = Some k' \<Longrightarrow> quiet k k'"
  "level_lock_op f te l k = Some k' \<Longrightarrow> quiet k k'"
  "rcu_lock_op f lp k = Some k' \<Longrightarrow> quiet k k'"
  "update_level lp g k = Some k' \<Longrightarrow> quiet k k'"
  "free_level lp k = Some k' \<Longrightarrow> quiet k k'"
  "copy_to_user src n k = (r, bs, k') \<Longrightarrow> quiet k k'"
  "copy_from_user dst src n k = (r, bs, k') \<Longrightarrow> quiet k k'"
  "kzalloc k = (ok, k') \<Longrightarrow> quiet k k'"
  "create_level i e k = (p, k') \<Longrightarrow> quiet k k'"
  by (auto simp: common_lock_op_def level_lock_op_def rcu_lock_op_def update_level_def free_level_def
      copy_to_user_def copy_from_user_def kzalloc_def create_level_def Let_def quiet_def
      split: bind_splits prod.splits if_splits)
    (auto simp: skel_def fun_eq_iff)

lemma quiet_level_fields:
  "set_w_mutex b lp k = Some k' \<Longrightarrow> quiet k k'" "wake_up_all lp k = Some k' \<Longrightarrow> quiet k k'"
  by (auto simp: set_w_mutex_def wake_up_all_def dest: quiet_ops)

lemma quiet_update_tag:
  "update_tag te g k = Some k' \<Longrightarrow> (\<And>tg. tg_tag_key (g tg) = tg_tag_key tg) \<Longrightarrow> quiet k k'"
  by (auto simp: update_tag_def intro!: quiet_tag split: bind_splits)

lemma interruptibleD:
  "interruptible acq k = Some (ok, k') \<Longrightarrow> \<exists>k1. quiet k k1 \<and> (if ok then acq k1 = Some k' else k' = k1)"
  by (rule exI [of _ "k\<lparr>k_signal := snd (next_outcome (k_signal k))\<rparr>"])
    (auto simp: interruptible_eq quiet_def split: if_splits)

lemma quiet_interruptible:
  "interruptible acq k = Some (ok, k') \<Longrightarrow> (\<And>a b. acq a = Some b \<Longrightarrow> quiet a b) \<Longrightarrow> quiet k k'"
  by (drule interruptibleD) (auto intro: quiet_trans split: if_splits)

lemma quiet_interruptible_locks:
  "interruptible (common_lock_op f) k = Some (ok, k') \<Longrightarrow> quiet k k'"
  "interruptible (level_lock_op f te l) k = Some (ok, k') \<Longrightarrow> quiet k k'"
  "interruptible (rcu_lock_op f lp) k = Some (ok, k') \<Longrightarrow> quiet k k'"
  by (rule quiet_interruptible, assumption, rule quiet_ops, assumption)+

lemma quiet_tag_fields:
  "update_tag te (\<lambda>tg. tg\<lparr>tg_ready := c tg\<rparr>) k = Some k' \<Longrightarrow> quiet k k'"
  "update_tag te (\<lambda>tg. tg\<lparr>tg_waiting := d tg\<rparr>) k = Some k' \<Longrightarrow> quiet k k'"
  "update_tag te (\<lambda>tg. tg\<lparr>tg_tag_level := e tg\<rparr>) k = Some k' \<Longrightarrow> quiet k k'"
  by (erule quiet_update_tag, simp)+

lemmas quiets = quiet_ops quiet_level_fields quiet_interruptible_locks quiet_tag_fields

section \<open>What a thread holds\<close>

text \<open>The descriptor whose lock a thread holds, and the entries it works on.\<close>

fun released_tag :: "release list \<Rightarrow> nat option" where
  "released_tag [] = None"
| "released_tag (Up_Tag i # rs) = Some i"
| "released_tag (r # rs) = released_tag rs"

fun send_tag :: "send_point \<Rightarrow> nat option" where
  "send_tag (Send_Lock dp) = None"
| "send_tag (Send_Look dp) = Some (dp_tag dp)"
| "send_tag (Send_Check dp te) = Some (dp_tag dp)"
| "send_tag (Send_Count_Tag dp te) = Some (dp_tag dp)"
| "send_tag (Send_Lock_Level dp te) = Some (dp_tag dp)"
| "send_tag (Send_Look_Level dp te) = Some (dp_tag dp)"
| "send_tag (Send_Lock_Rcu dp te lp) = Some (dp_tag dp)"
| "send_tag (Send_Unlock_Level dp te lp) = Some (dp_tag dp)"
| "send_tag (Send_Mutex dp lp) = Some (dp_tag dp)"
| "send_tag (Send_Test_Ready dp lp) = Some (dp_tag dp)"
| "send_tag (Send_Count dp lp) = Some (dp_tag dp)"
| "send_tag (Send_Copy dp lp) = Some (dp_tag dp)"
| "send_tag (Send_Size dp lp) = Some (dp_tag dp)"
| "send_tag (Send_Ready dp lp) = Some (dp_tag dp)"

fun tag_of :: "point \<Rightarrow> nat option" where
  "tag_of (Lock_Tag rq) = None"
| "tag_of (Look_Tag rq) = Some (rq_tag rq)"
| "tag_of (Check_Perm rq te) = Some (rq_tag rq)"
| "tag_of (Lock_Level rq te) = Some (rq_tag rq)"
| "tag_of (Look_Level rq te) = Some (rq_tag rq)"
| "tag_of (Count_Tag rq te lp) = Some (rq_tag rq)"
| "tag_of (Lock_Rcu rq te lp) = Some (rq_tag rq)"
| "tag_of (Unlock_Level rq te lp) = Some (rq_tag rq)"
| "tag_of (Test_Ready rq te lp) = Some (rq_tag rq)"
| "tag_of (Epoch_Lock rq te lp) = Some (rq_tag rq)"
| "tag_of (Epoch_Look rq te lp) = Some (rq_tag rq)"
| "tag_of (Epoch_Install rq te lp old new) = Some (rq_tag rq)"
| "tag_of (Epoch_Unlock_Old rq te lp old new) = Some (rq_tag rq)"
| "tag_of (Epoch_Lock_New rq te old new) = Some (rq_tag rq)"
| "tag_of (Epoch_Unlock rq te new) = Some (rq_tag rq)"
| "tag_of (Count_Level rq te lp) = Some (rq_tag rq)"
| "tag_of (Waiting c) = Some (rc_tag c)"
| "tag_of (Leave_Queue woken c) = Some (rc_tag c)"
| "tag_of (Get_Code woken c) = Some (rc_tag c)"
| "tag_of (Copy code c) = Some (rc_tag c)"
| "tag_of (Unlock_Rcu code bytes c) = Some (rc_tag c)"
| "tag_of (Dec_Level code bytes c) = Some (rc_tag c)"
| "tag_of (Try_Lock code bytes c) = Some (rc_tag c)"
| "tag_of (Look_New code bytes c) = Some (rc_tag c)"
| "tag_of (Finish rs code bytes) = released_tag rs"
| "tag_of (Sending sp) = send_tag sp"

fun release_entry :: "release \<Rightarrow> addr set" where
  "release_entry (Dec_Tag te) = {te}"
| "release_entry (Reset_Tag te) = {te}"
| "release_entry (Up_Level te l) = {te}"
| "release_entry (Up_Write_Level te l) = {te}"
| "release_entry (Restore_Level te l old) = {te}"
| "release_entry r = {}"

fun send_entries :: "send_point \<Rightarrow> addr set" where
  "send_entries (Send_Check dp te) = {te}"
| "send_entries (Send_Count_Tag dp te) = {te}"
| "send_entries (Send_Lock_Level dp te) = {te}"
| "send_entries (Send_Look_Level dp te) = {te}"
| "send_entries (Send_Lock_Rcu dp te lp) = {te}"
| "send_entries (Send_Unlock_Level dp te lp) = {te}"
| "send_entries sp = {}"

fun entries_of :: "point \<Rightarrow> addr set" where
  "entries_of (Check_Perm rq te) = {te}"
| "entries_of (Lock_Level rq te) = {te}"
| "entries_of (Look_Level rq te) = {te}"
| "entries_of (Count_Tag rq te lp) = {te}"
| "entries_of (Lock_Rcu rq te lp) = {te}"
| "entries_of (Unlock_Level rq te lp) = {te}"
| "entries_of (Test_Ready rq te lp) = {te}"
| "entries_of (Epoch_Lock rq te lp) = {te}"
| "entries_of (Epoch_Look rq te lp) = {te}"
| "entries_of (Epoch_Install rq te lp old new) = {te}"
| "entries_of (Epoch_Unlock_Old rq te lp old new) = {te}"
| "entries_of (Epoch_Lock_New rq te old new) = {te}"
| "entries_of (Epoch_Unlock rq te new) = {te}"
| "entries_of (Count_Level rq te lp) = {te}"
| "entries_of (Waiting c) = {rc_entry c}"
| "entries_of (Leave_Queue woken c) = {rc_entry c}"
| "entries_of (Get_Code woken c) = {rc_entry c}"
| "entries_of (Copy code c) = {rc_entry c}"
| "entries_of (Unlock_Rcu code bytes c) = {rc_entry c}"
| "entries_of (Dec_Level code bytes c) = {rc_entry c}"
| "entries_of (Try_Lock code bytes c) = {rc_entry c}"
| "entries_of (Look_New code bytes c) = {rc_entry c}"
| "entries_of (Finish rs code bytes) = (\<Union>r\<in>set rs. release_entry r)"
| "entries_of (Sending sp) = send_entries sp"
| "entries_of p = {}"

text \<open>
  The lock of the tag is released once, and nothing but a mutex of a level after it: a sender whose
  copy fails lets the mutex go last.
\<close>

fun after_tag :: "release list \<Rightarrow> bool" where
  "after_tag [] = True"
| "after_tag (Up_Mutex lp # rs) = after_tag rs"
| "after_tag (r # rs) = False"

fun closing :: "release list \<Rightarrow> bool" where
  "closing [] = True"
| "closing (Up_Tag i # rs) = after_tag rs"
| "closing (Up_Mutex lp # rs) = closing rs"
| "closing (r # rs) = (released_tag rs \<noteq> None \<and> closing rs)"

lemma after_tagD:
  "after_tag rs \<Longrightarrow> released_tag rs = None" "after_tag rs \<Longrightarrow> closing rs"
  "after_tag rs \<Longrightarrow> r \<in> set rs \<Longrightarrow> release_entry r = {}"
  by (induction rs rule: after_tag.induct) auto

lemma closing_after: "closing rs \<Longrightarrow> released_tag rs = None \<Longrightarrow> after_tag rs"
  by (induction rs rule: closing.induct) auto

fun closed :: "point \<Rightarrow> bool" where
  "closed (Finish rs code bytes) = closing rs"
| "closed p = True"

section \<open>One step of a thread\<close>

text \<open>A step acquires the lock of the tag, releases it, or does neither.\<close>

inductive lock_change :: "kernel \<Rightarrow> kernel \<Rightarrow> nat option \<Rightarrow> nat option \<Rightarrow> bool" for k k' where
  none: "quiet k k' \<Longrightarrow> lock_change k k' h h"
| acquire: "skel k' = skel k \<Longrightarrow> k_next k \<le> k_next k' \<Longrightarrow> down_read (k_tag_lock k ! i) = Some l \<Longrightarrow>
    k_tag_lock k' = (k_tag_lock k)[i := l] \<Longrightarrow> lock_change k k' None (Some i)"
| release: "skel k' = skel k \<Longrightarrow> k_next k \<le> k_next k' \<Longrightarrow> up_read (k_tag_lock k ! i) = Some l \<Longrightarrow>
    k_tag_lock k' = (k_tag_lock k)[i := l] \<Longrightarrow> lock_change k k' (Some i) None"

lemma dec_tag_quiet:
  assumes "dec_tag te k = Some (zero, k')"
  shows "quiet k k'"
  using assms by (auto simp: dec_tag_def split: bind_splits intro: quiet_update_tag)

lemma release_step_change:
  assumes "release_step r k = Some (rs', k')" and "closing (r # rs)"
  shows "lock_change k k' (released_tag (r # rs)) (released_tag (rs' @ rs)) \<and> closing (rs' @ rs)"
  using assms
  by (cases r)
    (auto simp: tag_lock_op_def after_tagD split: bind_splits if_splits dest!: dec_tag_quiet quiets
      intro: lock_change.intros)

lemma release_step_entries:
  "release_step r k = Some (rs', k') \<Longrightarrow> x \<in> set rs' \<Longrightarrow> te \<in> release_entry x \<Longrightarrow> te \<in> release_entry r"
  by (cases r) (auto split: bind_splits if_splits)

lemma send_micro_change:
  assumes "send_micro sp k = Some (p', k')"
  shows "lock_change k k' (send_tag sp) (tag_of p') \<and> closed p'"
proof (cases "\<exists>dp. sp = Send_Lock dp")
  case True
  then obtain dp ok where sp: "sp = Send_Lock dp" "interruptible (tag_lock_op down_read (dp_tag dp)) k = Some (ok, k')"
      "p' = (if ok then Sending (Send_Look dp) else Finish [] (- EINTR) [])" using assms by (auto split: bind_splits)
  from interruptibleD [OF sp(2)] sp(1,3) show ?thesis
    by (auto simp: tag_lock_op_def quiet_def split: bind_splits if_splits
        intro: lock_change.none lock_change.acquire)
next
  case False
  then show ?thesis
    using assms
    by (cases sp) (auto simp: Let_def split: bind_splits if_splits option.splits prod.splits
      dest!: quiets intro!: lock_change.none intro: quiet_trans)
qed

lemma micro_change:
  assumes "micro t p k = Some (p', k')" and "closed p"
  shows "lock_change k k' (tag_of p) (tag_of p') \<and> closed p'"
  using assms
proof (induction t p k rule: micro.induct)
  case (1 t rq s)
  from 1(1) obtain ok where ok: "interruptible (tag_lock_op down_read (rq_tag rq)) s = Some (ok, k')"
      "p' = (if ok then Look_Tag rq else Finish [] (- EINTR) [])" by (auto split: bind_splits)
  from interruptibleD [OF ok(1)] ok(2) show ?case
    by (auto simp: tag_lock_op_def quiet_def split: bind_splits if_splits
        intro: lock_change.none lock_change.acquire)
next
  case (26 t r rs code bytes s)
  then show ?case by (auto split: bind_splits dest: release_step_change)
next
  case (27 t sp s)
  then show ?case using send_micro_change by simp
qed (auto simp: Let_def split: bind_splits if_splits option.splits prod.splits
    simp: registered_receiver_def dest!: quiets intro!: lock_change.none)

lemma send_micro_entries:
  "send_micro sp k = Some (p', k') \<Longrightarrow> te \<in> entries_of p' \<Longrightarrow>
    te \<in> send_entries sp \<or> (\<exists>i. send_tag sp = Some i \<and> k_tags k ! i = Some te)"
  by (cases sp) (auto simp: Let_def split: bind_splits if_splits option.splits prod.splits)

lemma micro_entries:
  assumes "micro t p k = Some (p', k')" and "te \<in> entries_of p'"
  shows "te \<in> entries_of p \<or> (\<exists>i. tag_of p = Some i \<and> k_tags k ! i = Some te)"
  using assms
proof (induction t p k rule: micro.induct)
  case (26 t r rs code bytes s)
  then show ?case by (auto split: bind_splits dest: release_step_entries)
next
  case (27 t sp s)
  then show ?case using send_micro_entries by simp
qed (auto simp: Let_def registered_receiver_def split: bind_splits if_splits option.splits prod.splits)

section \<open>Whole calls\<close>

text \<open>The lock of a tag, taken and released by the same call.\<close>

lemma lock_unlock:
  "down_read l = Some l1 \<Longrightarrow> up_read l1 = Some l2 \<Longrightarrow> l2 = l"
  "down_write l = Some l1 \<Longrightarrow> up_write l1 = Some l2 \<Longrightarrow> l2 = l"
  by (auto simp: down_read_def up_read_def down_write_def up_write_def split: if_splits nat.splits)

text \<open>The calls that make no object keep the lock table, the skeleton and the next address.\<close>

definition core :: "kernel \<Rightarrow> skeleton \<times> rwsem list \<times> addr" where
  "core k = (skel k, k_tag_lock k, k_next k)"

lemma core_tag: "k_tag_heap k te = Some tg \<Longrightarrow> tg_tag_key tg' = tg_tag_key tg \<Longrightarrow>
    core (k\<lparr>k_tag_heap := (k_tag_heap k)(te \<mapsto> tg')\<rparr>) = core k"
  by (auto simp: core_def skel_def fun_eq_iff)

lemma core_ops:
  "level_lock_op f te l k = Some k' \<Longrightarrow> core k' = core k"
  "rcu_lock_op f lp k = Some k' \<Longrightarrow> core k' = core k"
  "update_level lp g k = Some k' \<Longrightarrow> core k' = core k"
  "copy_from_user dst src n k = (r, bs, k') \<Longrightarrow> core k' = core k"
  "update_tag te (\<lambda>tg. tg\<lparr>tg_ready := c tg\<rparr>) k = Some k' \<Longrightarrow> core k' = core k"
  by (auto simp: level_lock_op_def rcu_lock_op_def update_level_def copy_from_user_def update_tag_def
      Let_def core_tag split: bind_splits prod.splits) (simp_all add: core_def)

lemma core_interruptible:
  assumes "interruptible acq k = Some (ok, k')" and "\<And>a b. acq a = Some b \<Longrightarrow> core b = core a"
  shows "core k' = core k"
proof -
  have "core (k\<lparr>k_signal := sg\<rparr>) = core k" for sg by (simp add: core_def)
  then show ?thesis using assms by (auto simp: interruptible_eq split: if_splits)
qed

lemma core_interruptible_locks:
  "interruptible (level_lock_op f te l) k = Some (ok, k') \<Longrightarrow> core k' = core k"
  "interruptible (rcu_lock_op f lp) k = Some (ok, k') \<Longrightarrow> core k' = core k"
  by (rule core_interruptible, assumption, rule core_ops, assumption)+

lemmas cores = core_ops core_interruptible_locks

text \<open>With one more reader of the lock of tag \<open>i\<close>.\<close>

definition core_with :: "nat \<Rightarrow> kernel \<Rightarrow> skeleton \<times> rwsem list \<times> addr" where
  "core_with i k = (skel k, (k_tag_lock k)[i := (k_tag_lock k ! i)\<lparr>rw_readers := Suc (rw_readers (k_tag_lock k ! i))\<rparr>],
     k_next k)"

lemma core_lock:
  "interruptible (tag_lock_op down_read i) k = Some (ok, s) \<Longrightarrow> core s = (if ok then core_with i k else core k)"
  by (auto simp: interruptible_eq tag_lock_op_def core_def core_with_def down_read_def split: if_splits bind_splits)

lemma core_unlock:
  assumes "tag_lock_op up_read i s = Some s'" and "core s = core_with i k" and "i < length (k_tag_lock k)"
  shows "core s' = core k"
  using assms by (auto simp: tag_lock_op_def core_def core_with_def up_read_def split: bind_splits)

text \<open>What holds of every result of a program.\<close>

definition results :: "'a option \<Rightarrow> ('a \<Rightarrow> bool) \<Rightarrow> bool" where
  "results m Q \<longleftrightarrow> (\<forall>x. m = Some x \<longrightarrow> Q x)"

lemma results_rules:
  "Q x \<Longrightarrow> results (Some x) Q"
  "(\<And>y. n = Some y \<Longrightarrow> results (f y) Q) \<Longrightarrow> results (Option.bind n f) Q"
  "(b \<Longrightarrow> results m Q) \<Longrightarrow> (\<not> b \<Longrightarrow> results m' Q) \<Longrightarrow> results (if b then m else m') Q"
  "(z = None \<Longrightarrow> results m Q) \<Longrightarrow> (\<And>u. z = Some u \<Longrightarrow> results (g u) Q) \<Longrightarrow>
    results (case z of None \<Rightarrow> m | Some u \<Rightarrow> g u) Q"
  "(\<And>a b. w = (a, b) \<Longrightarrow> results (h a b) Q) \<Longrightarrow> results (case w of (a, b) \<Rightarrow> h a b) Q"
  by (auto simp: results_def split: option.split prod.split if_splits bind_splits)

lemma awake_core:
  "core s = core k \<Longrightarrow> results (awake_levels n i te s) (\<lambda>x. core (snd x) = core k)"
proof (induction n arbitrary: i s)
  case 0
  then show ?case by (simp add: results_def)
next
  case (Suc n)
  then show ?case
    unfolding awake_levels.simps wake_up_all_def
    by (intro results_rules) (auto split: prod.splits if_splits bind_splits option.splits dest!: cores)
qed

lemma awake_all_core:
  assumes "tag < length (k_tag_lock k)"
  shows "results (tag_ctl_awake_all tag euid k) (\<lambda>x. core (snd x) = core k)"
proof -
  have "core s' = core s" if "awake_levels n i te s = Some (ok, s')" for n i s ok s' te
    using awake_core [OF refl, of n i te s] that by (simp add: results_def)
  then show ?thesis
    unfolding tag_ctl_awake_all_def
    by (intro results_rules)
      (auto split: prod.splits if_splits bind_splits dest!: core_lock cores core_unlock [OF _ _ assms])
qed

text \<open>Calls that change the bitmask.\<close>

definition core_mask :: "bitmask \<Rightarrow> skeleton \<times> rwsem list \<times> addr \<Rightarrow> skeleton \<times> rwsem list \<times> addr" where
  "core_mask bm c = (case c of ((ptrs, _, keys), locks, n) \<Rightarrow> ((ptrs, bm, keys), locks, n))"

lemma core_fields:
  "core (k\<lparr>k_tag_table := t\<rparr>) = core k" "core (k\<lparr>k_alloc := al\<rparr>) = core k"
  "core (k\<lparr>k_tag_table := t, k_alloc := al\<rparr>) = core k"
  "core (set_bitmask bm k) = core_mask bm (core k)" "core_mask bm (core_mask bm' c) = core_mask bm c"
  by (simp_all add: core_def set_bitmask_def skel_def core_mask_def split: prod.split)

lemma core_bitmask: "core a = core b \<Longrightarrow> k_tag_bitmask a = k_tag_bitmask b"
  by (simp add: core_def skel_def)

lemma core_common:
  "common_lock_op f k = Some k' \<Longrightarrow> core k' = core k"
  "interruptible (common_lock_op f) k = Some (ok, k') \<Longrightarrow> core k' = core k"
  by (auto simp: common_lock_op_def interruptible_eq core_def split: bind_splits if_splits)

lemma clear_common_core:
  assumes "core s = core k" and "clear_number (k_tag_bitmask k) (int i) = Some (1, bm)"
  shows "results (clear_tag_common key (int i) s)
    (\<lambda>x. core (snd x) = (if fst x = 0 then core_mask bm (core k) else core k))"
proof -
  have bm: "clear_number (k_tag_bitmask s') (int i) = Some (1, bm)" if "core s' = core k" for s'
    using core_bitmask [OF that] assms(2) by simp
  show ?thesis
    unfolding clear_tag_common_def Let_def
    using assms(1)
    by (intro results_rules)
      (auto simp: EINTR_def core_fields split: prod.splits if_splits bind_splits option.splits
        dest!: core_common simp: bm)
qed

text \<open>What every call of another thread guarantees to the threads inside \<open>tag_receive\<close> and \<open>tag_send\<close>.\<close>

definition keeps :: "kernel \<Rightarrow> kernel \<Rightarrow> bool" where
  "keeps k k' \<longleftrightarrow> k_tag_lock k' = k_tag_lock k \<and> skel_ok (skel k') (k_next k') \<and>
     (\<forall>i<256. rw_readers (k_tag_lock k ! i) \<noteq> 0 \<longrightarrow>
        (\<forall>te. k_tags k ! i = Some te \<longrightarrow> k_tags k' ! i = Some te))"

lemma keeps_core: "core k' = core k \<Longrightarrow> skel_ok (skel k) (k_next k) \<Longrightarrow> keeps k k'"
  by (simp add: keeps_def core_def) (simp add: skel_def)

lemma keeps_quiet: "quiet k k' \<Longrightarrow> skel_ok (skel k) (k_next k) \<Longrightarrow> keeps k k'"
  by (auto simp: keeps_def quiet_def intro: skel_ok_mono) (simp add: skel_def)

lemma clear_levels_core: "results (clear_tag_level ps s) (\<lambda>s'. core s' = core s)"
proof (induction ps s rule: clear_tag_level.induct)
  case (3 lp rest s)
  have "core s' = core s" if "free_level lp s = Some s'" for s'
    using that by (auto simp: free_level_def core_def split: bind_splits)
  then have "results (clear_tag_level rest s') (\<lambda>s''. core s'' = core s)" if "free_level lp s = Some s'" for s'
    using 3 [OF that] that by simp
  then show ?case unfolding clear_tag_level.simps by (intro results_rules) simp
qed (simp_all add: results_def)

lemma core_free_tag:
  assumes "kfree_tag te s = Some s'" and "core s = core_mask bm (core k)"
  shows "skel s' = (k_tags k, bm, (\<lambda>a. map_option tg_tag_key (k_tag_heap k a))(te := None))"
    "k_tag_lock s' = k_tag_lock k" "k_next s' = k_next k"
proof -
  have s: "s' = s\<lparr>k_tag_heap := (k_tag_heap s)(te := None)\<rparr>"
    using assms(1) by (auto simp: kfree_tag_def split: bind_splits)
  have c: "k_tags s = k_tags k" "k_tag_bitmask s = bm" "k_tag_lock s = k_tag_lock k" "k_next s = k_next k"
    and keys: "(\<lambda>a. map_option tg_tag_key (k_tag_heap s a)) = (\<lambda>a. map_option tg_tag_key (k_tag_heap k a))"
    using assms(2) by (simp_all add: core_def core_mask_def skel_def)
  have "map_option tg_tag_key (k_tag_heap s a) = map_option tg_tag_key (k_tag_heap k a)" for a
    using fun_cong [OF keys] .
  then show "skel s' = (k_tags k, bm, (\<lambda>a. map_option tg_tag_key (k_tag_heap k a))(te := None))"
    using c by (simp add: s skel_def fun_eq_iff)
  show "k_tag_lock s' = k_tag_lock k" "k_next s' = k_next k" using c by (simp_all add: s)
qed

lemma unpublish_keeps:
  assumes ok: "skel_ok (skel k) (k_next k)" and i: "i < 256" "k_tags k ! i = Some te"
    and free: "rw_readers (k_tag_lock k ! i) = 0" and tg: "k_tag_heap k te = Some tg" "tg_tag_key tg = int i"
    and bm: "bm_wf bm" "bm_used bm = bm_used (k_tag_bitmask k) - {i}" "bm_cap bm = bm_cap (k_tag_bitmask k)"
    and t: "k_tags t = (k_tags k)[i := None]" "k_tag_bitmask t = k_tag_bitmask k" "k_tag_heap t = k_tag_heap k"
      "k_tag_lock t = k_tag_lock k" "k_next t = k_next k"
    and k': "kfree_tag te t' = Some k'" "core t' = core_mask bm (core t)"
  shows "keeps k k'"
proof -
  have keys: "te' \<noteq> te" if "j < 256" "j \<noteq> i" "k_tags k ! j = Some te'" for j te'
    using skel_okD(4) [OF ok that(1,3)] tg that(2) by auto
  have "skel_ok (skel k') (k_next k')"
    using ok core_free_tag [OF k'] bm t keys by (auto simp: skel_ok_def skel_def nth_list_update i(1))
  then show ?thesis
    using core_free_tag [OF k'] t free skel_okD(3) [OF ok] i(1) by (auto simp: keeps_def skel_def nth_list_update)
qed

text \<open>The part of \<open>DELETE\<close> after the pointer is cleared and the lock released, in a state \<open>y\<close>.\<close>

lemma delete_rest_keeps:
  assumes ok: "skel_ok (skel k) (k_next k)" and i: "i < 256" "k_tags k ! i = Some te"
    and free: "rw_readers (k_tag_lock k ! i) = 0" and tg: "k_tag_heap k te = Some tg"
    and y: "core y = core (k\<lparr>k_tags := (k_tags k)[i := None]\<rparr>)"
  shows "results
     (if tg_waiting tg \<noteq> 0 then Some (- EPROTO, y\<lparr>k_tags := (k_tags y)[i := Some te]\<rparr>)
      else do {
        (r, s) \<leftarrow> clear_tag_common (tg_key tg) (tg_tag_key tg) y;
        if r \<noteq> 0 then Some (- EINTR, s\<lparr>k_tags := (k_tags s)[i := Some te]\<rparr>)
        else do {
          s \<leftarrow> clear_tag_level (tg_tag_level tg) s;
          s \<leftarrow> kfree_tag te s;
          Some (1, s)
        }
      }) (\<lambda>x. keeps k (snd x))"
proof -
  define t where "t = k\<lparr>k_tags := (k_tags k)[i := None]\<rparr>"
  have t: "k_tags t = (k_tags k)[i := None]" "k_tag_bitmask t = k_tag_bitmask k" "k_tag_heap t = k_tag_heap k"
    "k_tag_lock t = k_tag_lock k" "k_next t = k_next k" by (simp_all add: t_def)
  have key: "tg_tag_key tg = int i" "i \<in> bm_used (k_tag_bitmask k)" using skel_okD(4) [OF ok i] tg by auto
  obtain bm where bm: "clear_number (k_tag_bitmask k) (int i) = Some (1, bm)" "bm_wf bm"
      "bm_used bm = bm_used (k_tag_bitmask k) - {i}" "bm_cap bm = bm_cap (k_tag_bitmask k)"
    using bm.give_used [OF skel_okD(1) [OF ok] key(2)] by blast
  have restored: "keeps k (s\<lparr>k_tags := (k_tags s)[i := Some te]\<rparr>)" if "core s = core t" for s
  proof -
    have "core (s\<lparr>k_tags := (k_tags s)[i := Some te]\<rparr>) = core k"
      using that t i skel_okD(3) [OF ok] by (simp add: core_def skel_def list_update_same_conv)
    then show ?thesis using ok by (rule keeps_core)
  qed
  have clear: "core s = (if r = 0 then core_mask bm (core t) else core t)"
    if "clear_tag_common (tg_key tg) (tg_tag_key tg) y = Some (r, s)" for r s
    using clear_common_core [of y t i bm "tg_key tg"] y bm(1) t(2) that key(1) by (fastforce simp: results_def t_def)
  have freed: "keeps k k'" if "clear_tag_common (tg_key tg) (tg_tag_key tg) y = Some (0, s)"
      "clear_tag_level ps s = Some s'" "kfree_tag te s' = Some k'" for ps s s' k'
  proof -
    have "core s' = core_mask bm (core t)" using clear [OF that(1)] clear_levels_core that(2) by (auto simp: results_def)
    then show ?thesis by (rule unpublish_keeps [OF ok i free tg key(1) bm(2-4) t that(3)])
  qed
  show ?thesis
    using y [folded t_def] by (intro results_rules) (auto dest: clear intro!: restored intro: freed)
qed

lemma delete_keeps:
  assumes ok: "skel_ok (skel k) (k_next k)" and i: "tag < 256" "length (k_tag_lock k) = 256"
  shows "results (tag_ctl_delete tag euid k) (\<lambda>x. keeps k (snd x))"
proof (cases "tag_lock_op down_write tag k")
  case None
  then show ?thesis using keeps_core [OF refl ok] by (simp add: tag_ctl_delete_def results_def)
next
  case (Some s)
  then obtain l where l: "down_write (k_tag_lock k ! tag) = Some l" "s = k\<lparr>k_tag_lock := (k_tag_lock k)[tag := l]\<rparr>"
    by (auto simp: tag_lock_op_def split: bind_splits)
  then have free: "rw_readers (k_tag_lock k ! tag) = 0" by (simp add: down_write_def split: if_splits)
  have up: "s' = t\<lparr>k_tag_lock := k_tag_lock k\<rparr>"
    if "tag_lock_op up_write tag t = Some s'" "k_tag_lock t = (k_tag_lock k)[tag := l]" for t s'
    using that i lock_unlock(2) [OF l(1)] by (auto simp: tag_lock_op_def list_update_same_conv split: bind_splits)
  have same: "keeps k y" if "tag_lock_op up_write tag (k\<lparr>k_tag_lock := (k_tag_lock k)[tag := l]\<rparr>) = Some y" for y
    using up [OF that] ok by (intro keeps_core) (simp_all add: core_def)
  show ?thesis
  proof (cases "k_tags k ! tag")
    case None
    then show ?thesis
      using Some l(2) same by (auto simp: tag_ctl_delete_def results_def split: bind_splits)
  next
    case te: (Some te)
    obtain tg where tg: "k_tag_heap k te = Some tg" using skel_okD(4) [OF ok i(1) te] by auto
    have cleared: "core y = core (k\<lparr>k_tags := (k_tags k)[tag := None]\<rparr>)"
      if "tag_lock_op up_write tag (k\<lparr>k_tag_lock := (k_tag_lock k)[tag := l], k_tags := (k_tags k)[tag := None]\<rparr>) =
        Some y" for y
      using up [OF that] by (simp add: core_def skel_def)
    note rest = delete_rest_keeps [OF ok i(1) te free tg cleared]
    show ?thesis
      unfolding tag_ctl_delete_def Some option.case
      using rest same
      by (simp add: l(2) te tg) (intro conjI impI results_rules; simp add: results_def)
  qed
qed

lemma ctl_keeps:
  assumes "skel_ok (skel k) (k_next k)" and "length (k_tag_lock k) = 256"
  shows "results (tag_ctl tag command euid k) (\<lambda>x. keeps k (snd x))"
proof (cases "tag < 0 \<or> tag \<ge> MAX_TAGS")
  case True
  then show ?thesis using keeps_core [OF refl assms(1)] by (simp add: tag_ctl_def results_def)
next
  case False
  then have i: "nat tag < 256" by (simp add: MAX_TAGS_def nat_less_iff)
  have "results (tag_ctl_awake_all (nat tag) euid k) (\<lambda>x. keeps k (snd x))"
    using awake_all_core [of "nat tag" k euid] i assms keeps_core by (simp add: results_def)
  then show ?thesis
    unfolding tag_ctl_def
    using False delete_keeps [OF assms(1) i assms(2)] keeps_core [OF refl assms(1)]
    by (intro results_rules) simp_all
qed

text \<open>A creation marks a number that no tag has, then publishes a new entry under it or takes it back.\<close>

lemma core_quiet: "core s = core k \<Longrightarrow> quiet k s"
  by (simp add: core_def quiet_def)

definition more_used :: "kernel \<Rightarrow> bitmask \<Rightarrow> bool" where
  "more_used k bm \<longleftrightarrow> bm_wf bm \<and> bm_cap bm = 256 \<and> bm_used (k_tag_bitmask k) \<subseteq> bm_used bm"

lemma keeps_mask:
  assumes "skel_ok (skel k) (k_next k)" and "more_used k bm" and "quiet (set_bitmask bm k) s"
  shows "keeps k s"
proof -
  have s: "skel s = (k_tags k, bm, \<lambda>a. map_option tg_tag_key (k_tag_heap k a))" "k_tag_lock s = k_tag_lock k"
    "k_next k \<le> k_next s" using assms(3) by (simp_all add: quiet_def set_bitmask_def skel_def)
  have "skel_ok (skel s) (k_next k)"
    using assms(1,2) unfolding s(1) by (auto simp: skel_ok_def skel_def more_used_def)
  then have "skel_ok (skel s) (k_next s)" using s(3) by (rule skel_ok_mono)
  then show ?thesis using s by (simp add: keeps_def) (simp add: skel_def)
qed

lemma add_levels_quiet: "add_tag_level_loop n i ps s = (r, ps', s') \<Longrightarrow> quiet s s'"
proof (induction n arbitrary: i ps s)
  case (Suc n)
  then show ?case
    by (auto split: prod.splits option.splits dest!: quiets intro: quiet_trans)
qed simp

lemma publish_keeps:
  assumes ok: "skel_ok (skel k) (k_next k)" and bm: "more_used k bm" and q: "quiet (set_bitmask bm k) s"
    and n: "n \<in> bm_used bm" "n \<notin> bm_used (k_tag_bitmask k)" and tg: "tg_tag_key tg = int n"
  shows "keeps k (s\<lparr>k_next := Suc (k_next s), k_tag_heap := (k_tag_heap s)(k_next s \<mapsto> tg),
    k_tags := (k_tags s)[n := Some (k_next s)]\<rparr>)"
proof -
  have s: "keeps k s" by (rule keeps_mask [OF ok bm q])
  then have sk: "skel_ok (skel s) (k_next s)" by (simp add: keeps_def)
  have eq: "k_tags s = k_tags k" "k_tag_bitmask s = bm" "k_tag_lock s = k_tag_lock k"
    using q by (simp_all add: quiet_def set_bitmask_def skel_def)
  have other: "k_tags k ! i \<noteq> Some te \<or> i \<noteq> n" if "i < 256" for i te
    using skel_okD(4) [OF ok that] n(2) by auto
  have "n < 256" using bm.used_cap [of bm] bm n(1) by (auto simp: more_used_def)
  then show ?thesis
    using sk eq other n(1) tg
    by (auto simp: keeps_def skel_ok_def skel_def nth_list_update)
qed

lemma clear_levels_quiet: "clear_tag_level ps s = Some s' \<Longrightarrow> quiet s s'"
  using clear_levels_core core_quiet by (auto simp: results_def)

lemma undo_keeps:
  assumes ok: "skel_ok (skel k) (k_next k)" and bm: "more_used k bm" and q: "quiet (set_bitmask bm k) s"
    and n: "n \<in> bm_used bm" "n \<notin> bm_used (k_tag_bitmask k)"
  shows "results (tag_get_undo key (int n) s) (\<lambda>x. keeps k (snd x))"
proof -
  obtain bm' where bm': "clear_number bm (int n) = Some (1, bm')" "bm_wf bm'" "bm_used bm' = bm_used bm - {n}"
      "bm_cap bm' = bm_cap bm"
    using bm.give_used [of bm n] bm n(1) by (auto simp: more_used_def)
  have more: "more_used k bm'" using bm bm' n(2) by (auto simp: more_used_def)
  have s: "k_tag_bitmask s = bm" using q by (simp add: quiet_def set_bitmask_def skel_def)
  have "keeps k s'" if "clear_tag_common key (int n) s = Some (r, s')" for r s'
  proof (cases "r = 0")
    case True
    then have "core s' = core_mask bm' (core s)"
      using clear_common_core [OF refl, of s n bm' key] that bm'(1) s by (auto simp: results_def)
    then have "quiet (set_bitmask bm' k) s'"
      using q by (simp add: core_def core_mask_def quiet_def set_bitmask_def skel_def)
    then show ?thesis by (rule keeps_mask [OF ok more])
  next
    case False
    then have "core s' = core s"
      using clear_common_core [OF refl, of s n bm' key] that bm'(1) s by (auto simp: results_def)
    then show ?thesis using core_quiet quiet_trans [OF q] keeps_mask [OF ok bm] by blast
  qed
  then show ?thesis unfolding tag_get_undo_def by (intro results_rules) simp
qed

lemma build_keeps:
  assumes ok: "skel_ok (skel k) (k_next k)" and bm: "more_used k bm" and q: "quiet (set_bitmask bm k) s"
    and n: "n \<in> bm_used bm" "n \<notin> bm_used (k_tag_bitmask k)"
  shows "results (tag_get_build key (int n) permission euid s) (\<lambda>x. keeps k (snd x))"
proof -
  note undo = undo_keeps [OF ok bm _ n]
  note levels = add_levels_quiet [where n = LEVELS and i = 0, folded add_tag_level_def]
  show ?thesis
    unfolding tag_get_build_def Let_def
    by (intro results_rules; simp;
      auto dest!: quiets levels clear_levels_quiet intro!: undo publish_keeps [OF ok bm _ n];
      meson q quiet_trans)
qed

lemma register_core:
  assumes "core s = core t" and "clear_number (k_tag_bitmask t) (int n) = Some (1, bm')"
  shows "results (tag_get_register key (int n) s)
    (\<lambda>x. core (snd x) = (if fst x = 0 then core t else core_mask bm' (core t)))"
proof -
  have bm: "clear_number (k_tag_bitmask s') (int n) = Some (1, bm')" if "core s' = core t" for s'
    using core_bitmask [OF that] assms(2) by simp
  show ?thesis
    unfolding tag_get_register_def Let_def
    using assms(1)
    by (intro results_rules)
      (auto simp: EBUSY_def ENOMEM_def core_fields bm split: prod.splits if_splits bind_splits option.splits
        dest!: core_common)
qed

lemma create_keeps:
  assumes ok: "skel_ok (skel k) (k_next k)"
  shows "results (tag_get_create key permission euid k) (\<lambda>x. keeps k (snd x))"
proof -
  note keep = keeps_core [OF _ ok]
  obtain tag_key bm where take: "get_avail_number (k_tag_bitmask k) = (tag_key, bm)" by force
  have avail: "tag_key' = tag_key \<and> bm' = bm"
    if "get_avail_number (k_tag_bitmask s) = (tag_key', bm')" "core s = core k" for s tag_key' bm'
    using core_bitmask [OF that(2)] that(1) take by simp
  consider "tag_key = - 1" "bm = k_tag_bitmask k"
    | n where "tag_key = int n" "n < 256" "n \<notin> bm_used (k_tag_bitmask k)" "n \<in> bm_used bm" "more_used k bm"
  proof (cases "bm_used (k_tag_bitmask k) = {..<256}")
    case True
    then show thesis using bm.take_full [OF skel_okD(1) [OF ok]] skel_okD(2) [OF ok] take that(1) by simp
  next
    case False
    then obtain n where "tag_key = int n" "n < 256" "n \<notin> bm_used (k_tag_bitmask k)" "bm_wf bm"
        "bm_used bm = insert n (bm_used (k_tag_bitmask k))" "bm_cap bm = 256"
      using bm.take_free [OF skel_okD(1) [OF ok]] skel_okD(2) [OF ok] take by auto
    then show thesis using that(2) by (auto simp: more_used_def)
  qed
  then show ?thesis
  proof cases
    case 1
    have same: "core_mask bm (core k) = core k" using 1(2) by (simp add: core_mask_def core_def skel_def)
    show ?thesis
      unfolding tag_get_create_def Let_def
      by (intro results_rules)
        (auto simp: 1(1) core_fields same dest!: core_common dest: avail intro!: keep)
  next
    case 2
    obtain bm' where bm': "clear_number bm (int n) = Some (1, bm')" "bm_wf bm'" "bm_used bm' = bm_used bm - {n}"
        "bm_cap bm' = bm_cap bm"
      using bm.give_used [of bm n] 2(4,5) by (auto simp: more_used_def)
    then have more: "more_used k bm'" using 2(3,5) by (auto simp: more_used_def)
    have reg0: "core s = core_mask bm (core k)"
      if "tag_get_register key (int n) (set_bitmask bm y) = Some (0, s)" "core y = core k" for y s key
      using register_core [where t = "set_bitmask bm k" and s = "set_bitmask bm y", of n bm' key] bm'(1) that
      by (auto simp: results_def core_fields) (auto simp: set_bitmask_def)
    have reg1: "keeps k s"
      if r: "tag_get_register key (int n) (set_bitmask bm y) = Some (r, s)" "r \<noteq> 0" "core y = core k" for y r s key
    proof -
      have "core s = core_mask bm' (core k)"
        using register_core [where t = "set_bitmask bm k" and s = "set_bitmask bm y", of n bm' key] bm'(1) r
        by (auto simp: results_def core_fields) (auto simp: set_bitmask_def)
      then have "core s = core (set_bitmask bm' k)" by (simp add: core_fields)
      from keeps_mask [OF ok more core_quiet [OF this]] show ?thesis .
    qed
    have mask: "keeps k s" if "core s = core_mask bm (core k)" for s
      using that by (intro keeps_mask [OF ok 2(5) core_quiet]) (simp add: core_fields)
    have build: "results (tag_get_build key (int n) permission euid s) (\<lambda>x. keeps k (snd x))"
      if "core s = core_mask bm (core k)" for s key permission
      using that by (intro build_keeps [OF ok 2(5) core_quiet 2(4,3)]) (simp add: core_fields)
    show ?thesis
      unfolding tag_get_create_def Let_def
      by (intro results_rules)
        (auto simp: 2(1) core_fields split: if_splits dest!: core_common avail reg0 intro!: build intro: keep mask reg1)
  qed
qed

lemma open_core: "results (tag_get_open key k) (\<lambda>x. core (snd x) = core k)"
  unfolding tag_get_open_def
  by (intro results_rules) (auto split: prod.splits if_splits bind_splits option.splits dest!: core_common)

lemma get_keeps:
  assumes ok: "skel_ok (skel k) (k_next k)"
  shows "results (tag_get key command permission euid k) (\<lambda>x. keeps k (snd x))"
proof -
  have "results (tag_get_open key k) (\<lambda>x. keeps k (snd x))"
    using open_core [of key k] keeps_core [OF _ ok] by (simp add: results_def)
  then show ?thesis
    unfolding tag_get_def
    using create_keeps [OF ok] keeps_core [OF refl ok] by (intro results_rules) simp_all
qed

section \<open>The invariant\<close>

definition holders :: "threads \<Rightarrow> nat \<Rightarrow> tid set" where
  "holders P i = {t. \<exists>p. P t = Some p \<and> tag_of p = Some i}"

fun pending :: "point \<Rightarrow> nat option" where
  "pending (Lock_Tag rq) = Some (rq_tag rq)"
| "pending (Sending (Send_Lock dp)) = Some (dp_tag dp)"
| "pending p = tag_of p"

definition point_ok :: "kernel \<Rightarrow> point \<Rightarrow> bool" where
  "point_ok k p \<longleftrightarrow> closed p \<and> (\<forall>i. pending p = Some i \<longrightarrow> i < 256) \<and>
     (\<forall>i. tag_of p = Some i \<longrightarrow> (\<forall>te\<in>entries_of p. k_tags k ! i = Some te))"

definition fine_inv :: "kernel \<Rightarrow> threads \<Rightarrow> bool" where
  "fine_inv k P \<longleftrightarrow> finite (dom P) \<and> skel_ok (skel k) (k_next k) \<and> length (k_tag_lock k) = 256 \<and>
     (\<forall>i<256. k_tag_lock k ! i = read_locked (card (holders P i))) \<and>
     (\<forall>t p. P t = Some p \<longrightarrow> point_ok k p)"

lemma fine_invD:
  assumes "fine_inv k P"
  shows "finite (dom P)" "skel_ok (skel k) (k_next k)" "length (k_tag_lock k) = 256"
    "\<And>i. i < 256 \<Longrightarrow> k_tag_lock k ! i = read_locked (card (holders P i))"
    "\<And>t p. P t = Some p \<Longrightarrow> point_ok k p"
  using assms by (simp_all add: fine_inv_def)

lemma pending_tag: "tag_of p = Some i \<Longrightarrow> pending p = Some i"
  by (cases p rule: pending.cases) simp_all

lemma holders_finite: "finite (dom P) \<Longrightarrow> finite (holders P i)"
  by (rule finite_subset [of _ "dom P"]) (auto simp: holders_def)

lemma holders_same:
  "P t = Some p \<Longrightarrow> tag_of p' = tag_of p \<Longrightarrow> holders (P(t \<mapsto> p')) i = holders P i"
  "P t = None \<Longrightarrow> tag_of p' = None \<Longrightarrow> holders (P(t \<mapsto> p')) i = holders P i"
  "P t = Some p \<Longrightarrow> tag_of p = None \<Longrightarrow> holders (P(t := None)) i = holders P i"
  by (auto simp: holders_def)

lemma holders_change:
  "P t = Some p \<Longrightarrow> tag_of p = None \<Longrightarrow> tag_of p' = Some j \<Longrightarrow>
    holders (P(t \<mapsto> p')) i = (if i = j then insert t (holders P i) else holders P i)"
  "P t = Some p \<Longrightarrow> tag_of p = Some j \<Longrightarrow> tag_of p' = None \<Longrightarrow>
    holders (P(t \<mapsto> p')) i = (if i = j then holders P i - {t} else holders P i)"
  by (auto simp: holders_def)

lemma point_ok_tags: "point_ok k p \<Longrightarrow> k_tags k' = k_tags k \<Longrightarrow> point_ok k' p"
  by (simp add: point_ok_def)

lemma quiet_tags: "quiet k k' \<Longrightarrow> k_tags k' = k_tags k"
  by (simp add: quiet_def skel_def)

text \<open>A change of points and locks that fits.\<close>

lemma fine_inv_quiet:
  assumes "fine_inv k P" and "quiet k k'" and "finite (dom P')" and "\<And>i. holders P' i = holders P i"
    and "\<And>t p. P' t = Some p \<Longrightarrow> P t = Some p \<or> point_ok k p"
  shows "fine_inv k' P'"
proof -
  note inv = fine_invD [OF assms(1)]
  have "point_ok k' p" if "P' t = Some p" for t p
    using assms(5) [OF that] inv(5) point_ok_tags quiet_tags [OF assms(2)] by blast
  then show ?thesis
    using inv(2-4) assms(2-4) by (auto simp: fine_inv_def quiet_def intro: skel_ok_mono)
qed

lemma fine_inv_keeps:
  assumes "fine_inv k P" and "keeps k k'"
  shows "fine_inv k' P"
proof -
  note inv = fine_invD [OF assms(1)]
  have "point_ok k' p" if p: "P t = Some p" for t p
  proof -
    have ok: "point_ok k p" by (rule inv(5) [OF p])
    have "k_tags k' ! i = Some te" if i: "tag_of p = Some i" and te: "te \<in> entries_of p" for i te
    proof -
      have "i < 256" using ok pending_tag [OF i] by (simp add: point_ok_def)
      moreover have "k_tags k ! i = Some te" using ok i te by (simp add: point_ok_def)
      moreover have "t \<in> holders P i" using p i by (simp add: holders_def)
      then have "card (holders P i) \<noteq> 0" using holders_finite [OF inv(1)] by auto
      ultimately show ?thesis using assms(2) inv(4) by (auto simp: keeps_def)
    qed
    then show ?thesis using ok by (simp add: point_ok_def)
  qed
  then show ?thesis using inv assms(2) by (simp add: fine_inv_def keeps_def)
qed

lemma send_micro_pending:
  "send_micro sp k = Some (p', k') \<Longrightarrow> pending p' = Some i \<Longrightarrow> pending (Sending sp) = Some i"
  by (cases sp) (auto simp: Let_def split: bind_splits if_splits option.splits prod.splits)

lemma micro_pending:
  assumes "micro t p k = Some (p', k')" and "pending p' = Some i" and "closed p"
  shows "pending p = Some i"
  using assms
proof (induction t p k rule: micro.induct)
  case (26 t r rs code bytes s)
  then show ?case by (cases r) (auto simp: after_tagD split: bind_splits if_splits)
next
  case (27 t sp s)
  then show ?case using send_micro_pending by simp
qed (auto simp: Let_def registered_receiver_def split: bind_splits if_splits option.splits prod.splits)

lemma no_entries: "closed p \<Longrightarrow> tag_of p = None \<Longrightarrow> entries_of p = {}"
proof (cases p)
  case (Finish rs code bytes)
  then show "closed p \<Longrightarrow> tag_of p = None \<Longrightarrow> entries_of p = {}" using closing_after [of rs] after_tagD(3) [of rs] by auto
next
  case (Sending sp)
  then show "closed p \<Longrightarrow> tag_of p = None \<Longrightarrow> entries_of p = {}" by (cases sp) simp_all
qed simp_all

lemma micro_point_ok:
  assumes m: "micro t p k = Some (p', k')" and ok: "point_ok k p"
  shows "point_ok k' p'"
proof -
  have c: "lock_change k k' (tag_of p) (tag_of p')" "closed p'"
    using micro_change [OF m] ok by (auto simp: point_ok_def)
  from c(1) have tags: "k_tags k' = k_tags k" by cases (simp_all add: quiet_def skel_def)
  have "k_tags k ! i = Some te" if "tag_of p' = Some i" "te \<in> entries_of p'" for i te
    using c(1)
  proof cases
    case none
    then show ?thesis using micro_entries [OF m that(2)] ok that(1) by (auto simp: point_ok_def)
  next
    case acquire
    then show ?thesis using micro_entries [OF m that(2)] no_entries ok by (auto simp: point_ok_def)
  next
    case release
    then show ?thesis using that(1) by simp
  qed
  then show ?thesis using c(2) tags micro_pending [OF m] ok by (auto simp: point_ok_def)
qed

lemma fine_inv_micro:
  assumes inv: "fine_inv k P" and p: "P t = Some p" and m: "micro t p k = Some (p', k')"
  shows "fine_inv k' (P(t \<mapsto> p'))"
proof -
  note I = fine_invD [OF inv]
  have ok': "point_ok k' p'" by (rule micro_point_ok [OF m I(5) [OF p]])
  have c: "lock_change k k' (tag_of p) (tag_of p')" using micro_change [OF m] I(5) [OF p] by (simp add: point_ok_def)
  then have tags: "k_tags k' = k_tags k" by cases (simp_all add: quiet_def skel_def)
  have pts: "point_ok k' q" if "(P(t \<mapsto> p')) u = Some q" for u q
    using that ok' I(5) point_ok_tags [OF _ tags] by (auto split: if_splits)
  have fin: "finite (dom (P(t \<mapsto> p')))" using I(1) by simp
  have sk: "skel_ok (skel k') (k_next k')"
    using c I(2) by cases (auto simp: quiet_def intro: skel_ok_mono)
  have locks: "length (k_tag_lock k') = 256 \<and> k_tag_lock k' ! i = read_locked (card (holders (P(t \<mapsto> p')) i))"
    if i: "i < 256" for i
    using c
  proof cases
    case none
    then show ?thesis using I(3,4) i holders_same(1) [where P = P, OF p] by (simp add: quiet_def)
  next
    case (acquire j l)
    have "t \<notin> holders P j" using p acquire(1) by (simp add: holders_def)
    then show ?thesis
      using acquire I(3,4) i holders_change(1) [where P = P, OF p acquire(1,2)] holders_finite [OF I(1)]
      by (auto simp: nth_list_update)
  next
    case (release j l)
    have j: "j < 256" using I(5) [OF p] pending_tag [OF release(1)] by (simp add: point_ok_def)
    have "t \<in> holders P j" using p release(1) by (simp add: holders_def)
    then obtain n where n: "card (holders P j) = Suc n" "card (holders P j - {t}) = n"
      using card_Suc_Diff1 [OF holders_finite [OF I(1)]] by metis
    then show ?thesis
      using release I(3,4) i j holders_change(2) [where P = P, OF p release(1,2)] by (auto simp: nth_list_update)
  qed
  from locks [of 0] have "length (k_tag_lock k') = 256" by simp
  then show ?thesis using fin sk pts locks by (auto simp: fine_inv_def)
qed

lemma sys_inv_fine_inv:
  assumes "sys_inv k Map.empty"
  shows "fine_inv k Map.empty"
proof -
  note inv = sys_invD [OF assms]
  have "skel_ok (skel k) (k_next k)"
  proof -
    have "\<exists>tg. k_tag_heap k te = Some tg \<and> tg_tag_key tg = int i \<and> i \<in> bm_used (k_tag_bitmask k)"
      if i: "i < 256" "k_tags k ! i = Some te" for i te
    proof -
      obtain tg where tg: "k_tag_heap k te = Some tg" "tg_ok Map.empty i tg" "entry_at k i = Some tg"
        by (rule tags_okE [OF inv(2) i])
      then show ?thesis using inv(6) i(1) by (auto simp: registry_inv_def tg_ok_def)
    qed
    then show ?thesis using inv(6,7) by (fastforce simp: skel_ok_def skel_def registry_inv_def heap_ok_def)
  qed
  moreover have "holders Map.empty i = {}" "tag_waiters Map.empty i = {}" for i
    by (simp_all add: holders_def tag_waiters_def)
  ultimately show ?thesis using inv(5) by (simp add: fine_inv_def locks_ok_def)
qed

lemma fine_step_inv:
  assumes inv: "fine_inv k P" and step: "fine_step k P k' P'"
  shows "fine_inv k' P'"
  using step
proof cases
  case get
  then show ?thesis using fine_inv_keeps [OF inv] get_keeps [OF fine_invD(2) [OF inv]] by (fastforce simp: results_def)
next
  case ctl
  then show ?thesis using fine_inv_keeps [OF inv] ctl_keeps [OF fine_invD(2,3) [OF inv]] by (fastforce simp: results_def)
next
  case (start t tag level sz buffer euid)
  let ?p = "Lock_Tag (request_of tag level buffer sz euid)"
  have "point_ok k ?p" using bad_message_argsD(2) [OF start(4)] by (simp add: point_ok_def request_of_def)
  then show ?thesis
    using start(1-3) fine_invD(1) [OF inv] holders_same(2) [where P = P and t = t and p' = ?p]
    by (intro fine_inv_quiet [OF inv]) (auto split: if_splits)
next
  case (start_send t tag level sz buffer euid)
  let ?p = "Sending (Send_Lock (dispatch_of tag level buffer sz euid))"
  have "point_ok k ?p" using bad_message_argsD(2) [OF start_send(4)] by (simp add: point_ok_def dispatch_of_def)
  then show ?thesis
    using start_send(1-3) fine_invD(1) [OF inv] holders_same(2) [where P = P and t = t and p' = ?p]
    by (intro fine_inv_quiet [OF inv]) (auto split: if_splits)
next
  case micro
  then show ?thesis using fine_inv_micro [OF inv] by simp
next
  case (sleep t c)
  then have "quiet k k'" by (auto simp: receive_sleep_def dest: quiets)
  then show ?thesis using sleep(1) fine_invD(1) [OF inv] by (intro fine_inv_quiet [OF inv]) auto
next
  case (wake t c)
  have "point_ok k (Leave_Queue True c)" using fine_invD(5) [OF inv wake(3)] by (simp add: point_ok_def)
  then show ?thesis
    using wake(1,2,3) fine_invD(1) [OF inv] holders_same(1) [where P = P, OF wake(3), of "Leave_Queue True c"]
    by (intro fine_inv_quiet [OF inv]) (auto split: if_splits)
next
  case (signal t c)
  have "point_ok k (Leave_Queue False c)" using fine_invD(5) [OF inv signal(3)] by (simp add: point_ok_def)
  then show ?thesis
    using signal(1,2,3) fine_invD(1) [OF inv] holders_same(1) [where P = P, OF signal(3), of "Leave_Queue False c"]
    by (intro fine_inv_quiet [OF inv]) (auto split: if_splits)
next
  case (return t code bytes)
  then show ?thesis
    using fine_invD(1) [OF inv] holders_same(3) [where P = P, OF return(3)]
    by (intro fine_inv_quiet [OF inv]) (auto split: if_splits)
next
  case environment
  then have "quiet k k'" using env_eqD [of k k'] by (simp add: quiet_def skel_def)
  then show ?thesis using environment(1) fine_invD(1) [OF inv] by (intro fine_inv_quiet [OF inv]) auto
qed

lemma fine_reachable_inv: "fine_reachable k P \<Longrightarrow> fine_inv k P"
proof (induction rule: fine_reachable.induct)
  case start
  then show ?case using start_inv sys_inv_fine_inv by blast
next
  case step
  then show ?case using fine_step_inv by blast
qed

text \<open>
  C8. A tag is not deleted under a thread inside \<open>tag_receive\<close> or \<open>tag_send\<close>. In every interleaving of single steps,
  while a thread is between the acquisition of the lock of a tag and its release, each entry that it still
  works on is the published tag of that descriptor and has not been freed, and \<open>DELETE\<close> returns 0 without
  effect.
\<close>

theorem tag_kept_for_receivers:
  assumes "fine_reachable k P" and "P t = Some p" and "tag_of p = Some i" and "te \<in> entries_of p"
  shows "k_tags k ! i = Some te \<and> k_tag_heap k te \<noteq> None \<and> tag_ctl (int i) TAG_DELETE euid k = Some (0, k)"
proof -
  note inv = fine_invD [OF fine_reachable_inv [OF assms(1)]]
  have i: "i < 256" "k_tags k ! i = Some te"
    using inv(5) [OF assms(2)] pending_tag [OF assms(3)] assms(3,4) by (auto simp: point_ok_def)
  have "t \<in> holders P i" using assms(2,3) by (simp add: holders_def)
  then have "card (holders P i) \<noteq> 0" using holders_finite [OF inv(1)] by auto
  then have "tag_lock_op down_write i k = None" using inv(4) [OF i(1)] by (simp add: tag_lock_op_def)
  then have "tag_ctl (int i) TAG_DELETE euid k = Some (0, k)"
    using i(1) by (simp add: tag_ctl_def tag_ctl_delete_def MAX_TAGS_def tag_consts)
  then show ?thesis using skel_okD(4) [OF inv(2) i] i(2) by auto
qed

theorem tag_kept_for_receivers_witness:
  "\<exists>k P te. fine_reachable k P \<and> k_tags k ! 0 = Some te \<and> k_tag_heap k te \<noteq> None \<and>
     tag_ctl (int 0) TAG_DELETE 0 k = Some (0, k)"
proof -
  obtain k te lp tg lv where "reachable k [7 \<mapsto> ex_receiver te lp]" by (rule ex_receiving) blast
  from reachable_fine [OF this]
  have "fine_reachable k [7 \<mapsto> Waiting (ex_receiver te lp)]" by (simp add: waiting_threads_simps)
  with tag_kept_for_receivers [OF this, of 7 "Waiting (ex_receiver te lp)" 0 te 0]
  show ?thesis by (intro exI [of _ k] exI [of _ "[7 \<mapsto> Waiting (ex_receiver te lp)]"] exI [of _ te])
    (simp add: ex_receiver_def)
qed

end
