(* ===== verification/Level_Locks.thy ===== *)
theory Level_Locks
  imports Receive_Safety
begin

text \<open>
  What holds of a level in every interleaving of single steps: \<open>rcu_lock\<close> and \<open>w_mutex\<close> count the
  threads between their acquisition and their release, a published message is not written over, and it
  is cleared only when no receiver is left on the level.
\<close>

section \<open>Calls that leave the existing levels alone\<close>

text \<open>
  Seen through \<open>v\<close>, a level of the second state is one of the first, unchanged, or has been created since;
  addresses are not used twice.
\<close>

type_synonym level_part = "(addr \<Rightarrow> tag_level option) \<times> addr"

definition levels :: "kernel \<Rightarrow> level_part" where
  "levels k = (k_level_heap k, k_next k)"

definition kept :: "(tag_level \<Rightarrow> 'v) \<Rightarrow> level_part \<Rightarrow> level_part \<Rightarrow> bool" where
  "kept v x y \<longleftrightarrow> snd x \<le> snd y \<and> (\<forall>a lv'. fst y a = Some lv' \<longrightarrow>
     (\<exists>lv. fst x a = Some lv \<and> v lv' = v lv) \<or> snd x \<le> a \<and> a < snd y \<and> v lv' = v (fresh_level 0 0))"

definition calm :: "(tag_level \<Rightarrow> 'v) \<Rightarrow> kernel \<Rightarrow> kernel \<Rightarrow> bool" where
  "calm v k k' \<longleftrightarrow> kept v (levels k) (levels k')"

lemma calm_iff: "calm v k k' \<longleftrightarrow> k_next k \<le> k_next k' \<and> (\<forall>a lv'. k_level_heap k' a = Some lv' \<longrightarrow>
     (\<exists>lv. k_level_heap k a = Some lv \<and> v lv' = v lv) \<or>
     k_next k \<le> a \<and> a < k_next k' \<and> v lv' = v (fresh_level 0 0))"
  by (simp add: calm_def kept_def levels_def)

lemma calm_refl [simp, intro]: "calm v k k"
  by (simp add: calm_iff)

lemma calmE:
  assumes "calm v k k'" and "k_level_heap k' a = Some lv'"
  obtains (old) lv where "k_level_heap k a = Some lv" "v lv' = v lv"
    | (new) "k_next k \<le> a" "a < k_next k'" "v lv' = v (fresh_level 0 0)"
  using assms unfolding calm_iff by blast

lemma calm_trans:
  assumes "calm v a b" and "calm v b c"
  shows "calm v a c"
proof -
  have n: "k_next a \<le> k_next b" "k_next b \<le> k_next c" using assms by (simp_all add: calm_iff)
  have "(\<exists>lv. k_level_heap a x = Some lv \<and> v lv' = v lv) \<or> k_next a \<le> x \<and> x < k_next c \<and> v lv' = v (fresh_level 0 0)"
    if "k_level_heap c x = Some lv'" for x lv'
    using assms(2) that
  proof (cases rule: calmE)
    case (old lv)
    from assms(1) old(1) show ?thesis using old(2) n by (cases rule: calmE) auto
  next
    case new
    then show ?thesis using n by simp
  qed
  then show ?thesis using n by (simp add: calm_iff)
qed

lemma calm_levels: "levels k' = levels k \<Longrightarrow> calm v k k'"
  by (simp add: calm_iff levels_def)

lemma levels_update [simp]:
  "levels (k\<lparr>k_tag_table := t\<rparr>) = levels k" "levels (k\<lparr>k_common_lock := l\<rparr>) = levels k"
  "levels (k\<lparr>k_tag_lock := ls\<rparr>) = levels k" "levels (k\<lparr>k_tag_heap := h\<rparr>) = levels k"
  "levels (k\<lparr>k_tags := ts\<rparr>) = levels k" "levels (set_bitmask bm k) = levels k"
  "levels (k\<lparr>k_alloc := al\<rparr>) = levels k" "levels (k\<lparr>k_signal := sg\<rparr>) = levels k"
  "levels (k\<lparr>k_copy := cp\<rparr>) = levels k"
  by (simp_all add: levels_def set_bitmask_def)

lemma levels_ops:
  "common_lock_op f k = Some k' \<Longrightarrow> levels k' = levels k"
  "tag_lock_op f i k = Some k' \<Longrightarrow> levels k' = levels k"
  "level_lock_op f te l k = Some k' \<Longrightarrow> levels k' = levels k"
  "update_tag te g k = Some k' \<Longrightarrow> levels k' = levels k"
  "kfree_tag te k = Some k' \<Longrightarrow> levels k' = levels k"
  "copy_to_user src n k = (r, bs, k') \<Longrightarrow> levels k' = levels k"
  "copy_from_user dst src n k = (r, bs, k') \<Longrightarrow> levels k' = levels k"
  "kzalloc k = (ok, k') \<Longrightarrow> levels k' = levels k"
  by (auto simp: common_lock_op_def tag_lock_op_def level_lock_op_def update_tag_def kfree_tag_def copy_to_user_def
      copy_from_user_def kzalloc_def Let_def split: bind_splits prod.splits)

lemma levels_interruptible:
  "interruptible acq k = Some (ok, k') \<Longrightarrow> (\<And>a b. acq a = Some b \<Longrightarrow> levels b = levels a) \<Longrightarrow> levels k' = levels k"
  by (auto simp: interruptible_eq split: if_splits)

lemma levels_interruptible_locks:
  "interruptible (common_lock_op f) k = Some (ok, k') \<Longrightarrow> levels k' = levels k"
  "interruptible (tag_lock_op f i) k = Some (ok, k') \<Longrightarrow> levels k' = levels k"
  "interruptible (level_lock_op f te l) k = Some (ok, k') \<Longrightarrow> levels k' = levels k"
  by (erule levels_interruptible, erule levels_ops)+

lemma levels_dec_tag: "dec_tag te k = Some (z, k') \<Longrightarrow> levels k' = levels k"
  by (auto simp: dec_tag_def split: bind_splits dest!: levels_ops)

lemmas levels_simps = levels_ops levels_interruptible_locks levels_dec_tag

lemma calm_update:
  "update_level lp g k = Some k' \<Longrightarrow> (\<And>lv. v (g lv) = v lv) \<Longrightarrow> calm v k k'"
  by (auto simp: update_level_def calm_iff split: bind_splits if_splits)

lemma calm_free: "free_level lp k = Some k' \<Longrightarrow> calm v k k'"
  by (auto simp: free_level_def calm_iff split: bind_splits if_splits)

lemma calm_create:
  assumes "create_level i e k = (p, k')" and "v (fresh_level i e) = v (fresh_level 0 0)"
  shows "calm v k k'"
  using assms by (auto simp: create_level_eq calm_iff split: if_splits prod.splits)

text \<open>The locks of a level, and its message.\<close>

definition locks_of :: "tag_level \<Rightarrow> rwsem \<times> bool" where
  "locks_of lv = (tl_rcu_lock lv, tl_w_mutex lv)"

definition text_of :: "tag_level \<Rightarrow> int \<times> nat \<times> u8 list" where
  "text_of lv = (tl_ready lv, tl_size lv, tl_buffer lv)"

definition both_of :: "tag_level \<Rightarrow> (rwsem \<times> bool) \<times> int \<times> nat \<times> u8 list" where
  "both_of lv = (locks_of lv, text_of lv)"

lemma calm_both: "calm both_of k k' \<Longrightarrow> calm locks_of k k'" "calm both_of k k' \<Longrightarrow> calm text_of k k'"
  by (fastforce simp: calm_iff both_of_def)+

lemma fresh_views: "locks_of (fresh_level i e) = (init_rwsem, False)" "text_of (fresh_level i e) = (0, 0, replicate BUFFER_SIZE 0)"
  by (simp_all add: locks_of_def text_of_def fresh_level_def init_rwsem_read_locked)

lemma calm_wake: "wake_up_all lp k = Some k' \<Longrightarrow> calm both_of k k'"
  by (auto simp: wake_up_all_def both_of_def locks_of_def text_of_def intro: calm_update)

lemma calm_new: "create_level i e k = (p, k') \<Longrightarrow> calm both_of k k'"
  by (erule calm_create) (simp add: both_of_def fresh_views)

text \<open>\<open>tag_get\<close> touches only levels it has created.\<close>

lemma clear_common_levels: "clear_tag_common key tag_key s = Some (r, s') \<Longrightarrow> levels s' = levels s"
  by (auto simp: clear_tag_common_def Let_def split: prod.splits if_splits bind_splits option.splits dest!: levels_simps)

lemma undo_levels: "tag_get_undo key tag_key s = Some (r, s') \<Longrightarrow> levels s' = levels s"
  by (auto simp: tag_get_undo_def split: prod.splits if_splits bind_splits dest!: clear_common_levels)

lemma register_levels: "tag_get_register key tag_key s = Some (r, s') \<Longrightarrow> levels s' = levels s"
  by (auto simp: tag_get_register_def Let_def split: prod.splits if_splits bind_splits option.splits dest!: levels_simps)

lemma open_levels: "tag_get_open key s = Some (r, s') \<Longrightarrow> levels s' = levels s"
  by (auto simp: tag_get_open_def Let_def split: prod.splits if_splits bind_splits option.splits dest!: levels_simps)

lemma clear_levels_calm: "clear_tag_level ps s = Some s' \<Longrightarrow> calm v s s'"
proof (induction ps s rule: clear_tag_level.induct)
  case (3 lp rest s)
  then show ?case by (auto split: bind_splits dest!: calm_free intro: calm_trans)
qed simp_all

lemma add_levels_calm: "add_tag_level_loop n i ps s = (r, ps', s') \<Longrightarrow> calm both_of s s'"
proof (induction n arbitrary: i ps s)
  case (Suc n)
  then show ?case by (auto split: prod.splits option.splits dest!: calm_new intro: calm_trans)
qed simp

lemma kept_refl [simp]: "kept v x x"
  by (simp add: kept_def)

lemma kept_publish: "kept v x (levels s) \<Longrightarrow> kept v x (levels (s\<lparr>k_next := Suc (k_next s)\<rparr>))"
  by (fastforce simp: kept_def levels_def)

lemma calm_undone:
  assumes "calm both_of k s" and "clear_tag_level ps s = Some s1" and "tag_get_undo key tag_key s1 = Some (r, s')"
  shows "calm both_of k s'"
  using calm_trans [OF assms(1) clear_levels_calm [OF assms(2)]] undo_levels [OF assms(3)] by (simp add: calm_def)

lemma build_calm:
  assumes "tag_get_build key tag_key permission euid s = Some (r, s')"
  shows "calm both_of s s'"
proof -
  obtain ok1 s1 where 1: "kzalloc s = (ok1, s1)" by force
  obtain r2 ls s2 where 2: "add_tag_level (replicate LEVELS None) s1 = (r2, ls, s2)" by (metis prod_cases3)
  obtain ok3 s3 where 3: "kzalloc s2 = (ok3, s3)" by force
  have 4: "calm both_of s s1" "calm both_of s2 s3"
    using 1 3 by (auto intro: calm_levels dest: levels_ops)
  have 5: "calm both_of s s2" using calm_trans [OF 4(1) add_levels_calm] 2 by (simp add: add_tag_level_def)
  show ?thesis
    using assms 1 2 3 4(1) calm_undone [OF 5] calm_undone [OF calm_trans [OF 5 4(2)]] calm_trans [OF 5 4(2)]
    by (auto simp: tag_get_build_def Let_def calm_def intro: kept_publish
      split: if_splits bind_splits dest!: undo_levels)
qed

lemma create_calm:
  assumes "tag_get_create key permission euid s = Some (r, s')"
  shows "calm both_of s s'"
  using assms
  by (auto simp: tag_get_create_def Let_def calm_def calm_levels split: prod.splits if_splits bind_splits
      dest!: levels_simps register_levels build_calm)

lemma get_calm: "tag_get key command permission euid s = Some (r, s') \<Longrightarrow> calm both_of s s'"
  by (auto simp: tag_get_def dest: create_calm calm_levels [OF open_levels] split: if_splits)

text \<open>\<open>tag_ctl\<close> leaves the locks of the levels as it has found them, or frees the levels.\<close>

lemma rcu_lock_opD:
  assumes "rcu_lock_op f lp k = Some k'"
  obtains lv l where "k_level_heap k lp = Some lv" "f (tl_rcu_lock lv) = Some l"
    "levels k' = ((k_level_heap k)(lp \<mapsto> lv\<lparr>tl_rcu_lock := l\<rparr>), k_next k)"
  using assms by (auto simp: rcu_lock_op_def levels_def split: bind_splits)

lemma awake_one_calm:
  assumes "rcu_lock_op down_read lp s = Some s1" and "(if b then wake_up_all lp s1 else Some s1) = Some s2"
    and "rcu_lock_op up_read lp s2 = Some s3"
  shows "calm both_of s s3"
  using assms
  by (auto simp: rcu_lock_op_def wake_up_all_def update_level_def down_read_def up_read_def calm_iff both_of_def
      locks_of_def text_of_def split: bind_splits if_splits)

lemma awake_calm: "awake_levels n i te s = Some (ok, s') \<Longrightarrow> calm both_of s s'"
proof (induction n arbitrary: i s)
  case (Suc n)
  have one: "calm both_of a d" if "interruptible (rcu_lock_op down_read lp) a = Some (True, b)"
    "(if w then wake_up_all lp b else Some b) = Some c" "rcu_lock_op up_read lp c = Some d" for a b c d lp w
    using that awake_one_calm [of lp "a\<lparr>k_signal := snd (next_outcome (k_signal a))\<rparr>" b w c d]
    by (auto simp: interruptible_eq calm_def split: if_splits)
  have no: "levels b = levels a" if "interruptible (rcu_lock_op down_read lp) a = Some (False, b)" for a b lp
    using that by (auto simp: interruptible_eq split: if_splits)
  obtain ok1 s1 where 1: "interruptible (level_lock_op down_read te i) s = Some (ok1, s1)"
    using Suc.prems by (auto split: bind_splits)
  show ?case
  proof (cases ok1)
    case False
    then show ?thesis using Suc.prems 1 by (auto simp: calm_levels dest!: levels_simps)
  next
    case True
    define body where "body = (\<lambda>s. case_option (Some (True, s)) (\<lambda>lp. do {
             (ok, s) \<leftarrow> interruptible (rcu_lock_op down_read lp) s;
             if \<not> ok then Some (False, s)
             else do {
               lv \<leftarrow> k_level_heap s lp;
               s \<leftarrow> (if tl_waiting lv > 0 then wake_up_all lp s else Some s);
               s \<leftarrow> rcu_lock_op up_read lp s;
               Some (True, s)
             }
           }))"
    have body: "calm both_of a b" if "body a x = Some (ok, b)" for a b x ok
      using that unfolding body_def
      by (auto simp: calm_def split: option.splits bind_splits if_splits prod.splits dest: no one [unfolded calm_def])
    obtain tg where tg: "k_tag_heap s1 te = Some tg" using Suc.prems 1 True by (auto split: bind_splits)
    have "awake_levels (Suc n) i te s = do {
        (ok, s) \<leftarrow> body s1 (tg_tag_level tg ! i);
        s \<leftarrow> level_lock_op up_read te i s;
        if \<not> ok then Some (False, s) else awake_levels n (Suc i) te s }"
      using 1 True tg by (simp add: body_def)
    with Suc.prems obtain ok2 s2 s3 x where 2: "body s1 x = Some (ok2, s2)" "level_lock_op up_read te i s2 = Some s3"
        "(if ok2 then awake_levels n (Suc i) te s3 else Some (False, s3)) = Some (ok, s')"
      by (auto split: bind_splits if_splits)
    have 3: "calm both_of s s3"
      using body [OF 2(1)] levels_simps(11) [OF 1] levels_simps(3) [OF 2(2)] by (simp add: calm_def)
    show ?thesis using 2(3) Suc.IH [of "Suc i" s3] calm_trans [OF 3] 3 by (auto split: if_splits)
  qed
qed simp

lemma awake_all_calm: "tag_ctl_awake_all i euid s = Some (r, s') \<Longrightarrow> calm both_of s s'"
  by (auto simp: tag_ctl_awake_all_def calm_def split: if_splits bind_splits option.splits
      dest!: levels_simps awake_calm [unfolded calm_def])

lemma delete_calm: "tag_ctl_delete i euid s = Some (r, s') \<Longrightarrow> calm both_of s s'"
  by (auto simp: tag_ctl_delete_def calm_def split: if_splits bind_splits option.splits
      dest!: levels_simps clear_common_levels clear_levels_calm [where v = both_of, unfolded calm_def])

lemma ctl_calm: "tag_ctl tag command euid s = Some (r, s') \<Longrightarrow> calm both_of s s'"
  by (auto simp: tag_ctl_def dest: awake_all_calm delete_calm split: if_splits)

section \<open>What a thread holds of a level\<close>

text \<open>
  The levels on which a thread still has to release \<open>rcu_lock\<close>, taken to read or to write, and
  \<open>w_mutex\<close>. It holds each at most once.
\<close>

fun up_rcu :: "release list \<Rightarrow> addr option" where
  "up_rcu [] = None"
| "up_rcu (Up_Rcu lp # rs) = Some lp"
| "up_rcu (r # rs) = up_rcu rs"

fun up_write_rcu :: "release list \<Rightarrow> addr option" where
  "up_write_rcu [] = None"
| "up_write_rcu (Up_Write_Rcu lp # rs) = Some lp"
| "up_write_rcu (r # rs) = up_write_rcu rs"

fun up_mutex :: "release list \<Rightarrow> addr option" where
  "up_mutex [] = None"
| "up_mutex (Up_Mutex lp # rs) = Some lp"
| "up_mutex (r # rs) = up_mutex rs"

fun send_reads :: "send_point \<Rightarrow> addr option" where
  "send_reads (Send_Unlock_Level dp te lp) = Some lp"
| "send_reads (Send_Mutex dp lp) = Some lp"
| "send_reads (Send_Test_Ready dp lp) = Some lp"
| "send_reads (Send_Count dp lp) = Some lp"
| "send_reads (Send_Copy dp lp) = Some lp"
| "send_reads (Send_Size dp lp) = Some lp"
| "send_reads (Send_Ready dp lp) = Some lp"
| "send_reads sp = None"

fun reads :: "point \<Rightarrow> addr option" where
  "reads (Unlock_Level rq te lp) = Some lp"
| "reads (Test_Ready rq te lp) = Some lp"
| "reads (Epoch_Lock rq te lp) = Some lp"
| "reads (Epoch_Look rq te lp) = Some lp"
| "reads (Epoch_Install rq te lp old new) = Some lp"
| "reads (Epoch_Unlock_Old rq te lp old new) = Some lp"
| "reads (Epoch_Unlock rq te new) = Some new"
| "reads (Count_Level rq te lp) = Some lp"
| "reads (Waiting c) = Some (rc_lp c)"
| "reads (Leave_Queue woken c) = Some (rc_lp c)"
| "reads (Get_Code woken c) = Some (rc_lp c)"
| "reads (Copy code c) = Some (rc_lp c)"
| "reads (Unlock_Rcu code bytes c) = Some (rc_lp c)"
| "reads (Finish rs code bytes) = up_rcu rs"
| "reads (Sending sp) = send_reads sp"
| "reads p = None"

fun writes :: "point \<Rightarrow> addr option" where
  "writes (Look_New code bytes c) = Some (rc_lp c)"
| "writes (Finish rs code bytes) = up_write_rcu rs"
| "writes p = None"

fun send_mutex :: "send_point \<Rightarrow> addr option" where
  "send_mutex (Send_Test_Ready dp lp) = Some lp"
| "send_mutex (Send_Count dp lp) = Some lp"
| "send_mutex (Send_Copy dp lp) = Some lp"
| "send_mutex (Send_Size dp lp) = Some lp"
| "send_mutex (Send_Ready dp lp) = Some lp"
| "send_mutex sp = None"

fun mutex :: "point \<Rightarrow> addr option" where
  "mutex (Finish rs code bytes) = up_mutex rs"
| "mutex (Sending sp) = send_mutex sp"
| "mutex p = None"

text \<open>
  A sender from its test of \<open>ready\<close> to the end of its writes, and a last receiver that has cleared
  \<open>ready\<close> and still has to clear the message.
\<close>

fun clears :: "release list \<Rightarrow> addr option" where
  "clears (Clear_Size lp # rs) = Some lp"
| "clears (Clear_Buffer lp # rs) = Some lp"
| "clears rs = None"

fun filling :: "point \<Rightarrow> addr option" where
  "filling (Sending (Send_Count dp lp)) = Some lp"
| "filling (Sending (Send_Copy dp lp)) = Some lp"
| "filling (Sending (Send_Size dp lp)) = Some lp"
| "filling (Sending (Send_Ready dp lp)) = Some lp"
| "filling (Finish rs code bytes) = clears rs"
| "filling p = None"

text \<open>Each lock is released once; a message is cleared in order and before \<open>rcu_lock\<close> is released.\<close>

fun orderly :: "release list \<Rightarrow> bool" where
  "orderly [] = True"
| "orderly (Up_Rcu lp # rs) = (orderly rs \<and> up_rcu rs = None \<and> up_write_rcu rs = None \<and> clears rs = None)"
| "orderly (Up_Write_Rcu lp # rs) = (orderly rs \<and> up_rcu rs = None \<and> up_write_rcu rs = None \<and> clears rs = None)"
| "orderly (Up_Mutex lp # rs) = (orderly rs \<and> up_mutex rs = None \<and> clears rs = None)"
| "orderly (Clear_Ready lp # rs) = (orderly rs \<and> up_rcu rs = None \<and> up_write_rcu rs = Some lp)"
| "orderly (Clear_Size lp # rs) = (orderly rs \<and> up_rcu rs = None \<and> up_write_rcu rs = Some lp)"
| "orderly (Clear_Buffer lp # rs) = (orderly rs \<and> up_rcu rs = None \<and> up_write_rcu rs = Some lp)"
| "orderly (r # rs) = (orderly rs \<and> clears rs = None)"

fun tidy :: "point \<Rightarrow> bool" where
  "tidy (Finish rs code bytes) = orderly rs"
| "tidy p = True"

section \<open>One step of a thread\<close>

text \<open>The locks of one level change, nothing else of the levels.\<close>

definition shift :: "addr \<Rightarrow> rwsem \<times> bool \<Rightarrow> rwsem \<times> bool \<Rightarrow> kernel \<Rightarrow> kernel \<Rightarrow> bool" where
  "shift lp x y k k' \<longleftrightarrow> (\<exists>lv lv'. fst (levels k) lp = Some lv \<and> locks_of lv = x \<and> locks_of lv' = y \<and>
     text_of lv' = text_of lv \<and> levels k' = ((fst (levels k))(lp \<mapsto> lv'), snd (levels k)))"

definition moved :: "(rwsem \<Rightarrow> rwsem option) \<Rightarrow> addr \<Rightarrow> kernel \<Rightarrow> kernel \<Rightarrow> bool" where
  "moved f lp k k' \<longleftrightarrow> (\<exists>c c' m. f c = Some c' \<and> shift lp (c, m) (c', m) k k')"

definition flipped :: "bool \<Rightarrow> addr \<Rightarrow> kernel \<Rightarrow> kernel \<Rightarrow> bool" where
  "flipped m lp k k' \<longleftrightarrow> (\<exists>c n. shift lp (c, n) (c, m) k k' \<and> (m \<longrightarrow> \<not> n))"

text \<open>A step changes nothing that is held, or one lock of one level.\<close>

definition hold_change :: "kernel \<Rightarrow> kernel \<Rightarrow> point \<Rightarrow> point \<Rightarrow> bool" where
  "hold_change k k' p p' \<longleftrightarrow>
     calm locks_of k k' \<and> reads p' = reads p \<and> writes p' = writes p \<and> mutex p' = mutex p \<or>
     (\<exists>lp. writes p' = writes p \<and> mutex p' = mutex p \<and>
        (reads p = None \<and> reads p' = Some lp \<and> moved down_read lp k k' \<or>
         reads p = Some lp \<and> reads p' = None \<and> moved up_read lp k k')) \<or>
     (\<exists>lp. reads p' = reads p \<and> mutex p' = mutex p \<and>
        (writes p = None \<and> writes p' = Some lp \<and> moved down_write lp k k' \<or>
         writes p = Some lp \<and> writes p' = None \<and> moved up_write lp k k')) \<or>
     (\<exists>lp. reads p' = reads p \<and> writes p' = writes p \<and>
        (mutex p = None \<and> mutex p' = Some lp \<and> flipped True lp k k' \<or>
         mutex p = Some lp \<and> mutex p' = None \<and> flipped False lp k k'))"

lemma shift_levels:
  "k_level_heap k lp = Some lv \<Longrightarrow> text_of lv' = text_of lv \<Longrightarrow>
    levels k' = ((k_level_heap k)(lp \<mapsto> lv'), k_next k) \<Longrightarrow> shift lp (locks_of lv) (locks_of lv') k k'"
  unfolding shift_def by (intro exI [of _ lv] exI [of _ lv']) (simp add: levels_def)

lemma rcu_moved: "rcu_lock_op f lp k = Some k' \<Longrightarrow> moved f lp k k'"
proof (elim rcu_lock_opD)
  fix lv l
  assume a: "k_level_heap k lp = Some lv" "f (tl_rcu_lock lv) = Some l"
    "levels k' = ((k_level_heap k)(lp \<mapsto> lv\<lparr>tl_rcu_lock := l\<rparr>), k_next k)"
  have "shift lp (locks_of lv) (locks_of (lv\<lparr>tl_rcu_lock := l\<rparr>)) k k'"
    by (rule shift_levels [OF a(1) _ a(3)]) (simp add: text_of_def)
  with a(2) show "moved f lp k k'" by (auto simp: moved_def locks_of_def)
qed

lemma rcu_moved_interruptible:
  "interruptible (rcu_lock_op f lp) k = Some (ok, k') \<Longrightarrow> if ok then moved f lp k k' else levels k' = levels k"
  using rcu_moved [of f lp "k\<lparr>k_signal := snd (next_outcome (k_signal k))\<rparr>" k']
  by (auto simp: interruptible_eq moved_def shift_def split: if_splits)

lemma mutex_flipped:
  assumes "set_w_mutex m lp k = Some k'" and "\<And>lv. k_level_heap k lp = Some lv \<Longrightarrow> m \<Longrightarrow> \<not> tl_w_mutex lv"
  shows "flipped m lp k k'"
proof -
  obtain lv where a: "k_level_heap k lp = Some lv" "levels k' = ((k_level_heap k)(lp \<mapsto> lv\<lparr>tl_w_mutex := m\<rparr>), k_next k)"
    using assms(1) by (auto simp: set_w_mutex_def update_level_def levels_def split: bind_splits)
  have "shift lp (locks_of lv) (locks_of (lv\<lparr>tl_w_mutex := m\<rparr>)) k k'"
    by (rule shift_levels [OF a(1) _ a(2)]) (simp add: text_of_def)
  with a(1) assms(2) show ?thesis by (auto simp: flipped_def locks_of_def)
qed

lemma calm_fields:
  "update_level lp (\<lambda>lv. lv\<lparr>tl_waiting := w lv\<rparr>) k = Some k' \<Longrightarrow> calm locks_of k k'"
  "update_level lp (\<lambda>lv. lv\<lparr>tl_local_wq := q lv\<rparr>) k = Some k' \<Longrightarrow> calm locks_of k k'"
  "update_level lp (\<lambda>lv. lv\<lparr>tl_ready := r lv\<rparr>) k = Some k' \<Longrightarrow> calm locks_of k k'"
  "update_level lp (\<lambda>lv. lv\<lparr>tl_size := n lv\<rparr>) k = Some k' \<Longrightarrow> calm locks_of k k'"
  "update_level lp (\<lambda>lv. lv\<lparr>tl_buffer := bs lv\<rparr>) k = Some k' \<Longrightarrow> calm locks_of k k'"
  "free_level lp k = Some k' \<Longrightarrow> calm locks_of k k'"
  "wake_up_all lp k = Some k' \<Longrightarrow> calm locks_of k k'"
  "create_level i e k = (ptr, k') \<Longrightarrow> calm locks_of k k'"
  by (erule calm_update, simp add: locks_of_def)+ (erule calm_free, erule calm_both [OF calm_wake], erule calm_both [OF calm_new])

lemma mutex_given: "set_w_mutex False lp k = Some k' \<Longrightarrow> flipped False lp k k'"
  by (rule mutex_flipped) simp_all

lemma mutex_taken:
  "set_w_mutex True lp k = Some k' \<Longrightarrow> k_level_heap k lp = Some lv \<Longrightarrow> \<not> tl_w_mutex lv \<Longrightarrow> flipped True lp k k'"
  by (rule mutex_flipped) simp_all

lemma hold_rules:
  "calm locks_of k k' \<Longrightarrow> reads p' = reads p \<Longrightarrow> writes p' = writes p \<Longrightarrow> mutex p' = mutex p \<Longrightarrow> hold_change k k' p p'"
  "moved down_read lp k k' \<Longrightarrow> reads p = None \<Longrightarrow> reads p' = Some lp \<Longrightarrow> writes p' = writes p \<Longrightarrow>
    mutex p' = mutex p \<Longrightarrow> hold_change k k' p p'"
  "moved up_read lp k k' \<Longrightarrow> reads p = Some lp \<Longrightarrow> reads p' = None \<Longrightarrow> writes p' = writes p \<Longrightarrow>
    mutex p' = mutex p \<Longrightarrow> hold_change k k' p p'"
  "moved down_write lp k k' \<Longrightarrow> writes p = None \<Longrightarrow> writes p' = Some lp \<Longrightarrow> reads p' = reads p \<Longrightarrow>
    mutex p' = mutex p \<Longrightarrow> hold_change k k' p p'"
  "moved up_write lp k k' \<Longrightarrow> writes p = Some lp \<Longrightarrow> writes p' = None \<Longrightarrow> reads p' = reads p \<Longrightarrow>
    mutex p' = mutex p \<Longrightarrow> hold_change k k' p p'"
  "flipped True lp k k' \<Longrightarrow> mutex p = None \<Longrightarrow> mutex p' = Some lp \<Longrightarrow> reads p' = reads p \<Longrightarrow>
    writes p' = writes p \<Longrightarrow> hold_change k k' p p'"
  "flipped False lp k k' \<Longrightarrow> mutex p = Some lp \<Longrightarrow> mutex p' = None \<Longrightarrow> reads p' = reads p \<Longrightarrow>
    writes p' = writes p \<Longrightarrow> hold_change k k' p p'"
  by (simp_all add: hold_change_def)

lemmas hold_none = hold_rules(1) and hold_down_read = hold_rules(2) and hold_up_read = hold_rules(3)
  and hold_down_write = hold_rules(4)

lemmas level_effects = levels_simps calm_fields rcu_moved rcu_moved_interruptible mutex_given

lemma release_hold:
  assumes "release_step r k = Some (rs', k')" and "orderly (r # rs)"
  shows "hold_change k k' (Finish (r # rs) code bytes) (Finish (rs' @ rs) code' bytes') \<and> orderly (rs' @ rs)"
  using assms
  by (cases r)
    (auto simp: calm_levels split: if_splits bind_splits dest!: level_effects intro: hold_rules)

lemma send_mutex_step:
  assumes "send_micro (Send_Mutex dp lp) k = Some (p', k')"
  shows "p' = Finish [Up_Rcu lp, Up_Tag (dp_tag dp)] 0 [] \<and> k' = k \<or>
    p' = Sending (Send_Test_Ready dp lp) \<and> flipped True lp k k'"
  using assms by (auto split: bind_splits if_splits dest: mutex_taken)

lemma copy_step:
  assumes "micro t (Copy code c) k = Some (p', k')"
  shows "levels k' = levels k \<and> (\<exists>code' bytes. p' = Unlock_Rcu code' bytes c)"
  using assms by (auto simp: Let_def split: bind_splits if_splits prod.splits dest: levels_ops)

lemma send_hold:
  assumes "send_micro sp k = Some (p', k')"
  shows "hold_change k k' (Sending sp) p' \<and> tidy p'"
  using assms
proof (induction sp k rule: send_micro.induct)
  case (7 dp te lp s)
  then show ?case
    by (auto simp: calm_levels hold_none hold_down_read [of lp] split: bind_splits if_splits
      dest!: rcu_moved_interruptible)
next
  case (9 dp lp s)
  then show ?case using send_mutex_step by (fastforce intro: hold_rules)
qed (auto simp: Let_def calm_def split: bind_splits if_splits option.splits prod.splits
      dest!: levels_simps calm_fields intro!: hold_none)

lemma micro_hold:
  assumes "micro t p k = Some (p', k')" and "tidy p"
  shows "hold_change k k' p p' \<and> tidy p'"
  using assms
proof (induction t p k rule: micro.induct)
  case (7 t rq te lp s)
  then show ?case
    by (auto simp: calm_levels hold_none hold_down_read [of lp] split: bind_splits if_splits
      dest!: rcu_moved_interruptible)
next
  case (13 t rq te lp old new s)
  then show ?case by (auto split: bind_splits dest!: rcu_moved intro: hold_up_read [of lp])
next
  case (14 t rq te old new s)
  then show ?case
    by (auto simp: calm_levels hold_none hold_down_read [of new] split: bind_splits if_splits
      dest!: rcu_moved_interruptible)
next
  case (20 t code c s)
  then show ?case using copy_step by (fastforce intro: hold_none calm_levels)
next
  case (21 t code bytes c s)
  then show ?case by (auto split: bind_splits dest!: rcu_moved intro: hold_up_read [of "rc_lp c"])
next
  case (23 t code bytes c s)
  then show ?case by (auto split: bind_splits dest!: rcu_moved intro: hold_down_write [of "rc_lp c"])
next
  case (26 t r rs code bytes s)
  then show ?case by (auto split: bind_splits dest: release_hold)
next
  case (27 t sp s)
  then show ?case using send_hold by simp
qed (auto simp: Let_def registered_receiver_def calm_def
      split: bind_splits if_splits option.splits prod.splits dest!: levels_simps calm_fields intro!: hold_none)

text \<open>
  Only the thread that publishes a message sets \<open>ready\<close>, and only a last receiver clears it; the rest of a
  message changes only under a thread that fills or clears it.
\<close>

fun publishes :: "point \<Rightarrow> addr option" where
  "publishes (Sending (Send_Ready dp lp)) = Some lp"
| "publishes p = None"

fun unpublishes :: "point \<Rightarrow> addr option" where
  "unpublishes (Finish (Clear_Ready lp # rs) code bytes) = Some lp"
| "unpublishes p = None"

definition text_change :: "kernel \<Rightarrow> kernel \<Rightarrow> point \<Rightarrow> bool" where
  "text_change k k' p \<longleftrightarrow> calm text_of k k' \<and> publishes p = None \<and> unpublishes p = None \<or>
     (\<exists>a lv lv'. k_level_heap k a = Some lv \<and> levels k' = ((k_level_heap k)(a \<mapsto> lv'), k_next k) \<and>
        (filling p = Some a \<and> (tl_ready lv' = tl_ready lv \<or> publishes p = Some a) \<or>
         unpublishes p = Some a \<and> tl_ready lv' = 0))"

lemma text_change_cases:
  assumes "text_change k k' p"
  obtains "calm text_of k k'" "publishes p = None" "unpublishes p = None"
    | b lv lw where "k_level_heap k b = Some lv" "levels k' = ((k_level_heap k)(b \<mapsto> lw), k_next k)"
        "filling p = Some b \<and> (tl_ready lw = tl_ready lv \<or> publishes p = Some b) \<or> unpublishes p = Some b \<and> tl_ready lw = 0"
proof -
  assume 1: "calm text_of k k' \<Longrightarrow> publishes p = None \<Longrightarrow> unpublishes p = None \<Longrightarrow> thesis"
    and 2: "\<And>b lv lw. k_level_heap k b = Some lv \<Longrightarrow> levels k' = ((k_level_heap k)(b \<mapsto> lw), k_next k) \<Longrightarrow>
      filling p = Some b \<and> (tl_ready lw = tl_ready lv \<or> publishes p = Some b) \<or> unpublishes p = Some b \<and> tl_ready lw = 0 \<Longrightarrow>
      thesis"
  from assms [unfolded text_change_def] show thesis
    by (rule disjE) (elim conjE, rule 1, assumption+, elim exE conjE, rule 2, assumption+)
qed

lemma shift_text: "moved f lp k k' \<Longrightarrow> calm text_of k k'" "flipped m lp k k' \<Longrightarrow> calm text_of k k'"
  by (auto simp: moved_def flipped_def shift_def calm_def kept_def split: if_splits)

lemma text_fields:
  "update_level lp (\<lambda>lv. lv\<lparr>tl_waiting := w lv\<rparr>) k = Some k' \<Longrightarrow> calm text_of k k'"
  "update_level lp (\<lambda>lv. lv\<lparr>tl_local_wq := q lv\<rparr>) k = Some k' \<Longrightarrow> calm text_of k k'"
  "free_level lp k = Some k' \<Longrightarrow> calm text_of k k'"
  "wake_up_all lp k = Some k' \<Longrightarrow> calm text_of k k'"
  "create_level i e k = (ptr, k') \<Longrightarrow> calm text_of k k'"
  "rcu_lock_op f lp k = Some k' \<Longrightarrow> calm text_of k k'"
  "set_w_mutex m lp k = Some k' \<Longrightarrow> calm text_of k k'"
  by (erule calm_update, simp add: text_of_def)+
    (erule calm_free, erule calm_both [OF calm_wake], erule calm_both [OF calm_new], drule rcu_moved,
     erule shift_text, auto simp: set_w_mutex_def text_of_def intro: calm_update)

lemma text_interruptible: "interruptible (rcu_lock_op f lp) k = Some (ok, k') \<Longrightarrow> calm text_of k k'"
  by (auto dest!: rcu_moved_interruptible intro: shift_text calm_levels split: if_splits)

lemma text_calm: "calm text_of k k' \<Longrightarrow> publishes p = None \<Longrightarrow> unpublishes p = None \<Longrightarrow> text_change k k' p"
  by (simp add: text_change_def)

lemma text_update:
  assumes "update_level a g s = Some k'" and "levels s = levels k"
    and "\<And>lv. filling p = Some a \<and> (tl_ready (g lv) = tl_ready lv \<or> publishes p = Some a) \<or>
      unpublishes p = Some a \<and> tl_ready (g lv) = 0"
  shows "text_change k k' p"
proof -
  have h: "k_level_heap s = k_level_heap k" "k_next s = k_next k" using assms(2) by (simp_all add: levels_def)
  from assms(1) obtain lv where "k_level_heap k a = Some lv" "levels k' = ((k_level_heap k)(a \<mapsto> g lv), k_next k)"
    using h by (auto simp: update_level_def levels_def split: bind_splits)
  then show ?thesis using assms(3) unfolding text_change_def by blast
qed

lemma release_text:
  assumes "release_step r k = Some (rs', k')"
  shows "text_change k k' (Finish (r # rs) code bytes)"
  using assms
  by (cases r)
    (auto split: if_splits bind_splits dest!: levels_simps text_fields text_update [OF _ refl]
      intro: text_calm calm_levels)

lemma send_text:
  assumes "send_micro sp k = Some (p', k')"
  shows "text_change k k' (Sending sp)"
  using assms
proof (induction sp k rule: send_micro.induct)
  case (12 dp lp s)
  then show ?case
    by (auto simp: Let_def split: bind_splits prod.splits if_splits dest!: levels_ops elim!: text_update)
next
  case (13 dp lp s)
  then show ?case by (auto split: bind_splits elim!: text_update)
next
  case (14 dp lp s)
  then show ?case by (auto split: bind_splits elim!: text_update)
qed (auto simp: Let_def split: bind_splits if_splits option.splits
      dest!: levels_simps text_fields text_interruptible intro!: text_calm calm_levels)

lemma micro_text:
  assumes "micro t p k = Some (p', k')"
  shows "text_change k k' p"
  using assms
proof (induction t p k rule: micro.induct)
  case (20 t code c s)
  then show ?case using copy_step by (fastforce intro: text_calm calm_levels)
next
  case (26 t r rs code bytes s)
  then show ?case by (auto split: bind_splits dest: release_text)
next
  case (27 t sp s)
  then show ?case using send_text by simp
qed (auto simp: Let_def calm_def split: bind_splits if_splits option.splits prod.splits
      dest!: levels_simps text_fields text_interruptible intro!: text_calm)

lemma micro_filling:
  assumes "micro t p k = Some (p', k')" and "tidy p" and "filling p' = Some a"
  shows "filling p = Some a \<and> publishes p = None \<or> unpublishes p = Some a \<or>
    k' = k \<and> (\<forall>lv. k_level_heap k a = Some lv \<longrightarrow> tl_ready lv \<noteq> 1)"
  using assms
proof (induction t p k rule: micro.induct)
  case (26 t r rs code bytes s)
  then show ?case
    by (cases r; cases rs rule: clears.cases) (auto split: bind_splits if_splits)
next
  case (27 t sp s)
  then show ?case by (cases sp) (auto simp: Let_def split: bind_splits if_splits option.splits prod.splits)
qed (auto simp: Let_def split: bind_splits if_splits option.splits prod.splits)

lemma filling_holds:
  "tidy p \<Longrightarrow> filling p = Some a \<Longrightarrow> mutex p = Some a \<or> writes p = Some a"
  "publishes p = Some a \<Longrightarrow> mutex p = Some a \<and> reads p = Some a"
proof -
  show "tidy p \<Longrightarrow> filling p = Some a \<Longrightarrow> mutex p = Some a \<or> writes p = Some a"
    by (cases p rule: filling.cases) (auto elim: clears.elims)
  show "publishes p = Some a \<Longrightarrow> mutex p = Some a \<and> reads p = Some a"
    by (cases p rule: publishes.cases) simp_all
qed

section \<open>The invariant\<close>

definition having :: "(point \<Rightarrow> addr option) \<Rightarrow> threads \<Rightarrow> addr \<Rightarrow> tid set" where
  "having f P a = {t. \<exists>p. P t = Some p \<and> f p = Some a}"

text \<open>The locks of a level, its readers, its writers and the holders of its mutex.\<close>

definition accounts :: "tid set \<Rightarrow> tid set \<Rightarrow> tid set \<Rightarrow> rwsem \<times> bool \<Rightarrow> bool" where
  "accounts R W M x \<longleftrightarrow> rw_readers (fst x) = card R \<and> (rw_writer (fst x) \<longleftrightarrow> W \<noteq> {}) \<and>
     (\<forall>t\<in>W. W = {t}) \<and> (W \<noteq> {} \<longrightarrow> R = {}) \<and> card M = (if snd x then 1 else 0)"

definition level_inv :: "kernel \<Rightarrow> threads \<Rightarrow> bool" where
  "level_inv k P \<longleftrightarrow> finite (dom P) \<and> (\<forall>a. k_next k \<le> a \<longrightarrow> k_level_heap k a = None) \<and>
     (\<forall>t p. P t = Some p \<longrightarrow> tidy p \<and>
        (\<forall>a. reads p = Some a \<or> writes p = Some a \<or> mutex p = Some a \<longrightarrow> a < k_next k) \<and>
        (\<forall>a lv. filling p = Some a \<longrightarrow> k_level_heap k a = Some lv \<longrightarrow> tl_ready lv \<noteq> 1)) \<and>
     (\<forall>a lv. k_level_heap k a = Some lv \<longrightarrow>
        accounts (having reads P a) (having writes P a) (having mutex P a) (locks_of lv))"

lemma level_invD:
  assumes "level_inv k P"
  shows "finite (dom P)" "\<And>a lv. k_level_heap k a = Some lv \<Longrightarrow> a < k_next k"
    "\<And>t p. P t = Some p \<Longrightarrow> tidy p"
    "\<And>t p a. P t = Some p \<Longrightarrow> reads p = Some a \<or> writes p = Some a \<or> mutex p = Some a \<Longrightarrow> a < k_next k"
    "\<And>t p a lv. P t = Some p \<Longrightarrow> filling p = Some a \<Longrightarrow> k_level_heap k a = Some lv \<Longrightarrow> tl_ready lv \<noteq> 1"
    "\<And>a lv. k_level_heap k a = Some lv \<Longrightarrow>
      accounts (having reads P a) (having writes P a) (having mutex P a) (locks_of lv)"
  using assms unfolding level_inv_def by (blast | metis linorder_not_less option.distinct(1))+

lemma having_finite: "finite (dom P) \<Longrightarrow> finite (having f P a)"
  by (rule finite_subset [of _ "dom P"]) (auto simp: having_def)

lemma having_same:
  "P t = Some p \<Longrightarrow> f p' = f p \<Longrightarrow> having f (P(t \<mapsto> p')) a = having f P a"
  "P t = None \<Longrightarrow> f p' = None \<Longrightarrow> having f (P(t \<mapsto> p')) a = having f P a"
  "P t = Some p \<Longrightarrow> f p = None \<Longrightarrow> having f (P(t := None)) a = having f P a"
  by (auto simp: having_def)

lemma having_change:
  "P t = Some p \<Longrightarrow> f p = None \<Longrightarrow> f p' = Some b \<Longrightarrow>
    having f (P(t \<mapsto> p')) a = (if a = b then insert t (having f P a) else having f P a)"
  "P t = Some p \<Longrightarrow> f p = Some b \<Longrightarrow> f p' = None \<Longrightarrow>
    having f (P(t \<mapsto> p')) a = (if a = b then having f P a - {t} else having f P a)"
  by (auto simp: having_def)

lemma having_mem: "P t = Some p \<Longrightarrow> t \<in> having f P a \<longleftrightarrow> f p = Some a"
  by (simp add: having_def)

lemma accounts_rules:
  "accounts R W M (c, m) \<Longrightarrow> down_read c = Some c' \<Longrightarrow> finite R \<Longrightarrow> t \<notin> R \<Longrightarrow> accounts (insert t R) W M (c', m)"
  "accounts R W M (c, m) \<Longrightarrow> up_read c = Some c' \<Longrightarrow> finite R \<Longrightarrow> t \<in> R \<Longrightarrow> accounts (R - {t}) W M (c', m)"
  "accounts R W M (c, m) \<Longrightarrow> down_write c = Some c' \<Longrightarrow> finite R \<Longrightarrow> accounts R (insert t W) M (c', m)"
  "accounts R W M (c, m) \<Longrightarrow> up_write c = Some c' \<Longrightarrow> t \<in> W \<Longrightarrow> accounts R (W - {t}) M (c', m)"
  "accounts R W M (c, False) \<Longrightarrow> finite M \<Longrightarrow> accounts R W (insert t M) (c, True)"
  "accounts R W M (c, m) \<Longrightarrow> finite M \<Longrightarrow> t \<in> M \<Longrightarrow> accounts R W (M - {t}) (c, False)"
  by (auto simp: accounts_def down_read_def up_read_def down_write_def up_write_def split: if_splits nat.splits)

lemma accounts_fresh: "accounts {} {} {} (locks_of (fresh_level i e))"
  by (simp add: accounts_def locks_of_def fresh_level_def read_locked_def)

text \<open>The locks of a level after a step, from the change of what is held.\<close>

lemma shiftE:
  assumes "shift lp x y k k'" and "k_level_heap k' a = Some lv'"
  obtains (here) lv where "a = lp" "k_level_heap k a = Some lv" "locks_of lv = x" "locks_of lv' = y"
    | (other) "a \<noteq> lp" "k_level_heap k a = Some lv'"
  using assms by (auto simp: shift_def levels_def split: if_splits)

lemma shift_next: "shift lp x y k k' \<Longrightarrow> k_next k' = k_next k"
  "shift lp x y k k' \<Longrightarrow> \<exists>lv. k_level_heap k lp = Some lv"
  by (auto simp: shift_def levels_def)

lemma hold_change_cases:
  assumes "hold_change k k' p p'"
  obtains (none) "calm locks_of k k'" "reads p' = reads p" "writes p' = writes p" "mutex p' = mutex p"
    | (down_r) lp c c' m where "shift lp (c, m) (c', m) k k'" "down_read c = Some c'" "reads p = None"
        "reads p' = Some lp" "writes p' = writes p" "mutex p' = mutex p"
    | (up_r) lp c c' m where "shift lp (c, m) (c', m) k k'" "up_read c = Some c'" "reads p = Some lp"
        "reads p' = None" "writes p' = writes p" "mutex p' = mutex p"
    | (down_w) lp c c' m where "shift lp (c, m) (c', m) k k'" "down_write c = Some c'" "writes p = None"
        "writes p' = Some lp" "reads p' = reads p" "mutex p' = mutex p"
    | (up_w) lp c c' m where "shift lp (c, m) (c', m) k k'" "up_write c = Some c'" "writes p = Some lp"
        "writes p' = None" "reads p' = reads p" "mutex p' = mutex p"
    | (taken) lp c where "shift lp (c, False) (c, True) k k'" "mutex p = None" "mutex p' = Some lp"
        "reads p' = reads p" "writes p' = writes p"
    | (given) lp c m where "shift lp (c, m) (c, False) k k'" "mutex p = Some lp" "mutex p' = None"
        "reads p' = reads p" "writes p' = writes p"
  using assms unfolding hold_change_def moved_def flipped_def
  apply (elim disjE conjE exE)
        apply (rule none; assumption)
       apply (rule down_r; assumption)
      apply (rule up_r; assumption)
     apply (rule down_w; assumption)
    apply (rule up_w; assumption)
   apply simp
  apply (rule given; assumption)
  done

lemma hold_change_next:
  assumes "hold_change k k' p p'"
  shows "k_next k \<le> k_next k'"
  using assms shift_next by (fastforce simp: hold_change_def moved_def flipped_def calm_iff)

lemma hold_accounts:
  assumes inv: "level_inv k P" and p: "P t = Some p" and c: "hold_change k k' p p'" and a: "k_level_heap k' a = Some lv'"
  shows "accounts (having reads (P(t \<mapsto> p')) a) (having writes (P(t \<mapsto> p')) a) (having mutex (P(t \<mapsto> p')) a) (locks_of lv')"
proof -
  note I = level_invD [OF inv]
  note same = having_same(1) [where P = P, OF p] and change = having_change [where P = P, OF p]
  note fin = having_finite [OF I(1)] and mem = having_mem [where P = P, OF p]
  have old: "accounts (having reads P a) (having writes P a) (having mutex P a) (locks_of lv)"
    if "k_level_heap k a = Some lv" for lv using I(6) [OF that] .
  from c show ?thesis
  proof (cases rule: hold_change_cases)
    case none
    from none(1) a show ?thesis
    proof (cases rule: calmE)
      case (old lv)
      then show ?thesis using I(6) [OF old(1)] none(2-4) by (simp add: same)
    next
      case new
      have "having f P a = {}" if "\<And>t q. P t = Some q \<Longrightarrow> f q = Some a \<Longrightarrow> a < k_next k" for f
        using that new(1) by (fastforce simp: having_def)
      then have "having reads P a = {}" "having writes P a = {}" "having mutex P a = {}" using I(4) by blast+
      then show ?thesis using new(3) none(2-4) accounts_fresh [of 0 0] by (simp add: same)
    qed
  next
    case (down_r lp c c' m)
    from down_r(1) a show ?thesis
      using old down_r(2-) fin mem accounts_rules(1) [OF _ down_r(2)]
      by (cases rule: shiftE) (simp_all add: same change)
  next
    case (up_r lp c c' m)
    from up_r(1) a show ?thesis
      using old up_r(2-) fin mem accounts_rules(2) [OF _ up_r(2)]
      by (cases rule: shiftE) (simp_all add: same change)
  next
    case (down_w lp c c' m)
    from down_w(1) a show ?thesis
      using old down_w(2-) fin mem accounts_rules(3) [OF _ down_w(2)]
      by (cases rule: shiftE) (simp_all add: same change)
  next
    case (up_w lp c c' m)
    from up_w(1) a show ?thesis
      using old up_w(2-) fin mem accounts_rules(4) [OF _ up_w(2)]
      by (cases rule: shiftE) (simp_all add: same change)
  next
    case (taken lp c)
    from taken(1) a show ?thesis
      using old taken(2-) fin mem accounts_rules(5)
      by (cases rule: shiftE) (simp_all add: same change)
  next
    case (given lp c m)
    from given(1) a show ?thesis
      using old given(2-) fin mem accounts_rules(6)
      by (cases rule: shiftE) (simp_all add: same change)
  qed
qed

lemma hold_below:
  assumes "level_inv k P" and "P t = Some p" and "hold_change k k' p p'"
    and "reads p' = Some a \<or> writes p' = Some a \<or> mutex p' = Some a"
  shows "a < k_next k'"
proof -
  note I = level_invD [OF assms(1)]
  have "reads p = Some a \<or> writes p = Some a \<or> mutex p = Some a \<or> (\<exists>lv. k_level_heap k a = Some lv)"
    using assms(3,4) shift_next(2) by (cases rule: hold_change_cases) (auto; blast)+
  then have "a < k_next k" using I(2) I(4) [OF assms(2)] by blast
  then show ?thesis using hold_change_next [OF assms(3)] by simp
qed

text \<open>Two threads cannot be publishing and filling or clearing the same level.\<close>

lemma filling_alone:
  assumes inv: "level_inv k P" and a: "k_level_heap k a = Some lv" and t: "P t = Some p" "publishes p = Some a"
    and u: "P u = Some q" "filling q = Some a"
  shows "u = t"
proof -
  note I = level_invD [OF inv]
  have acc: "accounts (having reads P a) (having writes P a) (having mutex P a) (locks_of lv)" by (rule I(6) [OF a])
  have tm: "t \<in> having mutex P a" "t \<in> having reads P a" using t filling_holds(2) by (auto simp: having_def)
  then have "having writes P a = {}" using acc by (auto simp: accounts_def)
  then have "u \<in> having mutex P a"
    using filling_holds(1) [OF I(3) [OF u(1)] u(2)] u(1) by (auto simp: having_def)
  moreover have "card (having mutex P a) \<le> 1" using acc by (simp add: accounts_def)
  moreover have "finite (having mutex P a)" by (rule having_finite [OF I(1)])
  ultimately show ?thesis using tm(1) by (simp add: card_le_Suc0_iff_eq)
qed

lemma calm_below:
  assumes "calm v k k'" and "\<And>a lv. k_level_heap k a = Some lv \<Longrightarrow> a < k_next k" and "k_level_heap k' a = Some lv'"
  shows "a < k_next k'"
  using assms(1,3)
proof (cases rule: calmE)
  case (old lv)
  then show ?thesis using assms(2) [OF old(1)] assms(1) by (simp add: calm_iff)
qed

lemma calm_ready:
  assumes "calm text_of k k'" and "k_level_heap k' a = Some lv'" and "\<And>lv. k_level_heap k a = Some lv \<Longrightarrow> tl_ready lv \<noteq> 1"
  shows "tl_ready lv' \<noteq> 1"
  using assms(1,2)
proof (cases rule: calmE)
  case (old lv)
  then show ?thesis using assms(3) [OF old(1)] by (simp add: text_of_def)
next
  case new
  then show ?thesis by (simp add: fresh_views) (simp add: text_of_def)
qed

lemma level_invI:
  assumes "finite (dom P)" "\<And>a lv. k_level_heap k a = Some lv \<Longrightarrow> a < k_next k"
    "\<And>t p. P t = Some p \<Longrightarrow> tidy p"
    "\<And>t p a. P t = Some p \<Longrightarrow> reads p = Some a \<or> writes p = Some a \<or> mutex p = Some a \<Longrightarrow> a < k_next k"
    "\<And>t p a lv. P t = Some p \<Longrightarrow> filling p = Some a \<Longrightarrow> k_level_heap k a = Some lv \<Longrightarrow> tl_ready lv \<noteq> 1"
    "\<And>a lv. k_level_heap k a = Some lv \<Longrightarrow>
      accounts (having reads P a) (having writes P a) (having mutex P a) (locks_of lv)"
  shows "level_inv k P"
proof -
  have "k_level_heap k a = None" if "k_next k \<le> a" for a using assms(2) [of a] that by fastforce
  then show ?thesis using assms(1,3-6) unfolding level_inv_def by blast
qed

text \<open>A step that changes neither what is held nor an existing level.\<close>

lemma level_inv_same:
  assumes inv: "level_inv k P" and c: "calm both_of k k'" and fin: "finite (dom P')"
    and same: "\<And>f a. f \<in> {reads, writes, mutex} \<Longrightarrow> having f P' a = having f P a"
    and pts: "\<And>t q. P' t = Some q \<Longrightarrow> P t = Some q \<or> tidy q \<and> filling q = None"
  shows "level_inv k' P'"
proof (rule level_invI [OF fin])
  note I = level_invD [OF inv]
  show "a < k_next k'" if "k_level_heap k' a = Some lv'" for a lv' using calm_below [OF c I(2) that] .
  show "tidy q" if "P' t = Some q" for t q using pts [OF that] I(3) by blast
  show "a < k_next k'" if q: "P' t = Some q" "reads q = Some a \<or> writes q = Some a \<or> mutex q = Some a" for t q a
  proof -
    have "t \<in> having reads P' a \<or> t \<in> having writes P' a \<or> t \<in> having mutex P' a" using q by (simp add: having_def)
    then have "t \<in> having reads P a \<or> t \<in> having writes P a \<or> t \<in> having mutex P a" by (simp add: same)
    then have "a < k_next k" using I(4) by (auto simp: having_def)
    then show ?thesis using c by (simp add: calm_iff)
  qed
  show "tl_ready lv' \<noteq> 1" if "P' t = Some q" "filling q = Some a" "k_level_heap k' a = Some lv'" for t q a lv'
  proof -
    have "P t = Some q" using pts [OF that(1)] that(2) by simp
    then show ?thesis using calm_ready [OF calm_both(2) [OF c] that(3)] I(5) that(2) by blast
  qed
  show "accounts (having reads P' a) (having writes P' a) (having mutex P' a) (locks_of lv')"
    if a: "k_level_heap k' a = Some lv'" for a lv'
    using calm_both(1) [OF c] a
  proof (cases rule: calmE)
    case (old lv)
    then show ?thesis using I(6) [OF old(1)] same by simp
  next
    case new
    have "having f P a = {}" if "\<And>t q. P t = Some q \<Longrightarrow> f q = Some a \<Longrightarrow> a < k_next k" for f
      using that new(1) by (fastforce simp: having_def)
    then have "having reads P a = {}" "having writes P a = {}" "having mutex P a = {}" using I(4) by blast+
    then show ?thesis using new(3) same accounts_fresh [of 0 0] by simp
  qed
qed

lemma filling_micro:
  assumes inv: "level_inv k P" and p: "P t = Some p" and m: "micro t p k = Some (p', k')"
    and q: "(P(t \<mapsto> p')) u = Some q" "filling q = Some a" and a: "k_level_heap k' a = Some lv'"
  shows "tl_ready lv' \<noteq> 1"
proof -
  note I = level_invD [OF inv]
  have mine: "filling p = Some a \<and> publishes p = None \<or> unpublishes p = Some a \<or>
      k' = k \<and> (\<forall>lv. k_level_heap k a = Some lv \<longrightarrow> tl_ready lv \<noteq> 1)" if "u = t"
    using micro_filling [OF m I(3) [OF p]] q that by simp
  have theirs: "P u = Some q" if "u \<noteq> t" using q(1) that by simp
  have before: "tl_ready lv \<noteq> 1" if "k_level_heap k a = Some lv" "unpublishes p \<noteq> Some a" for lv
    using mine theirs I(5) [OF _ q(2) that(1)] I(5) [OF p _ that(1)] that by (cases "u = t") auto
  from micro_text [OF m] show ?thesis
  proof (cases rule: text_change_cases)
    case 1
    then show ?thesis using calm_ready [OF 1(1) a] before by simp
  next
    case (2 b lv lw)
    have heap: "k_level_heap k' = (k_level_heap k)(b \<mapsto> lw)" using 2(2) by (simp add: levels_def)
    show ?thesis
    proof (cases "a = b")
      case False
      have "unpublishes p = Some a \<Longrightarrow> filling p = None" by (cases p rule: unpublishes.cases) auto
      then have "unpublishes p \<noteq> Some a" using 2(3) False by auto
      then show ?thesis using before a heap False by simp
    next
      case True
      then have lw: "lv' = lw" using a heap by simp
      show ?thesis
      proof (cases "publishes p = Some a")
        case pub: True
        have "unpublishes p = None" using pub by (cases p rule: publishes.cases) simp_all
        then have "u \<noteq> t \<or> k' = k \<and> tl_ready lv \<noteq> 1" using mine 2(1) True pub by auto
        then show ?thesis
        proof
          assume "u \<noteq> t"
          then show ?thesis using filling_alone [OF inv _ p pub theirs q(2)] 2(1) True by simp
        next
          assume "k' = k \<and> tl_ready lv \<noteq> 1"
          then show ?thesis using heap 2(1) True lw by (metis fun_upd_same option.inject)
        qed
      next
        case False
        then show ?thesis using 2(1,3) True lw I(5) [OF p] by auto
      qed
    qed
  qed
qed

lemma level_inv_micro:
  assumes inv: "level_inv k P" and p: "P t = Some p" and m: "micro t p k = Some (p', k')"
  shows "level_inv k' (P(t \<mapsto> p'))"
proof (rule level_invI)
  note I = level_invD [OF inv]
  have h: "hold_change k k' p p'" "tidy p'" using micro_hold [OF m I(3) [OF p]] by simp_all
  show "finite (dom (P(t \<mapsto> p')))" using I(1) by simp
  show "a < k_next k'" if a: "k_level_heap k' a = Some lv'" for a lv'
    using h(1)
  proof (cases rule: hold_change_cases)
    case none
    then show ?thesis using calm_below [OF none(1) I(2) a] by simp
  qed (use a I(2) hold_change_next [OF h(1)] in \<open>auto simp: shift_def levels_def split: if_splits\<close>)
  show "tidy q" if "(P(t \<mapsto> p')) u = Some q" for u q using that h(2) I(3) by (auto split: if_splits)
  show "a < k_next k'" if "(P(t \<mapsto> p')) u = Some q" "reads q = Some a \<or> writes q = Some a \<or> mutex q = Some a"
    for u q a
  proof (cases "u = t")
    case True
    then show ?thesis using that hold_below [OF inv p h(1)] by simp
  next
    case False
    then have "a < k_next k" using that I(4) by simp
    then show ?thesis using hold_change_next [OF h(1)] by simp
  qed
  show "tl_ready lv' \<noteq> 1" if "(P(t \<mapsto> p')) u = Some q" "filling q = Some a" "k_level_heap k' a = Some lv'" for u q a lv'
    using filling_micro [OF inv p m that] .
  show "accounts (having reads (P(t \<mapsto> p')) a) (having writes (P(t \<mapsto> p')) a) (having mutex (P(t \<mapsto> p')) a) (locks_of lv')"
    if "k_level_heap k' a = Some lv'" for a lv' using hold_accounts [OF inv p h(1) that] .
qed

lemma sleep_calm: "receive_sleep t c k = Some k' \<Longrightarrow> calm both_of k k'"
  by (auto simp: receive_sleep_def both_of_def locks_of_def text_of_def intro: calm_update)

lemma env_calm: "env_eq k k' \<Longrightarrow> calm both_of k k'"
  using env_eqD [of k k'] by (auto simp: levels_def intro: calm_levels)

text \<open>Every step but those of \<open>micro\<close> leaves the existing levels alone.\<close>

lemma fine_step_kinds:
  assumes "fine_step k P k' P'"
  obtains (own) t p p' where "P t = Some p" "micro t p k = Some (p', k')" "P' = P(t \<mapsto> p')"
    | (other) "calm both_of k k'"
  using assms by cases (auto intro: get_calm ctl_calm sleep_calm env_calm)

lemma level_inv_step:
  assumes inv: "level_inv k P" and step: "fine_step k P k' P'"
  shows "level_inv k' P'"
  using step
proof cases
  case get
  then show ?thesis using level_invD(1) [OF inv] by (auto intro: level_inv_same [OF inv get_calm])
next
  case ctl
  then show ?thesis using level_invD(1) [OF inv] by (auto intro: level_inv_same [OF inv ctl_calm])
next
  case (start t tag level sz buffer euid)
  then show ?thesis
    using level_invD(1) [OF inv]
    by (intro level_inv_same [OF inv]) (auto simp: having_same(2) split: if_splits)
next
  case (start_send t tag level sz buffer euid)
  then show ?thesis
    using level_invD(1) [OF inv]
    by (intro level_inv_same [OF inv]) (auto simp: having_same(2) split: if_splits)
next
  case micro
  then show ?thesis using level_inv_micro [OF inv] by simp
next
  case (sleep t c)
  then show ?thesis using level_invD(1) [OF inv] by (auto intro: level_inv_same [OF inv sleep_calm])
next
  case (wake t c)
  then show ?thesis
    using level_invD(1) [OF inv]
    by (intro level_inv_same [OF inv]) (auto simp: having_same(1) [where P = P, OF wake(3)] split: if_splits)
next
  case (signal t c)
  then show ?thesis
    using level_invD(1) [OF inv]
    by (intro level_inv_same [OF inv]) (auto simp: having_same(1) [where P = P, OF signal(3)] split: if_splits)
next
  case (return t code bytes)
  then show ?thesis
    using level_invD(1) [OF inv]
    by (intro level_inv_same [OF inv]) (auto simp: having_same(3) [where P = P, OF return(3)] split: if_splits)
next
  case environment
  then show ?thesis using level_invD(1) [OF inv] by (auto intro: level_inv_same [OF inv env_calm])
qed

lemma level_inv_start:
  assumes "service g al' sig cp = Some k"
  shows "level_inv k Map.empty"
proof -
  have "k_level_heap k = Map.empty" using assms by (auto simp: service_def split: bind_splits)
  then show ?thesis by (intro level_invI) simp_all
qed

lemma fine_reachable_levels: "fine_reachable k P \<Longrightarrow> level_inv k P"
proof (induction rule: fine_reachable.induct)
  case start
  then show ?case using level_inv_start by blast
next
  case step
  then show ?case using level_inv_step by blast
qed

section \<open>Messages\<close>

text \<open>A level that has been freed does not come back.\<close>

lemma level_gone:
  assumes inv: "level_inv k P" and step: "fine_step k P k' P'" and a: "a < k_next k" "k_level_heap k' a = Some lv'"
  shows "\<exists>lv. k_level_heap k a = Some lv"
  using step
proof (cases rule: fine_step_kinds)
  case other
  from other a(2) show ?thesis by (cases rule: calmE) (use a(1) in auto)
next
  case (own t p p')
  from micro_text [OF own(2)] show ?thesis
  proof (cases rule: text_change_cases)
    case 1
    from 1(1) a(2) show ?thesis by (cases rule: calmE) (use a(1) in auto)
  next
    case 2
    then show ?thesis using a by (auto simp: levels_def split: if_splits)
  qed
qed

text \<open>A published message changes in one way: a last receiver begins to clear it.\<close>

lemma published_step:
  assumes inv: "level_inv k P" and a: "k_level_heap k a = Some lv" "tl_ready lv = 1"
    and step: "fine_step k P k' P'" and a': "k_level_heap k' a = Some lv'"
  shows "text_of lv' = text_of lv \<or> tl_ready lv' = 0 \<and> having reads P a = {}"
proof -
  note I = level_invD [OF inv]
  have same: ?thesis if "calm text_of k k'"
    using that a'
  proof (cases rule: calmE)
    case (old lw)
    then show ?thesis using a(1) by simp
  next
    case new
    then show ?thesis using I(2) [OF a(1)] by simp
  qed
  from step show ?thesis
  proof (cases rule: fine_step_kinds)
    case other
    then show ?thesis using same calm_both(2) by blast
  next
    case (own t p p')
    from micro_text [OF own(2)] show ?thesis
    proof (cases rule: text_change_cases)
      case 1
      then show ?thesis using same by blast
    next
      case (2 b lw lw')
      show ?thesis
      proof (cases "a = b")
        case False
        then show ?thesis using 2(2) a(1) a' by (simp add: levels_def)
      next
        case True
        then have "filling p \<noteq> Some b" using I(5) [OF own(1) _ a(1)] a(2) by auto
        then have un: "unpublishes p = Some a" "tl_ready lw' = 0" using 2(3) True by auto
        then have "writes p = Some a" using I(3) [OF own(1)] by (cases p rule: unpublishes.cases) auto
        then have "t \<in> having writes P a" using own(1) by (simp add: having_def)
        then have "having reads P a = {}" using I(6) [OF a(1)] by (auto simp: accounts_def)
        then show ?thesis using un(2) 2(2) True a' by (simp add: levels_def)
      qed
    qed
  qed
qed

end
