(* ===== verification/Receive_Races.thy ===== *)
theory Receive_Races
  imports Receive_Interleaving
begin

text \<open>
  Two runs of \<open>tag_receive\<close> that only exist between the parts of \<open>Tag_System\<close>: one in which a level is
  freed under a receiver that still uses it, one in which an \<open>AWAKE_ALL\<close> that returned 1 is lost. Both
  happen on level 3 of descriptor 0.
\<close>

section \<open>States of the runs\<close>

text \<open>
  In all of them the level \<open>lp\<close> holds \<open>x\<close>, the next address to allocate holds \<open>y\<close>, \<open>m\<close> threads hold
  the lock of the tag, \<open>w\<close> and \<open>r\<close> are its counter and its flag, \<open>q\<close> is the level installed, \<open>l\<close> the
  lock of the level.
\<close>

definition scene_tag :: "int \<Rightarrow> int \<Rightarrow> addr \<Rightarrow> rwsem \<Rightarrow> tag \<Rightarrow> tag" where
  "scene_tag w r q l tg = tg\<lparr>tg_waiting := w, tg_ready := r, tg_tag_level := (tg_tag_level tg)[3 := Some q],
     tg_level_lock := (tg_level_lock tg)[3 := l]\<rparr>"

definition scene :: "kernel \<Rightarrow> addr \<Rightarrow> tag \<Rightarrow> addr \<Rightarrow> nat \<Rightarrow> int \<Rightarrow> int \<Rightarrow> addr \<Rightarrow> rwsem \<Rightarrow>
    tag_level option \<Rightarrow> tag_level option \<Rightarrow> kernel" where
  "scene k te tg lp m w r q l x y = k\<lparr>k_tag_lock := (k_tag_lock k)[0 := read_locked m],
     k_tag_heap := (k_tag_heap k)(te \<mapsto> scene_tag w r q l tg),
     k_level_heap := (k_level_heap k)(lp := x, k_next k := y),
     k_next := (if y = None then k_next k else Suc (k_next k))\<rparr>"

definition stage :: "kernel \<Rightarrow> addr \<Rightarrow> tag \<Rightarrow> addr \<Rightarrow> bool" where
  "stage k te tg lp \<longleftrightarrow> k_tags k ! 0 = Some te \<and> k_tag_heap k te = Some tg \<and> length (k_tag_lock k) = 256 \<and>
     length (tg_tag_level tg) = LEVELS \<and> tg_level_lock tg = replicate LEVELS init_rwsem \<and>
     lp \<noteq> k_next k \<and> k_level_heap k (k_next k) = None \<and>
     tg_permission tg = TAG_PERM_ALL \<and> k_alloc k = [] \<and> k_signal k = [] \<and> k_copy k = [] \<and>
     (\<forall>l<LEVELS. \<exists>p lv m. tg_tag_level tg ! l = Some p \<and> k_level_heap k p = Some lv \<and>
        tl_rcu_lock lv = read_locked m \<and> tl_local_wq lv = [])"

lemma stage_lengths:
  assumes "stage k te tg lp"
  shows "0 < length (k_tag_lock k)" "3 < length (tg_tag_level tg)" "3 < length (tg_level_lock tg)"
    "k_tag_lock k \<noteq> []" "lp \<noteq> k_next k" "k_next k \<noteq> lp"
  using assms by (auto simp: stage_def LEVELS_def)

lemma scene_fields:
  assumes "stage k te tg lp"
  shows "k_tags (scene k te tg lp m w r q l x y) ! 0 = Some te"
    "k_tag_heap (scene k te tg lp m w r q l x y) te = Some (scene_tag w r q l tg)"
    "k_level_heap (scene k te tg lp m w r q l x y) lp = x"
    "k_level_heap (scene k te tg lp m w r q l x y) (k_next k) = y"
    "tg_waiting (scene_tag w r q l tg) = w" "tg_ready (scene_tag w r q l tg) = r"
    "tg_permission (scene_tag w r q l tg) = TAG_PERM_ALL"
    "tg_tag_level (scene_tag w r q l tg) ! 3 = Some q"
    "tg_level_lock (scene_tag w r q l tg) ! 3 = l"
    "\<not> CHECKPERM (scene_tag w r q l tg) euid"
  using assms stage_lengths [OF assms]
  by (simp_all add: stage_def scene_def scene_tag_def CHECKPERM_def tag_consts)

lemma upd_under: "a \<noteq> b \<Longrightarrow> (h(a := x, b := y))(a := z) = h(a := z, b := y)"
  by (simp add: fun_eq_iff)

lemma scene_tag_update:
  "(scene_tag w r q l tg)\<lparr>tg_waiting := w'\<rparr> = scene_tag w' r q l tg"
  "(scene_tag w r q l tg)\<lparr>tg_ready := r'\<rparr> = scene_tag w r' q l tg"
  "(scene_tag w r q l tg)\<lparr>tg_tag_level := (tg_tag_level (scene_tag w r q l tg))[3 := Some q']\<rparr> = scene_tag w r q' l tg"
  "tg_waiting (scene_tag w r q l tg) = w"
  by (simp_all add: scene_tag_def)

lemma scene_update_tag:
  assumes "stage k te tg lp" and "f (scene_tag w r q l tg) = scene_tag w' r' q' l' tg"
  shows "update_tag te f (scene k te tg lp m w r q l x y) = Some (scene k te tg lp m w' r' q' l' x y)"
  using assms by (simp add: update_tag_def scene_def)

lemma scene_locks:
  assumes "stage k te tg lp"
  shows "tag_lock_op down_read 0 (scene k te tg lp m w r q l x y) = Some (scene k te tg lp (Suc m) w r q l x y)"
    "tag_lock_op up_read 0 (scene k te tg lp (Suc m) w r q l x y) = Some (scene k te tg lp m w r q l x y)"
    "level_lock_op f te 3 (scene k te tg lp m w r q l x y) = map_option (\<lambda>l. scene k te tg lp m w r q l x y) (f l)"
    "rcu_lock_op f lp (scene k te tg lp m w r q l (Some lv) y) =
      map_option (\<lambda>c. scene k te tg lp m w r q l (Some (lv\<lparr>tl_rcu_lock := c\<rparr>)) y) (f (tl_rcu_lock lv))"
    "rcu_lock_op f (k_next k) (scene k te tg lp m w r q l x (Some lv)) =
      map_option (\<lambda>c. scene k te tg lp m w r q l x (Some (lv\<lparr>tl_rcu_lock := c\<rparr>))) (f (tl_rcu_lock lv))"
  using stage_lengths [OF assms] assms [unfolded stage_def]
  by (simp_all add: tag_lock_op_def level_lock_op_def rcu_lock_op_def scene_def scene_tag_def upd_under
      split: bind_split option.split)

lemma scene_levels:
  assumes "stage k te tg lp"
  shows "update_level lp g (scene k te tg lp m w r q l (Some lv) y) = Some (scene k te tg lp m w r q l (Some (g lv)) y)"
    "update_level (k_next k) g (scene k te tg lp m w r q l x (Some lv)) =
      Some (scene k te tg lp m w r q l x (Some (g lv)))"
    "free_level lp (scene k te tg lp m w r q l (Some lv) y) = Some (scene k te tg lp m w r q l None y)"
    "create_level i e (scene k te tg lp m w r q l x None) =
      (Some (k_next k), scene k te tg lp m w r q l x (Some (fresh_level i e)))"
  using stage_lengths [OF assms] assms [unfolded stage_def]
  by (simp_all add: update_level_def free_level_def create_level_eq scene_def upd_under)

lemma scene_tags:
  assumes "stage k te tg lp"
  shows "update_tag te (\<lambda>tg. tg\<lparr>tg_waiting := tg_waiting tg + 1\<rparr>) (scene k te tg lp m w r q l x y) =
      Some (scene k te tg lp m (w + 1) r q l x y)"
    "update_tag te (\<lambda>tg. tg\<lparr>tg_waiting := tg_waiting tg - 1\<rparr>) (scene k te tg lp m w r q l x y) =
      Some (scene k te tg lp m (w - 1) r q l x y)"
    "update_tag te (\<lambda>tg. tg\<lparr>tg_ready := c\<rparr>) (scene k te tg lp m w r q l x y) =
      Some (scene k te tg lp m w c q l x y)"
    "update_tag te (\<lambda>tg. tg\<lparr>tg_tag_level := (tg_tag_level tg)[3 := Some p]\<rparr>) (scene k te tg lp m w r q l x y) =
      Some (scene k te tg lp m w r p l x y)"
  by (simp_all add: scene_update_tag [OF assms] scene_tag_update)

lemma scene_environment:
  assumes "stage k te tg lp"
  shows "interruptible acq (scene k te tg lp m w r q l x y) =
      map_option (Pair True) (acq (scene k te tg lp m w r q l x y))"
    "copy_to_user src n (scene k te tg lp m w r q l x y) = (0, take n src, scene k te tg lp m w r q l x y)"
proof -
  have none: "k_signal (scene k te tg lp m w r q l x y) = []" "k_copy (scene k te tg lp m w r q l x y) = []"
    using assms by (simp_all add: stage_def scene_def)
  have "s\<lparr>k_signal := []\<rparr> = s" if "k_signal s = []" for s :: kernel using that by (cases s) simp
  with none(1) show "interruptible acq (scene k te tg lp m w r q l x y) =
      map_option (Pair True) (acq (scene k te tg lp m w r q l x y))"
    by (simp only: interruptible_eq next_outcome.simps fst_conv snd_conv if_True)
  have "s\<lparr>k_copy := []\<rparr> = s" if "k_copy s = []" for s :: kernel using that by (cases s) simp
  with none(2) show "copy_to_user src n (scene k te tg lp m w r q l x y) =
      (0, take n src, scene k te tg lp m w r q l x y)"
    by (simp add: copy_to_user_def del: kernel.unfold_congs)
qed

lemmas scene_simps = scene_fields scene_locks scene_levels scene_tags scene_environment

section \<open>Runs\<close>

text \<open>The first \<open>n\<close> steps of a thread, alone.\<close>

fun run :: "nat \<Rightarrow> tid \<Rightarrow> point \<Rightarrow> kernel \<Rightarrow> (point \<times> kernel) option" where
  "run 0 t p k = Some (p, k)"
| "run (Suc n) t p k = do { (p, k) \<leftarrow> micro t p k; run n t p k }"

lemma run_reachable:
  "run n t p k = Some (p', k') \<Longrightarrow> fine_reachable k P \<Longrightarrow> P t = Some p \<Longrightarrow>
     fine_reachable k' (P(t \<mapsto> p'))"
proof (induction n t p k arbitrary: P rule: run.induct)
  case (1 t p k)
  then show ?case by (simp add: fun_upd_idem)
next
  case (2 n t p k)
  then obtain q s where q: "micro t p k = Some (q, s)" "run n t q s = Some (p', k')"
    by (auto split: bind_splits)
  have "fine_reachable s (P(t \<mapsto> q))"
    using 2(3,4) q(1) by (blast intro: fine_reachable.step fine_step.micro)
  then have "fine_reachable k' ((P(t \<mapsto> q))(t \<mapsto> p'))" by (rule 2(1) [OF q(1) refl q(2)]) simp
  then show ?case by (simp only: fun_upd_upd)
qed

lemma run_numeral [simp]:
  "run (numeral v) t p k = do { (p, k) \<leftarrow> micro t p k; run (pred_numeral v) t p k }"
  "run 1 t p k = micro t p k"
  by (simp_all add: numeral_eq_Suc split_def)

lemma enter_run:
  assumes "stage k te tg lp" and "tl_rcu_lock lv = read_locked n" and "tl_ready lv \<noteq> 1"
  shows "run 10 t (Lock_Tag (request_of 0 3 True 10 0)) (scene k te tg lp m w r lp (read_locked 0) (Some lv) y) =
    Some (Waiting (ex_receiver te lp), scene k te tg lp (Suc m) (w + 1) r lp (read_locked 0)
      (Some (lv\<lparr>tl_rcu_lock := read_locked (Suc n), tl_waiting := tl_waiting lv + 1\<rparr>)) y)"
  using assms(2,3)
  by (simp add: scene_simps [OF assms(1)] request_of_def registered_receiver_def ex_receiver_def)

text \<open>A send without a message.\<close>

lemma send_run:
  assumes "stage k te tg lp" and "tl_rcu_lock lv = read_locked n" "tl_ready lv \<noteq> 1" "tl_waiting lv \<noteq> 0"
    "\<not> tl_w_mutex lv" and "w \<noteq> 0"
  shows "tag_send 0 3 None 0 euid (scene k te tg lp m w r lp (read_locked 0) (Some lv) y) =
    Some (1, scene k te tg lp m w r lp (read_locked 0)
      (Some (lv\<lparr>tl_size := 0, tl_ready := 1, tl_local_wq := []\<rparr>)) y)"
  using assms(2-)
  by (cases lv) (simp add: tag_send_def tag_send_level_def bad_message_args_def MAX_TAGS_def LEVELS_def
      set_w_mutex_def wake_up_all_def scene_simps [OF assms(1)])

section \<open>The start\<close>

lemma first_scene:
  obtains k te tg lp lv where "stage k te tg lp" "lv_ok [7 \<mapsto> ex_receiver te lp] lp lv" "tl_ready lv = 0"
    "tl_rcu_lock lv = read_locked 1" "tl_waiting lv = 1" "tl_local_wq lv = []" "tl_epoch lv = 0"
    "\<not> tl_w_mutex lv"
    "fine_reachable (scene k te tg lp 1 1 0 lp (read_locked 0) (Some lv) None) [7 \<mapsto> Waiting (ex_receiver te lp)]"
    "reg_ok k" "linked k (tg_key tg) 0" "k_common_lock k = read_locked 0" "tg_tag_key tg = 0"
    "distinct (filter (\<lambda>x. x \<noteq> None) (tg_tag_level tg))" "\<forall>p\<in>pointers (tg_tag_level tg). k_level_heap k p \<noteq> None"
    "tg_tag_level tg ! 3 = Some lp"
proof -
  obtain k te lp tg lv where k: "reachable k [7 \<mapsto> ex_receiver te lp]" "k_tags k ! 0 = Some te"
    "k_tag_heap k te = Some tg" "tg_permission tg = TAG_PERM_ALL" "tg_ready tg = 0" "tg_waiting tg = 1"
    "tg_tag_level tg ! 3 = Some lp" "k_level_heap k lp = Some lv" "tl_ready lv = 0" "tl_waiting lv = 1"
    "tl_local_wq lv = []" "tl_epoch lv = 0" "tl_buffer lv = replicate BUFFER_SIZE 0"
    "k_alloc k = []" "k_signal k = []" "k_copy k = []" "epochs_left k"
    by (rule ex_receiving [of "[]" "[]" "[]"])
  let ?R = "[7 \<mapsto> ex_receiver te lp]"
  note inv = reachable_inv [OF k(1)]
  have w: "tag_waiters ?R 0 = {7}" "lp_waiters ?R p = (if p = lp then {7} else {})" for p
    by (auto simp: tag_waiters_def lp_waiters_def ex_receiver_def split: if_splits)
  obtain tg' where tg': "k_tag_heap k te = Some tg'" "tg_ok ?R 0 tg'"
    "\<And>l. l < LEVELS \<Longrightarrow> \<exists>p lv. tg_tag_level tg' ! l = Some p \<and> k_level_heap k p = Some lv \<and>
       lv_ok ?R p lv \<and> lp_at k 0 l = Some p \<and> level_at k 0 l = Some lv"
    by (rule tags_okE [OF sys_invD(2) [OF inv] _ k(2)]) auto
  then have tg: "tg_ok ?R 0 tg" using k(3) by simp
  have others: "\<exists>p lv m. tg_tag_level tg ! l = Some p \<and> k_level_heap k p = Some lv \<and>
      tl_rcu_lock lv = read_locked m \<and> tl_local_wq lv = []" if l: "l < LEVELS" for l
  proof -
    obtain p lvl where p: "tg_tag_level tg ! l = Some p" "k_level_heap k p = Some lvl" "lv_ok ?R p lvl"
      using tg'(3) [OF l] tg'(1) k(3) by auto
    have "tl_local_wq lvl = []"
      using p k(8,11) w(2) [of p] by (cases "p = lp") (auto simp: lv_ok_def)
    then show ?thesis using p lv_okD(1) by blast
  qed
  have three: "(3::nat) < LEVELS" by (simp add: LEVELS_def)
  have lv: "lv_ok ?R lp lv"
    using tg'(3) [OF three] tg'(1) k(3,7,8) by auto
  have none: "k_level_heap k (k_next k) = None" using sys_invD(7) [OF inv] by (simp add: heap_ok_def)
  then have ne: "lp \<noteq> k_next k" using k(8) by auto
  have stage: "stage k te tg lp"
    using k others tg ne none sys_invD(5) [OF inv] by (simp add: stage_def tg_ok_def locks_ok_def)
  have "tg\<lparr>tg_waiting := 1, tg_ready := 0, tg_tag_level := (tg_tag_level tg)[3 := Some lp],
      tg_level_lock := (tg_level_lock tg)[3 := read_locked 0]\<rparr> = tg"
    using k(5,6) list_update_id [of "tg_tag_level tg" 3, unfolded k(7)] tg_okD(2) [OF tg three]
    by (cases tg) simp
  then have "scene k te tg lp 1 1 0 lp (read_locked 0) (Some lv) None = k"
    using k(3,8) none sys_inv_locks(3) [OF inv, of 0] w(1)
    by (cases k) (simp add: scene_def scene_tag_def map_upd_same fun_upd_idem)
  moreover have "fine_reachable k [7 \<mapsto> Waiting (ex_receiver te lp)]"
    using reachable_fine [OF k(1)] by (simp add: waiting_threads_simps)
  moreover have "reg_ok k" "linked k (tg_key tg) 0" "k_common_lock k = read_locked 0"
    using sys_invD(5,6) [OF inv] k(2,3)
    by (simp_all add: registry_inv_iff locks_ok_def init_rwsem_read_locked entry_at_def)
  moreover have "distinct (filter (\<lambda>x. x \<noteq> None) (tg_tag_level tg))"
    "\<forall>p\<in>pointers (tg_tag_level tg). k_level_heap k p \<noteq> None"
    using tag_level_pointers(1,3) [OF inv _ k(2,3)] by simp_all
  moreover have "tg_tag_key tg = 0" using tg by (simp add: tg_ok_def)
  ultimately show thesis
    using that [OF stage lv k(9) _ k(10-12)] lv_okD(1,2) [OF lv] w(2) k(7) by simp
qed

section \<open>A level freed in use\<close>

text \<open>
  Thread 7 is interrupted and finds itself the last on the level; before it locks the level, thread
  8 enters it.
\<close>

lemma late_scene:
  obtains k te tg lp lv where "stage k te tg lp" "tl_ready lv = 0" "tl_rcu_lock lv = read_locked 1" "tl_waiting lv = 1"
    "tl_local_wq lv = []" "tl_epoch lv = 0" "\<not> tl_w_mutex lv"
    "fine_reachable (scene k te tg lp 2 2 0 lp (read_locked 0) (Some lv) None)
      [7 \<mapsto> Try_Lock 0 [] (ex_receiver te lp), 8 \<mapsto> Waiting (ex_receiver te lp)]"
proof -
  obtain k te tg lp lv where k: "stage k te tg lp" "lv_ok [7 \<mapsto> ex_receiver te lp] lp lv" "tl_ready lv = 0"
    "tl_rcu_lock lv = read_locked 1" "tl_waiting lv = 1" "tl_local_wq lv = []" "tl_epoch lv = 0"
    "\<not> tl_w_mutex lv"
    "fine_reachable (scene k te tg lp 1 1 0 lp (read_locked 0) (Some lv) None) [7 \<mapsto> Waiting (ex_receiver te lp)]"
    by (rule first_scene)
  note S = scene_simps [OF k(1)]
  let ?c = "ex_receiver te lp" and ?s = "\<lambda>m w lv y. scene k te tg lp m w 0 lp (read_locked 0) (Some lv) y"
  have c: "rc_lp ?c = lp" "rc_entry ?c = te" "rc_level ?c = 3" "rc_tag ?c = 0" by (simp_all add: ex_receiver_def)
  have 1: "fine_reachable (?s 1 1 lv None) [7 \<mapsto> Leave_Queue False ?c]"
    using fine_reachable.step [OF k(9) fine_step.signal [of _ 7]] by simp
  let ?lv1 = "lv\<lparr>tl_local_wq := [], tl_rcu_lock := read_locked 0, tl_waiting := 0\<rparr>"
  have "run 5 7 (Leave_Queue False ?c) (?s 1 1 lv None) = Some (Try_Lock 0 [] ?c, ?s 1 1 ?lv1 None)"
    using k(3-6) by (simp add: S c)
  from run_reachable [OF this 1]
  have "fine_reachable (?s 1 1 ?lv1 None) [7 \<mapsto> Try_Lock 0 [] ?c]" by simp
  then have 2: "fine_reachable (?s 1 1 ?lv1 None) [7 \<mapsto> Try_Lock 0 [] ?c,
      8 \<mapsto> Lock_Tag (request_of 0 3 True 10 0)]"
    by (rule fine_reachable.step [OF _ fine_step.start])
      (simp_all add: bad_message_args_def MAX_TAGS_def LEVELS_def BUFFER_SIZE_def)
  let ?lv2 = "lv\<lparr>tl_local_wq := [], tl_rcu_lock := read_locked 1, tl_waiting := 1\<rparr>"
  have "run 10 8 (Lock_Tag (request_of 0 3 True 10 0)) (?s 1 1 ?lv1 None) = Some (Waiting ?c, ?s 2 2 ?lv2 None)"
    using enter_run [OF k(1), of ?lv1 0] k(3) by (simp add: eval_nat_numeral)
  from run_reachable [OF this 2]
  have 3: "fine_reachable (?s 2 2 ?lv2 None) [7 \<mapsto> Try_Lock 0 [] ?c, 8 \<mapsto> Waiting ?c]"
    by simp
  then show thesis using k(3,7,8) by (intro that [OF k(1), of ?lv2]) simp_all
qed

text \<open>A message arrives; thread 9 opens the next epoch.\<close>

lemma race_start:
  obtains k te tg lp lv new where "stage k te tg lp" "tl_epoch lv = 0" "tl_rcu_lock lv = read_locked 1"
    "tl_waiting lv = 1" "tl_size lv = 0" "tl_ready lv = 1" "tl_local_wq lv = []" "tl_epoch new = 1"
    "fine_reachable (scene k te tg lp 3 3 0 (k_next k) (read_locked 0) (Some lv) (Some new))
      [7 \<mapsto> Try_Lock 0 [] (ex_receiver te lp), 8 \<mapsto> Waiting (ex_receiver te lp),
       9 \<mapsto> Waiting (ex_receiver te (k_next k))]"
proof -
  obtain k te tg lp lv where k: "stage k te tg lp" "tl_ready lv = 0" "tl_rcu_lock lv = read_locked 1" "tl_waiting lv = 1"
    "tl_local_wq lv = []" "tl_epoch lv = 0" "\<not> tl_w_mutex lv"
    and 3: "fine_reachable (scene k te tg lp 2 2 0 lp (read_locked 0) (Some lv) None)
      [7 \<mapsto> Try_Lock 0 [] (ex_receiver te lp), 8 \<mapsto> Waiting (ex_receiver te lp)]"
    by (rule late_scene)
  note S = scene_simps [OF k(1)]
  let ?c = "ex_receiver te lp" and ?s = "\<lambda>m w lv y. scene k te tg lp m w 0 lp (read_locked 0) (Some lv) y"
  let ?lv3 = "lv\<lparr>tl_size := 0, tl_ready := 1\<rparr>"
  have "tag_send 0 3 None 0 0 (?s 2 2 lv None) = Some (1, ?s 2 2 ?lv3 None)"
    using k(2-5,7) by (simp add: send_run [OF k(1)]) (cases lv; simp)
  then have "fine_reachable (?s 2 2 ?lv3 None) [7 \<mapsto> Try_Lock 0 [] ?c, 8 \<mapsto> Waiting ?c]"
    by (rule fine_send [OF 3, of 10, rotated]) simp
  then have 4: "fine_reachable (?s 2 2 ?lv3 None) [7 \<mapsto> Try_Lock 0 [] ?c, 8 \<mapsto> Waiting ?c,
      9 \<mapsto> Lock_Tag (request_of 0 3 True 10 0)]"
    by (rule fine_reachable.step [OF _ fine_step.start])
      (simp_all add: bad_message_args_def MAX_TAGS_def LEVELS_def BUFFER_SIZE_def)
  let ?new = "(fresh_level 3 1)\<lparr>tl_waiting := 1, tl_rcu_lock := read_locked 1\<rparr>"
  have "run 16 9 (Lock_Tag (request_of 0 3 True 10 0)) (?s 2 2 ?lv3 None) =
      Some (Waiting (ex_receiver te (k_next k)),
        scene k te tg lp 3 3 0 (k_next k) (read_locked 0) (Some ?lv3) (Some ?new))"
    using k(3,6) by (simp add: S request_of_def registered_receiver_def ex_receiver_def fresh_level_def to_c_int_def)
      (cases lv; simp)
  from run_reachable [OF this 4]
  have "fine_reachable (scene k te tg lp 3 3 0 (k_next k) (read_locked 0) (Some ?lv3) (Some ?new))
      [7 \<mapsto> Try_Lock 0 [] ?c, 8 \<mapsto> Waiting ?c, 9 \<mapsto> Waiting (ex_receiver te (k_next k))]"
    by simp
  then show thesis using k(3-6) by (intro that [OF k(1), of ?lv3 ?new]) (simp_all add: fresh_level_def)
qed

text \<open>
  C9. A level can be freed while a receiver uses it. There is a run of three receivers and one sender
  on one level, no call failing, after which thread 8, which has received its message, is about to
  decrement the counter of a level that thread 7 has freed: thread 7 found itself the last reader
  before thread 8 entered the level, and does not look at the counter again.
\<close>

theorem level_freed_in_use:
  "\<exists>k P c. fine_reachable k P \<and> P 8 = Some (Dec_Level 1 [] c) \<and> k_level_heap k (rc_lp c) = None \<and>
     micro 8 (Dec_Level 1 [] c) k = None"
proof -
  obtain k te tg lp lv new where k: "stage k te tg lp" "tl_epoch lv = 0" "tl_rcu_lock lv = read_locked 1"
    "tl_waiting lv = 1" "tl_size lv = 0" "tl_ready lv = 1" "tl_local_wq lv = []" "tl_epoch new = 1"
    and P: "fine_reachable (scene k te tg lp 3 3 0 (k_next k) (read_locked 0) (Some lv) (Some new))
      [7 \<mapsto> Try_Lock 0 [] (ex_receiver te lp), 8 \<mapsto> Waiting (ex_receiver te lp),
       9 \<mapsto> Waiting (ex_receiver te (k_next k))]" (is "fine_reachable ?s ?P")
    by (rule race_start)
  note S = scene_simps [OF k(1)]
  let ?c = "ex_receiver te lp" and ?t = "scene k te tg lp 3 3 0 (k_next k) (read_locked 0)"
  have c: "rc_lp ?c = lp" "rc_entry ?c = te" "rc_level ?c = 3" "rc_tag ?c = 0" by (simp_all add: ex_receiver_def)
  have "wait_condition ?c ?s = Some True" "\<not> asleep ?s 8 ?c"
    using k(6,7) by (simp_all add: wait_condition_def asleep_def S c)
  then have 1: "fine_reachable ?s (?P(8 \<mapsto> Leave_Queue True ?c))"
    by (intro fine_reachable.step [OF P fine_step.wake]) simp_all
  let ?lv = "lv\<lparr>tl_local_wq := [], tl_rcu_lock := read_locked 0\<rparr>"
  have "run 4 8 (Leave_Queue True ?c) ?s = Some (Dec_Level 1 [] ?c, ?t (Some ?lv) (Some new))"
    using k(3-7) by (simp add: S c)
  from run_reachable [OF this 1]
  have 2: "fine_reachable (?t (Some ?lv) (Some new)) (?P(8 \<mapsto> Dec_Level 1 [] ?c))" by simp
  have "run 4 7 (Try_Lock 0 [] ?c) (?t (Some ?lv) (Some new)) =
      Some (Finish [Dec_Tag te, Up_Tag 0] 0 [], ?t None (Some new))"
    using k(2,8) by (simp add: S c)
  from run_reachable [OF this 2]
  have "fine_reachable (?t None (Some new)) ((?P(8 \<mapsto> Dec_Level 1 [] ?c))(7 \<mapsto> Finish [Dec_Tag te, Up_Tag 0] 0 []))"
    by simp
  moreover have "k_level_heap (?t None (Some new)) (rc_lp ?c) = None" by (simp add: S c)
  moreover from this have "micro 8 (Dec_Level 1 [] ?c) (?t None (Some new)) = None"
    by (simp add: update_level_def)
  ultimately show ?thesis by (intro exI conjI) (assumption, simp_all)
qed

section \<open>A lost wake-up\<close>

lemma awake_run:
  assumes "stage k te tg lp" and "tl_rcu_lock lv = read_locked n" "tl_waiting lv > 0" "r \<noteq> 1" "w \<noteq> 0"
  shows "tag_ctl 0 TAG_AWAKE_ALL euid (scene k te tg lp m w r lp (read_locked 0) (Some lv) None) =
    Some (1, scene k te tg lp m w 1 lp (read_locked 0) (Some (lv\<lparr>tl_local_wq := []\<rparr>)) None)"
proof -
  note S = scene_simps [OF assms(1)]
  let ?s = "scene k te tg lp (Suc m) w 1 lp (read_locked 0) (Some lv) None"
  let ?tg = "scene_tag w 1 lp (read_locked 0) tg"
  have st: "\<forall>l<LEVELS. \<exists>p lv m. tg_tag_level tg ! l = Some p \<and> k_level_heap k p = Some lv \<and>
      tl_rcu_lock lv = read_locked m \<and> tl_local_wq lv = []" "tg_level_lock tg = replicate LEVELS init_rwsem"
    "length (tg_tag_level tg) = LEVELS" "k_level_heap k (k_next k) = None" "lp \<noteq> k_next k"
    using assms(1) by (simp_all add: stage_def)
  have locks: "tg_level_lock ?tg = replicate LEVELS init_rwsem"
    using st(2) by (simp add: scene_tag_def list_update_same_conv LEVELS_def init_rwsem_read_locked)
  have level: "\<exists>p lw m. tg_tag_level ?tg ! l = Some p \<and> k_level_heap ?s p = Some lw \<and>
      tl_rcu_lock lw = read_locked m \<and> (p \<noteq> lp \<longrightarrow> tl_local_wq lw = []) \<and> (p = lp \<longrightarrow> lw = lv)" if l: "l < LEVELS" for l
  proof (cases "l = 3")
    case True
    then show ?thesis using assms(2) by (auto simp: S)
  next
    case False
    obtain p lw m where p: "tg_tag_level tg ! l = Some p" "k_level_heap k p = Some lw"
        "tl_rcu_lock lw = read_locked m" "tl_local_wq lw = []" using st(1) l by blast
    then have "p \<noteq> k_next k" using st(4) by auto
    with p False assms(2) st(5) show ?thesis by (cases "p = lp") (auto simp: scene_def scene_tag_def)
  qed
  then have can: "can_wake ?s ?tg l" if "l < LEVELS" for l
    using that assms(3) by (fastforce simp: can_wake_def)
  obtain ok j g where j: "awake_levels LEVELS 0 te ?s = Some (ok, ?s\<lparr>k_signal := g,
      k_level_heap := wake_set (block_pointers ?tg 0 j) (k_level_heap ?s)\<rparr>)" "ok \<longrightarrow> j = LEVELS"
    "\<not> ok \<longrightarrow> False \<in> set (k_signal ?s)" "set g \<subseteq> set (k_signal ?s)"
    using awake_levels_result [OF scene_fields(2) [OF assms(1)] locks _ can, of 0 LEVELS] by auto
  have sig: "k_signal ?s = []" using assms(1) by (simp add: stage_def scene_def)
  then have ok: "ok" "j = LEVELS" "g = []" using j(2-4) by auto
  have woken: "wake_set (block_pointers ?tg 0 LEVELS) (k_level_heap ?s) = (k_level_heap ?s)(lp \<mapsto> wake lv)"
  proof
    fix p
    show "wake_set (block_pointers ?tg 0 LEVELS) (k_level_heap ?s) p = ((k_level_heap ?s)(lp \<mapsto> wake lv)) p"
    proof (cases "p = lp")
      case True
      have "lp \<in> block_pointers ?tg 0 LEVELS"
        unfolding block_pointers_def using S(8) by (auto simp: LEVELS_def intro!: exI [of _ 3])
      then show ?thesis using True by (simp add: wake_set_def S)
    next
      case False
      have "map_option wake (k_level_heap ?s p) = k_level_heap ?s p" if "p \<in> block_pointers ?tg 0 LEVELS"
      proof -
        from that obtain l where "l < LEVELS" "tg_tag_level ?tg ! l = Some p" by (auto simp: block_pointers_def)
        from level [OF this(1)] this(2) False show ?thesis by (auto simp: wake_def)
      qed
      then show ?thesis using False by (simp add: wake_set_def)
    qed
  qed
  have "?s\<lparr>k_signal := [], k_level_heap := (k_level_heap ?s)(lp \<mapsto> wake lv)\<rparr> =
      scene k te tg lp (Suc m) w 1 lp (read_locked 0) (Some (wake lv)) None"
    using sig st(5) by (simp add: scene_def upd_under)
  with j(1) ok woken have "awake_levels LEVELS 0 te ?s =
      Some (True, scene k te tg lp (Suc m) w 1 lp (read_locked 0) (Some (wake lv)) None)" by simp
  then show ?thesis
    using assms(4,5) by (simp add: tag_ctl_def tag_ctl_awake_all_def MAX_TAGS_def S wake_def)
qed

text \<open>
  C11. An \<open>AWAKE_ALL\<close> can be lost. There is a run after which thread 8 sleeps on a level, \<open>tag_ctl\<close>
  returns 1 for \<open>AWAKE_ALL\<close>, and one step of another thread later the condition of thread 8 is false:
  thread 7 had found itself the last receiver of the tag before thread 8 entered, and resets the flag
  after \<open>AWAKE_ALL\<close> has raised it.
\<close>

theorem awake_all_lost:
  "\<exists>k P c k' k'' P'. fine_reachable k P \<and> P 8 = Some (Waiting c) \<and> asleep k 8 c \<and>
     tag_ctl 0 TAG_AWAKE_ALL 0 k = Some (1, k') \<and> fine_step k' P k'' P' \<and>
     P' 8 = Some (Waiting c) \<and> wait_condition c k'' = Some False"
proof -
  obtain k te tg lp lv where k: "stage k te tg lp" "lv_ok [7 \<mapsto> ex_receiver te lp] lp lv" "tl_ready lv = 0"
    "tl_rcu_lock lv = read_locked 1" "tl_waiting lv = 1" "tl_local_wq lv = []" "tl_epoch lv = 0"
    "\<not> tl_w_mutex lv"
    "fine_reachable (scene k te tg lp 1 1 0 lp (read_locked 0) (Some lv) None) [7 \<mapsto> Waiting (ex_receiver te lp)]"
    by (rule first_scene)
  note S = scene_simps [OF k(1)]
  let ?c = "ex_receiver te lp" and ?s = "\<lambda>m w r lv. scene k te tg lp m w r lp (read_locked 0) (Some lv) None"
  have c: "rc_lp ?c = lp" "rc_entry ?c = te" "rc_level ?c = 3" "rc_tag ?c = 0" by (simp_all add: ex_receiver_def)
  have 1: "fine_reachable (?s 1 1 0 lv) [7 \<mapsto> Leave_Queue False ?c]"
    using fine_reachable.step [OF k(9) fine_step.signal [of _ 7]] by simp
  let ?lv1 = "lv\<lparr>tl_local_wq := [], tl_waiting := 0, tl_ready := 0, tl_size := 0,
    tl_buffer := tl_buffer lv, tl_rcu_lock := read_locked 0\<rparr>"
  have "run 12 7 (Leave_Queue False ?c) (?s 1 1 0 lv) = Some (Finish [Reset_Tag te, Up_Tag 0] 0 [], ?s 1 0 0 ?lv1)"
    using k(3-7) by (simp add: S c dec_tag_def)
  from run_reachable [OF this 1]
  have "fine_reachable (?s 1 0 0 ?lv1) [7 \<mapsto> Finish [Reset_Tag te, Up_Tag 0] 0 []]" by simp
  then have 2: "fine_reachable (?s 1 0 0 ?lv1) [7 \<mapsto> Finish [Reset_Tag te, Up_Tag 0] 0 [],
      8 \<mapsto> Lock_Tag (request_of 0 3 True 10 0)]"
    by (rule fine_reachable.step [OF _ fine_step.start])
      (simp_all add: bad_message_args_def MAX_TAGS_def LEVELS_def BUFFER_SIZE_def)
  let ?lv2 = "?lv1\<lparr>tl_rcu_lock := read_locked 1, tl_waiting := 1\<rparr>"
  have "run 10 8 (Lock_Tag (request_of 0 3 True 10 0)) (?s 1 0 0 ?lv1) = Some (Waiting ?c, ?s 2 1 0 ?lv2)"
    using enter_run [OF k(1), of ?lv1 0] by (simp add: eval_nat_numeral)
  from run_reachable [OF this 2]
  have 3: "fine_reachable (?s 2 1 0 ?lv2) [7 \<mapsto> Finish [Reset_Tag te, Up_Tag 0] 0 [], 8 \<mapsto> Waiting ?c]"
    by simp
  let ?P = "[7 \<mapsto> Finish [Reset_Tag te, Up_Tag 0] 0 [], 8 \<mapsto> Waiting ?c]"
  have "wait_condition ?c (?s 2 1 0 ?lv2) = Some False"
    "receive_sleep 8 ?c (?s 2 1 0 ?lv2) = Some (?s 2 1 0 (?lv2\<lparr>tl_local_wq := [8]\<rparr>))"
    by (simp_all add: wait_condition_def receive_sleep_def S c)
  then have 4: "fine_reachable (?s 2 1 0 (?lv2\<lparr>tl_local_wq := [8]\<rparr>)) ?P"
    by (intro fine_reachable.step [OF 3 fine_step.sleep [where t = 8]]) simp_all
  have 5: "asleep (?s 2 1 0 (?lv2\<lparr>tl_local_wq := [8]\<rparr>)) 8 ?c" by (simp add: asleep_def S c)
  have 6: "tag_ctl 0 TAG_AWAKE_ALL 0 (?s 2 1 0 (?lv2\<lparr>tl_local_wq := [8]\<rparr>)) = Some (1, ?s 2 1 1 ?lv2)"
    by (simp add: awake_run [OF k(1)]) (cases lv; simp)
  have "micro 7 (Finish [Reset_Tag te, Up_Tag 0] 0 []) (?s 2 1 1 ?lv2) = Some (Finish [Up_Tag 0] 0 [], ?s 2 1 0 ?lv2)"
    by (simp add: S)
  then have 7: "fine_step (?s 2 1 1 ?lv2) ?P (?s 2 1 0 ?lv2) (?P(7 \<mapsto> Finish [Up_Tag 0] 0 []))"
    by (intro fine_step.micro [where p = "Finish [Reset_Tag te, Up_Tag 0] 0 []"]) simp_all
  have "wait_condition ?c (?s 2 1 0 ?lv2) = Some False" by (simp add: wait_condition_def S c)
  with 4 5 6 7 show ?thesis by (intro exI conjI) (assumption | simp)+
qed

end
