(* ===== verification/Send_Races.thy ===== *)
theory Send_Races
  imports Receive_Races
begin

text \<open>
  A run of \<open>tag_send\<close> whose copy from user space fails: the mutex of the level is released after both
  locks, and the level can go in between.
\<close>

section \<open>The sender\<close>

lemma scene_mutex:
  assumes "stage k te tg lp"
  shows "set_w_mutex b lp (scene k te tg lp m w r q l (Some lv) y) =
      Some (scene k te tg lp m w r q l (Some (lv\<lparr>tl_w_mutex := b\<rparr>)) y)"
  by (simp add: set_w_mutex_def scene_levels(1) [OF assms])

text \<open>A copy of one byte from an address that cannot be read.\<close>

lemma scene_fault:
  assumes "stage k te tg lp"
  shows "copy_from_user dst [] (Suc 0) (scene k te tg lp m w r q l x y) = (1, 0 # drop 1 dst, scene k te tg lp m w r q l x y)"
proof -
  have none: "k_copy (scene k te tg lp m w r q l x y) = []" using assms by (simp add: stage_def scene_def)
  have "s\<lparr>k_copy := []\<rparr> = s" if "k_copy s = []" for s :: kernel using that by (cases s) simp
  with none show ?thesis by (simp add: copy_from_user_def del: kernel.unfold_congs)
qed

lemma faulty_send:
  assumes "stage k te tg lp" and "tl_rcu_lock lv = read_locked 1" "tl_ready lv = 0" "tl_waiting lv = 1" "\<not> tl_w_mutex lv"
  shows "run 14 8 (Sending (Send_Lock (dispatch_of 0 3 (Some []) 1 0)))
      (scene k te tg lp 1 1 0 lp (read_locked 0) (Some lv) None) =
    Some (Finish [Up_Mutex lp] (- EFAULT) [], scene k te tg lp 1 1 0 lp (read_locked 0)
      (Some (lv\<lparr>tl_w_mutex := True, tl_buffer := 0 # drop 1 (tl_buffer lv)\<rparr>)) None)"
  using assms(2-)
  by (cases lv) (simp add: scene_simps [OF assms(1)] scene_mutex [OF assms(1)] scene_fault [OF assms(1)] dispatch_of_def)

text \<open>The only receiver is interrupted and leaves.\<close>

lemma leaving_run:
  assumes "stage k te tg lp" and "tl_rcu_lock lv = read_locked 1" "tl_waiting lv = 1" "tl_local_wq lv = []" "tl_epoch lv = 0"
  shows "run 14 7 (Leave_Queue False (ex_receiver te lp)) (scene k te tg lp 1 1 0 lp (read_locked 0) (Some lv) None) =
    Some (Finish [] 0 [], scene k te tg lp 0 0 0 lp (read_locked 0) (Some (lv\<lparr>tl_rcu_lock := read_locked 0,
      tl_waiting := 0, tl_ready := 0, tl_size := 0\<rparr>)) None)"
  using assms(2-)
  by (cases lv) (simp add: scene_simps [OF assms(1)] ex_receiver_def dec_tag_def)

section \<open>Deletion\<close>

lemma delete_run:
  assumes st: "stage k te tg lp" and reg: "reg_ok k" "linked k (tg_key tg) 0" "k_common_lock k = read_locked 0"
    and key: "tg_tag_key tg = 0"
    and ptr: "distinct (filter (\<lambda>x. x \<noteq> None) (tg_tag_level tg))"
      "\<forall>p\<in>pointers (tg_tag_level tg). k_level_heap k p \<noteq> None" "tg_tag_level tg ! 3 = Some lp"
  obtains k' where "tag_ctl 0 TAG_DELETE euid (scene k te tg lp 0 0 0 lp (read_locked 0) (Some lv) None) = Some (1, k')"
    "k_level_heap k' lp = None"
proof -
  note S = scene_simps [OF st]
  let ?s = "scene k te tg lp 0 0 0 lp (read_locked 0) (Some lv) None"
  let ?tg = "scene_tag 0 0 lp (read_locked 0) tg"
  let ?t = "?s\<lparr>k_tags := (k_tags ?s)[0 := None]\<rparr>"
  have tg: "tg_key ?tg = tg_key tg" "tg_tag_key ?tg = 0" "tg_tag_level ?tg = tg_tag_level tg"
    using key ptr(3) list_update_id [of "tg_tag_level tg" 3] by (simp_all add: scene_tag_def)
  have lock: "k_tag_lock ?s \<noteq> []" "k_tag_lock ?s ! 0 = read_locked 0" "(k_tag_lock ?s)[0 := read_locked 0] = k_tag_lock ?s"
    using stage_lengths [OF st] by (simp_all add: scene_def)
  have call: "tag_ctl 0 TAG_DELETE euid ?s = do {
      (r, s) \<leftarrow> clear_tag_common (tg_key tg) (int 0) ?t;
      if r \<noteq> 0 then Some (- EINTR, s\<lparr>k_tags := (k_tags s)[0 := Some te]\<rparr>)
      else do { s \<leftarrow> clear_tag_level (tg_tag_level tg) s; s \<leftarrow> kfree_tag te s; Some (1, s) } }"
    by (simp add: lock S(1,2,5,10) tg tag_ctl_def tag_ctl_delete_def tag_lock_op_def MAX_TAGS_def tag_consts
        cong: if_cong)
  have "reg_ok ?t" "linked ?t (tg_key tg) 0" "k_common_lock ?t = read_locked 0"
    using reg by (simp_all add: reg_ok_def linked_def scene_def)
  then show thesis
  proof (rule clear_tag_common_result)
    assume "False \<in> set (k_signal ?t)"
    then show thesis using st by (simp add: stage_def scene_def)
  next
    fix g bm t
    let ?u = "?t\<lparr>k_signal := g, k_tag_table := t, k_tag_bitmask := bm\<rparr>"
    assume h: "clear_tag_common (tg_key tg) (int 0) ?t = Some (0, ?u)"
    have live: "k_level_heap ?u p \<noteq> None" if "p \<in> pointers (tg_tag_level tg)" for p
      using ptr(2) that st by (auto simp: scene_def stage_def)
    have "lp \<in> pointers (tg_tag_level tg)"
      using ptr(3) stage_lengths(2) [OF st] by (auto simp: pointers_def) (metis nth_mem)
    then have "tag_ctl 0 TAG_DELETE euid ?s = Some (1, ?u\<lparr>k_level_heap := (k_level_heap ?u) |` (- pointers (tg_tag_level tg)),
        k_tag_heap := (k_tag_heap ?u)(te := None)\<rparr>)" "lp \<notin> - pointers (tg_tag_level tg)"
      using h clear_tag_level_eq [OF ptr(1) live] S(2) by (simp_all add: call kfree_tag_def)
    then show thesis by (intro that) (assumption, simp add: restrict_map_def)
  qed
qed

section \<open>The runs\<close>

lemma faulty_scene:
  obtains k te tg lp lv where "stage k te tg lp" "tl_rcu_lock lv = read_locked 1" "tl_waiting lv = 1"
    "tl_local_wq lv = []" "tl_epoch lv = 0" "tl_w_mutex lv"
    "reg_ok k" "linked k (tg_key tg) 0" "k_common_lock k = read_locked 0" "tg_tag_key tg = 0"
    "distinct (filter (\<lambda>x. x \<noteq> None) (tg_tag_level tg))" "\<forall>p\<in>pointers (tg_tag_level tg). k_level_heap k p \<noteq> None"
    "tg_tag_level tg ! 3 = Some lp"
    "fine_reachable (scene k te tg lp 1 1 0 lp (read_locked 0) (Some lv) None)
      [7 \<mapsto> Waiting (ex_receiver te lp), 8 \<mapsto> Finish [Up_Mutex lp] (- EFAULT) []]"
proof -
  obtain k te tg lp lv where k: "stage k te tg lp" "tl_ready lv = 0" "tl_rcu_lock lv = read_locked 1" "tl_waiting lv = 1"
      "tl_local_wq lv = []" "tl_epoch lv = 0" "\<not> tl_w_mutex lv"
    and P: "fine_reachable (scene k te tg lp 1 1 0 lp (read_locked 0) (Some lv) None) [7 \<mapsto> Waiting (ex_receiver te lp)]"
    and reg: "reg_ok k" "linked k (tg_key tg) 0" "k_common_lock k = read_locked 0" "tg_tag_key tg = 0"
      "distinct (filter (\<lambda>x. x \<noteq> None) (tg_tag_level tg))" "\<forall>p\<in>pointers (tg_tag_level tg). k_level_heap k p \<noteq> None"
      "tg_tag_level tg ! 3 = Some lp"
    by (rule first_scene)
  let ?send = "Sending (Send_Lock (dispatch_of 0 3 (Some []) 1 0))"
  have start: "fine_reachable (scene k te tg lp 1 1 0 lp (read_locked 0) (Some lv) None)
      [7 \<mapsto> Waiting (ex_receiver te lp), 8 \<mapsto> ?send]"
    using P by (intro fine_reachable.step [OF _ fine_step.start_send])
      (simp_all add: bad_message_args_def MAX_TAGS_def LEVELS_def BUFFER_SIZE_def)
  from run_reachable [OF faulty_send [OF k(1,3,2,4,7)] start] k reg show thesis
    by (intro that [of k te tg lp "lv\<lparr>tl_w_mutex := True, tl_buffer := 0 # drop 1 (tl_buffer lv)\<rparr>"]) simp_all
qed

text \<open>
  C12. A sender whose copy from user space fails releases the mutex of the level after the locks that keep the
  level: there is a run in which \<open>tag_send\<close> is about to release the mutex and to return -EFAULT, the only
  receiver has left, \<open>DELETE\<close> of the tag succeeds, and the level of the mutex is freed; the release is then an
  access to freed memory.
\<close>

theorem mutex_released_after_free:
  "\<exists>k P lp. fine_reachable k P \<and> P 8 = Some (Finish [Up_Mutex lp] (- EFAULT) []) \<and> k_level_heap k lp = None \<and>
     micro 8 (Finish [Up_Mutex lp] (- EFAULT) []) k = None"
proof -
  obtain k te tg lp lv where k: "stage k te tg lp" "tl_rcu_lock lv = read_locked 1" "tl_waiting lv = 1"
      "tl_local_wq lv = []" "tl_epoch lv = 0" "tl_w_mutex lv"
    and reg: "reg_ok k" "linked k (tg_key tg) 0" "k_common_lock k = read_locked 0" "tg_tag_key tg = 0"
      "distinct (filter (\<lambda>x. x \<noteq> None) (tg_tag_level tg))" "\<forall>p\<in>pointers (tg_tag_level tg). k_level_heap k p \<noteq> None"
      "tg_tag_level tg ! 3 = Some lp"
    and P: "fine_reachable (scene k te tg lp 1 1 0 lp (read_locked 0) (Some lv) None)
      [7 \<mapsto> Waiting (ex_receiver te lp), 8 \<mapsto> Finish [Up_Mutex lp] (- EFAULT) []]"
    by (rule faulty_scene)
  let ?c = "ex_receiver te lp" and ?last = "Finish [Up_Mutex lp] (- EFAULT) []"
    and ?s = "scene k te tg lp 1 1 0 lp (read_locked 0) (Some lv) None"
  let ?lv = "lv\<lparr>tl_rcu_lock := read_locked 0, tl_waiting := 0, tl_ready := 0, tl_size := 0\<rparr>"
  let ?t = "scene k te tg lp 0 0 0 lp (read_locked 0) (Some ?lv) None"
  have leave: "fine_reachable ?s ([7 \<mapsto> Waiting ?c, 8 \<mapsto> ?last](7 \<mapsto> Leave_Queue False ?c))"
    by (rule fine_reachable.step [OF P fine_step.signal]) simp
  from run_reachable [OF leaving_run [OF k(1-5)] this]
  have left: "fine_reachable ?t [8 \<mapsto> ?last, 7 \<mapsto> Finish [] 0 []]" by (simp add: fun_upd_twist)
  obtain k' where k': "tag_ctl 0 TAG_DELETE 0 ?t = Some (1, k')" "k_level_heap k' lp = None"
    using delete_run [OF k(1) reg] by auto
  have "fine_reachable k' [8 \<mapsto> ?last, 7 \<mapsto> Finish [] 0 []]" by (rule fine_reachable.step [OF left fine_step.ctl [OF k'(1)]])
  moreover have "micro 8 ?last k' = None" using k'(2) by (simp add: set_w_mutex_def update_level_def)
  ultimately show ?thesis using k'(2) by (intro exI conjI) (assumption, simp_all)
qed

end
