(* ===== verification/Level_Safety.thy ===== *)
theory Level_Safety
  imports Level_Locks Send_Races
begin

text \<open>
  The properties of the levels in every interleaving of single steps, each with a reachable state in
  which it speaks of threads that are there, and a run that does not end.
\<close>

section \<open>A level with a message and a receiver\<close>

lemma reader_scene:
  obtains k P te lp lv where "fine_reachable k P" "k_level_heap k lp = Some lv" "tl_ready lv = 1"
    "P 8 = Some (Waiting (ex_receiver te lp))" "having reads P lp = {8}" "having writes P lp = {}"
    "having mutex P lp = {}"
proof -
  obtain k te tg lp lv new where k: "stage k te tg lp" "tl_ready lv = 1"
    and P: "fine_reachable (scene k te tg lp 3 3 0 (k_next k) (read_locked 0) (Some lv) (Some new))
      [7 \<mapsto> Try_Lock 0 [] (ex_receiver te lp), 8 \<mapsto> Waiting (ex_receiver te lp),
       9 \<mapsto> Waiting (ex_receiver te (k_next k))]"
    by (rule race_start)
  have "k_next k \<noteq> lp" using stage_lengths [OF k(1)] by simp
  then show thesis
    by (intro that [OF P scene_fields(3) [OF k(1)] k(2), of te])
      (auto simp: having_def ex_receiver_def split: if_splits)
qed

section \<open>Locks\<close>

text \<open>
  C7. \<open>rcu_lock\<close> is exact and exclusive in every interleaving of single steps of \<open>tag_receive\<close> and \<open>tag_send\<close>:
  as long as a level exists, the readers its lock counts are the threads between their acquisition of it and
  their release, its write bit is set if and only if a last receiver holds it, there is at most one such
  receiver, and then no reader.
\<close>

theorem level_locks_exact:
  assumes "fine_reachable k P" and "k_level_heap k a = Some lv"
  shows "tl_rcu_lock lv = \<lparr>rw_readers = card (having reads P a), rw_writer = (having writes P a \<noteq> {})\<rparr> \<and>
    card (having writes P a) \<le> 1 \<and> (having writes P a = {} \<or> having reads P a = {})"
proof -
  have acc: "accounts (having reads P a) (having writes P a) (having mutex P a) (locks_of lv)"
    by (rule level_invD(6) [OF fine_reachable_levels [OF assms(1)] assms(2)])
  have "card (having writes P a) \<le> 1"
  proof (cases "having writes P a = {}")
    case False
    then obtain t where "having writes P a = {t}" using acc by (auto simp: accounts_def)
    then show ?thesis by simp
  qed simp
  then show ?thesis using acc by (auto simp: accounts_def locks_of_def intro: rwsem.equality)
qed

theorem level_locks_exact_witness:
  "\<exists>k P a lv. fine_reachable k P \<and> k_level_heap k a = Some lv \<and> tl_rcu_lock lv = \<lparr>rw_readers = 1, rw_writer = False\<rparr>"
proof -
  obtain k P te lp lv where k: "fine_reachable k P" "k_level_heap k lp = Some lv" "tl_ready lv = 1"
    "P 8 = Some (Waiting (ex_receiver te lp))" "having reads P lp = {8}" "having writes P lp = {}"
    by (rule reader_scene)
  from level_locks_exact [OF k(1,2)] have "tl_rcu_lock lv = \<lparr>rw_readers = 1, rw_writer = False\<rparr>"
    using k(5,6) by simp
  with k(1,2) show ?thesis by blast
qed

text \<open>
  C6. Senders exclude each other: in every interleaving of single steps, \<open>w_mutex\<close> of a level that exists is
  locked if and only if exactly one thread is between its successful \<open>mutex_trylock\<close> and its
  \<open>mutex_unlock\<close>, and free if and only if none is; no path of \<open>tag_send\<close> leaves it locked.
\<close>

theorem send_exclusive:
  assumes "fine_reachable k P" and "k_level_heap k a = Some lv"
  shows "card {t. \<exists>p. P t = Some p \<and> mutex p = Some a} = (if tl_w_mutex lv then 1 else 0)"
  using level_invD(6) [OF fine_reachable_levels [OF assms(1)] assms(2)]
  by (simp add: accounts_def having_def locks_of_def)

theorem send_exclusive_witness:
  "\<exists>k P a lv. fine_reachable k P \<and> k_level_heap k a = Some lv \<and> tl_w_mutex lv \<and>
    card {t. \<exists>p. P t = Some p \<and> mutex p = Some a} = 1"
proof -
  obtain k te tg lp lv where k: "stage k te tg lp" "tl_w_mutex lv"
    and P: "fine_reachable (scene k te tg lp 1 1 0 lp (read_locked 0) (Some lv) None)
      [7 \<mapsto> Waiting (ex_receiver te lp), 8 \<mapsto> Finish [Up_Mutex lp] (- EFAULT) []]"
    by (rule faulty_scene)
  from send_exclusive [OF P scene_fields(3) [OF k(1)]] have "card {t :: tid. \<exists>p. ([7 \<mapsto> Waiting (ex_receiver te lp),
      8 \<mapsto> Finish [Up_Mutex lp] (- EFAULT) []]) t = Some p \<and> mutex p = Some lp} = 1"
    by (simp only: k(2) if_True)
  with P scene_fields(3) [OF k(1)] k(2) show ?thesis by blast
qed

section \<open>Messages\<close>

text \<open>The runs during which a thread holds \<open>rcu_lock\<close> of a level to read.\<close>

inductive reading_run :: "tid \<Rightarrow> addr \<Rightarrow> kernel \<Rightarrow> threads \<Rightarrow> kernel \<Rightarrow> threads \<Rightarrow> bool" for t a k P where
  start: "P t = Some p \<Longrightarrow> reads p = Some a \<Longrightarrow> reading_run t a k P k P"
| step: "reading_run t a k P k1 P1 \<Longrightarrow> fine_step k1 P1 k2 P2 \<Longrightarrow> P2 t = Some p \<Longrightarrow> reads p = Some a \<Longrightarrow>
    reading_run t a k P k2 P2"

lemma reading_run_reads: "reading_run t a k P k1 P1 \<Longrightarrow> t \<in> having reads P1 a"
  by (erule reading_run.cases) (auto simp: having_def)

lemma reading_run_reachable: "reading_run t a k P k1 P1 \<Longrightarrow> fine_reachable k P \<Longrightarrow> fine_reachable k1 P1"
  by (induction rule: reading_run.induct) (auto intro: fine_reachable.step)

lemma fine_step_next:
  assumes "level_inv k P" and "fine_step k P k' P'"
  shows "k_next k \<le> k_next k'"
  using assms(2)
proof (cases rule: fine_step_kinds)
  case (own t p p')
  then show ?thesis using hold_change_next micro_hold level_invD(3) [OF assms(1)] by blast
qed (simp add: calm_iff)

lemma reading_run_next: "reading_run t a k P k1 P1 \<Longrightarrow> fine_reachable k P \<Longrightarrow> k_next k \<le> k_next k1"
proof (induction rule: reading_run.induct)
  case (step k1 P1 k2 P2 p)
  have "k_next k1 \<le> k_next k2"
    by (rule fine_step_next [OF fine_reachable_levels [OF reading_run_reachable [OF step.hyps(1) step.prems]] step.hyps(2)])
  then show ?case using step.IH [OF step.prems] by simp
qed simp

text \<open>
  C5. A message reaches every receiver that is on the level when it is published: from any reachable state
  in which a level carries a message, through any number of single steps of any threads, as long as
  one thread keeps the level locked to read, from its arrival to the end of its copy, that thread finds the same
  message, complete and unchanged, if the level still exists.
\<close>

theorem message_kept_for_reader:
  assumes "fine_reachable k P" and "k_level_heap k a = Some lv" "tl_ready lv = 1"
    and "reading_run t a k P k' P'" and "k_level_heap k' a = Some lv'"
  shows "text_of lv' = text_of lv"
  using assms(4,5)
proof (induction arbitrary: lv' rule: reading_run.induct)
  case start
  then show ?case using assms(2) by simp
next
  case (step k1 P1 k2 P2 p)
  note inv = fine_reachable_levels [OF reading_run_reachable [OF step.hyps(1) assms(1)]]
  have "k_next k \<le> k_next k1" by (rule reading_run_next [OF step.hyps(1) assms(1)])
  then have below: "a < k_next k1" using level_invD(2) [OF fine_reachable_levels [OF assms(1)] assms(2)] by simp
  obtain lv1 where lv1: "k_level_heap k1 a = Some lv1" using level_gone [OF inv step.hyps(2) below step.prems] by blast
  have same: "text_of lv1 = text_of lv" by (rule step.IH [OF lv1])
  then have "tl_ready lv1 = 1" using assms(3) by (simp add: text_of_def)
  from published_step [OF inv lv1 this step.hyps(2) step.prems] reading_run_reads [OF step.hyps(1)] same
  show ?case by auto
qed

theorem message_kept_for_reader_witness:
  "\<exists>k P k' P' lp lv lv'. fine_reachable k P \<and> reading_run 8 lp k P k' P' \<and> k_level_heap k lp = Some lv \<and> tl_ready lv = 1 \<and>
    k_level_heap k' lp = Some lv' \<and> text_of lv' = text_of lv"
proof -
  obtain k P te lp lv where k: "fine_reachable k P" "k_level_heap k lp = Some lv" "tl_ready lv = 1"
    "P 8 = Some (Waiting (ex_receiver te lp))"
    by (rule reader_scene)
  have "fine_step k P k (P(8 \<mapsto> Leave_Queue False (ex_receiver te lp)))" by (rule fine_step.signal) (rule k(4))
  then have run: "reading_run 8 lp k P k (P(8 \<mapsto> Leave_Queue False (ex_receiver te lp)))"
    by (intro reading_run.step [OF reading_run.start [where P = P, OF k(4)]]) (auto simp: ex_receiver_def)
  from message_kept_for_reader [OF k(1-3) run k(2)] k(1-3) run show ?thesis by (intro exI conjI)
qed

section \<open>A last receiver that spins\<close>

lemma reader_blocks_writer:
  assumes "fine_reachable k P" and "t \<in> having reads P a"
  shows "rcu_lock_op down_write a k = None"
proof (cases "k_level_heap k a")
  case None
  then show ?thesis by (simp add: rcu_lock_op_def)
next
  case (Some lv)
  note inv = level_invD [OF fine_reachable_levels [OF assms(1)]]
  have "card (having reads P a) \<noteq> 0" using assms(2) having_finite [OF inv(1)] by auto
  then show ?thesis using inv(6) [OF Some] Some by (simp add: accounts_def locks_of_def rcu_lock_op_def down_write_def)
qed

text \<open>
  C13. A last receiver can spin without bound. There is a reachable state in which thread 7 has found itself
  the last receiver of a level and tries to lock it, thread 8 sleeps on the level without a message, and
  in every state of every run in which thread 8 has not left, the attempt of thread 7 fails; all that time thread
  7 holds the lock of the tag.
\<close>

theorem last_receiver_spins:
  "\<exists>k P c. fine_reachable k P \<and> P 7 = Some (Try_Lock 0 [] c) \<and> P 8 = Some (Waiting c) \<and> asleep k 8 c \<and>
     wait_condition c k = Some False \<and> tag_of (Try_Lock 0 [] c) = Some 0 \<and>
     {k'. \<exists>P'. reading_run 8 (rc_lp c) k P k' P'} \<subseteq> {k'. micro 7 (Try_Lock 0 [] c) k' = None}"
proof -
  obtain k te tg lp lv where k: "stage k te tg lp" "tl_ready lv = 0" "tl_local_wq lv = []"
    and P: "fine_reachable (scene k te tg lp 2 2 0 lp (read_locked 0) (Some lv) None)
      [7 \<mapsto> Try_Lock 0 [] (ex_receiver te lp), 8 \<mapsto> Waiting (ex_receiver te lp)]" (is "fine_reachable _ ?P")
    by (rule late_scene)
  note S = scene_simps [OF k(1)]
  let ?c = "ex_receiver te lp" and ?s = "\<lambda>lv. scene k te tg lp 2 2 0 lp (read_locked 0) (Some lv) None"
  let ?lv = "lv\<lparr>tl_local_wq := [8]\<rparr>"
  have c: "rc_lp ?c = lp" "rc_entry ?c = te" "rc_level ?c = 3" "rc_tag ?c = 0" by (simp_all add: ex_receiver_def)
  have "wait_condition ?c (?s lv) = Some False" "receive_sleep 8 ?c (?s lv) = Some (?s ?lv)"
    using k(2,3) by (simp_all add: wait_condition_def receive_sleep_def S c)
  then have reach: "fine_reachable (?s ?lv) ?P"
    by (intro fine_reachable.step [OF P fine_step.sleep [where t = 8]]) simp_all
  have stuck: "micro 7 (Try_Lock 0 [] ?c) k' = None" if "reading_run 8 (rc_lp ?c) (?s ?lv) ?P k' P'" for k' P'
    using reader_blocks_writer [OF reading_run_reachable [OF that reach] reading_run_reads [OF that]] by simp
  have "asleep (?s ?lv) 8 ?c" "wait_condition ?c (?s ?lv) = Some False"
    using k(2) by (simp_all add: asleep_def wait_condition_def S c)
  with reach stuck c(4) show ?thesis by (intro exI [of _ "?s ?lv"] exI [of _ ?P] exI [of _ ?c] conjI) auto
qed

end
