(* ===== verification/Spec2Isabelle.thy ===== *)
theory Spec2Isabelle
  imports Wake_Properties System_Properties Service_Properties Module_Properties Device_Properties
    Tag_Print Self_Test_Hash Level_Safety
begin

text \<open>
  TAG-AOS: two loadable modules of a Linux kernel. The module of \<open>src/syscall-table-disc\<close> (SCTH) finds
  the system call table of the running kernel and lets other modules put calls into its free
  entries. The module of \<open>src/tag-module\<close> (TAG-MOD) installs four calls with it: \<open>tag_get\<close> makes or
  opens a tag, \<open>tag_send\<close> delivers a message to the threads that wait on one of the 32 levels of a
  tag, \<open>tag_receive\<close> waits for a message, \<open>tag_ctl\<close> wakes all receivers of a tag or deletes it. A
  character device shows the tags. The tags are found by descriptor (an array of 256 pointers); the
  free descriptors are kept in a bitmask (\<open>src/utils/bitmask\<close>), the public keys in a hash map
  (\<open>src/utils/hash-struct\<close>). This development models both modules and the two data structures, and
  proves what makes them correct.

  The theories, from the bottom up.

  \<^item> \<open>Tag_Prelude\<close>: integer types, error numbers, outcomes of the allocator, facts on words, lists and
    positions on a circular array. \<open>C_Text\<close>: strings and the conversions of \<open>sprintf\<close>.
    \<open>Tag_Interfaces\<close>: the interfaces \<open>id_pool\<close> (what the service needs of the bitmask), \<open>key_map\<close> (of
    the hash map) and \<open>registry\<close> (the two together), each with the lemmas of its client.
  \<^item> \<open>Bitmask\<close>: \<open>utils/bitmask/bitmask.c\<close>. The abstraction of the words is the set of numbers in use.
    \<open>Hashmap\<close>, \<open>Robin_Hood\<close>, \<open>Hashmap_Ops\<close>: \<open>utils/hash-struct/hashmap.c\<close>, its operations, the
    invariant of the probing loops, and the operations against a finite map, with their
    termination. \<open>Sip_Hash\<close>: the two hash functions of that file, and SipHash-2-4 as it is specified,
    to which the code is equal on all inputs. \<open>Registry_Properties\<close> states the properties. The interfaces are interpreted on these operations.
  \<^item> \<open>Tag_Table\<close>, \<open>Tag_State\<close>, \<open>Tag_Handlers\<close>: \<open>tag-module/tag-struct.h\<close> and
    \<open>tag-module/tag-syscall.c\<close>. The record \<open>kernel\<close> has a field for each global variable (\<open>tag_table\<close>,
    \<open>tag_bitmask\<close>, \<open>tags\<close>, \<open>common_lock\<close>, \<open>tag_lock\<close>), a heap of tags and one of levels, and the
    choices of the environment. Each system call is a definition with every branch of the code, its
    early returns and the calls on locks included. \<open>Tag_Print\<close>: the debug output of the calls.
  \<^item> \<open>Tag_Invariant\<close>, \<open>Tag_Common\<close>, \<open>Tag_Levels\<close>, \<open>Tag_Send\<close>, \<open>Tag_Receive\<close>, \<open>Tag_Get\<close>, \<open>Tag_Ctl\<close>: the
    invariant of the service and, for each call, what it does in a state of the invariant, on every
    branch, and that it keeps the invariant.
  \<^item> \<open>Syscall_Table\<close>: the files of \<open>syscall-table-disc\<close>: the page table walk (\<open>ptexplorer\<close>), the
    control registers (\<open>arch-common\<close>), the search of the table, insertion and cleaning
    (\<open>scth_discovery.c\<close>). \<open>Tag_Module\<close>: \<open>tag-module/tag-module.c\<close> and the installation of the calls.
    \<open>Tag_Device\<close>: \<open>tag-module/tag-dev-driver.c\<close>. \<open>Self_Test\<close>, \<open>Self_Test_Hash\<close>: the self test in
    \<open>syscall-table-disc/scth_module.c\<close>, as programs over the bitmask and the hash map.
  \<^item> \<open>Tag_System\<close>: the service as a transition system with its reachable states; \<open>Tag_Examples\<close>: the
    small reachable states used in instances. \<open>Receive_Steps\<close>, \<open>Receive_Interleaving\<close>:
    \<open>tag_receive\<close> and \<open>tag_send\<close> in single steps; \<open>Receive_Safety\<close> (tags), \<open>Level_Locks\<close> and \<open>Level_Safety\<close>
    (levels): what holds in every interleaving of them; \<open>Receive_Races\<close> and \<open>Send_Races\<close>: runs in which they
    go wrong. The other properties are in \<open>Message_Properties\<close> (delivery and stability of messages), \<open>Wake_Properties\<close> (\<open>AWAKE_ALL\<close>, permissions, epochs),
    \<open>System_Properties\<close> (invariant, termination, refinement), \<open>Service_Properties\<close> (creation and
    deletion), \<open>Module_Properties\<close> (loading, unloading, the table) and \<open>Device_Properties\<close>.

  What a result means. A definition of code that can fault returns an option; \<open>None\<close> is a thread
  that cannot go on: it follows a null or stale pointer, frees an object twice, releases a lock that
  it does not hold, waits for a lock that another thread holds while no other thread runs, or does
  not leave a loop. Loops that the code leaves by data only (the probing loops of the hash map) are
  partial functions with \<open>None\<close> for "does not return"; that they return is proved
  (\<open>hashmap_get_finds\<close> and its neighbours), and \<open>calls_return\<close> is the same for every call of the
  service made in a reachable state of \<open>Tag_System\<close>. No definition has fuel.

  The environment. Whether an allocation succeeds, whether an interruptible acquisition of a lock is
  interrupted and how many bytes of a transfer to or from user space fail is decided by lists of
  outcomes in the state (\<open>k_alloc\<close>, \<open>k_signal\<close>, \<open>k_copy\<close>); an empty list is success from then on. The
  properties hold for all of them, unless they say otherwise. Physical memory is a function from
  addresses to bytes, with the unmapped pages left out; the control registers are words.

  Interleaving. \<open>tag_receive\<close> blocks inside its handler and is in three parts: entry up to the
  registration on a level, the test of the condition with the step to the wait queue, and the way
  out. These parts and the other calls, each as a whole, are the steps that \<open>Tag_System\<close> interleaves,
  for any number of threads. \<open>Receive_Steps\<close> takes \<open>tag_receive\<close> and \<open>tag_send\<close> apart further, into one step
  for each call on a lock or an atomic counter and one for what the code does with shared memory between two
  of them, and \<open>Receive_Interleaving\<close> interleaves these steps of any number of threads with whole calls of
  \<open>tag_get\<close> and \<open>tag_ctl\<close>, which are not taken apart. A thread that runs alone behaves in both ways the same
  (\<open>parts_alone\<close>), so the runs of \<open>Tag_System\<close> are among the fine ones.

  Three things hold in all the fine runs. The tag of a thread inside \<open>tag_receive\<close> or \<open>tag_send\<close> stays in
  place (\<open>Receive_Safety\<close>): the code holds \<open>tag_lock\<close> for reading all the way. As long as a level exists, its
  locks exclude what they should: \<open>rcu_lock\<close> and \<open>w_mutex\<close> count exactly the threads that hold them
  (\<open>Level_Locks\<close>). And a published message stays complete and unchanged until every thread that keeps
  the level locked to read has left it (\<open>message_kept_for_reader\<close>). That a level exists does not hold in all of
  them: \<open>Receive_Races\<close> has a run in which a level is freed under a receiver, and one in which \<open>AWAKE_ALL\<close> is lost,
  because the last receiver acts on a counter that it has seen at 0 after others have entered; \<open>Send_Races\<close>
  has one in which a level is freed before a failed sender releases its mutex, and \<open>Level_Safety\<close> one in
  which a last receiver spins for as long as another receiver sleeps. So the return of every
  call (\<open>calls_return\<close>), the delivery of messages (\<open>message_delivered\<close>), the wake-ups (\<open>awake_all_wakes\<close>) and the
  invariant of the service are properties of \<open>Tag_System\<close>; they do not survive the finer steps as they
  stand. \<open>AWAKE_ALL\<close>, \<open>DELETE\<close> and \<open>tag_get\<close> are one step in both systems, so what could happen between
  their own accesses (\<open>AWAKE_ALL\<close> tests the counter and sets the flag under a lock held to read only) is not
  seen. The loop \<open>while (!down_write_trylock)\<close> of the last receiver is a step that waits.

  Bounds. An epoch is an \<open>int\<close> that counts up; \<open>epochs_left\<close> excludes its overflow after \<open>2 ^ 31 - 1\<close>
  epochs of one level. Counters of threads are unbounded. A key is an \<open>int\<close>. The hash map may grow up to
  \<open>2 ^ 15\<close> buckets; beyond that the distance of a bucket could leave its 16 bits. The service never
  grows its map (\<open>registration_never_fails\<close>).

  What the groups of lemmas show. The bitmask is a pool of numbers that gives the least free one. The
  hash map is a finite map under every operation, also when memory for a new array is refused. The
  service keeps its invariant: counters and reader counts agree with the threads inside
  \<open>tag_receive\<close>, no level is shared, the registry agrees with the tags. From it follow the
  delivery of a message to every receiver registered, the return of every call, the refinement of a
  directory of tags, and the effects of creation and deletion on every branch, interruptions and failed
  allocations included. A read of the device and the loading of the module are described in every environment,
  failures included. For the places where
  the code does not do what it means to, a theorem exhibits the run.

  Not modelled. The text of the kernel log. The release of the memory of a bitmask and of a hash map
  (\<open>free_bitmask\<close>, \<open>hashmap_free\<close>), which are values here and have no address. Declarations, include
  files without code, parameters of the modules, the arithmetic on sizes of allocations (the product
  in \<open>hashmap_new_with_allocator\<close>, the size of the buffer of \<open>dev_read\<close>, which is a list here) and the measurement of time. The user programs under
  \<open>src/test\<close>.
\<close>

end
